(* ===== verification/Fiss_Prelude.thy ===== *)
theory Fiss_Prelude
  imports Main "HOL-Library.Word"
begin

text \<open>
  Shared base of the development: the machine integer types of the C and C++ sources, the
  outcomes that stand for an aborted or undefined execution, the named collections the
  component proofs use, and generic lemmas on lists, maps and words.
\<close>

unbundle bit_operations_syntax

section \<open>Machine integers and failed executions\<close>

type_synonym u8 = "8 word"
type_synonym u16 = "16 word"
type_synonym u32 = "32 word"
type_synonym u64 = "64 word"

text \<open>
  The ways in which an operation of the sources does not return normally: a failed
  \<open>ASSERT\<close> of a debug build, the \<open>ERROR\<close> macro (which calls \<open>exit(1)\<close>), the use of
  an iterator or pointer that does not exist, and an access outside a buffer.
\<close>

datatype fl_error =
    Assertion_failed
  | Error_exit
  | Invalid_pointer
  | Out_of_bounds

section \<open>Named collections\<close>

named_theorems word_codec \<open>encodings of several fields into one machine word\<close>
named_theorems lock_defs \<open>definitions of the host lock operations\<close>
named_theorems par_defs \<open>definitions of the ParLock queue operations\<close>
named_theorems net_defs \<open>definitions of the NetLock queue operations\<close>
named_theorems ghost_defs \<open>definitions of the abstract reader-writer lock\<close>

section \<open>Lists\<close>

text \<open>
  A C++ loop that erases the first element with a property and stops: the list without
  that element, and the position of the element if there is one.
\<close>

fun erase_first :: "('a \<Rightarrow> bool) \<Rightarrow> 'a list \<Rightarrow> 'a list" where
  "erase_first p [] = []"
| "erase_first p (x # xs) = (if p x then xs else x # erase_first p xs)"

fun index_first :: "('a \<Rightarrow> bool) \<Rightarrow> 'a list \<Rightarrow> nat option" where
  "index_first p [] = None"
| "index_first p (x # xs) = (if p x then Some 0 else map_option Suc (index_first p xs))"

lemma index_first_None [simp]: "index_first p xs = None \<longleftrightarrow> (\<forall>x \<in> set xs. \<not> p x)"
  by (induction xs) auto

lemma index_first_Some: "index_first p xs = Some i \<Longrightarrow> \<exists>x \<in> set xs. p x"
  using index_first_None [of p xs] by auto

lemma erase_first_none [simp]: "(\<forall>x \<in> set xs. \<not> p x) \<Longrightarrow> erase_first p xs = xs"
  by (induction xs) auto

lemma erase_first_cong:
  "(\<And>x. x \<in> set xs \<Longrightarrow> p x = p' x) \<Longrightarrow> erase_first p xs = erase_first p' xs"
  by (induction xs) auto

lemma set_erase_first_subset: "set (erase_first p xs) \<subseteq> set xs"
  by (induction xs) auto

lemma erase_first_in: "x \<in> set (erase_first p xs) \<Longrightarrow> x \<in> set xs"
  using set_erase_first_subset by fastforce

lemma length_erase_first:
  "length (erase_first p xs) = length xs - (if \<exists>x \<in> set xs. p x then 1 else 0)"
proof (induction xs)
  case Nil
  then show ?case by simp
next
  case (Cons x xs)
  then show ?case by (cases xs) auto
qed

text \<open>
  When the elements have pairwise different keys, erasing the first element with a key is
  erasing every element with that key.
\<close>

lemma erase_first_key:
  "distinct (map f xs) \<Longrightarrow> erase_first (\<lambda>x. f x = k) xs = filter (\<lambda>x. f x \<noteq> k) xs"
proof (induction xs)
  case Nil
  then show ?case by simp
next
  case (Cons x xs)
  show ?case
  proof (cases "f x = k")
    case True
    with Cons.prems have "\<forall>y \<in> set xs. f y \<noteq> k" by (auto simp: image_iff)
    with True show ?thesis by simp
  next
    case False
    with Cons show ?thesis by simp
  qed
qed

lemma distinct_map_filter_key: "distinct (map f xs) \<Longrightarrow> distinct (map f (filter p xs))"
  by (induction xs) auto

lemma image_filter_neq:
  "f ` set (filter (\<lambda>x. f x \<noteq> k) xs) = f ` set xs - {k}"
  by auto

lemma take_all_le [simp]: "n = length xs \<Longrightarrow> take n xs = xs"
  by simp

section \<open>Maps and sets\<close>

lemma dom_map_upd_None [simp]: "dom (m(k := None)) = dom m - {k}"
  by auto

lemma finite_dom_upd [simp]: "finite (dom (m(k := v))) \<longleftrightarrow> finite (dom m)"
proof -
  have "dom (m(k := v)) \<subseteq> insert k (dom m)" and "dom m \<subseteq> insert k (dom (m(k := v)))"
    by (auto simp: dom_def split: if_splits)
  then show ?thesis by (meson finite.insertI finite_subset)
qed

lemma card_one_iff_singleton: "card A = Suc 0 \<longleftrightarrow> (\<exists>a. A = {a})"
  by (rule card_1_singleton_iff)

text \<open>\<open>unordered_map::insert\<close> keeps an entry that is already there.\<close>

definition map_insert :: "('k \<rightharpoonup> 'v) \<Rightarrow> 'k \<Rightarrow> 'v \<Rightarrow> 'k \<rightharpoonup> 'v" where
  "map_insert m k v = (case m k of None \<Rightarrow> m(k \<mapsto> v) | Some _ \<Rightarrow> m)"

lemma map_insert_SomeD: "map_insert m x y z = Some e \<Longrightarrow> m z = Some e \<or> z = x \<and> e = y"
  by (auto simp: map_insert_def split: option.splits if_splits)

section \<open>Words\<close>

lemma ucast_down_up_id:
  fixes x :: "'a::len word"
  assumes "unat x < 2 ^ LENGTH('b)"
  shows "(ucast (ucast x :: 'b::len word) :: 'a word) = x"
proof -
  have 1: "unat (ucast x :: 'b word) = unat x"
    using assms by (simp add: unsigned_ucast_eq take_bit_nat_eq_self)
  have "unat (ucast (ucast x :: 'b word) :: 'a word)
      = take_bit LENGTH('a) (unat (ucast x :: 'b word))"
    by (rule unsigned_ucast_eq)
  also have "\<dots> = unat x"
    unfolding 1 by (rule take_bit_nat_eq_self [OF unsigned_less])
  finally show ?thesis by (simp only: word_unat_eq_iff)
qed

text \<open>Two 32-bit values packed into one 64-bit word, as the request handles of the baselines are.\<close>

lemma bit_or_pair:
  fixes l r :: u32
  shows "bit (push_bit 32 (ucast l :: u64) OR ucast r) n \<longleftrightarrow> (if n < 32 then bit r n else n < 64 \<and> bit l (n - 32))"
  by (auto simp: bit_simps dest: bit_imp_le_length)

lemma bit_low_mask: "bit (0xffffffff :: u64) n \<longleftrightarrow> n < 32"
proof -
  have "(0xffffffff :: u64) = mask 32" by (simp add: mask_eq_exp_minus_1)
  then show ?thesis by (simp only: bit_mask_iff) auto
qed

lemma or_pair_decode:
  fixes l r :: u32
  defines "w \<equiv> push_bit 32 (ucast l :: u64) OR ucast r"
  shows "(ucast (drop_bit 32 w AND 0xffffffff) :: u32) = l" "(ucast (w AND 0xffffffff) :: u32) = r"
proof -
  show "(ucast (drop_bit 32 w AND 0xffffffff) :: u32) = l"
  proof (rule bit_word_eqI)
    fix n assume "n < LENGTH(32)"
    then have n: "n < 32" by simp
    have "bit (drop_bit 32 w AND 0xffffffff) n \<longleftrightarrow> bit w (32 + n) \<and> n < 32"
      by (simp only: bit_and_iff bit_drop_bit_eq comp_def bit_low_mask)
    with n show "bit (ucast (drop_bit 32 w AND 0xffffffff) :: u32) n = bit l n"
      by (simp only: bit_ucast_iff bit_or_pair w_def) simp
  qed
  show "(ucast (w AND 0xffffffff) :: u32) = r"
  proof (rule bit_word_eqI)
    fix n assume "n < LENGTH(32)"
    then show "bit (ucast (w AND 0xffffffff) :: u32) n = bit r n"
      by (simp only: bit_ucast_iff bit_and_iff bit_low_mask bit_or_pair w_def) simp
  qed
qed

lemma unat_of_nat_u16: "n < 2 ^ 16 \<Longrightarrow> unat (of_nat n :: u16) = n"
  by (simp add: unat_of_nat take_bit_nat_eq_self)

lemma unat_of_nat_u32: "n < 2 ^ 32 \<Longrightarrow> unat (of_nat n :: u32) = n"
  by (simp add: unat_of_nat take_bit_nat_eq_self)

lemma u32_of_nat_inj: "a < 2 ^ 32 \<Longrightarrow> b < 2 ^ 32 \<Longrightarrow> (of_nat a :: u32) = of_nat b \<longleftrightarrow> a = b"
  using unat_of_nat_u32 [of a] unat_of_nat_u32 [of b] by metis

end
