(* ===== verification/Fiss_Types.thy ===== *)
theory Fiss_Types
  imports Fiss_Prelude
begin

text \<open>
  The wire-level types of the host library: identifiers (include/types.h), lock states,
  lock holders and wait queue entries (lib/lock.h), post types and the lock post header
  with its mode bits (lib/post.h), byte order, and the byte layout of the packed structs.
\<close>

section \<open>Identifiers (include/types.h)\<close>

type_synonym host_id = u8
type_synonym lock_id = u32
type_synonym task_id = u32
type_synonym lock_key = u64
type_synonym lktsk = u64

definition LKTSK :: "lock_id \<Rightarrow> task_id \<Rightarrow> lktsk" where
  "LKTSK lid tid = push_bit 32 (ucast lid) XOR ucast tid"

section \<open>Lock states and holders (lib/lock.h)\<close>

datatype lock_state = FREE | RELEASE | LOCK_SHARED | LOCK_EXCL

fun lock_state_code :: "lock_state \<Rightarrow> u8" where
  "lock_state_code FREE = 0"
| "lock_state_code RELEASE = 1"
| "lock_state_code LOCK_SHARED = 2"
| "lock_state_code LOCK_EXCL = 3"

text \<open>The cast \<open>(lock_state)x\<close> of a value of at most two bits.\<close>

definition lock_state_of :: "u8 \<Rightarrow> lock_state" where
  "lock_state_of x =
     (if x = 0 then FREE else if x = 1 then RELEASE
      else if x = 2 then LOCK_SHARED else LOCK_EXCL)"

type_synonym lock_holder = u64

definition LOCK_HOLDER :: "host_id \<Rightarrow> task_id \<Rightarrow> lock_holder" where
  "LOCK_HOLDER host task = push_bit 32 (ucast host) XOR ucast task"

definition LOCK_HOLDER_TASK :: "lock_holder \<Rightarrow> task_id" where
  "LOCK_HOLDER_TASK lh = ucast lh"

definition LOCK_HOLDER_HOST :: "lock_holder \<Rightarrow> host_id" where
  "LOCK_HOLDER_HOST lh = ucast (drop_bit 32 lh)"

text \<open>
  A wait queue entry is a packed bit field of 2 + 30 + 8 bits: the operator, which has
  exactly the four lock states as values, the task truncated to 30 bits, and the host.
\<close>

record wqe =
  wq_op :: lock_state
  wq_task :: "30 word"
  wq_host :: host_id

definition mk_wqe :: "lock_state \<Rightarrow> task_id \<Rightarrow> host_id \<Rightarrow> wqe" where
  "mk_wqe op task host = \<lparr>wq_op = op, wq_task = ucast task, wq_host = host\<rparr>"

text \<open>The value a read of the bit field \<open>task\<close> yields after integer promotion.\<close>

definition wqe_task :: "wqe \<Rightarrow> task_id" where
  "wqe_task w = ucast (wq_task w)"

definition wqe_holder :: "wqe \<Rightarrow> lock_holder" where
  "wqe_holder w = LOCK_HOLDER (wq_host w) (wqe_task w)"

definition TASK_FOR_RESTORE :: task_id where
  "TASK_FOR_RESTORE = - 1"

section \<open>Posts (lib/post.h)\<close>

datatype post_t =
    POST_LOCK_ACQUIRE
  | POST_LOCK_GRANT_WITH_AGENT
  | POST_LOCK_GRANT_WO_AGENT
  | POST_LOCK_RELEASE
  | POST_LOCK_TRANSFER
  | POST_LOCK_FREE
  | POST_MEM_DIFF
  | POST_CLEAR_SEQ

fun post_code :: "post_t \<Rightarrow> u8" where
  "post_code POST_LOCK_ACQUIRE = 1"
| "post_code POST_LOCK_GRANT_WITH_AGENT = 2"
| "post_code POST_LOCK_GRANT_WO_AGENT = 3"
| "post_code POST_LOCK_RELEASE = 4"
| "post_code POST_LOCK_TRANSFER = 5"
| "post_code POST_LOCK_FREE = 6"
| "post_code POST_MEM_DIFF = 7"
| "post_code POST_CLEAR_SEQ = 8"

definition NUM_POST_TYPES :: u8 where
  "NUM_POST_TYPES = 9"

definition post_of_code :: "u8 \<Rightarrow> post_t option" where
  "post_of_code x =
     (if x = 1 then Some POST_LOCK_ACQUIRE
      else if x = 2 then Some POST_LOCK_GRANT_WITH_AGENT
      else if x = 3 then Some POST_LOCK_GRANT_WO_AGENT
      else if x = 4 then Some POST_LOCK_RELEASE
      else if x = 5 then Some POST_LOCK_TRANSFER
      else if x = 6 then Some POST_LOCK_FREE
      else if x = 7 then Some POST_MEM_DIFF
      else if x = 8 then Some POST_CLEAR_SEQ
      else None)"

record lock_post_header =
  mode_old_mode :: u8
  hdr_lock_id :: u32
  machine_id :: u8
  hdr_task_id :: u32
  agent :: u8
  wq_size :: u32
  hdr_ncnt :: u8

text \<open>
  A post in a packet buffer: the type of the post header, the lock post header and the
  wait queue entries that follow it in the buffer.
\<close>

record packet =
  ptype :: post_t
  hdr :: lock_post_header
  pkt_wq :: "wqe list"

definition MODE_OLD_MODE :: "u8 \<Rightarrow> u8 \<Rightarrow> u8" where
  "MODE_OLD_MODE mode old_mode = (push_bit 1 (old_mode AND 1)) OR (mode AND 1)"

definition MODE :: "u8 \<Rightarrow> lock_state" where
  "MODE x = lock_state_of ((x AND 1) OR 2)"

definition OLD_MODE :: "u8 \<Rightarrow> lock_state" where
  "OLD_MODE x = lock_state_of ((drop_bit 1 x AND 1) OR 2)"

definition GRANTED :: "lock_post_header \<Rightarrow> bool" where
  "GRANTED h \<longleftrightarrow> drop_bit 6 (mode_old_mode h) AND 1 \<noteq> 0"

definition TRANSFERRED :: "lock_post_header \<Rightarrow> bool" where
  "TRANSFERRED h \<longleftrightarrow> drop_bit 5 (mode_old_mode h) AND 1 \<noteq> 0"

definition sizeof_post_header :: nat where "sizeof_post_header = 1"
definition sizeof_lock_post_header :: nat where "sizeof_lock_post_header = 16"
definition sizeof_wqe :: nat where "sizeof_wqe = 5"

definition POST_HDR_SIZE :: nat where
  "POST_HDR_SIZE = sizeof_post_header + sizeof_lock_post_header"

section \<open>Byte order\<close>

text \<open>
  \<open>htonl\<close> and \<open>ntohl\<close> on the little-endian hosts the library is built for: both swap
  the four bytes.
\<close>

definition htonl :: "u32 \<Rightarrow> u32" where
  "htonl x = push_bit 24 (x AND 0xff) OR push_bit 8 (x AND 0xff00) OR
             (drop_bit 8 x AND 0xff00) OR (drop_bit 24 x AND 0xff)"

definition ntohl :: "u32 \<Rightarrow> u32" where
  "ntohl x = htonl x"

section \<open>Facts\<close>

lemma lock_state_of_code [simp]: "lock_state_of (lock_state_code s) = s"
  by (cases s) (simp_all add: lock_state_of_def)

lemma post_of_code_code [simp]: "post_of_code (post_code t) = Some t"
  by (cases t) (simp_all add: post_of_code_def)

lemma post_code_range: "0 < post_code t \<and> post_code t < NUM_POST_TYPES"
  by (cases t) (simp_all add: NUM_POST_TYPES_def)

lemma bit_pair_word:
  fixes a :: "'a::len word" and b :: u32
  assumes "LENGTH('a) \<le> 32"
  shows "bit (push_bit 32 (ucast a :: u64) XOR ucast b) n \<longleftrightarrow>
    (if n < 32 then bit b n else n < 64 \<and> bit a (n - 32))"
  by (auto simp: bit_simps dest: bit_imp_le_length)

lemma LOCK_HOLDER_TASK_LOCK_HOLDER [simp]: "LOCK_HOLDER_TASK (LOCK_HOLDER h t) = t"
  by (rule bit_word_eqI)
    (simp add: LOCK_HOLDER_TASK_def LOCK_HOLDER_def bit_ucast_iff bit_pair_word)

lemma LOCK_HOLDER_HOST_LOCK_HOLDER [simp]: "LOCK_HOLDER_HOST (LOCK_HOLDER h t) = h"
proof (rule bit_word_eqI)
  fix n assume "n < LENGTH(8)"
  moreover have "bit (LOCK_HOLDER_HOST (LOCK_HOLDER h t)) n \<longleftrightarrow> n < 8 \<and> bit (LOCK_HOLDER h t) (32 + n)"
    by (simp only: LOCK_HOLDER_HOST_def bit_ucast_iff bit_drop_bit_eq) simp
  ultimately show "bit (LOCK_HOLDER_HOST (LOCK_HOLDER h t)) n = bit h n"
    by (simp add: LOCK_HOLDER_def bit_pair_word)
qed

lemma LOCK_HOLDER_inject [simp]:
  "LOCK_HOLDER h t = LOCK_HOLDER h' t' \<longleftrightarrow> h = h' \<and> t = t'"
  by (metis LOCK_HOLDER_HOST_LOCK_HOLDER LOCK_HOLDER_TASK_LOCK_HOLDER)

lemma LKTSK_inject: "LKTSK l t = LKTSK l' t' \<longleftrightarrow> l = l' \<and> t = t'"
proof
  assume eq: "LKTSK l t = LKTSK l' t'"
  have b: "bit (LKTSK l t) n \<longleftrightarrow> (if n < 32 then bit t n else n < 64 \<and> bit l (n - 32))"
    for l t n by (simp add: LKTSK_def bit_pair_word)
  have "t = t'"
  proof (rule bit_word_eqI)
    fix n assume "n < LENGTH(32)"
    with eq b [of l t n] b [of l' t' n] show "bit t n = bit t' n" by simp
  qed
  moreover have "l = l'"
  proof (rule bit_word_eqI)
    fix n assume "n < LENGTH(32)"
    with eq b [of l t "n + 32"] b [of l' t' "n + 32"] show "bit l n = bit l' n" by simp
  qed
  ultimately show "l = l' \<and> t = t'" by simp
qed simp

lemma wqe_task_mk_wqe: "unat t < 2 ^ 30 \<Longrightarrow> wqe_task (mk_wqe op t h) = t"
  by (simp add: wqe_task_def mk_wqe_def ucast_down_up_id)

lemma wqe_holder_mk_wqe [simp]:
  "unat t < 2 ^ 30 \<Longrightarrow> wqe_holder (mk_wqe op t h) = LOCK_HOLDER h t"
  by (simp only: wqe_holder_def wqe_task_mk_wqe) (simp add: mk_wqe_def)

lemma wq_op_mk_wqe [simp]: "wq_op (mk_wqe op t h) = op"
  and wq_host_mk_wqe [simp]: "wq_host (mk_wqe op t h) = h"
  by (simp_all add: mk_wqe_def)

lemma mk_wqe_of_fields [simp]: "mk_wqe (wq_op w) (wqe_task w) (wq_host w) = w"
proof -
  have "(ucast (ucast (wq_task w) :: u32) :: 30 word) = wq_task w"
    by (rule bit_word_eqI) (auto simp: bit_ucast_iff)
  then show ?thesis by (simp add: mk_wqe_def wqe_task_def)
qed

lemma byte_masks: "(0xff :: u32) = mask 8" "(0xff00 :: u32) = push_bit 8 (mask 8)"
  by (simp_all add: mask_eq_exp_minus_1)

lemma bit_htonl:
  "bit (htonl x) n \<longleftrightarrow>
     (if n < 8 then bit x (n + 24) else if n < 16 then bit x (n + 8)
      else if n < 24 then bit x (n - 8) else n < 32 \<and> bit x (n - 24))"
  unfolding htonl_def byte_masks
  by (auto simp: bit_simps ac_simps dest: bit_imp_le_length)

lemma htonl_involution [simp]: "ntohl (htonl x) = x"
  by (rule bit_word_eqI) (auto simp: ntohl_def bit_htonl)

lemma and_one_cases: "(x AND 1 :: u8) = 0 \<or> (x AND 1 :: u8) = 1"
proof -
  have "x AND 1 = of_bool (odd x)" by (simp add: and_one_eq mod_2_eq_odd)
  then show ?thesis by simp
qed

lemma MODE_range: "MODE x = LOCK_SHARED \<or> MODE x = LOCK_EXCL"
  using and_one_cases [of x] by (auto simp: MODE_def lock_state_of_def)

lemma MODE_not_FREE [simp]: "MODE x \<noteq> FREE" "MODE x \<noteq> RELEASE" "FREE \<noteq> MODE x"
  using MODE_range [of x] by auto

lemma OLD_MODE_range: "OLD_MODE x = LOCK_SHARED \<or> OLD_MODE x = LOCK_EXCL"
  using and_one_cases [of "drop_bit 1 x"] by (auto simp: OLD_MODE_def lock_state_of_def)

lemma OLD_MODE_not_FREE [simp]: "OLD_MODE x \<noteq> FREE" "OLD_MODE x \<noteq> RELEASE" "FREE \<noteq> OLD_MODE x"
  using OLD_MODE_range [of x] by auto

lemma MODE_MODE_OLD_MODE:
  "MODE (MODE_OLD_MODE (lock_state_code m) (lock_state_code old)) =
     (if m = LOCK_EXCL \<or> m = RELEASE then LOCK_EXCL else LOCK_SHARED)"
  by (cases m; cases old) (simp_all add: MODE_def MODE_OLD_MODE_def lock_state_of_def)

lemma OLD_MODE_MODE_OLD_MODE:
  "OLD_MODE (MODE_OLD_MODE (lock_state_code m) (lock_state_code old)) =
     (if old = LOCK_EXCL \<or> old = RELEASE then LOCK_EXCL else LOCK_SHARED)"
  by (cases m; cases old) (simp_all add: OLD_MODE_def MODE_OLD_MODE_def lock_state_of_def)

end
