(* ===== verification/Fiss_Post.thy ===== *)
theory Fiss_Post
  imports Fiss_Types
begin

text \<open>
  Fabrication of lock posts (lib/post.c). Each \<open>send_post_\<close> function hands one packet to
  the network module; the model returns that packet. The localhost identifier
  \<open>conf.localhost_id\<close> is the argument \<open>me\<close>. The size of the post is a separate
  function of the packet and of the optional packet modifier hook.
\<close>

section \<open>Definitions\<close>

text \<open>
  The generic post. \<open>op\<close> and \<open>old_state\<close> are the C integers whose low bit
  \<open>MODE_OLD_MODE\<close> keeps, \<open>wq\<close> is the queue of \<open>wq_size\<close> entries copied behind the
  header, \<open>dest\<close> is stored in the agent field.
\<close>

definition send_post_lock_generic ::
  "post_t \<Rightarrow> u8 \<Rightarrow> lock_id \<Rightarrow> host_id \<Rightarrow> task_id \<Rightarrow> wqe list \<Rightarrow> u8 \<Rightarrow> u8 \<Rightarrow> host_id \<Rightarrow> packet" where
  "send_post_lock_generic t op lid hid tid wq nc old_state dest =
     \<lparr>ptype = t,
      hdr = \<lparr>mode_old_mode = MODE_OLD_MODE op old_state,
             hdr_lock_id = htonl lid,
             machine_id = hid,
             hdr_task_id = tid,
             agent = dest,
             wq_size = of_nat (length wq),
             hdr_ncnt = nc\<rparr>,
      pkt_wq = wq\<rparr>"

definition post_size :: "(post_t \<Rightarrow> lock_post_header \<Rightarrow> nat) option \<Rightarrow> packet \<Rightarrow> nat" where
  "post_size packet_modify p =
     POST_HDR_SIZE
     + (if 0 < length (pkt_wq p) then length (pkt_wq p) * sizeof_wqe else 0)
     + (case packet_modify of None \<Rightarrow> 0 | Some f \<Rightarrow> f (ptype p) (hdr p))"

definition send_post_acquire :: "host_id \<Rightarrow> u8 \<Rightarrow> lock_id \<Rightarrow> host_id \<Rightarrow> task_id \<Rightarrow> packet" where
  "send_post_acquire me op lid hid tid =
     send_post_lock_generic POST_LOCK_ACQUIRE op lid hid tid [] 0 0 me"

definition send_post_acquire_lm :: "host_id \<Rightarrow> u8 \<Rightarrow> lock_id \<Rightarrow> host_id \<Rightarrow> task_id \<Rightarrow> packet" where
  "send_post_acquire_lm me op lid hid tid =
     send_post_lock_generic POST_LOCK_ACQUIRE op lid me tid [] 0 0 hid"

definition send_post_transfer ::
  "host_id \<Rightarrow> u8 \<Rightarrow> lock_id \<Rightarrow> host_id \<Rightarrow> task_id \<Rightarrow> wqe list \<Rightarrow> u8 \<Rightarrow> u8 \<Rightarrow> packet" where
  "send_post_transfer me next_op lid hid tid wq nc old_state =
     send_post_lock_generic POST_LOCK_TRANSFER next_op lid hid tid wq nc old_state me"

definition send_post_free :: "host_id \<Rightarrow> lock_id \<Rightarrow> u8 \<Rightarrow> u8 \<Rightarrow> packet" where
  "send_post_free me lid nc old_state =
     send_post_lock_generic POST_LOCK_FREE 0 lid me 0 [] nc old_state me"

definition send_post_release :: "host_id \<Rightarrow> lock_id \<Rightarrow> host_id \<Rightarrow> task_id \<Rightarrow> packet" where
  "send_post_release me lid hid tid =
     send_post_lock_generic POST_LOCK_RELEASE 0 lid hid tid [] 0 0 me"

definition send_post_release_lm :: "lock_id \<Rightarrow> host_id \<Rightarrow> task_id \<Rightarrow> host_id \<Rightarrow> packet" where
  "send_post_release_lm lid hid tid lm =
     send_post_lock_generic POST_LOCK_RELEASE 0 lid hid tid [] 0 0 lm"

definition send_post_grant :: "lock_id \<Rightarrow> host_id \<Rightarrow> task_id \<Rightarrow> packet" where
  "send_post_grant lid hid tid =
     send_post_lock_generic POST_LOCK_GRANT_WO_AGENT 0 lid hid tid [] 0 0 hid"

definition send_post_clear :: "lock_id \<Rightarrow> packet" where
  "send_post_clear lid = send_post_lock_generic POST_CLEAR_SEQ 0 lid 0 0 [] 0 0 0"

lemmas send_post_defs =
  send_post_lock_generic_def send_post_acquire_def send_post_acquire_lm_def
  send_post_transfer_def send_post_free_def send_post_release_def
  send_post_release_lm_def send_post_grant_def send_post_clear_def

section \<open>Facts\<close>

text \<open>
  Every fabricated post names the lock so that the receiver's \<open>ntohl\<close> finds it again, has
  the declared number of queue entries, and carries neither switch flag.
\<close>

definition packet_wf :: "packet \<Rightarrow> bool" where
  "packet_wf p \<longleftrightarrow> unat (wq_size (hdr p)) = length (pkt_wq p)"

lemma generic_lock_id [simp]:
  "ntohl (hdr_lock_id (hdr (send_post_lock_generic t op lid hid tid wq nc old dest))) = lid"
  by (simp add: send_post_lock_generic_def)

lemma generic_packet_wf:
  assumes "length wq < 2 ^ 32"
  shows "packet_wf (send_post_lock_generic t op lid hid tid wq nc old dest)"
proof -
  have "unat (of_nat (length wq) :: u32) = length wq"
    using assms by (simp add: unat_of_nat take_bit_nat_eq_self)
  then show ?thesis by (simp add: packet_wf_def send_post_lock_generic_def)
qed

lemma MODE_OLD_MODE_no_flags:
  "drop_bit 6 (MODE_OLD_MODE a b) AND 1 = 0" "drop_bit 5 (MODE_OLD_MODE a b) AND 1 = 0"
  by (simp_all add: MODE_OLD_MODE_def and_one_eq mod_2_eq_odd flip: bit_0)

lemma generic_flags:
  "\<not> GRANTED (hdr (send_post_lock_generic t op lid hid tid wq nc old dest))"
  "\<not> TRANSFERRED (hdr (send_post_lock_generic t op lid hid tid wq nc old dest))"
  by (simp_all add: send_post_lock_generic_def GRANTED_def TRANSFERRED_def MODE_OLD_MODE_no_flags)

lemma post_size_no_queue [simp]: "pkt_wq p = [] \<Longrightarrow> post_size None p = 17"
  by (simp add: post_size_def POST_HDR_SIZE_def sizeof_post_header_def sizeof_lock_post_header_def)

end
