(* ===== verification/Fiss_Lock_Meta.thy ===== *)
theory Fiss_Lock_Meta
  imports Fiss_Post
begin

text \<open>
  The metadata of one in-network lock and the functions that read and update it
  (lib/lock.cc, lines 52 to 378): the utility functions, the lock agent handlers, the
  lock manager handlers for locks the switch does not manage, and the two helpers that
  turn a release packet into a free or a transfer packet.

  A C++ function that takes a descriptor and changes \<open>*lmeta(l)\<close> takes and returns the
  record here. Every one of them runs with the mutex of the lock held, so each call is
  one atomic step. The timer and counter calls (utils/statistics.cc) do not touch the
  metadata and are left out. The two hash maps that are only accessed through
  \<open>operator[]\<close> and \<open>erase\<close>, whose missing entries read as zero, are total functions.
\<close>

section \<open>Build configuration\<close>

text \<open>
  The preprocessor symbols the code depends on. A default build defines none of them.
\<close>

record build =
  FISSLOCK_DEBUG :: bool
  FISSLOCK_BMV2 :: bool
  TPCC_ENB_LOCAL :: bool

definition default_build :: build where
  "default_build = \<lparr>FISSLOCK_DEBUG = False, FISSLOCK_BMV2 = False, TPCC_ENB_LOCAL = False\<rparr>"

definition bmv2_build :: build where
  "bmv2_build = \<lparr>FISSLOCK_DEBUG = False, FISSLOCK_BMV2 = True, TPCC_ENB_LOCAL = False\<rparr>"

text \<open>
  \<open>ASSERT\<close> and \<open>ASSERT_MSG\<close> (include/debug.h): the process exits when the condition is
  false in a debug build; otherwise only the condition is evaluated.
\<close>

definition ASSERT :: "build \<Rightarrow> bool \<Rightarrow> (fl_error + 'a) \<Rightarrow> fl_error + 'a" where
  "ASSERT b c k = (if FISSLOCK_DEBUG b \<and> \<not> c then Inl Assertion_failed else k)"

definition HOST_NUM :: u32 where "HOST_NUM = 8"
definition SWITCH_LOCK_NUM :: u32 where "SWITCH_LOCK_NUM = 524288 * 3"
definition DPDK_TX_BURST_SIZE :: nat where "DPDK_TX_BURST_SIZE = 1024"

section \<open>The metadata record\<close>

record innet_lock =
  lkey :: lock_key
  lid :: lock_id
  mode :: lock_state
  is_agent :: bool
  ncnt :: u32
  holders :: "lock_holder set"
  wqueue :: "wqe list"
  task_granted :: "task_id \<rightharpoonup> bool"
  delayed_free :: bool
  early_release :: "lock_holder \<Rightarrow> bool"
  fwd_back_cnt :: "lock_holder \<Rightarrow> int"
  local_holders :: "task_id set"

text \<open>\<open>new innet_lock()\<close> with the fields the callers assign afterwards.\<close>

definition new_lock :: "lock_key \<Rightarrow> lock_id \<Rightarrow> innet_lock" where
  "new_lock k l =
     \<lparr>lkey = k, lid = l, mode = FREE, is_agent = False, ncnt = 0, holders = {},
      wqueue = [], task_granted = Map.empty, delayed_free = False,
      early_release = (\<lambda>_. False), fwd_back_cnt = (\<lambda>_. 0), local_holders = {}\<rparr>"

section \<open>Utility functions\<close>

definition lock_to_lm :: "innet_lock \<Rightarrow> host_id" where
  "lock_to_lm l = ucast (lid l mod HOST_NUM + 1)"

definition lock_out_of_range :: "innet_lock \<Rightarrow> bool" where
  "lock_out_of_range l \<longleftrightarrow> SWITCH_LOCK_NUM \<le> lid l"

definition lock_add_holder :: "innet_lock \<Rightarrow> lock_holder \<Rightarrow> innet_lock" where
  "lock_add_holder l lh = l\<lparr>holders := insert lh (holders l)\<rparr>"

definition lock_remove_holder :: "innet_lock \<Rightarrow> lock_holder \<Rightarrow> innet_lock" where
  "lock_remove_holder l lh = l\<lparr>holders := holders l - {lh}\<rparr>"

definition lock_has_holder :: "innet_lock \<Rightarrow> lock_holder \<Rightarrow> bool" where
  "lock_has_holder l lh \<longleftrightarrow> lh \<in> holders l"

definition lock_no_holders :: "innet_lock \<Rightarrow> bool" where
  "lock_no_holders l \<longleftrightarrow> holders l = {}"

definition lock_append_to_wq :: "innet_lock \<Rightarrow> wqe \<Rightarrow> innet_lock" where
  "lock_append_to_wq l w = l\<lparr>wqueue := wqueue l @ [w]\<rparr>"

definition lock_unmarshal_wq :: "innet_lock \<Rightarrow> wqe list \<Rightarrow> innet_lock" where
  "lock_unmarshal_wq l wq = l\<lparr>wqueue := wqueue l @ wq\<rparr>"

text \<open>The grant post that \<open>lock_digest_wq\<close> writes for one shared waiter.\<close>

definition digest_grant :: "innet_lock \<Rightarrow> wqe \<Rightarrow> packet" where
  "digest_grant l w =
     \<lparr>ptype = POST_LOCK_GRANT_WO_AGENT,
      hdr = \<lparr>mode_old_mode = 0, hdr_lock_id = htonl (lid l), machine_id = wq_host w,
             hdr_task_id = wqe_task w, agent = wq_host w, wq_size = 0, hdr_ncnt = 0\<rparr>,
      pkt_wq = []\<rparr>"

text \<open>
  The loop of \<open>lock_digest_wq\<close>: a shared request becomes a holder and is sent a grant,
  another request is appended to the wait queue. The posts go out in one batch.
\<close>

fun digest_loop :: "wqe list \<Rightarrow> innet_lock \<Rightarrow> packet list \<Rightarrow> innet_lock \<times> packet list" where
  "digest_loop [] l out = (l, out)"
| "digest_loop (w # ws) l out =
     (if wq_op w = LOCK_SHARED
      then digest_loop ws (lock_add_holder l (LOCK_HOLDER (wq_host w) (wqe_task w)))
             (out @ [digest_grant l w])
      else digest_loop ws (lock_append_to_wq l w) out)"

text \<open>\<open>net_new_buf_bulk\<close> fills \<open>wq_sz\<close> elements of an array of \<open>DPDK_TX_BURST_SIZE\<close>.\<close>

definition lock_digest_wq :: "innet_lock \<Rightarrow> wqe list \<Rightarrow> fl_error + innet_lock \<times> packet list" where
  "lock_digest_wq l wq =
     (if DPDK_TX_BURST_SIZE < length wq then Inl Out_of_bounds else Inr (digest_loop wq l []))"

definition lock_no_waiters :: "innet_lock \<Rightarrow> bool" where
  "lock_no_waiters l \<longleftrightarrow> wqueue l = []"

text \<open>\<open>emplace(tid, false)\<close> leaves an existing entry as it is.\<close>

definition lock_prepare_wait :: "innet_lock \<Rightarrow> task_id \<Rightarrow> innet_lock" where
  "lock_prepare_wait l tid =
     (case task_granted l tid of
        None \<Rightarrow> l\<lparr>task_granted := (task_granted l)(tid \<mapsto> False)\<rparr>
      | Some _ \<Rightarrow> l)"

text \<open>The busy-loop variant, which is the configured \<open>LOCK_WAIT_MECHANISM\<close>.\<close>

definition lock_local_wait :: "innet_lock \<Rightarrow> task_id \<Rightarrow> bool \<times> innet_lock" where
  "lock_local_wait l tid =
     (case task_granted l tid of
        None \<Rightarrow> (False, l\<lparr>task_granted := (task_granted l)(tid \<mapsto> False)\<rparr>)
      | Some v \<Rightarrow> (v, l))"

definition lock_local_notify :: "innet_lock \<Rightarrow> task_id \<Rightarrow> innet_lock" where
  "lock_local_notify l tid =
     l\<lparr>local_holders := insert tid (local_holders l),
       task_granted := (task_granted l)(tid \<mapsto> True)\<rparr>"

section \<open>Lock agent and lock manager handlers\<close>

definition handle_granted_acquire :: "innet_lock \<Rightarrow> host_id \<Rightarrow> task_id \<Rightarrow> innet_lock" where
  "handle_granted_acquire l hid tid = lock_add_holder l (LOCK_HOLDER hid tid)"

definition handle_suspend_acquire ::
  "build \<Rightarrow> innet_lock \<Rightarrow> host_id \<Rightarrow> task_id \<Rightarrow> lock_state \<Rightarrow> fl_error + innet_lock" where
  "handle_suspend_acquire b l hid tid op =
     ASSERT b (op \<noteq> FREE) (Inr (lock_append_to_wq l (mk_wqe op tid hid)))"

definition handle_release ::
  "build \<Rightarrow> innet_lock \<Rightarrow> host_id \<Rightarrow> task_id \<Rightarrow> fl_error + innet_lock" where
  "handle_release b l hid tid =
     ASSERT b (mode l \<noteq> FREE) (Inr (lock_remove_holder l (LOCK_HOLDER hid tid)))"

definition handle_acquire_lm ::
  "innet_lock \<Rightarrow> host_id \<Rightarrow> task_id \<Rightarrow> lock_state \<Rightarrow> bool \<times> innet_lock" where
  "handle_acquire_lm l hid tid op =
     (if mode l = FREE
      then (True, lock_add_holder (l\<lparr>mode := op\<rparr>) (LOCK_HOLDER hid tid))
      else if mode l = LOCK_SHARED
      then (if op = LOCK_SHARED
            then (True, lock_add_holder l (LOCK_HOLDER hid tid))
            else (False, lock_append_to_wq l (mk_wqe op tid hid)))
      else (False, lock_append_to_wq l (mk_wqe op tid hid)))"

text \<open>
  The result says whether the caller sends a grant to the head of the wait queue; the
  packets are the grants \<open>lock_digest_wq\<close> sends.
\<close>

definition handle_release_lm ::
  "innet_lock \<Rightarrow> host_id \<Rightarrow> task_id \<Rightarrow> fl_error + bool \<times> innet_lock \<times> packet list" where
  "handle_release_lm l hid tid =
     (let l1 = lock_remove_holder l (LOCK_HOLDER hid tid) in
      if lock_no_holders l1 then
        (case wqueue l1 of
           [] \<Rightarrow> Inr (False, l1\<lparr>mode := FREE\<rparr>, [])
         | w # _ \<Rightarrow>
             (let l2 = l1\<lparr>mode := wq_op w\<rparr> in
              if mode l2 = LOCK_SHARED then
                (case lock_digest_wq (l2\<lparr>wqueue := []\<rparr>) (wqueue l2) of
                   Inl e \<Rightarrow> Inl e
                 | Inr (l3, out) \<Rightarrow> Inr (False, l3, out))
              else Inr (True, l2, [])))
      else Inr (False, l1, []))"

section \<open>Free and transfer helpers\<close>

text \<open>\<open>lock_free_helper\<close> rewrites the packet in place and gives up the agent role.\<close>

definition lock_free_helper :: "host_id \<Rightarrow> innet_lock \<Rightarrow> packet \<Rightarrow> packet \<times> innet_lock" where
  "lock_free_helper me l p =
     (p\<lparr>ptype := POST_LOCK_FREE,
        hdr := (hdr p)\<lparr>mode_old_mode := MODE_OLD_MODE 0 (lock_state_code (mode l)),
                       machine_id := me, hdr_task_id := 0, agent := me,
                       wq_size := 0, hdr_ncnt := ucast (ncnt l)\<rparr>\<rparr>,
      l\<lparr>is_agent := False, mode := FREE, ncnt := 0\<rparr>)"

text \<open>
  \<open>lock_transfer_helper\<close> addresses the packet to the head of the wait queue and copies
  the other entries behind the header; the result is their number. The caller has
  checked that the queue is not empty; reading its begin iterator otherwise is invalid.
\<close>

definition lock_transfer_helper ::
  "host_id \<Rightarrow> innet_lock \<Rightarrow> packet \<Rightarrow> fl_error + nat \<times> packet \<times> innet_lock" where
  "lock_transfer_helper me l p =
     (case wqueue l of
        [] \<Rightarrow> Inl Invalid_pointer
      | e # rest \<Rightarrow>
          Inr (length rest,
               p\<lparr>ptype := POST_LOCK_TRANSFER,
                 hdr := (hdr p)\<lparr>mode_old_mode :=
                                  MODE_OLD_MODE (lock_state_code (wq_op e)) (lock_state_code (mode l)),
                                machine_id := wq_host e, hdr_task_id := wqe_task e, agent := me,
                                wq_size := of_nat (length rest), hdr_ncnt := ucast (ncnt l)\<rparr>,
                 pkt_wq := (if rest = [] then pkt_wq p else rest)\<rparr>,
               l\<lparr>is_agent := False, ncnt := 0, mode := FREE, wqueue := []\<rparr>))"

lemmas [lock_defs] =
  ASSERT_def lock_add_holder_def lock_remove_holder_def lock_has_holder_def
  lock_no_holders_def lock_append_to_wq_def lock_unmarshal_wq_def lock_no_waiters_def
  handle_granted_acquire_def handle_suspend_acquire_def handle_release_def
  lock_local_notify_def lock_free_helper_def lock_transfer_helper_def

section \<open>Facts\<close>

lemma lid_digest_grant [simp]: "hdr_lock_id (hdr (digest_grant l w)) = htonl (lid l)"
  by (simp add: digest_grant_def)

lemma digest_grant_sel [simp]:
  "ptype (digest_grant l w) = POST_LOCK_GRANT_WO_AGENT"
  "machine_id (hdr (digest_grant l w)) = wq_host w"
  "hdr_task_id (hdr (digest_grant l w)) = wqe_task w"
  by (simp_all add: digest_grant_def)

lemma digest_grant_upd [simp]:
  "digest_grant (l\<lparr>holders := H\<rparr>) w = digest_grant l w"
  "digest_grant (l\<lparr>wqueue := q\<rparr>) w = digest_grant l w"
  "digest_grant (l\<lparr>mode := m\<rparr>) w = digest_grant l w"
  by (simp_all add: digest_grant_def)

text \<open>
  What the digest loop computes: the shared entries become holders and get one grant
  each, in queue order; the other entries are queued in their order; nothing else
  changes.
\<close>

lemma digest_loop_eq:
  "digest_loop ws l out =
     (l\<lparr>holders := holders l \<union> wqe_holder ` {w \<in> set ws. wq_op w = LOCK_SHARED},
        wqueue := wqueue l @ filter (\<lambda>w. wq_op w \<noteq> LOCK_SHARED) ws\<rparr>,
      out @ map (digest_grant l) (filter (\<lambda>w. wq_op w = LOCK_SHARED) ws))"
proof (induction ws arbitrary: l out)
  case Nil
  then show ?case by simp
next
  case (Cons w ws)
  show ?case
  proof (cases "wq_op w = LOCK_SHARED")
    case True
    have "{v \<in> set (w # ws). wq_op v = LOCK_SHARED} = insert w {v \<in> set ws. wq_op v = LOCK_SHARED}"
      using True by auto
    with True Cons.IH show ?thesis
      by (simp add: lock_add_holder_def wqe_holder_def digest_grant_def)
  next
    case False
    then have "{v \<in> set (w # ws). wq_op v = LOCK_SHARED} = {v \<in> set ws. wq_op v = LOCK_SHARED}"
      by auto
    with False Cons.IH show ?thesis
      by (simp add: lock_append_to_wq_def digest_grant_def)
  qed
qed

lemma lock_to_lm_range: "1 \<le> unat (lock_to_lm l)" "unat (lock_to_lm l) \<le> 8"
proof -
  have lt: "unat (lid l mod 8) < 8" by (simp add: unat_mod)
  then have "unat (lid l mod 8 + 1) = unat (lid l mod 8) + 1"
    by (simp add: unat_word_ariths)
  moreover have "unat (lock_to_lm l) = take_bit 8 (unat (lid l mod 8 + 1))"
    unfolding lock_to_lm_def HOST_NUM_def by (simp only: unsigned_ucast_eq) simp
  ultimately have "unat (lock_to_lm l) = unat (lid l mod 8) + 1"
    using lt by (simp add: take_bit_nat_eq_self)
  with lt show "1 \<le> unat (lock_to_lm l)" "unat (lock_to_lm l) \<le> 8" by simp_all
qed

end
