(* ===== verification/Fiss_Lock_Packet.thy ===== *)
theory Fiss_Lock_Packet
  imports Fiss_Lock_Meta
begin

text \<open>
  The processor of lock packets (lib/lock.cc, \<open>lock_packet_process\<close>). One definition per
  case of its switch statement. The result holds the returned integer (0: the packet is
  consumed; 1: it is sent back to the switch; more: it is sent back enlarged by that many
  bytes), the packet buffer after the in-place changes, the metadata, and the posts sent
  meanwhile.
\<close>

section \<open>Definitions\<close>

type_synonym processed = "nat \<times> packet \<times> innet_lock \<times> packet list"

text \<open>The \<open>wq_size\<close> entries behind the header, as far as the buffer holds them.\<close>

definition packet_queue :: "packet \<Rightarrow> fl_error + wqe list" where
  "packet_queue p =
     (if unat (wq_size (hdr p)) \<le> length (pkt_wq p)
      then Inr (take (unat (wq_size (hdr p))) (pkt_wq p)) else Inl Out_of_bounds)"

definition process_acquire :: "build \<Rightarrow> innet_lock \<Rightarrow> packet \<Rightarrow> fl_error + processed" where
  "process_acquire b l p =
     (let h = hdr p; hid = machine_id h; tid = hdr_task_id h; op = MODE (mode_old_mode h);
          lh = LOCK_HOLDER hid tid in
      if lock_out_of_range l then
        (let (grant, l1) = handle_acquire_lm l hid tid op in
         if grant
         then Inr (1, p\<lparr>ptype := POST_LOCK_GRANT_WO_AGENT, hdr := h\<lparr>agent := machine_id h\<rparr>\<rparr>, l1, [])
         else Inr (0, p, l1, []))
      else
        (let l1 = (if op = LOCK_SHARED \<and> GRANTED h then l\<lparr>ncnt := ncnt l + 1\<rparr> else l) in
         if early_release l1 lh
         then Inr (0, p, l1\<lparr>early_release := (early_release l1)(lh := False)\<rparr>, [])
         else if \<not> is_agent l1 then
           (if op = LOCK_SHARED then
              (if GRANTED h then Inr (0, p, handle_granted_acquire l1 hid tid, [])
               else Inr (1, p, l1, []))
            else if 2 < fwd_back_cnt l1 lh then
              (case handle_suspend_acquire b l1 hid tid op of
                 Inl e \<Rightarrow> Inl e
               | Inr l2 \<Rightarrow> Inr (0, p, l2\<lparr>fwd_back_cnt := (fwd_back_cnt l2)(lh := 0)\<rparr>, []))
            else Inr (1, p, l1\<lparr>fwd_back_cnt := (fwd_back_cnt l1)(lh := fwd_back_cnt l1 lh + 1)\<rparr>, []))
         else if GRANTED h then Inr (0, p, handle_granted_acquire l1 hid tid, [])
         else (case handle_suspend_acquire b l1 hid tid op of
                 Inl e \<Rightarrow> Inl e
               | Inr l2 \<Rightarrow> Inr (0, p, l2, []))))"

definition process_grant_with_agent ::
  "build \<Rightarrow> host_id \<Rightarrow> innet_lock \<Rightarrow> packet \<Rightarrow> fl_error + processed" where
  "process_grant_with_agent b me l p =
     (let h = hdr p; tid = hdr_task_id h in
      if tid = TASK_FOR_RESTORE then Inr (0, p, l, [])
      else
        ASSERT b (\<not> is_agent l) (ASSERT b (agent h = me)
        (let l1 = lock_add_holder (l\<lparr>is_agent := True\<rparr>) (LOCK_HOLDER me tid);
             l2 = l1\<lparr>mode := MODE (mode_old_mode h)\<rparr> in
         if TRANSFERRED h then
           (if 0 < wq_size h then
              (case packet_queue p of
                 Inl e \<Rightarrow> Inl e
               | Inr wq \<Rightarrow>
                   (if mode l2 = LOCK_SHARED then
                      (case lock_digest_wq l2 wq of
                         Inl e \<Rightarrow> Inl e
                       | Inr (l3, out) \<Rightarrow> Inr (0, p, lock_local_notify l3 tid, out))
                    else Inr (0, p, lock_local_notify (lock_unmarshal_wq l2 wq) tid, [])))
            else Inr (0, p, lock_local_notify l2 tid, []))
         else
           (let l3 = (if mode l2 = LOCK_SHARED then l2\<lparr>ncnt := ncnt l2 + 1\<rparr> else l2\<lparr>ncnt := 0\<rparr>)
            in Inr (0, p, lock_local_notify l3 tid, [])))))"

definition process_grant_wo_agent ::
  "build \<Rightarrow> host_id \<Rightarrow> innet_lock \<Rightarrow> packet \<Rightarrow> fl_error + processed" where
  "process_grant_wo_agent b me l p =
     ASSERT b (machine_id (hdr p) = me)
       (Inr (0, p, lock_local_notify l (hdr_task_id (hdr p)), []))"

text \<open>The end of the release case: free or transfer when no holder remains.\<close>

definition release_free_or_transfer ::
  "host_id \<Rightarrow> innet_lock \<Rightarrow> packet \<Rightarrow> fl_error + processed" where
  "release_free_or_transfer me l p =
     (if lock_no_holders l then
        (if lock_no_waiters l then
           (let (p1, l1) = lock_free_helper me l p in Inr (1, p1, l1, []))
         else
           (case lock_transfer_helper me l p of
              Inl e \<Rightarrow> Inl e
            | Inr (n, p1, l1) \<Rightarrow> Inr (if n \<noteq> 0 then n * sizeof_wqe else 1, p1, l1, [])))
      else Inr (0, p, l, []))"

definition process_release ::
  "build \<Rightarrow> host_id \<Rightarrow> innet_lock \<Rightarrow> packet \<Rightarrow> fl_error + processed" where
  "process_release b me l p =
     (let h = hdr p; hid = machine_id h; tid = hdr_task_id h; lh = LOCK_HOLDER hid tid;
          is_req = (\<lambda>w. wq_host w = hid \<and> wqe_task w = tid) in
      if lock_out_of_range l then
        (case handle_release_lm l hid tid of
           Inl e \<Rightarrow> Inl e
         | Inr (True, l1, out) \<Rightarrow>
             (case wqueue l1 of
                [] \<Rightarrow> Inl Invalid_pointer
              | w # ws \<Rightarrow>
                  Inr (1, p\<lparr>ptype := POST_LOCK_GRANT_WO_AGENT,
                            hdr := h\<lparr>machine_id := wq_host w, hdr_task_id := wqe_task w,
                                     agent := wq_host w\<rparr>\<rparr>,
                       l1\<lparr>wqueue := ws\<rparr>, out))
         | Inr (False, l1, out) \<Rightarrow> Inr (0, p, l1, out))
      else if \<not> lock_has_holder l lh then
        (if \<exists>w \<in> set (wqueue l). is_req w
         then Inr (0, p, l\<lparr>wqueue := erase_first is_req (wqueue l)\<rparr>, [])
         else release_free_or_transfer me
                (l\<lparr>early_release := (early_release l)(lh := True)\<rparr>) p)
      else if \<not> is_agent l
      then Inr (0, p, (lock_remove_holder l lh)\<lparr>delayed_free := True\<rparr>, [])
      else
        (case handle_release b l hid tid of
           Inl e \<Rightarrow> Inl e
         | Inr l1 \<Rightarrow> release_free_or_transfer me l1 p))"

text \<open>The switch pushed a transfer or free packet back.\<close>

definition process_push_back :: "build \<Rightarrow> innet_lock \<Rightarrow> packet \<Rightarrow> fl_error + processed" where
  "process_push_back b l p =
     (let h = hdr p in
      if delayed_free l \<and> lock_no_holders l then
        Inr (1, p\<lparr>hdr := h\<lparr>hdr_ncnt := hdr_ncnt h + ucast (ncnt l)\<rparr>\<rparr>,
             l\<lparr>ncnt := 0, delayed_free := False\<rparr>, [])
      else
        ASSERT b (mode l = FREE)
        (let l1 = l\<lparr>mode := OLD_MODE (mode_old_mode h), is_agent := True,
                    ncnt := ncnt l + ucast (hdr_ncnt h)\<rparr> in
         if ptype p = POST_LOCK_TRANSFER then
           (let l2 = lock_append_to_wq l1
                       (mk_wqe (MODE (mode_old_mode h)) (hdr_task_id h) (machine_id h)) in
            if 0 < wq_size h then
              (case packet_queue p of
                 Inl e \<Rightarrow> Inl e
               | Inr wq \<Rightarrow> Inr (0, p, l2\<lparr>wqueue := wqueue l2 @ wq\<rparr>, []))
            else Inr (0, p, l2, []))
         else Inr (0, p, l1, [])))"

text \<open>
  The whole processor. The application-defined preprocessor hook may rewrite the header.
\<close>

definition lock_packet_process ::
  "build \<Rightarrow> (post_t \<Rightarrow> lock_post_header \<Rightarrow> lock_post_header) option \<Rightarrow> host_id
     \<Rightarrow> innet_lock \<Rightarrow> packet \<Rightarrow> fl_error + processed" where
  "lock_packet_process b packet_preprocess me l p0 =
     (let p = (case packet_preprocess of
                 None \<Rightarrow> p0 | Some f \<Rightarrow> p0\<lparr>hdr := f (ptype p0) (hdr p0)\<rparr>) in
      case ptype p of
        POST_LOCK_ACQUIRE \<Rightarrow> process_acquire b l p
      | POST_LOCK_GRANT_WITH_AGENT \<Rightarrow> process_grant_with_agent b me l p
      | POST_LOCK_GRANT_WO_AGENT \<Rightarrow> process_grant_wo_agent b me l p
      | POST_LOCK_RELEASE \<Rightarrow> process_release b me l p
      | POST_LOCK_TRANSFER \<Rightarrow> process_push_back b l p
      | POST_LOCK_FREE \<Rightarrow> process_push_back b l p
      | POST_MEM_DIFF \<Rightarrow> Inr (0, p, l, [])
      | POST_CLEAR_SEQ \<Rightarrow> Inr (0, p, l, []))"

lemmas process_defs =
  lock_packet_process_def process_acquire_def process_grant_with_agent_def
  process_grant_wo_agent_def process_release_def process_push_back_def
  release_free_or_transfer_def


section \<open>Losing and regaining the agent role\<close>

definition lock_ops :: "lock_state set" where
  "lock_ops = {LOCK_SHARED, LOCK_EXCL}"

lemma lock_ops_iff [simp]: "m \<in> lock_ops \<longleftrightarrow> m = LOCK_SHARED \<or> m = LOCK_EXCL"
  by (simp add: lock_ops_def)

lemma MODE_in_ops: "MODE x \<in> lock_ops"
  using MODE_range [of x] by simp

lemma OLD_MODE_in_ops: "OLD_MODE x \<in> lock_ops"
  using OLD_MODE_range [of x] by simp

lemma MODE_OLD_MODE_bits:
  "MODE_OLD_MODE x y AND 1 = x AND 1" "drop_bit 1 (MODE_OLD_MODE x y) AND 1 = y AND 1"
  by (rule bit_word_eqI; auto simp: MODE_OLD_MODE_def bit_and_iff bit_or_iff bit_drop_bit_eq
      bit_push_bit_iff bit_1_iff bit_double_iff simp del: push_bit_Suc)+

lemma MODE_roundtrip [simp]:
  "m = LOCK_SHARED \<or> m = LOCK_EXCL \<Longrightarrow> MODE (MODE_OLD_MODE (lock_state_code m) old) = m"
  by (auto simp: MODE_def MODE_OLD_MODE_bits lock_state_of_def)

lemma OLD_MODE_roundtrip [simp]:
  "m = LOCK_SHARED \<or> m = LOCK_EXCL \<Longrightarrow> OLD_MODE (MODE_OLD_MODE x (lock_state_code m)) = m"
  unfolding OLD_MODE_def MODE_OLD_MODE_bits by (auto simp: lock_state_of_def)


text \<open>A release post for a task that holds the lock at its agent.\<close>

lemma process_release_last_holder:
  assumes "\<not> lock_out_of_range l" "is_agent l" "mode l \<noteq> FREE"
    and "holders l = {LOCK_HOLDER (machine_id (hdr p)) (hdr_task_id (hdr p))}"
  shows "process_release b me l p = release_free_or_transfer me (l\<lparr>holders := {}\<rparr>) p"
  using assms
  by (simp add: process_release_def Let_def lock_has_holder_def handle_release_def ASSERT_def
      lock_remove_holder_def)

lemma lock_packet_process_release:
  "ptype p = POST_LOCK_RELEASE \<Longrightarrow> lock_packet_process b None me l p = process_release b me l p"
  by (simp add: lock_packet_process_def)

lemma lock_packet_process_push_back:
  "ptype p = POST_LOCK_FREE \<or> ptype p = POST_LOCK_TRANSFER
   \<Longrightarrow> lock_packet_process b None me l p = process_push_back b l p"
  by (auto simp: lock_packet_process_def)

lemma ucast_u8_u32_id: "unat (x :: u32) < 256 \<Longrightarrow> (ucast (ucast x :: u8) :: u32) = x"
  by (rule ucast_down_up_id) simp

text \<open>The push-back of a free packet undoes \<open>lock_free_helper\<close>.\<close>

lemma free_helper_push_back:
  assumes "is_agent l" "mode l \<in> lock_ops" "\<not> delayed_free l" "unat (ncnt l) < 256"
    and "wqueue l = []" and h: "lock_free_helper me l p = (p1, l1)"
  shows "process_push_back b l1 p1 = Inr (0, p1, l, [])"
proof -
  have p1: "ptype p1 = POST_LOCK_FREE" "hdr_ncnt (hdr p1) = ucast (ncnt l)"
    "mode_old_mode (hdr p1) = MODE_OLD_MODE 0 (lock_state_code (mode l))"
    and l1: "l1 = l\<lparr>is_agent := False, mode := FREE, ncnt := 0\<rparr>"
    using h by (auto simp: lock_free_helper_def)
  have m: "mode l = LOCK_SHARED \<or> mode l = LOCK_EXCL" using assms(2) by simp
  show ?thesis
    using assms(1,3,4) m unfolding process_push_back_def l1
    by (cases l) (simp add: p1 Let_def ASSERT_def ucast_u8_u32_id)
qed

text \<open>
  C11. When the last holder of a lock without waiters releases it at its agent, the agent
  frees the lock with a packet that it sends to the switch; if the switch rejects the free
  and pushes the packet back, the agent is restored exactly as it was, less the holder.
  The notification counter has to fit the eight bits that the packet has for it.
\<close>

theorem free_push_back_roundtrip:
  assumes "\<not> lock_out_of_range l" "is_agent l" "mode l \<in> lock_ops" "\<not> delayed_free l"
    and "unat (ncnt l) < 256" "wqueue l = []"
    and "holders l = {LOCK_HOLDER (machine_id (hdr p)) (hdr_task_id (hdr p))}"
    and "ptype p = POST_LOCK_RELEASE"
  shows "\<exists>p1 l1. lock_packet_process b None me l p = Inr (1, p1, l1, []) \<and>
           ptype p1 = POST_LOCK_FREE \<and> \<not> is_agent l1 \<and> mode l1 = FREE \<and>
           lock_packet_process b None me l1 p1 = Inr (0, p1, l\<lparr>holders := {}\<rparr>, [])"
proof -
  obtain p1 l1 where h: "lock_free_helper me (l\<lparr>holders := {}\<rparr>) p = (p1, l1)" by fastforce
  have "mode l \<noteq> FREE" using assms(3) by auto
  with assms h have "lock_packet_process b None me l p = Inr (1, p1, l1, [])"
    by (simp add: lock_packet_process_release process_release_last_holder
        release_free_or_transfer_def lock_no_holders_def lock_no_waiters_def)
  moreover have "ptype p1 = POST_LOCK_FREE \<and> \<not> is_agent l1 \<and> mode l1 = FREE"
    using h by (auto simp: lock_free_helper_def)
  moreover have "process_push_back b l1 p1 = Inr (0, p1, l\<lparr>holders := {}\<rparr>, [])"
    using free_helper_push_back [OF _ _ _ _ _ h] assms by simp
  ultimately show ?thesis by (auto simp: lock_packet_process_push_back)
qed


lemma of_nat_u32_pos: "0 < n \<Longrightarrow> n < 2 ^ 32 \<Longrightarrow> (0 :: u32) < of_nat n"
  by (simp add: word_less_nat_alt unat_of_nat_u32)

text \<open>The push-back of a transfer packet undoes \<open>lock_transfer_helper\<close>.\<close>

lemma transfer_helper_push_back:
  assumes q: "wqueue l = w # ws" "wq_op w \<in> lock_ops" "length ws < 2 ^ 32"
    and l: "is_agent l" "mode l \<in> lock_ops" "\<not> delayed_free l" "unat (ncnt l) < 256"
    and h: "lock_transfer_helper me l p = Inr (n, p1, l1)"
  shows "process_push_back b l1 p1 = Inr (0, p1, l, [])"
proof -
  have p1: "ptype p1 = POST_LOCK_TRANSFER" "hdr_ncnt (hdr p1) = ucast (ncnt l)"
    "mode_old_mode (hdr p1) = MODE_OLD_MODE (lock_state_code (wq_op w)) (lock_state_code (mode l))"
    "machine_id (hdr p1) = wq_host w" "hdr_task_id (hdr p1) = wqe_task w"
    "wq_size (hdr p1) = of_nat (length ws)"
    and wq: "ws \<noteq> [] \<Longrightarrow> pkt_wq p1 = ws"
    and l1: "l1 = l\<lparr>is_agent := False, ncnt := 0, mode := FREE, wqueue := []\<rparr>"
    using h q(1) by (auto simp: lock_transfer_helper_def)
  have m: "mode l = LOCK_SHARED \<or> mode l = LOCK_EXCL" "wq_op w = LOCK_SHARED \<or> wq_op w = LOCK_EXCL"
    using l q by simp_all
  have pq: "packet_queue p1 = Inr ws" if "ws \<noteq> []"
    using wq [OF that] q(3) by (simp add: packet_queue_def p1 unat_of_nat_u32)
  have pos: "(0 :: u32) < of_nat (length ws) \<longleftrightarrow> ws \<noteq> []"
    using q(3) of_nat_u32_pos [of "length ws"] by auto
  show ?thesis
    using l q(1) pq m unfolding process_push_back_def l1
    by (cases l) (simp add: p1 pos Let_def
        ASSERT_def ucast_u8_u32_id lock_append_to_wq_def)
qed

text \<open>
  C12. When the last holder of a lock with waiters releases it at its agent, the agent
  transfers the lock with a packet that carries the whole wait queue; if the switch pushes
  the packet back, the agent gets the same wait queue in the same order, its mode, its role
  and its counter back.
\<close>

theorem transfer_push_back_roundtrip:
  assumes "\<not> lock_out_of_range l" "is_agent l" "mode l \<in> lock_ops" "\<not> delayed_free l"
    and "unat (ncnt l) < 256" "wqueue l = w # ws" "wq_op w \<in> lock_ops" "length ws < 2 ^ 32"
    and "holders l = {LOCK_HOLDER (machine_id (hdr p)) (hdr_task_id (hdr p))}"
    and "ptype p = POST_LOCK_RELEASE"
  shows "\<exists>n p1 l1. 0 < n \<and> lock_packet_process b None me l p = Inr (n, p1, l1, []) \<and>
           ptype p1 = POST_LOCK_TRANSFER \<and> \<not> is_agent l1 \<and> mode l1 = FREE \<and> wqueue l1 = [] \<and>
           lock_packet_process b None me l1 p1 = Inr (0, p1, l\<lparr>holders := {}\<rparr>, [])"
proof -
  let ?l = "l\<lparr>holders := {}\<rparr>"
  obtain p1 l1 where h: "lock_transfer_helper me ?l p = Inr (length ws, p1, l1)"
    using assms(6) by (simp add: lock_transfer_helper_def)
  let ?n = "if length ws \<noteq> 0 then length ws * sizeof_wqe else 1"
  have "mode l \<noteq> FREE" using assms(3) by auto
  with assms h have "lock_packet_process b None me l p = Inr (?n, p1, l1, [])"
    by (simp add: lock_packet_process_release process_release_last_holder
        release_free_or_transfer_def lock_no_holders_def lock_no_waiters_def)
  moreover have "0 < ?n" by (simp add: sizeof_wqe_def)
  moreover have t: "ptype p1 = POST_LOCK_TRANSFER \<and> \<not> is_agent l1 \<and> mode l1 = FREE \<and> wqueue l1 = []"
    using h assms(6) by (auto simp: lock_transfer_helper_def)
  moreover have "lock_packet_process b None me l1 p1 = Inr (0, p1, ?l, [])"
    using transfer_helper_push_back [OF _ _ _ _ _ _ _ h] assms t
    by (simp add: lock_packet_process_push_back)
  ultimately show ?thesis by blast
qed


section \<open>Delivery of a transferred lock\<close>

text \<open>
  What the switch does to a transfer packet that it accepts (the action
  \<open>op_transfer_agent\<close> of its lock operation table): the addressed host becomes the agent
  and receives the packet as a grant whose flag bit 5 says that a queue may follow.
\<close>

definition op_transfer_agent :: "packet \<Rightarrow> packet" where
  "op_transfer_agent p =
     p\<lparr>ptype := POST_LOCK_GRANT_WITH_AGENT,
       hdr := (hdr p)\<lparr>agent := machine_id (hdr p),
                      mode_old_mode := mode_old_mode (hdr p) OR 0x20\<rparr>\<rparr>"

lemma TRANSFERRED_or_0x20: "TRANSFERRED (h\<lparr>agent := a, mode_old_mode := x OR 0x20\<rparr>)"
proof -
  have "bit (0x20 :: u8) 5" by simp
  then have "bit (drop_bit 5 (x OR 0x20)) 0" by (simp only: bit_drop_bit_eq comp_def add_0_right bit_or_iff) simp
  then have "drop_bit 5 (x OR 0x20) AND 1 = 1" by (simp only: and_one_eq bit_0 odd_iff_mod_2_eq_one)
  then show ?thesis by (simp add: TRANSFERRED_def)
qed

lemma MODE_or_0x20: "MODE (x OR 0x20) = MODE x"
proof -
  have "(x OR 0x20) AND 1 = x AND 1"
    by (simp only: bit.conj_disj_distrib2) simp
  then show ?thesis by (simp add: MODE_def)
qed

lemma wqe_task_bound: "unat (wqe_task w) < 2 ^ 30"
proof -
  have "unat (wqe_task w) = unat (wq_task w)"
    unfolding wqe_task_def unsigned_ucast_eq
    by (rule take_bit_nat_eq_self [OF less_trans [OF unsigned_less]]) simp
  then show ?thesis using unsigned_less [of "wq_task w"] by simp
qed

lemma wqe_task_not_restore: "wqe_task w \<noteq> TASK_FOR_RESTORE"
proof
  assume "wqe_task w = TASK_FOR_RESTORE"
  then have "unat (TASK_FOR_RESTORE :: u32) < 2 ^ 30" using wqe_task_bound [of w] by simp
  then show False by (simp add: TASK_FOR_RESTORE_def unsigned_minus_1_eq_mask mask_eq_exp_minus_1)
qed


text \<open>
  C10. A transferred lock loses no waiter: the host of the first waiter becomes the agent in
  the mode that waiter asked for and its task is granted the lock; if that mode is
  exclusive, the remaining waiters are queued in their order; if it is shared, every shared
  waiter becomes a holder and is sent one grant, and the others are queued in their order.
\<close>

theorem transfer_delivers_queue:
  assumes "wqueue l = w # ws" "wq_op w \<in> lock_ops" "length ws \<le> DPDK_TX_BURST_SIZE"
    and "lock_transfer_helper me l p = Inr (n, p1, l1)" and "\<not> is_agent l'"
  shows "\<exists>l2 out. lock_packet_process b None (wq_host w) l' (op_transfer_agent p1) =
             Inr (0, op_transfer_agent p1, l2, out) \<and>
           is_agent l2 \<and> mode l2 = wq_op w \<and> task_granted l2 (wqe_task w) = Some True \<and>
           holders l2 = holders l' \<union> {wqe_holder w} \<union>
             (if wq_op w = LOCK_SHARED then wqe_holder ` {v \<in> set ws. wq_op v = LOCK_SHARED} else {}) \<and>
           wqueue l2 = wqueue l' @
             filter (\<lambda>v. wq_op w = LOCK_SHARED \<longrightarrow> wq_op v \<noteq> LOCK_SHARED) ws \<and>
           out = map (digest_grant l')
             (filter (\<lambda>v. wq_op w = LOCK_SHARED \<and> wq_op v = LOCK_SHARED) ws)"
proof -
  let ?p = "op_transfer_agent p1"
  have p1: "mode_old_mode (hdr p1) = MODE_OLD_MODE (lock_state_code (wq_op w)) (lock_state_code (mode l))"
    "machine_id (hdr p1) = wq_host w" "hdr_task_id (hdr p1) = wqe_task w"
    "wq_size (hdr p1) = of_nat (length ws)"
    and wq: "ws \<noteq> [] \<Longrightarrow> pkt_wq p1 = ws"
    using assms(1,4) by (auto simp: lock_transfer_helper_def)
  have m: "wq_op w = LOCK_SHARED \<or> wq_op w = LOCK_EXCL" using assms(2) by simp
  have len: "length ws < 2 ^ 32" using assms(3) by (simp add: DPDK_TX_BURST_SIZE_def)
  have f: "ptype ?p = POST_LOCK_GRANT_WITH_AGENT" "hdr_task_id (hdr ?p) = wqe_task w"
    "agent (hdr ?p) = wq_host w" "TRANSFERRED (hdr ?p)"
    "MODE (mode_old_mode (hdr ?p)) = wq_op w" "wq_size (hdr ?p) = of_nat (length ws)"
    by (simp_all add: op_transfer_agent_def p1 TRANSFERRED_or_0x20 MODE_or_0x20 MODE_roundtrip [OF m])
  have pq: "packet_queue ?p = Inr ws" if "ws \<noteq> []"
    using wq [OF that] len by (simp add: packet_queue_def f unat_of_nat_u32)
      (simp add: op_transfer_agent_def)
  have pos: "(0 :: u32) < of_nat (length ws) \<longleftrightarrow> ws \<noteq> []"
    using len of_nat_u32_pos [of "length ws"] by auto
  show ?thesis
    using m assms(3,5) pq
    by (cases "ws = []") (auto simp: lock_packet_process_def process_grant_with_agent_def Let_def f
        wqe_task_not_restore ASSERT_def lock_add_holder_def pos lock_digest_wq_def digest_loop_eq
        lock_local_notify_def lock_unmarshal_wq_def wqe_holder_def digest_grant_def)
qed

section \<open>Crossing and bouncing requests\<close>

text \<open>
  A release that overtakes the acquire it belongs to has the same effect on the agent of
  a shared lock as the two packets in their order: the early release is remembered and
  cancels the delayed acquire, and the notification counter is incremented once.
\<close>

theorem early_release_commutes:
  assumes "\<not> lock_out_of_range l" "is_agent l" "mode l = LOCK_SHARED"
    and "machine_id (hdr r) = machine_id (hdr a)" "hdr_task_id (hdr r) = hdr_task_id (hdr a)"
    and "LOCK_HOLDER (machine_id (hdr a)) (hdr_task_id (hdr a)) \<notin> holders l" "holders l \<noteq> {}"
    and "\<forall>w \<in> set (wqueue l). wqe_holder w \<noteq> LOCK_HOLDER (machine_id (hdr a)) (hdr_task_id (hdr a))"
    and "\<not> early_release l (LOCK_HOLDER (machine_id (hdr a)) (hdr_task_id (hdr a)))"
    and "GRANTED (hdr a)" "MODE (mode_old_mode (hdr a)) = LOCK_SHARED"
    and "ptype a = POST_LOCK_ACQUIRE" "ptype r = POST_LOCK_RELEASE"
  shows "\<exists>l1 l2 l3. lock_packet_process b None me l a = Inr (0, a, l1, []) \<and>
           lock_packet_process b None me l1 r = Inr (0, r, l3, []) \<and>
           lock_packet_process b None me l r = Inr (0, r, l2, []) \<and>
           lock_packet_process b None me l2 a = Inr (0, a, l3, []) \<and>
           l3 = l\<lparr>ncnt := ncnt l + 1\<rparr>"
proof -
  let ?h = "LOCK_HOLDER (machine_id (hdr a)) (hdr_task_id (hdr a))"
  have w: "\<not> (wq_host w = machine_id (hdr a) \<and> wqe_task w = hdr_task_id (hdr a))"
    if "w \<in> set (wqueue l)" for w
    using assms(8) that by (auto simp: wqe_holder_def)
  have oor: "\<not> lock_out_of_range (l\<lparr>ncnt := c, holders := H\<rparr>)"
    "\<not> lock_out_of_range (l\<lparr>early_release := E\<rparr>)" for c H E
    using assms(1) by (simp_all add: lock_out_of_range_def)
  have "lock_packet_process b None me l a = Inr (0, a, l\<lparr>ncnt := ncnt l + 1, holders := insert ?h (holders l)\<rparr>, [])"
    using assms by (simp add: lock_packet_process_def process_acquire_def Let_def
        handle_granted_acquire_def lock_add_holder_def)
  moreover have "lock_packet_process b None me (l\<lparr>ncnt := ncnt l + 1, holders := insert ?h (holders l)\<rparr>) r
     = Inr (0, r, l\<lparr>ncnt := ncnt l + 1\<rparr>, [])"
    using assms oor by (cases l) (simp add: lock_packet_process_def process_release_def Let_def
        lock_has_holder_def handle_release_def ASSERT_def release_free_or_transfer_def
        lock_no_holders_def lock_remove_holder_def)
  moreover have "lock_packet_process b None me l r
     = Inr (0, r, l\<lparr>early_release := (early_release l)(?h := True)\<rparr>, [])"
    using assms w by (auto simp: lock_packet_process_def process_release_def Let_def
        lock_has_holder_def release_free_or_transfer_def lock_no_holders_def)
  moreover have "lock_packet_process b None me (l\<lparr>early_release := (early_release l)(?h := True)\<rparr>) a
     = Inr (0, a, l\<lparr>ncnt := ncnt l + 1\<rparr>, [])"
  proof -
    have "(early_release l)(?h := False) = early_release l" using assms(9) by (simp add: fun_upd_idem_iff)
    then show ?thesis using assms oor
      by (cases l) (simp add: lock_packet_process_def process_acquire_def Let_def)
  qed
  ultimately show ?thesis by blast
qed


lemma process_acquire_bounce:
  assumes "\<not> lock_out_of_range l" "\<not> is_agent l" "ptype a = POST_LOCK_ACQUIRE"
    and "MODE (mode_old_mode (hdr a)) = LOCK_EXCL"
    and h: "h = LOCK_HOLDER (machine_id (hdr a)) (hdr_task_id (hdr a))" and "\<not> early_release l h"
  shows "lock_packet_process b None me l a =
    (if 2 < fwd_back_cnt l h
     then Inr (0, a, l\<lparr>wqueue := wqueue l @ [mk_wqe LOCK_EXCL (hdr_task_id (hdr a)) (machine_id (hdr a))],
                      fwd_back_cnt := (fwd_back_cnt l)(h := 0)\<rparr>, [])
     else Inr (1, a, l\<lparr>fwd_back_cnt := (fwd_back_cnt l)(h := fwd_back_cnt l h + 1)\<rparr>, []))"
  using assms
  by (simp add: lock_packet_process_def process_acquire_def Let_def handle_suspend_acquire_def
      ASSERT_def lock_append_to_wq_def)

text \<open>
  An exclusive request that reaches a host which is not the agent of the lock is sent
  back to the switch three times; the fourth time it arrives it is queued at the end of the
  wait queue and its bounce counter starts again from zero.
\<close>

theorem excl_request_bounces_thrice:
  assumes "\<not> lock_out_of_range l" "\<not> is_agent l" "ptype a = POST_LOCK_ACQUIRE"
    and "MODE (mode_old_mode (hdr a)) = LOCK_EXCL"
    and "h = LOCK_HOLDER (machine_id (hdr a)) (hdr_task_id (hdr a))"
    and "\<not> early_release l h" "fwd_back_cnt l h = 0"
  shows "\<exists>l1 l2 l3. lock_packet_process b None me l a = Inr (1, a, l1, []) \<and>
           lock_packet_process b None me l1 a = Inr (1, a, l2, []) \<and>
           lock_packet_process b None me l2 a = Inr (1, a, l3, []) \<and>
           lock_packet_process b None me l3 a =
             Inr (0, a, l\<lparr>wqueue := wqueue l @
               [mk_wqe LOCK_EXCL (hdr_task_id (hdr a)) (machine_id (hdr a))]\<rparr>, [])"
proof -
  let ?l = "\<lambda>n. l\<lparr>fwd_back_cnt := (fwd_back_cnt l)(h := n)\<rparr>"
  have n: "\<not> lock_out_of_range (?l n)" "\<not> is_agent (?l n)" "\<not> early_release (?l n) h" for n
    using assms(1,2,6) by (simp_all add: lock_out_of_range_def)
  have "(fwd_back_cnt l)(h := 0) = fwd_back_cnt l" using assms(7) by (simp add: fun_upd_idem_iff)
  then have q: "l\<lparr>wqueue := q, fwd_back_cnt := (fwd_back_cnt l)(h := 0)\<rparr> = l\<lparr>wqueue := q\<rparr>" for q
    by simp
  note bounce = process_acquire_bounce [OF _ _ assms(3,4,5)]
  have "lock_packet_process b None me l a = Inr (1, a, ?l 1, [])"
    using assms bounce [of l b me] by simp
  moreover have "lock_packet_process b None me (?l 1) a = Inr (1, a, ?l 2, [])"
    and "lock_packet_process b None me (?l 2) a = Inr (1, a, ?l 3, [])"
    using bounce [OF n(1,2,3)] by simp_all
  moreover have "lock_packet_process b None me (?l 3) a =
      Inr (0, a, l\<lparr>wqueue := wqueue l @ [mk_wqe LOCK_EXCL (hdr_task_id (hdr a)) (machine_id (hdr a))]\<rparr>, [])"
    using bounce [OF n(1,2,3)] q by simp
  ultimately show ?thesis by blast
qed

section \<open>Well-formed metadata\<close>

text \<open>
  A host is the agent of a lock exactly when it has a mode for it, and every queued request
  asks for a shared or an exclusive lock. Packets carry requests of the same kind.
\<close>

definition agent_wf :: "innet_lock \<Rightarrow> bool" where
  "agent_wf l \<longleftrightarrow> (is_agent l \<longleftrightarrow> mode l \<noteq> FREE) \<and> (\<forall>w \<in> set (wqueue l). wq_op w \<in> lock_ops)"

definition packet_ops :: "packet \<Rightarrow> bool" where
  "packet_ops p \<longleftrightarrow> (\<forall>w \<in> set (pkt_wq p). wq_op w \<in> lock_ops)"

lemma packet_queue_ops:
  "packet_ops p \<Longrightarrow> packet_queue p = Inr wq \<Longrightarrow> w \<in> set wq \<Longrightarrow> wq_op w \<in> lock_ops"
  by (auto simp: packet_ops_def packet_queue_def split: if_splits dest: in_set_takeD)

lemma agent_wf_new [simp]: "agent_wf (new_lock k i)"
  by (simp add: agent_wf_def new_lock_def)

lemma process_acquire_wf:
  "process_acquire b l p = Inr (n, p', l', out) \<Longrightarrow> \<not> lock_out_of_range l \<Longrightarrow> agent_wf l \<Longrightarrow>
    packet_ops p \<Longrightarrow> agent_wf l' \<and> packet_ops p'"
  using MODE_in_ops [of "mode_old_mode (hdr p)"]
  by (auto simp: process_acquire_def Let_def agent_wf_def handle_granted_acquire_def
      lock_add_holder_def handle_suspend_acquire_def ASSERT_def lock_append_to_wq_def
      split: if_splits)

lemma process_grant_with_agent_result:
  assumes "process_grant_with_agent b me l p = Inr (n, p', l', out)"
  shows "p' = p \<and> (l' = l \<or> is_agent l' \<and> mode l' = MODE (mode_old_mode (hdr p)) \<and>
     (wqueue l' = wqueue l \<or> (\<exists>wq. packet_queue p = Inr wq \<and> set (wqueue l') \<subseteq> set (wqueue l) \<union> set wq)))"
proof -
  let ?l = "lock_add_holder (l\<lparr>is_agent := True\<rparr>) (LOCK_HOLDER me (hdr_task_id (hdr p)))
              \<lparr>mode := MODE (mode_old_mode (hdr p))\<rparr>"
  note defs = process_grant_with_agent_def Let_def ASSERT_def lock_local_notify_def lock_add_holder_def
  consider "hdr_task_id (hdr p) = TASK_FOR_RESTORE"
    | "hdr_task_id (hdr p) \<noteq> TASK_FOR_RESTORE" "\<not> (TRANSFERRED (hdr p) \<and> 0 < wq_size (hdr p))"
    | wq where "hdr_task_id (hdr p) \<noteq> TASK_FOR_RESTORE" "TRANSFERRED (hdr p)" "0 < wq_size (hdr p)"
        "packet_queue p = Inr wq"
    using assms by (cases "packet_queue p") (auto simp: defs split: if_splits)
  then show ?thesis
  proof cases
    case 1
    with assms show ?thesis by (simp add: defs)
  next
    case 2
    with assms show ?thesis by (auto simp: defs split: if_splits)
  next
    case 3
    with assms have "p' = p" and "l' = lock_local_notify (lock_unmarshal_wq ?l wq) (hdr_task_id (hdr p)) \<or>
        l' = lock_local_notify (fst (digest_loop wq ?l [])) (hdr_task_id (hdr p))"
      by (auto simp: process_grant_with_agent_def Let_def ASSERT_def lock_digest_wq_def
          split: if_splits prod.splits)
    with 3(4) show ?thesis
      by (auto simp: digest_loop_eq lock_local_notify_def lock_unmarshal_wq_def lock_add_holder_def)
  qed
qed

lemma process_grant_with_agent_wf:
  assumes "process_grant_with_agent b me l p = Inr (n, p', l', out)" "agent_wf l" "packet_ops p"
  shows "agent_wf l' \<and> packet_ops p'"
  using process_grant_with_agent_result [OF assms(1)] assms(2,3) packet_queue_ops [OF assms(3)]
  by (auto simp: agent_wf_def)

lemma release_free_or_transfer_wf:
  assumes "release_free_or_transfer me l p = Inr (n, p', l', out)" "agent_wf l" "packet_ops p"
  shows "agent_wf l' \<and> packet_ops p'"
  using assms
  by (auto simp: release_free_or_transfer_def agent_wf_def packet_ops_def lock_free_helper_def
      lock_transfer_helper_def split: if_splits list.splits)


lemma lock_out_of_range_upd [simp]:
  "lock_out_of_range (l\<lparr>early_release := e\<rparr>) = lock_out_of_range l"
  "lock_out_of_range (l\<lparr>holders := h\<rparr>) = lock_out_of_range l"
  by (simp_all add: lock_out_of_range_def)

lemma process_release_wf:
  assumes "process_release b me l p = Inr (n, p', l', out)" "\<not> lock_out_of_range l" "agent_wf l"
    and "packet_ops p"
  shows "agent_wf l' \<and> packet_ops p'"
proof -
  let ?h = "LOCK_HOLDER (machine_id (hdr p)) (hdr_task_id (hdr p))"
  let ?is_req = "\<lambda>w. wq_host w = machine_id (hdr p) \<and> wqe_task w = hdr_task_id (hdr p)"
  have upd: "agent_wf (l\<lparr>early_release := e\<rparr>)" "agent_wf (l\<lparr>holders := H\<rparr>)" for e H
    using assms(3) by (simp_all add: agent_wf_def)
  consider "p' = p" "l' = l\<lparr>wqueue := erase_first ?is_req (wqueue l)\<rparr>"
    | "release_free_or_transfer me (l\<lparr>early_release := (early_release l)(?h := True)\<rparr>) p = Inr (n, p', l', out)"
    | "p' = p" "l' = l\<lparr>holders := holders l - {?h}, delayed_free := True\<rparr>"
    | "release_free_or_transfer me (l\<lparr>holders := holders l - {?h}\<rparr>) p = Inr (n, p', l', out)"
    using assms(1,2)
    by (auto simp: process_release_def Let_def handle_release_def ASSERT_def lock_remove_holder_def
        split: if_splits)
  then show ?thesis
  proof cases
    case 1
    then show ?thesis using assms(3,4) by (auto simp: agent_wf_def dest: erase_first_in)
  next
    case 2
    then show ?thesis using release_free_or_transfer_wf upd(1) assms(4) by blast
  next
    case 3
    then show ?thesis using assms(3,4) by (simp add: agent_wf_def)
  next
    case 4
    then show ?thesis using release_free_or_transfer_wf upd(2) assms(4) by blast
  qed
qed

lemma process_push_back_cases:
  assumes "process_push_back b l p = Inr (n, p', l', out)"
  obtains "pkt_wq p' = pkt_wq p" "is_agent l' = is_agent l" "mode l' = mode l" "wqueue l' = wqueue l"
  | "p' = p" "is_agent l'" "mode l' \<in> lock_ops" "wqueue l' = wqueue l"
  | wq where "p' = p" "is_agent l'" "mode l' \<in> lock_ops" "wq = [] \<or> packet_queue p = Inr wq"
      "wqueue l' = wqueue l @
         mk_wqe (MODE (mode_old_mode (hdr p))) (hdr_task_id (hdr p)) (machine_id (hdr p)) # wq"
proof (cases "delayed_free l \<and> lock_no_holders l")
  case True
  with assms have "pkt_wq p' = pkt_wq p" "is_agent l' = is_agent l" "mode l' = mode l" "wqueue l' = wqueue l"
    by (auto simp: process_push_back_def Let_def)
  then show ?thesis by (rule that(1))
next
  case False
  note defs = process_push_back_def Let_def ASSERT_def lock_append_to_wq_def
  have m: "OLD_MODE (mode_old_mode (hdr p)) \<in> lock_ops" by (rule OLD_MODE_in_ops)
  show ?thesis
  proof (cases "ptype p = POST_LOCK_TRANSFER")
    case tr: True
    show ?thesis
    proof (cases "0 < wq_size (hdr p)")
      case True
      with tr False assms obtain wq where wq: "packet_queue p = Inr wq"
        by (cases "packet_queue p") (auto simp: defs split: if_splits)
      show ?thesis
        by (rule that(3) [of wq]) (use True tr False assms wq m in \<open>auto simp: defs split: if_splits\<close>)
    next
      case nq: False
      show ?thesis
        by (rule that(3) [of "[]"]) (use nq tr False assms m in \<open>auto simp: defs split: if_splits\<close>)
    qed
  next
    case ntr: False
    show ?thesis
      by (rule that(2)) (use ntr False assms m in \<open>auto simp: defs split: if_splits\<close>)
  qed
qed

lemma process_push_back_wf:
  assumes "process_push_back b l p = Inr (n, p', l', out)" "agent_wf l" "packet_ops p"
  shows "agent_wf l' \<and> packet_ops p'"
  using assms(1)
proof (cases rule: process_push_back_cases)
  case 1
  with assms(2,3) show ?thesis by (simp add: agent_wf_def packet_ops_def)
next
  case 2
  with assms(2,3) show ?thesis by (auto simp: agent_wf_def)
next
  case (3 wq)
  have "wq_op w \<in> lock_ops" if "w \<in> set wq" for w
    using 3(4) that packet_queue_ops [OF assms(3)] by auto
  with 3 assms(2,3) MODE_in_ops [of "mode_old_mode (hdr p)"] show ?thesis
    unfolding agent_wf_def by fastforce
qed

lemma process_grant_wo_agent_wf:
  "process_grant_wo_agent b me l p = Inr (n, p', l', out) \<Longrightarrow> agent_wf l \<Longrightarrow> packet_ops p \<Longrightarrow>
   agent_wf l' \<and> packet_ops p'"
  by (auto simp: process_grant_wo_agent_def ASSERT_def agent_wf_def lock_local_notify_def
      split: if_splits)

lemma lock_packet_process_wf:
  assumes "lock_packet_process b None me l p = Inr (n, p', l', out)"
    and "\<not> lock_out_of_range l" "agent_wf l" "packet_ops p"
  shows "agent_wf l' \<and> packet_ops p'"
proof (cases "ptype p")
  case POST_LOCK_ACQUIRE
  with assms process_acquire_wf show ?thesis by (simp add: lock_packet_process_def)
next
  case POST_LOCK_GRANT_WITH_AGENT
  with assms process_grant_with_agent_wf show ?thesis by (simp add: lock_packet_process_def)
next
  case POST_LOCK_GRANT_WO_AGENT
  with assms process_grant_wo_agent_wf show ?thesis by (simp add: lock_packet_process_def)
next
  case POST_LOCK_RELEASE
  with assms process_release_wf show ?thesis by (simp add: lock_packet_process_def)
next
  case POST_LOCK_TRANSFER
  with assms process_push_back_wf show ?thesis by (simp add: lock_packet_process_def)
next
  case POST_LOCK_FREE
  with assms process_push_back_wf show ?thesis by (simp add: lock_packet_process_def)
qed (use assms in \<open>simp_all add: lock_packet_process_def\<close>)


section \<open>Stable identity\<close>

text \<open>No packet changes the key or the identifier of a lock.\<close>

definition same_id :: "innet_lock \<Rightarrow> innet_lock \<Rightarrow> bool" where
  "same_id l l' \<longleftrightarrow> lid l' = lid l \<and> lkey l' = lkey l"

lemma same_id_refl [simp]: "same_id l l"
  by (simp add: same_id_def)

lemma same_id_trans: "same_id l l' \<Longrightarrow> same_id l' l'' \<Longrightarrow> same_id l l''"
  by (simp add: same_id_def)

lemma same_id_utils [simp]:
  "same_id l (lock_add_holder l h)" "same_id l (lock_remove_holder l h)"
  "same_id l (lock_append_to_wq l w)" "same_id l (lock_unmarshal_wq l wq)"
  "same_id l (lock_local_notify l t)" "same_id l (lock_prepare_wait l t)"
  "same_id l (handle_granted_acquire l hid t)" "same_id l (fst (digest_loop wq l out))"
  by (simp_all add: same_id_def lock_add_holder_def lock_remove_holder_def lock_append_to_wq_def
      lock_unmarshal_wq_def lock_local_notify_def lock_prepare_wait_def handle_granted_acquire_def
      digest_loop_eq split: option.split)

lemma handle_suspend_acquire_id: "handle_suspend_acquire b l hid t op = Inr l' \<Longrightarrow> same_id l l'"
  by (auto simp: handle_suspend_acquire_def ASSERT_def split: if_splits)

lemma handle_acquire_lm_id: "handle_acquire_lm l hid t op = (g, l') \<Longrightarrow> same_id l l'"
  by (auto simp: handle_acquire_lm_def same_id_def lock_add_holder_def lock_append_to_wq_def
      split: if_splits)

lemma handle_release_lm_id: "handle_release_lm l hid t = Inr (g, l', out) \<Longrightarrow> same_id l l'"
  by (auto simp: handle_release_lm_def Let_def same_id_def lock_remove_holder_def lock_digest_wq_def
      digest_loop_eq split: if_splits list.splits)

lemma process_acquire_id: "process_acquire b l p = Inr (n, p', l', out) \<Longrightarrow> same_id l l'"
  by (auto simp: process_acquire_def Let_def dest!: handle_suspend_acquire_id handle_acquire_lm_id
      simp: same_id_def handle_granted_acquire_def lock_add_holder_def split: if_splits sum.splits prod.splits)

lemma process_grant_with_agent_id:
  assumes "process_grant_with_agent b me l p = Inr (n, p', l', out)"
  shows "same_id l l'"
proof -
  define l2 where "l2 = lock_add_holder (l\<lparr>is_agent := True\<rparr>) (LOCK_HOLDER me (hdr_task_id (hdr p)))
              \<lparr>mode := MODE (mode_old_mode (hdr p))\<rparr>"
  have "same_id l l2" by (simp add: l2_def same_id_def lock_add_holder_def)
  moreover have "l' = l \<or> same_id l2 l'"
    using assms
    by (auto simp: process_grant_with_agent_def Let_def ASSERT_def lock_digest_wq_def l2_def [symmetric]
        same_id_def lock_local_notify_def lock_unmarshal_wq_def digest_loop_eq
        split: if_splits sum.splits)
  ultimately show ?thesis using same_id_trans by auto
qed

lemma release_free_or_transfer_id:
  "release_free_or_transfer me l p = Inr (n, p', l', out) \<Longrightarrow> same_id l l'"
  by (auto simp: release_free_or_transfer_def lock_free_helper_def lock_transfer_helper_def
      same_id_def split: if_splits list.splits)

lemma process_release_id:
  assumes "process_release b me l p = Inr (n, p', l', out)"
  shows "same_id l l'"
proof (cases "lock_out_of_range l")
  case True
  with assms show ?thesis
    by (auto simp: process_release_def Let_def same_id_def split: sum.splits bool.splits list.splits
        dest!: handle_release_lm_id)
next
  case False
  with assms show ?thesis
    by (auto simp: process_release_def Let_def handle_release_def ASSERT_def
        lock_remove_holder_def same_id_def split: if_splits dest!: release_free_or_transfer_id)
qed

lemma process_push_back_id: "process_push_back b l p = Inr (n, p', l', out) \<Longrightarrow> same_id l l'"
  by (auto simp: process_push_back_def Let_def ASSERT_def lock_append_to_wq_def same_id_def
      split: if_splits sum.splits)

lemma lock_packet_process_id:
  "lock_packet_process b None me l p = Inr (n, p', l', out) \<Longrightarrow> same_id l l'"
  by (cases "ptype p")
    (auto simp: lock_packet_process_def process_grant_wo_agent_def ASSERT_def
      dest: process_acquire_id process_grant_with_agent_id process_release_id process_push_back_id
      split: if_splits)

section \<open>Examples\<close>

text \<open>A shared lock of the switch whose agent knows the holder with task 9 on host 2.\<close>

abbreviation example_agent :: innet_lock where
  "example_agent \<equiv> (new_lock 7 5)\<lparr>mode := LOCK_SHARED, is_agent := True, ncnt := 1,
                                     holders := {LOCK_HOLDER 2 9}\<rparr>"

lemmas example_defs = new_lock_def lock_out_of_range_def SWITCH_LOCK_NUM_def send_post_defs
  mk_wqe_def DPDK_TX_BURST_SIZE_def

theorem free_push_back_roundtrip_witness:
  "\<exists>p1 l1. lock_packet_process default_build None 1 example_agent (send_post_release 1 5 2 9) =
       Inr (1, p1, l1, []) \<and> ptype p1 = POST_LOCK_FREE \<and> \<not> is_agent l1 \<and> mode l1 = FREE \<and>
     lock_packet_process default_build None 1 l1 p1 = Inr (0, p1, example_agent\<lparr>holders := {}\<rparr>, [])"
  by (rule free_push_back_roundtrip) (simp_all add: example_defs)

theorem transfer_push_back_roundtrip_witness:
  "\<exists>n p1 l1. 0 < n \<and> lock_packet_process default_build None 1
       (example_agent\<lparr>wqueue := [mk_wqe LOCK_EXCL 3 1, mk_wqe LOCK_EXCL 4 2]\<rparr>)
       (send_post_release 1 5 2 9) = Inr (n, p1, l1, []) \<and>
     ptype p1 = POST_LOCK_TRANSFER \<and> \<not> is_agent l1 \<and> mode l1 = FREE \<and> wqueue l1 = [] \<and>
     lock_packet_process default_build None 1 l1 p1 = Inr (0, p1,
       example_agent\<lparr>wqueue := [mk_wqe LOCK_EXCL 3 1, mk_wqe LOCK_EXCL 4 2], holders := {}\<rparr>, [])"
proof -
  let ?l = "example_agent\<lparr>wqueue := [mk_wqe LOCK_EXCL 3 1, mk_wqe LOCK_EXCL 4 2]\<rparr>"
  have "\<exists>n p1 l1. 0 < n \<and> lock_packet_process default_build None 1 ?l
       (send_post_release 1 5 2 9) = Inr (n, p1, l1, []) \<and>
     ptype p1 = POST_LOCK_TRANSFER \<and> \<not> is_agent l1 \<and> mode l1 = FREE \<and> wqueue l1 = [] \<and>
     lock_packet_process default_build None 1 l1 p1 = Inr (0, p1, ?l\<lparr>holders := {}\<rparr>, [])"
    by (rule transfer_push_back_roundtrip [where w = "mk_wqe LOCK_EXCL 3 1" and ws = "[mk_wqe LOCK_EXCL 4 2]"])
      (simp_all add: example_defs)
  then show ?thesis by simp
qed

theorem transfer_delivers_queue_witness:
  "\<exists>l2 out. lock_packet_process default_build None 1 (new_lock 7 5) (op_transfer_agent
        (fst (snd (projr (lock_transfer_helper 2
          (example_agent\<lparr>wqueue := [mk_wqe LOCK_SHARED 3 1, mk_wqe LOCK_SHARED 4 2]\<rparr>)
          (send_post_release 1 5 2 9)))))) =
        Inr (0, op_transfer_agent (fst (snd (projr (lock_transfer_helper 2
          (example_agent\<lparr>wqueue := [mk_wqe LOCK_SHARED 3 1, mk_wqe LOCK_SHARED 4 2]\<rparr>)
          (send_post_release 1 5 2 9))))), l2, out) \<and>
      is_agent l2 \<and> holders l2 = {LOCK_HOLDER 1 3, LOCK_HOLDER 2 4} \<and> wqueue l2 = []"
proof -
  let ?w = "mk_wqe LOCK_SHARED 3 1" and ?v = "mk_wqe LOCK_SHARED 4 2"
  let ?l = "example_agent\<lparr>wqueue := [?w, ?v]\<rparr>"
  obtain n p1 l1 where h: "lock_transfer_helper 2 ?l (send_post_release 1 5 2 9) = Inr (n, p1, l1)"
    by (simp add: lock_transfer_helper_def)
  have "wqueue ?l = ?w # [?v]" by simp
  from transfer_delivers_queue [OF this _ _ h, of "new_lock 7 5" default_build]
  show ?thesis using h by (auto simp: new_lock_def DPDK_TX_BURST_SIZE_def Collect_conv_if)
qed

theorem early_release_commutes_witness:
  "\<exists>l1 l2 l3. lock_packet_process default_build None 1 example_agent
        ((send_post_acquire 1 2 5 3 4)\<lparr>hdr := (hdr (send_post_acquire 1 2 5 3 4))\<lparr>mode_old_mode := 0x40\<rparr>\<rparr>) =
      Inr (0, (send_post_acquire 1 2 5 3 4)\<lparr>hdr := (hdr (send_post_acquire 1 2 5 3 4))\<lparr>mode_old_mode := 0x40\<rparr>\<rparr>, l1, []) \<and>
      lock_packet_process default_build None 1 l1 (send_post_release 1 5 3 4) =
        Inr (0, send_post_release 1 5 3 4, l3, []) \<and>
      lock_packet_process default_build None 1 example_agent (send_post_release 1 5 3 4) =
        Inr (0, send_post_release 1 5 3 4, l2, []) \<and>
      lock_packet_process default_build None 1 l2
        ((send_post_acquire 1 2 5 3 4)\<lparr>hdr := (hdr (send_post_acquire 1 2 5 3 4))\<lparr>mode_old_mode := 0x40\<rparr>\<rparr>) =
      Inr (0, (send_post_acquire 1 2 5 3 4)\<lparr>hdr := (hdr (send_post_acquire 1 2 5 3 4))\<lparr>mode_old_mode := 0x40\<rparr>\<rparr>, l3, []) \<and>
      l3 = example_agent\<lparr>ncnt := ncnt example_agent + 1\<rparr>"
  by (rule early_release_commutes)
    (simp_all add: example_defs GRANTED_def MODE_def lock_state_of_def)

theorem excl_request_bounces_thrice_witness:
  "\<exists>l1 l2 l3. lock_packet_process default_build None 1 (new_lock 7 5) (send_post_acquire 1 3 5 2 9) =
        Inr (1, send_post_acquire 1 3 5 2 9, l1, []) \<and>
      lock_packet_process default_build None 1 l1 (send_post_acquire 1 3 5 2 9) =
        Inr (1, send_post_acquire 1 3 5 2 9, l2, []) \<and>
      lock_packet_process default_build None 1 l2 (send_post_acquire 1 3 5 2 9) =
        Inr (1, send_post_acquire 1 3 5 2 9, l3, []) \<and>
      lock_packet_process default_build None 1 l3 (send_post_acquire 1 3 5 2 9) =
        Inr (0, send_post_acquire 1 3 5 2 9, (new_lock 7 5)\<lparr>wqueue := wqueue (new_lock 7 5) @
          [mk_wqe LOCK_EXCL (hdr_task_id (hdr (send_post_acquire 1 3 5 2 9)))
             (machine_id (hdr (send_post_acquire 1 3 5 2 9)))]\<rparr>, [])"
  by (rule excl_request_bounces_thrice [where h = "LOCK_HOLDER 2 9"])
    (simp_all add: example_defs MODE_def MODE_OLD_MODE_def lock_state_of_def)

end
