(* ===== verification/Lock_Manager_Spec.thy ===== *)
theory Lock_Manager_Spec
  imports Fiss_Types
begin

text \<open>
  What a reader-writer lock manager promises, stated once for the managers of the
  repository: the lock manager of FissLock hosts for locks outside the switch (lib/lock.cc),
  the ParLock server queue (baseline/ParLock), the NetLock server queue
  and the NetLock switch (baseline/NetLock).

  The specification watches the requests from outside. A ghost state records which requests
  are outstanding (submitted and not yet released) with the access they asked for, and which
  of them own the lock, that is, have been sent a grant. A manager is correct when its grants
  keep this ghost state safe (an exclusive owner is the only owner), live (outstanding
  requests imply an owner) and never grant a request twice.
\<close>

section \<open>Outstanding requests and owners\<close>

datatype access = Rd | Wr

record 'r ghost =
  wants :: "'r \<rightharpoonup> access"
  owned :: "'r set"

definition g_init :: "'r ghost" where
  "g_init = \<lparr>wants = Map.empty, owned = {}\<rparr>"

definition g_acq :: "'r \<Rightarrow> access \<Rightarrow> 'r list \<Rightarrow> 'r ghost \<Rightarrow> 'r ghost" where
  "g_acq r a G g = \<lparr>wants = (wants g)(r \<mapsto> a), owned = owned g \<union> set G\<rparr>"

definition g_rel :: "'r \<Rightarrow> 'r list \<Rightarrow> 'r ghost \<Rightarrow> 'r ghost" where
  "g_rel r G g = \<lparr>wants = (wants g)(r := None), owned = (owned g - {r}) \<union> set G\<rparr>"

definition g_safe :: "'r ghost \<Rightarrow> bool" where
  "g_safe g \<longleftrightarrow> owned g \<subseteq> dom (wants g) \<and> (\<forall>r \<in> owned g. wants g r = Some Wr \<longrightarrow> owned g = {r})"

definition g_live :: "'r ghost \<Rightarrow> bool" where
  "g_live g \<longleftrightarrow> (owned g = {} \<longrightarrow> wants g = Map.empty)"

text \<open>The grants of a step go to waiting requests, each at most once.\<close>

definition g_fresh :: "'r list \<Rightarrow> 'r ghost \<Rightarrow> 'r ghost \<Rightarrow> bool" where
  "g_fresh G g g' \<longleftrightarrow> distinct G \<and> set G \<subseteq> dom (wants g') \<and> set G \<inter> owned g = {}"

text \<open>The lock is owned by one writer.\<close>

definition sole_writer :: "'r ghost \<Rightarrow> bool" where
  "sole_writer g \<longleftrightarrow> (\<exists>r. owned g = {r} \<and> wants g r = Some Wr)"

lemma ghost_sel [simp]:
  "wants (g_acq r a G g) = (wants g)(r \<mapsto> a)" "owned (g_acq r a G g) = owned g \<union> set G"
  "wants (g_rel r G g) = (wants g)(r := None)" "owned (g_rel r G g) = (owned g - {r}) \<union> set G"
  "wants g_init = Map.empty" "owned g_init = {}"
  by (simp_all add: g_acq_def g_rel_def g_init_def)

lemma sole_writer_no_grant:
  "sole_writer g \<Longrightarrow> r \<notin> owned g \<Longrightarrow> sole_writer (g_acq r a [] g)"
  "sole_writer g \<Longrightarrow> r \<notin> owned g \<Longrightarrow> sole_writer (g_rel r [] g)"
  by (force simp: sole_writer_def)+

lemma sole_writer_grant:
  "owned g = {} \<Longrightarrow> sole_writer (g_acq r Wr [r] g)"
  "owned g = {r} \<Longrightarrow> wants g x = Some Wr \<Longrightarrow> x \<noteq> r \<Longrightarrow> sole_writer (g_rel r [x] g)"
  by (auto simp: sole_writer_def)

lemma sole_writer_owner:
  "sole_writer g \<Longrightarrow> r \<in> owned g \<Longrightarrow> owned g = {r} \<and> wants g r = Some Wr"
  by (auto simp: sole_writer_def)

section \<open>Runs\<close>

text \<open>
  The states a manager reaches under any interleaving of admitted acquires and of releases
  by owners, with the ghost state the grants produce. With \<open>aborts\<close>, requests that still
  wait may be released as well, by a client that gives up.
\<close>

inductive mgr_reach ::
  "bool \<Rightarrow> 's \<Rightarrow> ('r \<Rightarrow> access \<Rightarrow> 's \<Rightarrow> ('s \<times> 'r list) option)
     \<Rightarrow> ('r \<Rightarrow> access \<Rightarrow> 's \<Rightarrow> ('s \<times> 'r list) option) \<Rightarrow> ('r \<Rightarrow> 'r ghost \<Rightarrow> bool)
     \<Rightarrow> 's \<Rightarrow> 'r ghost \<Rightarrow> bool"
  for aborts init acq rel admits where
  start: "mgr_reach aborts init acq rel admits init g_init"
| acquire: "mgr_reach aborts init acq rel admits s g \<Longrightarrow> admits r g \<Longrightarrow> wants g r = None \<Longrightarrow>
    acq r a s = Some (s', G) \<Longrightarrow> mgr_reach aborts init acq rel admits s' (g_acq r a G g)"
| release: "mgr_reach aborts init acq rel admits s g \<Longrightarrow> wants g r = Some a \<Longrightarrow>
    r \<in> owned g \<or> aborts \<Longrightarrow> rel r a s = Some (s', G) \<Longrightarrow>
    mgr_reach aborts init acq rel admits s' (g_rel r G g)"

text \<open>
  A request is granted on every schedule on which the owners release in any order and no
  new request arrives: it owns the lock, or the lock has an owner and whichever owner
  releases next, the release succeeds and the same holds afterwards.
\<close>

inductive inevitable ::
  "('r \<Rightarrow> access \<Rightarrow> 's \<Rightarrow> ('s \<times> 'r list) option) \<Rightarrow> 'r \<Rightarrow> 's \<Rightarrow> 'r ghost \<Rightarrow> bool" for rel r where
  now: "r \<in> owned g \<Longrightarrow> inevitable rel r s g"
| later: "owned g \<noteq> {} \<Longrightarrow>
    (\<And>x. x \<in> owned g \<Longrightarrow>
       \<exists>s' G. rel x (the (wants g x)) s = Some (s', G) \<and> inevitable rel r s' (g_rel x G g)) \<Longrightarrow>
    inevitable rel r s g"

section \<open>The interface\<close>

text \<open>
  A manager has a state, handlers for an acquire and a release that return the new state
  and the requests granted by the step (or fail), a predicate saying when the environment
  may submit a request, and an invariant that couples its state with the ghost state.
\<close>

locale lock_manager =
  fixes init :: 's
    and acq :: "'r \<Rightarrow> access \<Rightarrow> 's \<Rightarrow> ('s \<times> 'r list) option"
    and rel :: "'r \<Rightarrow> access \<Rightarrow> 's \<Rightarrow> ('s \<times> 'r list) option"
    and admits :: "'r \<Rightarrow> 'r ghost \<Rightarrow> bool"
    and coupled :: "'s \<Rightarrow> 'r ghost \<Rightarrow> bool"
  assumes init_coupled: "coupled init g_init"
    and acq_coupled: "coupled s g \<Longrightarrow> admits r g \<Longrightarrow> wants g r = None \<Longrightarrow>
      \<exists>s' G. acq r a s = Some (s', G) \<and> g_fresh G g (g_acq r a G g) \<and> coupled s' (g_acq r a G g)"
    and rel_coupled: "coupled s g \<Longrightarrow> r \<in> owned g \<Longrightarrow> wants g r = Some a \<Longrightarrow>
      \<exists>s' G. rel r a s = Some (s', G) \<and> g_fresh G g (g_rel r G g) \<and> coupled s' (g_rel r G g)"
    and coupled_safe: "coupled s g \<Longrightarrow> g_safe g"
    and coupled_live: "coupled s g \<Longrightarrow> g_live g"
    and coupled_finite: "coupled s g \<Longrightarrow> finite (dom (wants g))"
begin

abbreviation reach :: "'s \<Rightarrow> 'r ghost \<Rightarrow> bool" where
  "reach \<equiv> mgr_reach False init acq rel admits"

lemma acquire_coupled:
  "coupled s g \<Longrightarrow> admits r g \<Longrightarrow> wants g r = None \<Longrightarrow> acq r a s = Some (s', G) \<Longrightarrow>
   coupled s' (g_acq r a G g)"
  using acq_coupled [of s g r a] by auto

lemma release_coupled:
  "coupled s g \<Longrightarrow> r \<in> owned g \<Longrightarrow> wants g r = Some a \<Longrightarrow> rel r a s = Some (s', G) \<Longrightarrow>
   coupled s' (g_rel r G g)"
  using rel_coupled [of s g r a] by auto

lemma reach_coupled: "reach s g \<Longrightarrow> coupled s g"
  by (induction rule: mgr_reach.induct) (auto intro: init_coupled acquire_coupled release_coupled)

lemma coupled_mutual_exclusion:
  "coupled s g \<Longrightarrow> r \<in> owned g \<Longrightarrow> wants g r = Some Wr \<Longrightarrow> owned g = {r}"
  using coupled_safe unfolding g_safe_def by blast

lemma mutual_exclusion:
  "reach s g \<Longrightarrow> r \<in> owned g \<Longrightarrow> wants g r = Some Wr \<Longrightarrow> owned g = {r}"
  using coupled_mutual_exclusion [OF reach_coupled] .

lemma coupled_acquire_succeeds:
  "coupled s g \<Longrightarrow> admits r g \<Longrightarrow> wants g r = None \<Longrightarrow>
   \<exists>s' G. acq r a s = Some (s', G) \<and> g_fresh G g (g_acq r a G g)"
  using acq_coupled by blast

lemma coupled_release_succeeds:
  assumes "coupled s g" "r \<in> owned g"
  shows "\<exists>s' G. rel r (the (wants g r)) s = Some (s', G) \<and> g_fresh G g (g_rel r G g)"
proof -
  obtain a where a: "wants g r = Some a" using coupled_safe [OF assms(1)] assms(2) by (auto simp: g_safe_def)
  with rel_coupled [OF assms a] show ?thesis by auto
qed

lemma coupled_inevitable:
  "coupled s g \<Longrightarrow> wants g r \<noteq> None \<Longrightarrow> inevitable rel r s g"
proof (induction "card (dom (wants g))" arbitrary: s g rule: less_induct)
  case less
  show ?case
  proof (cases "r \<in> owned g")
    case True
    then show ?thesis by (rule inevitable.now)
  next
    case False
    show ?thesis
    proof (rule inevitable.later)
      show "owned g \<noteq> {}"
        using coupled_live [OF less.prems(1)] less.prems(2) by (auto simp: g_live_def)
      fix x assume x: "x \<in> owned g"
      then obtain a where a: "wants g x = Some a"
        using coupled_safe [OF less.prems(1)] by (auto simp: g_safe_def)
      obtain s' G where s': "rel x a s = Some (s', G)" "coupled s' (g_rel x G g)"
        using rel_coupled [OF less.prems(1) x a] by blast
      have "x \<in> dom (wants g)" using a by auto
      then have "card (dom (wants (g_rel x G g))) < card (dom (wants g))"
        using card_Diff1_less [OF coupled_finite [OF less.prems(1)]] by simp
      moreover have "wants (g_rel x G g) r \<noteq> None" using False x less.prems(2) by auto
      ultimately show "\<exists>s' G. rel x (the (wants g x)) s = Some (s', G) \<and> inevitable rel r s' (g_rel x G g)"
        using less.hyps s' a by auto
    qed
  qed
qed

lemma every_request_granted: "reach s g \<Longrightarrow> wants g r \<noteq> None \<Longrightarrow> inevitable rel r s g"
  using coupled_inevitable [OF reach_coupled] by blast

end

text \<open>A manager whose clients may give up: the release of a waiting request withdraws it.\<close>

locale abortable_lock_manager = lock_manager +
  assumes abort_coupled: "coupled s g \<Longrightarrow> r \<notin> owned g \<Longrightarrow> wants g r = Some a \<Longrightarrow>
      \<exists>s'. rel r a s = Some (s', []) \<and> coupled s' (g_rel r [] g)"
begin

abbreviation reach_ab where
  "reach_ab \<equiv> mgr_reach True init acq rel admits"

lemma reach_ab_coupled: "reach_ab s g \<Longrightarrow> coupled s g"
proof (induction rule: mgr_reach.induct)
  case (release s g r a s' G)
  then show ?case
    using release_coupled [of s g r a s' G] abort_coupled [of s g r a] by (cases "r \<in> owned g") auto
qed (auto intro: init_coupled acquire_coupled)

lemma mutual_exclusion_ab:
  "reach_ab s g \<Longrightarrow> r \<in> owned g \<Longrightarrow> wants g r = Some Wr \<Longrightarrow> owned g = {r}"
  using coupled_mutual_exclusion [OF reach_ab_coupled] .

lemma every_request_granted_ab: "reach_ab s g \<Longrightarrow> wants g r \<noteq> None \<Longrightarrow> inevitable rel r s g"
  using coupled_inevitable [OF reach_ab_coupled] by blast

end

section \<open>Queues of waiting requests\<close>

text \<open>
  What all managers keep: the queue holds exactly the requests that wait, each once, under
  a key that identifies the request and with the operator of the access it asked for.
\<close>

fun access_op :: "access \<Rightarrow> lock_state" where
  "access_op Rd = LOCK_SHARED"
| "access_op Wr = LOCK_EXCL"

lemma access_op_ops: "access_op a = LOCK_SHARED \<or> access_op a = LOCK_EXCL"
  by (cases a) simp_all

lemma access_op_shared [simp]: "access_op a = LOCK_SHARED \<longleftrightarrow> a = Rd"
  and access_op_excl [simp]: "access_op a = LOCK_EXCL \<longleftrightarrow> a = Wr"
  by (cases a; simp)+

definition queue_coupled :: "('e \<Rightarrow> 'r) \<Rightarrow> ('e \<Rightarrow> lock_state) \<Rightarrow> 'e list \<Rightarrow> 'r ghost \<Rightarrow> bool" where
  "queue_coupled key op q g \<longleftrightarrow>
     distinct (map key q) \<and> key ` set q = dom (wants g) - owned g \<and>
     (\<forall>w \<in> set q. \<exists>a. wants g (key w) = Some a \<and> op w = access_op a)"

lemma queue_coupled_D:
  assumes "queue_coupled key op q g" "w \<in> set q"
  shows "key w \<notin> owned g" "\<exists>a. wants g (key w) = Some a \<and> op w = access_op a"
    and "op w = LOCK_SHARED \<Longrightarrow> wants g (key w) = Some Rd"
    and "op w \<noteq> LOCK_SHARED \<Longrightarrow> wants g (key w) = Some Wr \<and> op w = LOCK_EXCL"
proof -
  show "key w \<notin> owned g" using assms by (auto simp: queue_coupled_def)
  show a: "\<exists>a. wants g (key w) = Some a \<and> op w = access_op a" using assms by (simp add: queue_coupled_def)
  show "op w = LOCK_SHARED \<Longrightarrow> wants g (key w) = Some Rd"
    using a by (metis access_op_shared)
  show "op w \<noteq> LOCK_SHARED \<Longrightarrow> wants g (key w) = Some Wr \<and> op w = LOCK_EXCL"
    using a by (metis access.exhaust access_op.simps)
qed

lemma queue_coupled_append:
  assumes "queue_coupled key op q g" "wants g r = None" "owned g \<subseteq> dom (wants g)"
    and "key e = r" "op e = access_op a"
  shows "queue_coupled key op (q @ [e]) (g_acq r a [] g)"
proof -
  have "r \<notin> key ` set q" using assms(1,2) by (auto simp: queue_coupled_def)
  moreover have "key ` set q = dom (wants g) - owned g" using assms(1) by (simp add: queue_coupled_def)
  ultimately show ?thesis using assms by (auto simp: queue_coupled_def)
qed

text \<open>An acquire that is granted at once, and a release or abort that grants nothing.\<close>

lemma queue_coupled_grant:
  assumes "queue_coupled key op q g" "wants g r = None" "owned g \<subseteq> dom (wants g)"
  shows "queue_coupled key op q (g_acq r a [r] g)"
proof -
  have "key w \<noteq> r" if "w \<in> set q" for w
    using assms(1,2) that by (auto simp: queue_coupled_def)
  then show ?thesis using assms by (auto simp: queue_coupled_def)
qed

lemma queue_coupled_rel:
  assumes "queue_coupled key op q g" "r \<in> owned g" "owned g \<subseteq> dom (wants g)"
  shows "queue_coupled key op q (g_rel r [] g)"
proof -
  have "key w \<noteq> r" if "w \<in> set q" for w
    using assms(1,2) that by (auto simp: queue_coupled_def)
  then show ?thesis using assms by (auto simp: queue_coupled_def)
qed

lemma queue_coupled_abort:
  assumes "queue_coupled key op q g" "r \<notin> owned g"
  shows "queue_coupled key op (filter (\<lambda>w. key w \<noteq> r) q) (g_rel r [] g)"
proof -
  have "key ` set (filter (\<lambda>w. key w \<noteq> r) q) = key ` set q - {r}" by (rule image_filter_neq)
  with assms show ?thesis
    by (auto simp: queue_coupled_def distinct_map_filter_key)
qed

text \<open>Granting some queued requests moves them from the queue to the owners.\<close>

lemma queue_coupled_take:
  assumes "queue_coupled key op q g" and "G = map key (filter P q)" and "r \<in> owned g"
  shows "queue_coupled key op (filter (\<lambda>w. \<not> P w) q) (g_rel r G g)" and "g_fresh G g (g_rel r G g)"
proof -
  have inj: "inj_on key (set q)" and q: "distinct (map key q)" "key ` set q = dom (wants g) - owned g"
    using assms(1) by (auto simp: queue_coupled_def distinct_map)
  have nr: "key w \<noteq> r" "key w \<notin> owned g" "key w \<in> dom (wants g)" if "w \<in> set q" for w
    using q(2) assms(3) that by auto
  have "set G \<subseteq> key ` set q" using assms(2) by auto
  then have G: "set G \<subseteq> dom (wants g) - owned g" by (simp only: q(2))
  have "key ` {w \<in> set q. \<not> P w} = key ` set q - key ` {w \<in> set q. P w}"
    using inj by (auto simp: inj_on_def)
  then show "queue_coupled key op (filter (\<lambda>w. \<not> P w) q) (g_rel r G g)"
    using assms nr q distinct_map_filter_key [OF q(1)] by (auto simp: queue_coupled_def)
  show "g_fresh G g (g_rel r G g)"
    using assms(2,3) G distinct_map_filter_key [OF q(1)] by (auto simp: g_fresh_def)
qed

lemma queue_coupled_head:
  assumes "queue_coupled key op (w # ws) g" "r \<in> owned g"
  shows "queue_coupled key op ws (g_rel r [key w] g)" "g_fresh [key w] g (g_rel r [key w] g)"
proof -
  have "w \<notin> set ws" using assms(1) by (auto simp: queue_coupled_def)
  then have "filter (\<lambda>v. v = w) (w # ws) = [w]" "filter (\<lambda>v. v \<noteq> w) (w # ws) = ws"
    by (auto simp: filter_empty_conv intro: filter_True)
  then show "queue_coupled key op ws (g_rel r [key w] g)" "g_fresh [key w] g (g_rel r [key w] g)"
    using queue_coupled_take [OF assms(1) refl assms(2), where P = "\<lambda>v. v = w"] by simp_all
qed

lemma queue_coupled_empty:
  assumes "queue_coupled key op [] g" "owned g = {r}" "owned g \<subseteq> dom (wants g)"
  shows "(wants g)(r := None) = Map.empty"
proof -
  have "dom (wants g) = {r}" using assms by (auto simp: queue_coupled_def)
  then have "dom ((wants g)(r := None)) = {}" by simp
  then show ?thesis by (simp only: dom_eq_empty_conv)
qed

lemma queue_length:
  assumes "queue_coupled key op q g" "owned g \<noteq> {}" "owned g \<subseteq> dom (wants g)" "finite (dom (wants g))"
  shows "length q < card (dom (wants g))"
proof -
  have "length q = card (set (map key q))"
    using assms(1) by (metis distinct_card length_map queue_coupled_def)
  also have "\<dots> = card (dom (wants g) - owned g)" using assms(1) by (simp add: queue_coupled_def)
  also have "\<dots> < card (dom (wants g))"
    using assms(2,3,4) by (intro psubset_card_mono) auto
  finally show ?thesis .
qed

end
