(* ===== verification/Fiss_Lock_Manager.thy ===== *)
theory Fiss_Lock_Manager
  imports Fiss_Lock_Packet Lock_Manager_Spec
begin

text \<open>
  The lock manager that a host runs for the locks the switch has no room for: the packet
  processor of lib/lock.cc on the acquire and release posts that clients fabricate for such
  a lock. It implements the interface of a reader-writer lock manager, for tasks that fit
  the 30 bits of a wait queue entry and for as many requests as one batch of grants holds.
\<close>

section \<open>The manager as a state machine\<close>

type_synonym request = "host_id \<times> task_id"

definition req_holder :: "request \<Rightarrow> lock_holder" where
  "req_holder r = LOCK_HOLDER (fst r) (snd r)"

definition wqe_req :: "wqe \<Rightarrow> request" where
  "wqe_req w = (wq_host w, wqe_task w)"

text \<open>
  The requests granted by a step: the addressees of the grant posts among the packet that is
  sent back, if any, and the posts that were sent on the way.
\<close>

definition granted_requests :: "processed \<Rightarrow> request list" where
  "granted_requests r =
     (case r of (n, p, l, out) \<Rightarrow>
        map (\<lambda>q. (machine_id (hdr q), hdr_task_id (hdr q)))
          (filter (\<lambda>q. ptype q = POST_LOCK_GRANT_WO_AGENT) ((if n \<noteq> 0 then [p] else []) @ out)))"

definition lm_result :: "fl_error + processed \<Rightarrow> (innet_lock \<times> request list) option" where
  "lm_result x =
     (case x of Inl e \<Rightarrow> None | Inr r \<Rightarrow> Some (fst (snd (snd r)), granted_requests r))"

definition lm_acq :: "build \<Rightarrow> host_id \<Rightarrow> request \<Rightarrow> access \<Rightarrow> innet_lock
    \<Rightarrow> (innet_lock \<times> request list) option" where
  "lm_acq b me r a l =
     lm_result (lock_packet_process b None me l
       (send_post_acquire_lm (fst r) (lock_state_code (access_op a)) (lid l) me (snd r)))"

definition lm_rel :: "build \<Rightarrow> host_id \<Rightarrow> request \<Rightarrow> access \<Rightarrow> innet_lock
    \<Rightarrow> (innet_lock \<times> request list) option" where
  "lm_rel b me r a l =
     lm_result (lock_packet_process b None me l
       (send_post_release_lm (lid l) (fst r) (snd r) me))"

definition lm_admits :: "request \<Rightarrow> request ghost \<Rightarrow> bool" where
  "lm_admits r g \<longleftrightarrow> unat (snd r) < 2 ^ 30 \<and> card (dom (wants g)) \<le> DPDK_TX_BURST_SIZE"

section \<open>Effect of the two posts\<close>

lemma wqe_req_mk_wqe: "unat t < 2 ^ 30 \<Longrightarrow> wqe_req (mk_wqe op t h) = (h, t)"
  by (simp only: wqe_req_def wqe_task_mk_wqe) simp

lemma req_holder_wqe_req: "req_holder (wqe_req w) = wqe_holder w"
  by (simp add: req_holder_def wqe_req_def wqe_holder_def)

lemma inj_req_holder: "inj req_holder"
  by (rule injI) (auto simp: req_holder_def prod_eq_iff)

lemma lm_acq_eq:
  assumes "lock_out_of_range l"
  shows "lm_acq b me r a l =
    (if mode l = FREE \<or> mode l = LOCK_SHARED \<and> a = Rd
     then Some (l\<lparr>mode := access_op a, holders := insert (req_holder r) (holders l)\<rparr>, [r])
     else Some (l\<lparr>wqueue := wqueue l @ [mk_wqe (access_op a) (snd r) (fst r)]\<rparr>, []))"
proof -
  let ?p = "send_post_acquire_lm (fst r) (lock_state_code (access_op a)) (lid l) me (snd r)"
  have "MODE (mode_old_mode (hdr ?p)) = access_op a"
    using MODE_roundtrip [OF access_op_ops [of a], of 0] by (simp add: send_post_defs)
  moreover have "ptype ?p = POST_LOCK_ACQUIRE" "machine_id (hdr ?p) = fst r" "hdr_task_id (hdr ?p) = snd r"
    by (simp_all add: send_post_defs)
  ultimately show ?thesis using assms
    by (cases l) (auto simp: lm_acq_def lock_packet_process_def process_acquire_def Let_def
        handle_acquire_lm_def lock_add_holder_def lock_append_to_wq_def lm_result_def
        granted_requests_def req_holder_def)
qed

lemma lm_rel_eq:
  assumes "lock_out_of_range l"
  shows "lm_rel b me r a l =
    (if holders l - {req_holder r} \<noteq> {}
     then Some (l\<lparr>holders := holders l - {req_holder r}\<rparr>, [])
     else case wqueue l of
       [] \<Rightarrow> Some (l\<lparr>holders := {}, mode := FREE\<rparr>, [])
     | w # ws \<Rightarrow>
         (if wq_op w = LOCK_SHARED then
            (if length (wqueue l) \<le> DPDK_TX_BURST_SIZE
             then Some (l\<lparr>mode := LOCK_SHARED,
                          holders := wqe_holder ` {v \<in> set (wqueue l). wq_op v = LOCK_SHARED},
                          wqueue := filter (\<lambda>v. wq_op v \<noteq> LOCK_SHARED) (wqueue l)\<rparr>,
                        map wqe_req (filter (\<lambda>v. wq_op v = LOCK_SHARED) (wqueue l)))
             else None)
          else Some (l\<lparr>holders := {}, mode := wq_op w, wqueue := ws\<rparr>, [wqe_req w])))"
proof -
  let ?p = "send_post_release_lm (lid l) (fst r) (snd r) me"
  have p: "ptype ?p = POST_LOCK_RELEASE" "machine_id (hdr ?p) = fst r" "hdr_task_id (hdr ?p) = snd r"
    by (simp_all add: send_post_defs)
  have rel: "lm_rel b me r a l = lm_result (process_release b me l ?p)"
    by (simp add: lm_rel_def lock_packet_process_def p)
  note defs = process_release_def p Let_def lm_result_def granted_requests_def
  show ?thesis
  proof (cases "holders l - {req_holder r} = {}")
    case False
    then have "handle_release_lm l (fst r) (snd r) = Inr (False, l\<lparr>holders := holders l - {req_holder r}\<rparr>, [])"
      by (simp add: handle_release_lm_def Let_def lock_remove_holder_def lock_no_holders_def req_holder_def)
    with False assms show ?thesis by (simp add: rel defs)
  next
    case True
    then have rm: "lock_remove_holder l (LOCK_HOLDER (fst r) (snd r)) = l\<lparr>holders := {}\<rparr>"
      unfolding lock_remove_holder_def req_holder_def by simp
    show ?thesis
    proof (cases "wqueue l")
      case Nil
      with True have "handle_release_lm l (fst r) (snd r) = Inr (False, l\<lparr>holders := {}, mode := FREE\<rparr>, [])"
        by (simp add: handle_release_lm_def Let_def lock_remove_holder_def lock_no_holders_def req_holder_def)
      with True Nil assms show ?thesis by (simp add: rel defs)
    next
      case (Cons w ws)
      have "handle_release_lm l (fst r) (snd r) =
         (if wq_op w = LOCK_SHARED then
            (if DPDK_TX_BURST_SIZE < length (wqueue l) then Inl Out_of_bounds
             else Inr (False, l\<lparr>mode := LOCK_SHARED,
                  holders := wqe_holder ` {v \<in> set (wqueue l). wq_op v = LOCK_SHARED},
                  wqueue := filter (\<lambda>v. wq_op v \<noteq> LOCK_SHARED) (wqueue l)\<rparr>,
                map (digest_grant l) (filter (\<lambda>v. wq_op v = LOCK_SHARED) (wqueue l))))
          else Inr (True, l\<lparr>holders := {}, mode := wq_op w\<rparr>, []))"
        using Cons
        by (simp add: handle_release_lm_def Let_def rm lock_no_holders_def lock_digest_wq_def digest_loop_eq)
      with True Cons assms show ?thesis
        by (auto simp: rel defs wqe_req_def [abs_def] comp_def filter_map)
    qed
  qed
qed


section \<open>Coupling with the specification\<close>

definition mode_coupled :: "innet_lock \<Rightarrow> request ghost \<Rightarrow> bool" where
  "mode_coupled l g \<longleftrightarrow>
     (case mode l of
        FREE \<Rightarrow> wants g = Map.empty \<and> owned g = {} \<and> holders l = {} \<and> wqueue l = []
      | RELEASE \<Rightarrow> False
      | LOCK_SHARED \<Rightarrow> owned g \<noteq> {} \<and> holders l = req_holder ` owned g \<and>
          (\<forall>r \<in> owned g. wants g r = Some Rd) \<and> (\<forall>w \<in> set (wqueue l). wq_op w = LOCK_EXCL)
      | LOCK_EXCL \<Rightarrow> (\<exists>r. owned g = {r} \<and> wants g r = Some Wr \<and> holders l \<subseteq> {req_holder r}))"

abbreviation wq_coupled :: "wqe list \<Rightarrow> request ghost \<Rightarrow> bool" where
  "wq_coupled \<equiv> queue_coupled wqe_req wq_op"

definition lm_coupled :: "innet_lock \<Rightarrow> request ghost \<Rightarrow> bool" where
  "lm_coupled l g \<longleftrightarrow> lock_out_of_range l \<and> wq_coupled (wqueue l) g \<and> mode_coupled l g \<and>
     owned g \<subseteq> dom (wants g) \<and> finite (dom (wants g)) \<and>
     card (dom (wants g)) \<le> Suc DPDK_TX_BURST_SIZE"

lemma lm_acq_coupled:
  assumes c: "lm_coupled l g" and "lm_admits r g" "wants g r = None"
  shows "\<exists>l' G. lm_acq b me r a l = Some (l', G) \<and> g_fresh G g (g_acq r a G g) \<and> lm_coupled l' (g_acq r a G g)"
proof -
  have o: "lock_out_of_range l" "wq_coupled (wqueue l) g" "mode_coupled l g"
    "owned g \<subseteq> dom (wants g)" "finite (dom (wants g))"
    using c by (simp_all add: lm_coupled_def)
  have t: "unat (snd r) < 2 ^ 30" and n: "card (dom (wants g)) \<le> DPDK_TX_BURST_SIZE"
    using assms(2) by (simp_all add: lm_admits_def)
  have card: "card (dom ((wants g)(r \<mapsto> a))) \<le> Suc DPDK_TX_BURST_SIZE"
    using n by (simp add: card_insert_if o(5))
  have nr: "r \<notin> owned g" using o(4) assms(3) by auto
  have w: "wqe_req (mk_wqe (access_op a) (snd r) (fst r)) = r"
    using wqe_req_mk_wqe [OF t, of "access_op a" "fst r"] by simp
  show ?thesis
  proof (cases "mode l = FREE \<or> mode l = LOCK_SHARED \<and> a = Rd")
    case True
    let ?l = "l\<lparr>mode := access_op a, holders := insert (req_holder r) (holders l)\<rparr>"
    have "mode_coupled ?l (g_acq r a [r] g)"
      using True o(3) by (cases a) (auto simp: mode_coupled_def)
    then have "lm_coupled ?l (g_acq r a [r] g)"
      using o card queue_coupled_grant [OF o(2) assms(3) o(4)]
      by (auto simp: lm_coupled_def lock_out_of_range_def)
    then show ?thesis using True nr by (simp add: lm_acq_eq [OF o(1)] g_fresh_def)
  next
    case False
    let ?l = "l\<lparr>wqueue := wqueue l @ [mk_wqe (access_op a) (snd r) (fst r)]\<rparr>"
    have "\<forall>x \<in> owned g. x \<noteq> r" using nr by auto
    then have "mode_coupled ?l (g_acq r a [] g)"
      using False o(3) by (cases a) (fastforce simp: mode_coupled_def split: lock_state.splits)+
    then have "lm_coupled ?l (g_acq r a [] g)"
      using o card queue_coupled_append [OF o(2) assms(3) o(4) w wq_op_mk_wqe]
      by (auto simp: lm_coupled_def lock_out_of_range_def)
    then show ?thesis using False by (auto simp: lm_acq_eq [OF o(1)] g_fresh_def)
  qed
qed


text \<open>
  A release that leaves an owner, that empties the manager, that lets every queued reader in,
  and that hands the lock to the next writer.
\<close>

lemma lm_coupled_relI:
  assumes "lm_coupled l g" "r \<in> owned g" "lid l' = lid l"
    and "wq_coupled (wqueue l') (g_rel r G g)" "mode_coupled l' (g_rel r G g)"
    and "g_fresh G g (g_rel r G g)"
  shows "lm_coupled l' (g_rel r G g)"
proof -
  have "card (dom (wants g) - {r}) \<le> Suc DPDK_TX_BURST_SIZE"
    using card_Diff1_le [of "dom (wants g)" r] assms(1) by (simp add: lm_coupled_def)
  then show ?thesis
    using assms by (auto simp: lm_coupled_def lock_out_of_range_def g_fresh_def)
qed

lemma mode_coupled_holders:
  assumes "mode_coupled l g" "r \<in> owned g"
  shows "holders l - {req_holder r} = req_holder ` (owned g - {r})"
    and "owned g \<noteq> {r} \<Longrightarrow> mode l = LOCK_SHARED"
  using assms inj_req_holder by (auto simp: mode_coupled_def inj_eq split: lock_state.splits)

lemma mode_coupled_readers:
  assumes "wq_coupled (wqueue l) g" "owned g = {r}" "w \<in> set (wqueue l)" "wq_op w = LOCK_SHARED"
    and "G = map wqe_req (filter (\<lambda>v. wq_op v = LOCK_SHARED) (wqueue l))"
  shows "mode_coupled (l\<lparr>mode := LOCK_SHARED, holders := wqe_holder ` {v \<in> set (wqueue l). wq_op v = LOCK_SHARED},
            wqueue := filter (\<lambda>v. wq_op v \<noteq> LOCK_SHARED) (wqueue l)\<rparr>) (g_rel r G g)"
proof -
  let ?S = "{v \<in> set (wqueue l). wq_op v = LOCK_SHARED}"
  have G: "set G = wqe_req ` ?S" using assms(5) by auto
  have "wants g x = Some Rd \<and> x \<noteq> r" if "x \<in> set G" for x
    using queue_coupled_D(1,3) [OF assms(1)] assms(2) that unfolding G by fastforce
  moreover have "wq_op v = LOCK_EXCL" if "v \<in> set (wqueue l)" "wq_op v \<noteq> LOCK_SHARED" for v
    using queue_coupled_D(4) [OF assms(1) that] by simp
  moreover have "set G \<noteq> {}" using assms(3,4) unfolding G by auto
  moreover have "wqe_holder ` ?S = req_holder ` set G"
    unfolding G image_image by (simp only: req_holder_wqe_req)
  ultimately show ?thesis using assms(2) by (simp add: mode_coupled_def)
qed

lemma mode_coupled_writer:
  assumes "wq_coupled (w # ws) g" "owned g = {r}" "wq_op w \<noteq> LOCK_SHARED"
  shows "mode_coupled (l\<lparr>holders := {}, mode := wq_op w, wqueue := ws\<rparr>) (g_rel r [wqe_req w] g)"
  using queue_coupled_D(1) [OF assms(1), of w] queue_coupled_D(4) [OF assms(1) _ assms(3)] assms(2)
  by (auto simp: mode_coupled_def)

lemma lm_rel_coupled:
  assumes c: "lm_coupled l g" and r: "r \<in> owned g"
  shows "\<exists>l' G. lm_rel b me r a l = Some (l', G) \<and> g_fresh G g (g_rel r G g) \<and> lm_coupled l' (g_rel r G g)"
proof -
  have o: "lock_out_of_range l" "wq_coupled (wqueue l) g" "mode_coupled l g"
    "owned g \<subseteq> dom (wants g)" "finite (dom (wants g))" "card (dom (wants g)) \<le> Suc DPDK_TX_BURST_SIZE"
    using c by (simp_all add: lm_coupled_def)
  have len: "length (wqueue l) \<le> DPDK_TX_BURST_SIZE"
    using queue_length [OF o(2) _ o(4,5)] r o(6) by fastforce
  note hold = mode_coupled_holders [OF o(3) r] and coupledI = lm_coupled_relI [OF c r]
  show ?thesis
  proof (cases "owned g = {r}")
    case False
    then have "owned g - {r} \<noteq> {}" using r by auto
    moreover from this have "mode_coupled (l\<lparr>holders := holders l - {req_holder r}\<rparr>) (g_rel r [] g)"
      using hold(2) [OF False] o(3) hold(1) by (auto simp: mode_coupled_def)
    ultimately show ?thesis using hold(1) queue_coupled_rel [OF o(2) r o(4)]
      by (auto simp: lm_rel_eq [OF o(1)] g_fresh_def intro!: coupledI)
  next
    case own: True
    then have none: "holders l - {req_holder r} = {}" using hold(1) by simp
    show ?thesis
    proof (cases "wqueue l")
      case Nil
      then have "(wants g)(r := None) = Map.empty"
        using queue_coupled_empty [of wqe_req wq_op g r] o own by simp
      then have "mode_coupled (l\<lparr>holders := {}, mode := FREE\<rparr>) (g_rel r [] g)"
        using own Nil by (simp add: mode_coupled_def)
      then show ?thesis using none Nil o queue_coupled_rel [OF o(2) r o(4)]
        by (auto simp: lm_rel_eq [OF o(1)] g_fresh_def intro!: coupledI)
    next
      case (Cons w ws)
      let ?G = "map wqe_req (filter (\<lambda>v. wq_op v = LOCK_SHARED) (wqueue l))"
      let ?l = "l\<lparr>mode := LOCK_SHARED, holders := wqe_holder ` {v \<in> set (wqueue l). wq_op v = LOCK_SHARED},
                 wqueue := filter (\<lambda>v. wq_op v \<noteq> LOCK_SHARED) (wqueue l)\<rparr>"
      note take = queue_coupled_take [OF o(2) refl r, where P = "\<lambda>v. wq_op v = LOCK_SHARED"]
      show ?thesis
      proof (cases "wq_op w = LOCK_SHARED")
        case True
        have "mode_coupled ?l (g_rel r ?G g)"
          using mode_coupled_readers [OF o(2) own _ True] Cons by simp
        with take have "lm_coupled ?l (g_rel r ?G g)" by (intro coupledI) simp_all
        moreover have "lm_rel b me r a l = Some (?l, ?G)"
          unfolding lm_rel_eq [OF o(1)] using none len True by (simp only: Cons) simp
        ultimately show ?thesis using take(2) by blast
      next
        case False
        then show ?thesis
          using none Cons o own mode_coupled_writer [of w ws g r l] queue_coupled_head [of wqe_req wq_op w ws g r]
          by (auto simp: lm_rel_eq [OF o(1)] intro!: coupledI)
      qed
    qed
  qed
qed

section \<open>The manager implements the interface\<close>

definition manager_lock :: "lock_key \<Rightarrow> lock_id \<Rightarrow> innet_lock" where
  "manager_lock k i = new_lock k (max SWITCH_LOCK_NUM i)"

lemma g_safe_lm: "lm_coupled l g \<Longrightarrow> g_safe g"
  by (auto simp: lm_coupled_def g_safe_def mode_coupled_def split: lock_state.splits)

lemma g_live_lm: "lm_coupled l g \<Longrightarrow> g_live g"
  by (auto simp: lm_coupled_def g_live_def mode_coupled_def split: lock_state.splits)

interpretation lm: lock_manager "manager_lock k i" "lm_acq b me" "lm_rel b me" lm_admits lm_coupled
proof unfold_locales
  show "lm_coupled (manager_lock k i) g_init"
    by (simp add: lm_coupled_def manager_lock_def new_lock_def lock_out_of_range_def
        queue_coupled_def mode_coupled_def)
qed (use lm_acq_coupled lm_rel_coupled g_safe_lm g_live_lm in \<open>auto simp: lm_coupled_def\<close>)


section \<open>Properties\<close>

text \<open>
  C6. Mutual exclusion of the host lock manager: under every interleaving of acquires and of
  releases by owners, a request that asked for exclusive access and has been granted the
  lock is the only request that owns it.
\<close>

theorem lm_mutual_exclusion:
  assumes "mgr_reach False (manager_lock k i) (lm_acq b me) (lm_rel b me) lm_admits l g"
    and "r \<in> owned g" "wants g r = Some Wr"
  shows "owned g = {r}"
  using assms by (rule lm.mutual_exclusion)

text \<open>
  The host lock manager fails on no admitted request and on no release by an owner, and
  every grant it sends goes to a request that waits for one: none is granted twice.
\<close>

theorem lm_grants_fresh:
  assumes "mgr_reach False (manager_lock k i) (lm_acq b me) (lm_rel b me) lm_admits l g"
  shows "(\<forall>r a. lm_admits r g \<and> wants g r = None \<longrightarrow>
            (\<exists>l' G. lm_acq b me r a l = Some (l', G) \<and> g_fresh G g (g_acq r a G g))) \<and>
         (\<forall>r \<in> owned g. \<exists>l' G. lm_rel b me r (the (wants g r)) l = Some (l', G) \<and> g_fresh G g (g_rel r G g))"
  using lm.coupled_acquire_succeeds lm.coupled_release_succeeds lm.reach_coupled [OF assms] by blast


text \<open>A run: host 1 writes, a reader of host 2 waits.\<close>

abbreviation lm_g1 :: "request ghost" where
  "lm_g1 \<equiv> g_acq (1, 1) Wr [(1, 1)] g_init"

lemma lm_run1:
  "\<exists>l. mgr_reach False (manager_lock 7 0) (lm_acq default_build 3) (lm_rel default_build 3) lm_admits l lm_g1 \<and>
       lock_out_of_range l \<and> mode l = LOCK_EXCL"
proof -
  have o: "lock_out_of_range (manager_lock 7 0)"
    by (simp add: lock_out_of_range_def manager_lock_def new_lock_def)
  then have a: "lm_acq default_build 3 (1, 1) Wr (manager_lock 7 0) =
      Some ((manager_lock 7 0)\<lparr>mode := LOCK_EXCL, holders := {req_holder (1, 1)}\<rparr>, [(1, 1)])"
    by (simp add: lm_acq_eq manager_lock_def new_lock_def)
  have "lm_admits (1, 1) g_init" by (simp add: lm_admits_def)
  from mgr_reach.acquire [where acq = "lm_acq default_build 3" and rel = "lm_rel default_build 3"
      and admits = lm_admits, OF mgr_reach.start this _ a] o
  show ?thesis
    by (intro exI [of _ "(manager_lock 7 0)\<lparr>mode := LOCK_EXCL, holders := {req_holder (1, 1)}\<rparr>"])
      (simp add: lock_out_of_range_def)
qed

lemma lm_run2:
  "\<exists>l. mgr_reach False (manager_lock 7 0) (lm_acq default_build 3) (lm_rel default_build 3) lm_admits l
     (g_acq (2, 2) Rd [] lm_g1)"
proof -
  obtain l where l: "mgr_reach False (manager_lock 7 0) (lm_acq default_build 3) (lm_rel default_build 3) lm_admits l lm_g1"
    "lock_out_of_range l" "mode l = LOCK_EXCL" using lm_run1 by blast
  have "lm_admits (2, 2) lm_g1" by (simp add: lm_admits_def DPDK_TX_BURST_SIZE_def)
  then show ?thesis using mgr_reach.acquire [OF l(1), of "(2, 2)" Rd] l(2,3)
    by (auto simp: lm_acq_eq)
qed

theorem lm_mutual_exclusion_witness:
  "\<exists>l. mgr_reach False (manager_lock 7 0) (lm_acq default_build 3) (lm_rel default_build 3) lm_admits l
         (g_acq (2, 2) Rd [] lm_g1) \<and> owned (g_acq (2, 2) Rd [] lm_g1) = {(1, 1)}"
  using lm_run2 lm_mutual_exclusion [of 7 0 default_build 3 _ "g_acq (2, 2) Rd [] lm_g1" "(1, 1)"]
  by auto

theorem lm_grants_fresh_witness:
  "\<exists>l l' G. lm_rel default_build 3 (1, 1) Wr l = Some (l', G) \<and> g_fresh G lm_g1 (g_rel (1, 1) G lm_g1)"
proof -
  obtain l where "mgr_reach False (manager_lock 7 0) (lm_acq default_build 3) (lm_rel default_build 3) lm_admits l lm_g1"
    using lm_run1 by blast
  from lm_grants_fresh [OF this] show ?thesis by auto
qed


text \<open>
  The manager does not check that a release comes from an owner. When three writers
  have asked for a lock and the first has released it, so that the second owns it, the
  release that the third sends because it gives up waiting grants the lock to the third
  while the second still owns it.
\<close>

theorem lm_abort_grants_second_writer:
  "\<exists>l1 l2 l3 l4 l5.
     lm_acq b me (1, 1) Wr (manager_lock k i) = Some (l1, [(1, 1)]) \<and>
     lm_acq b me (2, 2) Wr l1 = Some (l2, []) \<and>
     lm_acq b me (3, 3) Wr l2 = Some (l3, []) \<and>
     lm_rel b me (1, 1) Wr l3 = Some (l4, [(2, 2)]) \<and>
     lm_rel b me (3, 3) Wr l4 = Some (l5, [(3, 3)])"
proof -
  have o: "SWITCH_LOCK_NUM \<le> lid (manager_lock k i)"
    by (simp add: manager_lock_def new_lock_def)
  have q: "wqe_req (mk_wqe op 2 2) = (2, 2)" "wqe_req (mk_wqe op 3 3) = (3, 3)" for op
    by (simp_all add: wqe_req_mk_wqe)
  have m: "mode (manager_lock k i) = FREE" "holders (manager_lock k i) = {}" "wqueue (manager_lock k i) = []"
    by (simp_all add: manager_lock_def new_lock_def)
  show ?thesis by (simp add: lm_acq_eq lm_rel_eq lock_out_of_range_def o q m)
qed

end
