(* ===== verification/Fiss_Lock_Api.thy ===== *)
theory Fiss_Lock_Api
  imports Fiss_Lock_Packet
begin

text \<open>
  The interface that applications use (lib/lock.cc): the two lock tables, registration of
  locks, dispatch of received packets, acquiring, waiting for and releasing a lock.

  The lock tables map keys and identifiers to descriptors, which the code casts from
  pointers; here they index a store of metadata records, so that the two tables may or may
  not refer to the same record, as in the code. Each operation on a record runs under its
  mutex, so an operation is one atomic step; the tables themselves are not protected by the
  code. The fault checks of a build with \<open>FISSLOCK_FAILURE_RECOVERY\<close>, which is off, are left
  out.
\<close>

section \<open>Host state and lock tables\<close>

type_synonym lock_desc = nat

record host_state =
  localhost_id :: host_id
  enb_local_grants :: bool
  lock_tbl :: "lock_key \<rightharpoonup> lock_desc"
  lock_id_map :: "lock_id \<rightharpoonup> lock_desc"
  lock_heap :: "lock_desc \<rightharpoonup> innet_lock"
  next_desc :: lock_desc

definition put_lock :: "host_state \<Rightarrow> lock_desc \<Rightarrow> innet_lock \<Rightarrow> host_state" where
  "put_lock s d l = s\<lparr>lock_heap := (lock_heap s)(d \<mapsto> l)\<rparr>"

text \<open>\<open>new innet_lock()\<close>: a record at an unused descriptor.\<close>

definition alloc_lock :: "host_state \<Rightarrow> innet_lock \<Rightarrow> lock_desc \<times> host_state" where
  "alloc_lock s l =
     (next_desc s, s\<lparr>lock_heap := (lock_heap s)(next_desc s \<mapsto> l), next_desc := Suc (next_desc s)\<rparr>)"

text \<open>The dereference \<open>lmeta(l)->...\<close> of a descriptor.\<close>

definition lmeta :: "host_state \<Rightarrow> lock_desc \<Rightarrow> fl_error + innet_lock" where
  "lmeta s d = (case lock_heap s d of None \<Rightarrow> Inl Invalid_pointer | Some l \<Rightarrow> Inr l)"

definition lock_id_to_desc :: "host_state \<Rightarrow> lock_id \<Rightarrow> lock_desc \<times> host_state" where
  "lock_id_to_desc s i =
     (case lock_id_map s i of
        None \<Rightarrow> (let (d, s1) = alloc_lock s (new_lock 0 i)
                 in (d, s1\<lparr>lock_id_map := (lock_id_map s1)(i \<mapsto> d)\<rparr>))
      | Some d \<Rightarrow> (d, s))"

definition lock_key_to_desc :: "build \<Rightarrow> host_state \<Rightarrow> lock_key \<Rightarrow> fl_error + lock_desc" where
  "lock_key_to_desc b s k =
     (case lock_tbl s k of
        None \<Rightarrow> ASSERT b False (Inl Invalid_pointer)
      | Some d \<Rightarrow> Inr d)"

definition lock_packet_dispatch ::
  "build \<Rightarrow> (post_t \<Rightarrow> lock_post_header \<Rightarrow> lock_post_header) option \<Rightarrow> host_state \<Rightarrow> packet
     \<Rightarrow> fl_error + nat \<times> packet \<times> host_state \<times> packet list" where
  "lock_packet_dispatch b packet_preprocess s p =
     (let (d, s1) = lock_id_to_desc s (ntohl (hdr_lock_id (hdr p))) in
      case lmeta s1 d of
        Inl e \<Rightarrow> Inl e
      | Inr l \<Rightarrow>
          (case lock_packet_process b packet_preprocess (localhost_id s1) l p of
             Inl e \<Rightarrow> Inl e
           | Inr (n, p1, l1, out) \<Rightarrow> Inr (n, p1, put_lock s1 d l1, out)))"

definition FLAG_ENB_LOCAL_GRANT :: u32 where
  "FLAG_ENB_LOCAL_GRANT = 1"

definition lock_setup :: "host_state \<Rightarrow> u32 \<Rightarrow> host_state" where
  "lock_setup s flags =
     s\<lparr>enb_local_grants := (flags AND FLAG_ENB_LOCAL_GRANT \<noteq> 0),
       lock_tbl := Map.empty, lock_id_map := Map.empty\<rparr>"

definition register_lock :: "host_state \<Rightarrow> lock_key \<Rightarrow> lock_id \<Rightarrow> lock_id \<times> host_state" where
  "register_lock s k i =
     (let (d, s1) = alloc_lock s (new_lock k i)
      in (i, s1\<lparr>lock_tbl := map_insert (lock_tbl s1) k d,
                lock_id_map := map_insert (lock_id_map s1) i d\<rparr>))"

text \<open>The reply of the registration call to the server is the parameter \<open>rpc_register\<close>.\<close>

definition lock_init :: "(lock_key \<Rightarrow> lock_id) \<Rightarrow> host_state \<Rightarrow> lock_key \<Rightarrow> lock_id \<times> host_state" where
  "lock_init rpc_register s k =
     (case lock_tbl s k of
        Some _ \<Rightarrow> (0, s)
      | None \<Rightarrow> register_lock s k (rpc_register k))"

definition lock_local_init :: "host_state \<Rightarrow> lock_key \<Rightarrow> lock_id \<times> host_state" where
  "lock_local_init s k =
     (case lock_tbl s k of
        Some _ \<Rightarrow> (0, s)
      | None \<Rightarrow> register_lock s k (ucast k))"

section \<open>Acquire\<close>

text \<open>
  The result of an asynchronous acquire: 0 when the lock is granted, the address of the
  atomic flag of a task in a metadata record, the error code, or the value of a local
  variable that was never assigned.
\<close>

datatype lock_req =
    Req_granted
  | Req_flag lock_desc task_id
  | Req_invalid_op
  | Req_uninit

definition TPCC_WAREHOUSE_LOCK_NUM :: u32 where
  "TPCC_WAREHOUSE_LOCK_NUM = 121"

definition tpcc_local_lock :: "innet_lock \<Rightarrow> bool" where
  "tpcc_local_lock l =
     (let x = lid l mod TPCC_WAREHOUSE_LOCK_NUM
      in \<not> (11 \<le> x \<and> x < 41 \<or> 111 \<le> x \<and> x < 121))"

definition acquire_lm_local ::
  "host_id \<Rightarrow> lock_desc \<Rightarrow> innet_lock \<Rightarrow> task_id \<Rightarrow> lock_state \<Rightarrow> lock_req \<times> innet_lock" where
  "acquire_lm_local me d l task op =
     (let (granted, l1) = handle_acquire_lm l me task op in
      if granted then (Req_granted, l1) else (Req_flag d task, lock_prepare_wait l1 task))"

text \<open>The part of the function that runs on the metadata record.\<close>

definition acquire_on ::
  "build \<Rightarrow> host_id \<Rightarrow> bool \<Rightarrow> lock_desc \<Rightarrow> innet_lock \<Rightarrow> task_id \<Rightarrow> lock_state
     \<Rightarrow> fl_error + lock_req \<times> innet_lock \<times> packet list" where
  "acquire_on b me local_grants d l task op =
     (if TPCC_ENB_LOCAL b \<and> tpcc_local_lock l then
        (let (r, l1) = acquire_lm_local me d l task op in Inr (r, l1, []))
      else if lock_out_of_range l then
        (if lock_to_lm l = me
         then (let (r, l1) = acquire_lm_local me d l task op in Inr (r, l1, []))
         else Inr (Req_flag d task, lock_prepare_wait l task,
                   [send_post_acquire_lm me (lock_state_code op) (lid l) (lock_to_lm l) task]))
      else if local_grants then
        (if FISSLOCK_BMV2 b \<and> op = LOCK_EXCL \<and> mode l = LOCK_EXCL \<and> \<not> lock_no_holders l \<and>
            \<not> lock_has_holder l (LOCK_HOLDER me task) then
           (case handle_suspend_acquire b l me task op of
              Inl e \<Rightarrow> Inl e
            | Inr l1 \<Rightarrow> Inr (Req_flag d task, lock_prepare_wait l1 task, []))
         else if is_agent l then
           (if mode l = LOCK_SHARED \<and> op = LOCK_SHARED
            then Inr (Req_granted, handle_granted_acquire l me task, [])
            else (case handle_suspend_acquire b l me task op of
                    Inl e \<Rightarrow> Inl e
                  | Inr l1 \<Rightarrow> Inr (Req_flag d task, lock_prepare_wait l1 task, [])))
         else Inr (Req_flag d task, lock_prepare_wait l task,
                   [send_post_acquire me (lock_state_code op) (lid l) me task]))
      else Inr (Req_uninit, l, [send_post_acquire me (lock_state_code op) (lid l) me task]))"

definition lock_acquire_async ::
  "build \<Rightarrow> host_state \<Rightarrow> lock_key \<Rightarrow> task_id \<Rightarrow> lock_state
     \<Rightarrow> fl_error + lock_req \<times> host_state \<times> packet list" where
  "lock_acquire_async b s k task op =
     (if op \<noteq> LOCK_EXCL \<and> op \<noteq> LOCK_SHARED then Inr (Req_invalid_op, s, [])
      else
        (case lock_key_to_desc b s k of
           Inl e \<Rightarrow> Inl e
         | Inr d \<Rightarrow>
             (case lmeta s d of
                Inl e \<Rightarrow> Inl e
              | Inr l \<Rightarrow>
                  (case acquire_on b (localhost_id s) (enb_local_grants s) d l task op of
                     Inl e \<Rightarrow> Inl e
                   | Inr (r, l1, out) \<Rightarrow> Inr (r, put_lock s d l1, out)))))"

section \<open>Wait\<close>

definition lock_wait_local :: "build \<Rightarrow> host_state \<Rightarrow> lock_key \<Rightarrow> task_id \<Rightarrow> fl_error + int \<times> host_state" where
  "lock_wait_local b s k task =
     (case lock_key_to_desc b s k of
        Inl e \<Rightarrow> Inl e
      | Inr d \<Rightarrow>
          (case lmeta s d of
             Inl e \<Rightarrow> Inl e
           | Inr l \<Rightarrow>
               (let (granted, l1) = lock_local_wait l task
                in Inr (if granted then 0 else 1, put_lock s d l1))))"

text \<open>A request that is neither 0 nor the address of a flag is no address at all.\<close>

definition lock_req_granted :: "host_state \<Rightarrow> lock_req \<Rightarrow> fl_error + int \<times> host_state" where
  "lock_req_granted s r =
     (case r of
        Req_granted \<Rightarrow> Inr (1, s)
      | Req_flag d task \<Rightarrow>
          (case lmeta s d of
             Inl e \<Rightarrow> Inl e
           | Inr l \<Rightarrow>
               (case task_granted l task of
                  None \<Rightarrow> Inl Invalid_pointer
                | Some True \<Rightarrow> Inr (1, put_lock s d (l\<lparr>task_granted := (task_granted l)(task \<mapsto> False)\<rparr>))
                | Some False \<Rightarrow> Inr (0, s)))
      | Req_invalid_op \<Rightarrow> Inl Invalid_pointer
      | Req_uninit \<Rightarrow> Inl Invalid_pointer)"

text \<open>
  The blocking acquire stores the 64-bit request in an \<open>int\<close>. The addresses of the flags are
  the parameter \<open>addr\<close>, the value of the unassigned variable is \<open>junk\<close>.
\<close>

definition ERR_INVALID_OP :: u64 where
  "ERR_INVALID_OP = 3"

fun lock_req_value :: "(lock_desc \<Rightarrow> task_id \<Rightarrow> u64) \<Rightarrow> u64 \<Rightarrow> lock_req \<Rightarrow> u64" where
  "lock_req_value addr junk Req_granted = 0"
| "lock_req_value addr junk (Req_flag d t) = addr d t"
| "lock_req_value addr junk Req_invalid_op = - ERR_INVALID_OP"
| "lock_req_value addr junk Req_uninit = junk"

definition lock_acquire ::
  "(lock_desc \<Rightarrow> task_id \<Rightarrow> u64) \<Rightarrow> u64 \<Rightarrow> build \<Rightarrow> host_state \<Rightarrow> lock_key \<Rightarrow> task_id \<Rightarrow> lock_state
     \<Rightarrow> fl_error + int \<times> host_state \<times> packet list" where
  "lock_acquire addr junk b s k task op =
     (case lock_acquire_async b s k task op of
        Inl e \<Rightarrow> Inl e
      | Inr (r, s1, out) \<Rightarrow>
          (let ret = (ucast (lock_req_value addr junk r) :: u32) in
           if ret = 0 then Inr (0, s1, out)
           else if ret = 1 \<or> ret = 2 then
             (case lock_wait_local b s1 k task of
                Inl e \<Rightarrow> Inl e
              | Inr (v, s2) \<Rightarrow> Inr (v, s2, out))
           else if ret = 3 then Inr (1, s1, out)
           else Inr (0, s1, out)))"

section \<open>Release\<close>

text \<open>The release of a lock that the local host manages without the switch.\<close>

definition release_lm_local ::
  "host_id \<Rightarrow> innet_lock \<Rightarrow> task_id \<Rightarrow> fl_error + innet_lock \<times> packet list" where
  "release_lm_local me l task =
     (case handle_release_lm l me task of
        Inl e \<Rightarrow> Inl e
      | Inr (False, l1, out) \<Rightarrow> Inr (l1, out)
      | Inr (True, l1, out) \<Rightarrow>
          (case wqueue l1 of
             [] \<Rightarrow> Inl Invalid_pointer
           | w # ws \<Rightarrow> Inr (l1\<lparr>wqueue := ws\<rparr>,
                            out @ [send_post_grant (lid l1) (wq_host w) (wqe_task w)])))"

text \<open>The same for a lock that only local tasks use: the next task is notified directly.\<close>

definition release_tpcc_local ::
  "build \<Rightarrow> host_id \<Rightarrow> innet_lock \<Rightarrow> task_id \<Rightarrow> fl_error + innet_lock \<times> packet list" where
  "release_tpcc_local b me l task =
     (case handle_release_lm l me task of
        Inl e \<Rightarrow> Inl e
      | Inr (False, l1, out) \<Rightarrow> Inr (l1, out)
      | Inr (True, l1, out) \<Rightarrow>
          (case wqueue l1 of
             [] \<Rightarrow> Inl Invalid_pointer
           | w # ws \<Rightarrow> ASSERT b (wq_host w = me)
               (Inr ((lock_local_notify l1 (wqe_task w))\<lparr>wqueue := ws\<rparr>, out))))"

text \<open>What the agent does when a local release leaves no holder.\<close>

definition release_free_local :: "host_id \<Rightarrow> innet_lock \<Rightarrow> innet_lock \<times> packet list" where
  "release_free_local me l =
     (l\<lparr>is_agent := False, mode := FREE, ncnt := 0\<rparr>,
      [send_post_free me (lid l) (ucast (ncnt l)) (lock_state_code (mode l))])"

definition release_transfer_local ::
  "build \<Rightarrow> host_id \<Rightarrow> innet_lock \<Rightarrow> fl_error + innet_lock \<times> packet list" where
  "release_transfer_local b me l =
     (case wqueue l of
        [] \<Rightarrow> Inl Invalid_pointer
      | w # ws \<Rightarrow>
          if FISSLOCK_BMV2 b \<and> wq_host w = me
          then Inr (lock_local_notify
                      (lock_add_holder (l\<lparr>wqueue := ws, mode := wq_op w\<rparr>) (LOCK_HOLDER me (wqe_task w)))
                      (wqe_task w), [])
          else ASSERT b (length (wqueue l) * sizeof_wqe < 2000)
                 (Inr (l\<lparr>is_agent := False, mode := FREE, ncnt := 0, wqueue := []\<rparr>,
                       [send_post_transfer me (lock_state_code (wq_op w)) (lid l) (wq_host w)
                          (wqe_task w) ws (ucast (ncnt l)) (lock_state_code (mode l))])))"

definition release_at_agent ::
  "build \<Rightarrow> host_id \<Rightarrow> innet_lock \<Rightarrow> task_id \<Rightarrow> fl_error + innet_lock \<times> packet list" where
  "release_at_agent b me l task =
     (let lh = LOCK_HOLDER me task in
      case (if \<not> lock_has_holder l lh
            then Inr (l\<lparr>early_release := (early_release l)(lh := True)\<rparr>)
            else handle_release b l me task) of
        Inl e \<Rightarrow> Inl e
      | Inr l1 \<Rightarrow>
          (if lock_no_holders l1 then
             (if lock_no_waiters l1 then Inr (release_free_local me l1)
              else release_transfer_local b me l1)
           else Inr (l1, [])))"

definition release_on ::
  "build \<Rightarrow> host_id \<Rightarrow> innet_lock \<Rightarrow> task_id \<Rightarrow> fl_error + innet_lock \<times> packet list" where
  "release_on b me l0 task =
     (let l = l0\<lparr>local_holders := local_holders l0 - {task}\<rparr> in
      if TPCC_ENB_LOCAL b \<and> tpcc_local_lock l then release_tpcc_local b me l task
      else if lock_out_of_range l then
        (if lock_to_lm l = me then release_lm_local me l task
         else Inr (l, [send_post_release_lm (lid l) me task (lock_to_lm l)]))
      else if is_agent l then release_at_agent b me l task
      else Inr (l, [send_post_release me (lid l) me task]))"

definition lock_release ::
  "build \<Rightarrow> host_state \<Rightarrow> lock_key \<Rightarrow> task_id \<Rightarrow> lock_state \<Rightarrow> fl_error + int \<times> host_state \<times> packet list" where
  "lock_release b s k task op =
     (case lock_key_to_desc b s k of
        Inl e \<Rightarrow> Inl e
      | Inr d \<Rightarrow>
          (case lmeta s d of
             Inl e \<Rightarrow> Inl e
           | Inr l \<Rightarrow>
               (case release_on b (localhost_id s) l task of
                  Inl e \<Rightarrow> Inl e
                | Inr (l1, out) \<Rightarrow> Inr (0, put_lock s d l1, out))))"

section \<open>Local and remote releases\<close>





section \<open>Requests and grants\<close>

lemma put_lock_sel [simp]:
  "lock_tbl (put_lock s d l) = lock_tbl s" "lock_id_map (put_lock s d l) = lock_id_map s"
  "localhost_id (put_lock s d l) = localhost_id s" "enb_local_grants (put_lock s d l) = enb_local_grants s"
  "next_desc (put_lock s d l) = next_desc s" "lock_heap (put_lock s d l) = (lock_heap s)(d \<mapsto> l)"
  by (simp_all add: put_lock_def)

lemma lmeta_put_lock [simp]: "lmeta (put_lock s d l) d = Inr l"
  by (simp add: lmeta_def)

lemma lmeta_Inr [simp]: "lmeta s d = Inr l \<longleftrightarrow> lock_heap s d = Some l"
  by (simp add: lmeta_def split: option.split)

lemma put_put_lock [simp]: "put_lock (put_lock s d l) d l' = put_lock s d l'"
  by (simp add: put_lock_def)

text \<open>The lock of a key is registered under its identifier, and the switch is asked for it.\<close>

definition asks_switch :: "build \<Rightarrow> host_state \<Rightarrow> lock_key \<Rightarrow> lock_desc \<Rightarrow> innet_lock \<Rightarrow> bool" where
  "asks_switch b s k d l \<longleftrightarrow>
     lock_tbl s k = Some d \<and> lock_heap s d = Some l \<and> lock_id_map s (lid l) = Some d \<and>
     enb_local_grants s \<and> \<not> is_agent l \<and> mode l = FREE \<and> \<not> lock_out_of_range l \<and>
     \<not> (TPCC_ENB_LOCAL b \<and> tpcc_local_lock l)"

lemma acquire_asks_switch:
  assumes "asks_switch b s k d l" "op = LOCK_SHARED \<or> op = LOCK_EXCL"
  shows "lock_acquire_async b s k task op =
    Inr (Req_flag d task, put_lock s d (lock_prepare_wait l task),
         [send_post_acquire (localhost_id s) (lock_state_code op) (lid l) (localhost_id s) task])"
  using assms
  by (auto simp: asks_switch_def lock_acquire_async_def lock_key_to_desc_def acquire_on_def lmeta_def)

text \<open>
  C23. From request to grant: an acquire of a lock that this host is not the agent of sends
  one request to the switch and returns a handle. The handle says that the lock is not
  granted until the grant packet for the task is dispatched; then it says once that the
  lock is granted, and takes the answer back.
\<close>

theorem acquire_grant_roundtrip:
  assumes "asks_switch b s k d l" "op = LOCK_SHARED \<or> op = LOCK_EXCL" "task_granted l task = None"
    and "g = send_post_grant (lid l) (localhost_id s) task"
  shows "\<exists>r s1 s2 s3.
     lock_acquire_async b s k task op =
       Inr (r, s1, [send_post_acquire (localhost_id s) (lock_state_code op) (lid l) (localhost_id s) task]) \<and>
     lock_req_granted s1 r = Inr (0, s1) \<and>
     lock_packet_dispatch b None s1 g = Inr (0, g, s2, []) \<and>
     lock_req_granted s2 r = Inr (1, s3) \<and> lock_req_granted s3 r = Inr (0, s3)"
proof -
  let ?l1 = "l\<lparr>task_granted := (task_granted l)(task \<mapsto> False)\<rparr>"
  let ?s1 = "put_lock s d ?l1"
  have s: "lock_id_map s (lid l) = Some d" using assms(1) by (simp add: asks_switch_def)
  have "lock_prepare_wait l task = ?l1" using assms(3) by (simp add: lock_prepare_wait_def)
  with acquire_asks_switch [OF assms(1,2)]
  have "lock_acquire_async b s k task op = Inr (Req_flag d task, ?s1,
      [send_post_acquire (localhost_id s) (lock_state_code op) (lid l) (localhost_id s) task])" by simp
  moreover have "lock_req_granted ?s1 (Req_flag d task) = Inr (0, ?s1)"
    by (simp add: lock_req_granted_def)
  moreover have "lock_packet_dispatch b None ?s1 g = Inr (0, g, put_lock s d (lock_local_notify ?l1 task), [])"
    using s assms(4)
    by (simp add: lock_packet_dispatch_def lock_id_to_desc_def lock_packet_process_def
        process_grant_wo_agent_def send_post_defs ASSERT_def)
  moreover have "\<exists>s3. lock_req_granted (put_lock s d (lock_local_notify ?l1 task)) (Req_flag d task) = Inr (1, s3) \<and>
      lock_req_granted s3 (Req_flag d task) = Inr (0, s3)"
    by (simp add: lock_req_granted_def lock_local_notify_def)
  ultimately show ?thesis by blast
qed

text \<open>
  A grant that arrives after its task has given up leaves the flag of the task set, and
  the next acquire of the task does not clear it: the new request is reported as granted
  at once, although nothing has granted it.
\<close>

theorem stale_flag_reported_as_grant:
  assumes "asks_switch b s k d l" "op = LOCK_SHARED \<or> op = LOCK_EXCL" "task_granted l task = Some True"
  shows "\<exists>r s1 s2. lock_acquire_async b s k task op =
       Inr (r, s1, [send_post_acquire (localhost_id s) (lock_state_code op) (lid l) (localhost_id s) task]) \<and>
     lock_req_granted s1 r = Inr (1, s2)"
  using assms(3) acquire_asks_switch [OF assms(1,2), of task]
  by (simp add: lock_prepare_wait_def lock_req_granted_def)

text \<open>
  The blocking acquire does not wait: whenever the address of the flag does not end in a
  32-bit value of one to three, it returns success for a lock that has not been granted.
\<close>

theorem lock_acquire_returns_ungranted:
  assumes "asks_switch b s k d l" "op = LOCK_SHARED \<or> op = LOCK_EXCL" "task_granted l task = None"
    and "(ucast (addr d task) :: u32) \<notin> {1, 2, 3}"
  shows "\<exists>s1 out. lock_acquire addr junk b s k task op = Inr (0, s1, out) \<and>
     lock_req_granted s1 (Req_flag d task) = Inr (0, s1)"
  using assms(3,4) acquire_asks_switch [OF assms(1,2), of task]
  by (auto simp: lock_acquire_def Let_def lock_prepare_wait_def lock_req_granted_def)

text \<open>
  Without local grants an acquire that goes to the switch returns a variable that was
  never assigned, so that asking whether it has been granted reads an invalid address.
\<close>

theorem acquire_uninitialised_without_local_grants:
  assumes "asks_switch b (s\<lparr>enb_local_grants := True\<rparr>) k d l" "\<not> enb_local_grants s"
    and "op = LOCK_SHARED \<or> op = LOCK_EXCL"
  shows "\<exists>out s1. lock_acquire_async b s k task op = Inr (Req_uninit, s1, out) \<and>
     lock_req_granted s1 Req_uninit = Inl Invalid_pointer"
  using assms
  by (auto simp: asks_switch_def lock_acquire_async_def lock_key_to_desc_def acquire_on_def
      lock_req_granted_def lmeta_def)


section \<open>Well-formed hosts\<close>

text \<open>
  The tables refer to allocated records that know their key and identifier, and the records
  of locks managed by the switch are well-formed.
\<close>

definition switch_managed :: "build \<Rightarrow> innet_lock \<Rightarrow> bool" where
  "switch_managed b l \<longleftrightarrow> \<not> lock_out_of_range l \<and> \<not> (TPCC_ENB_LOCAL b \<and> tpcc_local_lock l)"

definition host_wf :: "build \<Rightarrow> host_state \<Rightarrow> bool" where
  "host_wf b s \<longleftrightarrow>
     (\<forall>k d. lock_tbl s k = Some d \<longrightarrow> (\<exists>l. lock_heap s d = Some l \<and> lkey l = k)) \<and>
     (\<forall>i d. lock_id_map s i = Some d \<longrightarrow> (\<exists>l. lock_heap s d = Some l \<and> lid l = i)) \<and>
     (\<forall>d. next_desc s \<le> d \<longrightarrow> lock_heap s d = None) \<and>
     (\<forall>d l. lock_heap s d = Some l \<longrightarrow> switch_managed b l \<longrightarrow> agent_wf l)"

text \<open>Everything that happens at a host: calls of the interface and received packets.\<close>

inductive host_step :: "build \<Rightarrow> host_state \<Rightarrow> host_state \<Rightarrow> bool" for b where
  init: "lock_init rpc s k = (i, s') \<Longrightarrow> host_step b s s'"
| local_init: "lock_local_init s k = (i, s') \<Longrightarrow> host_step b s s'"
| receive: "lock_packet_dispatch b None s p = Inr (n, p', s', out) \<Longrightarrow> packet_ops p \<Longrightarrow> host_step b s s'"
| acquire: "lock_acquire_async b s k t op = Inr (r, s', out) \<Longrightarrow> host_step b s s'"
| release: "lock_release b s k t op = Inr (v, s', out) \<Longrightarrow> host_step b s s'"
| wait_local: "lock_wait_local b s k t = Inr (v, s') \<Longrightarrow> host_step b s s'"
| req_granted: "lock_req_granted s r = Inr (v, s') \<Longrightarrow> host_step b s s'"

definition host_start :: "host_id \<Rightarrow> u32 \<Rightarrow> host_state" where
  "host_start me flags =
     lock_setup \<lparr>localhost_id = me, enb_local_grants = True, lock_tbl = Map.empty,
                 lock_id_map = Map.empty, lock_heap = Map.empty, next_desc = 1\<rparr> flags"

lemma host_wf_start: "host_wf b (host_start me flags)"
  by (simp add: host_wf_def host_start_def lock_setup_def)

lemma host_wfD:
  assumes "host_wf b s"
  shows "lock_tbl s k = Some d \<Longrightarrow> \<exists>l. lock_heap s d = Some l \<and> lkey l = k"
    and "lock_id_map s i = Some d \<Longrightarrow> \<exists>l. lock_heap s d = Some l \<and> lid l = i"
    and "next_desc s \<le> d \<Longrightarrow> lock_heap s d = None"
    and "lock_heap s d = Some l \<Longrightarrow> switch_managed b l \<Longrightarrow> agent_wf l"
  using assms unfolding host_wf_def by blast+

lemma host_wf_alloc:
  assumes wf: "host_wf b s" and a: "alloc_lock s (new_lock k i) = (d, s')"
  shows "host_wf b s'" "lock_heap s' d = Some (new_lock k i)" "lock_tbl s' = lock_tbl s"
    "lock_id_map s' = lock_id_map s"
proof -
  have s': "s' = s\<lparr>lock_heap := (lock_heap s)(next_desc s \<mapsto> new_lock k i), next_desc := Suc (next_desc s)\<rparr>"
    and d: "d = next_desc s" using a by (auto simp: alloc_lock_def)
  have n: "lock_heap s (next_desc s) = None" using host_wfD(3) [OF wf] by simp
  have old: "lock_heap s' e = Some l" if "lock_heap s e = Some l" for e l
    using n that by (auto simp: s')
  have tbl: "lock_tbl s' = lock_tbl s" "lock_id_map s' = lock_id_map s" by (simp_all add: s')
  show "host_wf b s'"
    unfolding host_wf_def
  proof (intro conjI allI impI)
    show "\<exists>l. lock_heap s' e = Some l \<and> lkey l = k'" if "lock_tbl s' k' = Some e" for k' e
      using host_wfD(1) [OF wf, of k' e] that old tbl by metis
    show "\<exists>l. lock_heap s' e = Some l \<and> lid l = i'" if "lock_id_map s' i' = Some e" for i' e
      using host_wfD(2) [OF wf, of i' e] that old tbl by metis
    show "lock_heap s' e = None" if "next_desc s' \<le> e" for e
      using host_wfD(3) [OF wf, of e] that by (auto simp: s')
    show "agent_wf l" if "lock_heap s' e = Some l" "switch_managed b l" for e l
      using host_wfD(4) [OF wf, of e l] that by (auto simp: s' split: if_splits)
  qed
  show "lock_heap s' d = Some (new_lock k i)" "lock_tbl s' = lock_tbl s" "lock_id_map s' = lock_id_map s"
    by (simp_all add: s' d)
qed

lemma host_wf_put:
  assumes wf: "host_wf b s" and l: "lock_heap s d = Some l" "same_id l l'"
    and a: "switch_managed b l \<Longrightarrow> agent_wf l \<Longrightarrow> agent_wf l'"
  shows "host_wf b (put_lock s d l')"
  unfolding host_wf_def
proof (intro conjI allI impI)
  show "\<exists>m. lock_heap (put_lock s d l') e = Some m \<and> lkey m = k" if "lock_tbl (put_lock s d l') k = Some e" for k e
    using host_wfD(1) [OF wf, of k e] that l by (auto simp: same_id_def)
  show "\<exists>m. lock_heap (put_lock s d l') e = Some m \<and> lid m = i" if "lock_id_map (put_lock s d l') i = Some e" for i e
    using host_wfD(2) [OF wf, of i e] that l by (auto simp: same_id_def)
  show "lock_heap (put_lock s d l') e = None" if "next_desc (put_lock s d l') \<le> e" for e
    using host_wfD(3) [OF wf, of e] that l by auto
  show "agent_wf m" if "lock_heap (put_lock s d l') e = Some m" "switch_managed b m" for e m
  proof (cases "e = d")
    case True
    with that have m: "m = l'" by simp
    with that(2) l(2) have "switch_managed b l"
      by (simp add: same_id_def switch_managed_def lock_out_of_range_def tpcc_local_lock_def)
    with m a host_wfD(4) [OF wf l(1)] show ?thesis by simp
  next
    case False
    with that host_wfD(4) [OF wf, of e m] show ?thesis by simp
  qed
qed

lemma host_wf_register:
  assumes wf: "host_wf b s" and r: "register_lock s k i = (v, s')"
  shows "host_wf b s'"
proof -
  obtain d s1 where a: "alloc_lock s (new_lock k i) = (d, s1)" by fastforce
  note w = host_wf_alloc [OF wf a]
  have s': "s' = s1\<lparr>lock_tbl := map_insert (lock_tbl s1) k d, lock_id_map := map_insert (lock_id_map s1) i d\<rparr>"
    using r a by (auto simp: register_lock_def)
  have l: "\<exists>l. lock_heap s1 d = Some l \<and> lkey l = k" "\<exists>l. lock_heap s1 d = Some l \<and> lid l = i"
    using w(2) by (simp_all add: new_lock_def)
  show ?thesis
    unfolding host_wf_def
  proof (intro conjI allI impI)
    show "\<exists>m. lock_heap s' e = Some m \<and> lkey m = x" if "lock_tbl s' x = Some e" for x e
      using that l(1) host_wfD(1) [OF w(1), of x e] by (auto simp: s' dest!: map_insert_SomeD)
    show "\<exists>m. lock_heap s' e = Some m \<and> lid m = x" if "lock_id_map s' x = Some e" for x e
      using that l(2) host_wfD(2) [OF w(1), of x e] by (auto simp: s' dest!: map_insert_SomeD)
  qed (use host_wfD(3,4) [OF w(1)] in \<open>auto simp: s'\<close>)
qed

lemma host_wf_id_to_desc:
  assumes wf: "host_wf b s" and r: "lock_id_to_desc s i = (d, s')"
  shows "host_wf b s'" "\<exists>l. lock_heap s' d = Some l"
proof -
  have "host_wf b s' \<and> (\<exists>l. lock_heap s' d = Some l)"
  proof (cases "lock_id_map s i")
    case None
    obtain e s1 where a: "alloc_lock s (new_lock 0 i) = (e, s1)" by fastforce
    note w = host_wf_alloc [OF wf a]
    have s': "s' = s1\<lparr>lock_id_map := (lock_id_map s1)(i \<mapsto> e)\<rparr>" and d: "d = e"
      using r a None by (auto simp: lock_id_to_desc_def)
    have l: "\<exists>l. lock_heap s1 e = Some l \<and> lid l = i" using w(2) by (simp add: new_lock_def)
    have "host_wf b s'" unfolding host_wf_def
    proof (intro conjI allI impI)
      show "\<exists>m. lock_heap s' x = Some m \<and> lid m = j" if "lock_id_map s' j = Some x" for j x
        using that l host_wfD(2) [OF w(1), of j x] by (auto simp: s' split: if_splits)
    qed (use host_wfD(1,3,4) [OF w(1)] in \<open>auto simp: s'\<close>)
    with l s' d show ?thesis by auto
  next
    case (Some e)
    with wf r host_wfD(2) [OF wf Some] show ?thesis by (auto simp: lock_id_to_desc_def)
  qed
  then show "host_wf b s'" "\<exists>l. lock_heap s' d = Some l" by simp_all
qed

lemma host_wf_dispatch:
  assumes wf: "host_wf b s" and p: "packet_ops p"
    and r: "lock_packet_dispatch b None s p = Inr (n, p', s', out)"
  shows "host_wf b s'"
proof -
  obtain d s1 where d: "lock_id_to_desc s (ntohl (hdr_lock_id (hdr p))) = (d, s1)" by fastforce
  note w = host_wf_id_to_desc [OF wf d]
  obtain l where l: "lock_heap s1 d = Some l" using w(2) by blast
  obtain l' where l': "lock_packet_process b None (localhost_id s1) l p = Inr (n, p', l', out)"
    and s': "s' = put_lock s1 d l'"
    using r d l by (auto simp: lock_packet_dispatch_def lmeta_def split: sum.splits)
  show ?thesis
    unfolding s' using w(1) l lock_packet_process_id [OF l']
    by (rule host_wf_put) (use lock_packet_process_wf [OF l'] p in \<open>simp add: switch_managed_def\<close>)
qed


lemma agent_wf_prepare_wait [simp]: "agent_wf (lock_prepare_wait l t) = agent_wf l"
  by (simp add: agent_wf_def lock_prepare_wait_def split: option.split)

lemma handle_suspend_acquire_wf:
  "handle_suspend_acquire b l hid t op = Inr l' \<Longrightarrow> op \<in> lock_ops \<Longrightarrow> agent_wf l \<Longrightarrow> agent_wf l'"
  by (auto simp: handle_suspend_acquire_def ASSERT_def agent_wf_def lock_append_to_wq_def split: if_splits)

lemma acquire_lm_local_id: "acquire_lm_local me d l t op = (r, l') \<Longrightarrow> same_id l l'"
  by (auto simp: acquire_lm_local_def Let_def split: prod.splits if_splits
      dest: handle_acquire_lm_id intro: same_id_trans)

lemma acquire_on_id: "acquire_on b me g d l t op = Inr (r, l', out) \<Longrightarrow> same_id l l'"
  by (auto simp: acquire_on_def split: if_splits sum.splits prod.splits
      dest!: handle_suspend_acquire_id acquire_lm_local_id intro: same_id_trans)

lemma acquire_on_wf:
  "acquire_on b me g d l t op = Inr (r, l', out) \<Longrightarrow> op \<in> lock_ops \<Longrightarrow> switch_managed b l \<Longrightarrow>
   agent_wf l \<Longrightarrow> agent_wf l'"
  by (auto simp: acquire_on_def switch_managed_def split: if_splits sum.splits
      dest: handle_suspend_acquire_wf) (auto simp: agent_wf_def handle_granted_acquire_def lock_add_holder_def)

lemma release_at_agent_result:
  assumes "release_at_agent b me l t = Inr (l', out)" "is_agent l"
  shows "same_id l l' \<and> (agent_wf l \<longrightarrow> agent_wf l')"
proof -
  define l1 where "l1 = (if lock_has_holder l (LOCK_HOLDER me t)
     then l\<lparr>holders := holders l - {LOCK_HOLDER me t}\<rparr>
     else l\<lparr>early_release := (early_release l)(LOCK_HOLDER me t := True)\<rparr>)"
  have l1: "same_id l l1" "agent_wf l1 = agent_wf l" "is_agent l1"
    using assms(2) by (simp_all add: l1_def same_id_def agent_wf_def)
  have "(if lock_no_holders l1 then
           (if lock_no_waiters l1 then Inr (release_free_local me l1) else release_transfer_local b me l1)
         else Inr (l1, [])) = (Inr (l', out) :: fl_error + innet_lock \<times> packet list)"
    using assms(1) unfolding l1_def
    by (auto simp: release_at_agent_def Let_def handle_release_def ASSERT_def
        lock_remove_holder_def split: if_splits)
  then have "same_id l1 l' \<and> (agent_wf l1 \<longrightarrow> agent_wf l')"
    using l1(3) by (auto simp: release_free_local_def release_transfer_local_def ASSERT_def same_id_def
        agent_wf_def lock_local_notify_def lock_add_holder_def split: if_splits list.splits)
  with l1 same_id_trans show ?thesis by blast
qed

lemma release_lm_local_id: "release_lm_local me l t = Inr (l', out) \<Longrightarrow> same_id l l'"
  by (auto simp: release_lm_local_def same_id_def split: sum.splits bool.splits list.splits
      dest!: handle_release_lm_id)

lemma release_tpcc_local_id: "release_tpcc_local b me l t = Inr (l', out) \<Longrightarrow> same_id l l'"
  by (auto simp: release_tpcc_local_def same_id_def ASSERT_def lock_local_notify_def
      split: sum.splits bool.splits list.splits if_splits dest!: handle_release_lm_id)

lemma release_on_id:
  assumes "release_on b me l t = Inr (l', out)"
  shows "same_id l l'"
proof -
  let ?l = "l\<lparr>local_holders := local_holders l - {t}\<rparr>"
  have "same_id l ?l" by (simp add: same_id_def)
  moreover have "same_id ?l l'"
    using assms release_at_agent_result [of b me ?l t]
    by (auto simp: release_on_def Let_def split: if_splits
        dest!: release_lm_local_id release_tpcc_local_id)
  ultimately show ?thesis by (rule same_id_trans)
qed

lemma release_on_wf:
  assumes "release_on b me l t = Inr (l', out)" "switch_managed b l" "agent_wf l"
  shows "agent_wf l'"
proof -
  let ?l = "l\<lparr>local_holders := local_holders l - {t}\<rparr>"
  have "agent_wf ?l" "switch_managed b ?l"
    using assms(2,3) by (simp_all add: agent_wf_def switch_managed_def lock_out_of_range_def tpcc_local_lock_def)
  with assms(1) release_at_agent_result [of b me ?l t] show ?thesis
    by (auto simp: release_on_def Let_def switch_managed_def split: if_splits)
qed

lemma lock_req_granted_result:
  assumes "lock_req_granted s r = Inr (v, s')"
  shows "s' = s \<or> (\<exists>d l t. lock_heap s d = Some l \<and>
     s' = put_lock s d (l\<lparr>task_granted := (task_granted l)(t \<mapsto> False)\<rparr>))"
proof (cases r)
  case (Req_flag d t)
  with assms show ?thesis
    by (cases "lock_heap s d") (auto simp: lock_req_granted_def lmeta_def split: option.splits bool.splits)
qed (use assms in \<open>auto simp: lock_req_granted_def\<close>)

lemma host_wf_step: "host_step b s s' \<Longrightarrow> host_wf b s \<Longrightarrow> host_wf b s'"
proof (induction rule: host_step.induct)
  case (init rpc s k i s')
  then show ?case by (auto simp: lock_init_def split: option.splits dest: host_wf_register)
next
  case (local_init s k i s')
  then show ?case by (auto simp: lock_local_init_def split: option.splits dest: host_wf_register)
next
  case (receive s p n p' s' out)
  then show ?case using host_wf_dispatch by blast
next
  case (acquire s k t op r s' out)
  then consider "s' = s" | d l l' where "lock_heap s d = Some l" "s' = put_lock s d l'" "op \<in> lock_ops"
      "acquire_on b (localhost_id s) (enb_local_grants s) d l t op = Inr (r, l', out)"
    by (auto simp: lock_acquire_async_def split: if_splits sum.splits)
  then show ?case
    using acquire.prems acquire_on_id acquire_on_wf by cases (auto intro!: host_wf_put)
next
  case (release s k t op v s' out)
  then obtain d l l' where "lock_heap s d = Some l" "s' = put_lock s d l'"
      "release_on b (localhost_id s) l t = Inr (l', out)"
    by (auto simp: lock_release_def split: sum.splits)
  with release.prems show ?case
    using release_on_id release_on_wf by (auto intro!: host_wf_put)
next
  case (wait_local s k t v s')
  then obtain d l where "lock_heap s d = Some l" "s' = put_lock s d (snd (lock_local_wait l t))"
    by (auto simp: lock_wait_local_def Let_def split: sum.splits prod.splits)
  with wait_local.prems show ?case
    by (auto intro!: host_wf_put simp: lock_local_wait_def same_id_def agent_wf_def split: option.splits)
next
  case (req_granted s r v s')
  then consider "s' = s" | d l t where "lock_heap s d = Some l"
      "s' = put_lock s d (l\<lparr>task_granted := (task_granted l)(t \<mapsto> False)\<rparr>)"
    using lock_req_granted_result by blast
  then show ?case
    using req_granted.prems by cases (auto intro!: host_wf_put simp: same_id_def agent_wf_def)
qed

text \<open>
  C22. Whatever the application calls and whatever packets arrive, in any order, every entry
  of the two lock tables refers to an allocated record with the key or the identifier it is
  filed under, and at every lock managed by the switch the host is the agent exactly when it
  knows a mode for the lock and its wait queue holds shared and exclusive requests only.
\<close>

theorem host_always_wf:
  assumes "(host_step b)\<^sup>*\<^sup>* (host_start me flags) s"
  shows "host_wf b s"
  using assms by (induction rule: rtranclp_induct) (auto intro: host_wf_start host_wf_step)


section \<open>Examples\<close>

text \<open>Host 1 with local grants, after the registration of lock 5.\<close>

definition example_host :: host_state where
  "example_host = snd (lock_local_init (host_start 1 1) 5)"

lemma example_asks:
  "asks_switch default_build (put_lock example_host 1 l) 5 1 l"
  if "lid l = 5" "\<not> is_agent l" "mode l = FREE"
  using that
  by (simp add: asks_switch_def example_host_def lock_local_init_def register_lock_def alloc_lock_def
      host_start_def lock_setup_def map_insert_def lock_out_of_range_def SWITCH_LOCK_NUM_def
      default_build_def FLAG_ENB_LOCAL_GRANT_def)

lemma example_localhost [simp]: "localhost_id example_host = 1"
  by (simp add: example_host_def lock_local_init_def register_lock_def alloc_lock_def
      host_start_def lock_setup_def)


theorem acquire_grant_roundtrip_witness:
  "\<exists>r s1 s2 s3.
     lock_acquire_async default_build (put_lock example_host 1 (new_lock 5 5)) 5 7 LOCK_EXCL =
       Inr (r, s1, [send_post_acquire 1 3 5 1 7]) \<and>
     lock_req_granted s1 r = Inr (0, s1) \<and>
     lock_packet_dispatch default_build None s1 (send_post_grant 5 1 7) = Inr (0, send_post_grant 5 1 7, s2, []) \<and>
     lock_req_granted s2 r = Inr (1, s3) \<and> lock_req_granted s3 r = Inr (0, s3)"
  using acquire_grant_roundtrip [OF example_asks [of "new_lock 5 5"], of LOCK_EXCL 7 "send_post_grant 5 1 7"]
  by (simp add: new_lock_def)

theorem stale_flag_reported_as_grant_witness:
  "\<exists>r s1 s2. lock_acquire_async default_build
       (put_lock example_host 1 (lock_local_notify (new_lock 5 5) 7)) 5 7 LOCK_EXCL =
       Inr (r, s1, [send_post_acquire 1 3 5 1 7]) \<and> lock_req_granted s1 r = Inr (1, s2)"
  using stale_flag_reported_as_grant [OF example_asks [of "lock_local_notify (new_lock 5 5) 7"], of LOCK_EXCL 7]
  by (simp add: new_lock_def lock_local_notify_def)

theorem lock_acquire_returns_ungranted_witness:
  "\<exists>s1 out. lock_acquire (\<lambda>d t. 0x7f0000001000) 0 default_build
       (put_lock example_host 1 (new_lock 5 5)) 5 7 LOCK_EXCL = Inr (0, s1, out) \<and>
     lock_req_granted s1 (Req_flag 1 7) = Inr (0, s1)"
  by (rule lock_acquire_returns_ungranted [OF example_asks]) (simp_all add: new_lock_def)

theorem acquire_uninitialised_without_local_grants_witness:
  "\<exists>out s1. lock_acquire_async default_build
       ((put_lock example_host 1 (new_lock 5 5))\<lparr>enb_local_grants := False\<rparr>) 5 7 LOCK_EXCL =
       Inr (Req_uninit, s1, out) \<and> lock_req_granted s1 Req_uninit = Inl Invalid_pointer"
proof (rule acquire_uninitialised_without_local_grants)
  have "asks_switch default_build (put_lock example_host 1 (new_lock 5 5)) 5 1 (new_lock 5 5)"
    by (rule example_asks) (simp_all add: new_lock_def)
  then show "asks_switch default_build ((put_lock example_host 1 (new_lock 5 5))
      \<lparr>enb_local_grants := False\<rparr>\<lparr>enb_local_grants := True\<rparr>) 5 1 (new_lock 5 5)"
    by (simp add: asks_switch_def)
qed simp_all

theorem host_always_wf_witness:
  "(host_step default_build)\<^sup>*\<^sup>* (host_start 1 1) example_host \<and> host_wf default_build example_host"
proof -
  have "host_step default_build (host_start 1 1) example_host"
    unfolding example_host_def by (rule host_step.local_init) (rule surjective_pairing)
  then have "(host_step default_build)\<^sup>*\<^sup>* (host_start 1 1) example_host" by blast
  with host_always_wf [OF this] show ?thesis by blast
qed

end
