(* ===== verification/Fiss_Recovery.thy ===== *)
theory Fiss_Recovery
  imports Fiss_Lock_Api
begin

text \<open>
  The coordinator of the cluster (rpc/main.cc), which assigns lock identifiers and collects
  holders and waiters after a fault, and what a host does when it detects a fault: the
  integrity check of its lock table (lib/lock.cc) and the fate of its waiters
  (lib/fault.cc).

  The calls arrive unmarshalled: the marshalling of the RPC library is not part of the
  repository. The server handles one call at a time. The hosts poll the server at moments
  of their own, so what a host does is split into the phases between two polls.
\<close>

section \<open>The coordinator (rpc/main.cc)\<close>

record lock_data =
  has_agent :: bool
  ld_holders :: "u64 set"
  ld_waiters :: "u64 set"

text \<open>
  The subscript operator of the map \<open>lm_state\<close> inserts an empty entry for a new lock, so
  that the map is total.
\<close>

record rpc_server =
  reg_tbl :: "u64 \<rightharpoonup> lock_id"
  lid_pool :: lock_id
  lm_state :: "lock_id \<Rightarrow> lock_data"
  fault_signal :: u64
  ready_signal :: u8
  ready_bitmap :: u64

definition rpc_server_main :: rpc_server where
  "rpc_server_main =
     \<lparr>reg_tbl = Map.empty, lid_pool = 0,
      lm_state = (\<lambda>_. \<lparr>has_agent = False, ld_holders = {}, ld_waiters = {}\<rparr>),
      fault_signal = 0, ready_signal = 0, ready_bitmap = 0\<rparr>"

definition lock_register :: "u64 \<Rightarrow> rpc_server \<Rightarrow> lock_id \<times> rpc_server" where
  "lock_register lock s =
     (case reg_tbl s lock of
        Some i \<Rightarrow> (i, s)
      | None \<Rightarrow>
          (let i = lid_pool s + 1
           in (i, s\<lparr>lid_pool := i, reg_tbl := map_insert (reg_tbl s) lock i\<rparr>)))"

definition recovery_start :: "rpc_server \<Rightarrow> u8" where
  "recovery_start s = ready_signal s"

definition upd_lock_data :: "lock_id \<Rightarrow> (lock_data \<Rightarrow> lock_data) \<Rightarrow> rpc_server \<Rightarrow> rpc_server" where
  "upd_lock_data i f s = s\<lparr>lm_state := (lm_state s)(i := f (lm_state s i))\<rparr>"

definition collect_holders :: "lock_id \<Rightarrow> u64 \<Rightarrow> rpc_server \<Rightarrow> rpc_server" where
  "collect_holders i holder s = upd_lock_data i (\<lambda>d. d\<lparr>ld_holders := insert holder (ld_holders d)\<rparr>) s"

definition collect_waiters :: "lock_id \<Rightarrow> u64 \<Rightarrow> rpc_server \<Rightarrow> rpc_server" where
  "collect_waiters i waiter s =
     upd_lock_data i (\<lambda>d. d\<lparr>has_agent := True, ld_waiters := insert waiter (ld_waiters d)\<rparr>) s"

definition check_waiter :: "lock_id \<Rightarrow> u64 \<Rightarrow> rpc_server \<Rightarrow> u8" where
  "check_waiter i waiter s =
     (if fault_signal s = 0 \<or> (ready_bitmap s OR 1) \<noteq> (fault_signal s OR 1) then 2
      else if has_agent (lm_state s i) \<and> waiter \<in> ld_waiters (lm_state s i) then 1
      else 0)"

text \<open>
  The reply to \<open>check_holder\<close> has a signed 32-bit count and an array of \<open>MAX_HOLDERS\<close>
  entries, which is zero where it is not filled. The set of holders is ordered.
\<close>

definition MAX_HOLDERS :: nat where "MAX_HOLDERS = 256"

record check_holder_reply =
  extra_num :: int
  extra_holders :: "u64 list"

definition reply_holders :: "u64 set \<Rightarrow> fl_error + check_holder_reply" where
  "reply_holders H =
     (if MAX_HOLDERS < card H then Inl Out_of_bounds
      else Inr \<lparr>extra_num = int (card H),
                extra_holders = sorted_list_of_set H @ replicate (MAX_HOLDERS - card H) 0\<rparr>)"

definition check_holder ::
  "bool \<Rightarrow> lock_id \<Rightarrow> u32 \<Rightarrow> rpc_server \<Rightarrow> fl_error + check_holder_reply \<times> rpc_server" where
  "check_holder from_agent i holder_num s =
     (let H = ld_holders (lm_state s i);
          none = \<lparr>extra_num = 0, extra_holders = replicate MAX_HOLDERS 0\<rparr>;
          n = signed_take_bit 31 (int (card H)) in
      if from_agent then
        (if unat holder_num < card H then
           (if int MAX_HOLDERS < n then Inr (none\<lparr>extra_num := n\<rparr>, s)
            else (case reply_holders H of Inl e \<Rightarrow> Inl e | Inr r \<Rightarrow> Inr (r, s)))
         else Inr (none, s))
      else if \<not> has_agent (lm_state s i) \<and> 0 < card H then
        (case reply_holders H of
           Inl e \<Rightarrow> Inl e
         | Inr r \<Rightarrow> Inr (r, upd_lock_data i (\<lambda>d. d\<lparr>has_agent := True\<rparr>) s))
      else Inr (none, s))"

text \<open>
  The shift \<open>1 << mid\<close> is one of an \<open>int\<close>, defined up to 30. In the last condition the
  comparison binds tighter than the bitwise operators.
\<close>

definition recovery_ready :: "u32 \<Rightarrow> u64 \<Rightarrow> rpc_server \<Rightarrow> fl_error + bool \<times> rpc_server" where
  "recovery_ready mid fault_code s =
     (if 30 < mid then Inl Out_of_bounds
      else
        (let s1 = s\<lparr>ready_bitmap := ready_bitmap s OR push_bit (unat mid) 1, fault_signal := fault_code\<rparr>
         in Inr (ready_signal s1 \<noteq> 0 \<and>
                 (ready_bitmap s1 OR (if 1 = fault_signal s1 then 1 else 0)) OR 1 \<noteq> 0, s1)))"

section \<open>Sequences of calls\<close>

datatype rpc_call =
    RPC_LOCK_REGISTER u64
  | RPC_RECOVERY_START
  | RPC_COLLECT_HOLDERS lock_id u64
  | RPC_COLLECT_WAITERS lock_id u64
  | RPC_RECOVERY_READY u32 u64
  | RPC_CHECK_WAITER lock_id u64
  | RPC_CHECK_HOLDER bool lock_id u32

datatype rpc_reply =
    Lid lock_id
  | Code u8
  | Ready bool
  | Holders check_holder_reply

text \<open>The handlers registered by the constructor of the server.\<close>

fun rpc_serve :: "rpc_call \<Rightarrow> rpc_server \<Rightarrow> fl_error + rpc_reply \<times> rpc_server" where
  "rpc_serve (RPC_LOCK_REGISTER k) s = (let (i, s1) = lock_register k s in Inr (Lid i, s1))"
| "rpc_serve RPC_RECOVERY_START s = Inr (Code (recovery_start s), s)"
| "rpc_serve (RPC_COLLECT_HOLDERS i h) s = Inr (Code 0, collect_holders i h s)"
| "rpc_serve (RPC_COLLECT_WAITERS i w) s = Inr (Code 0, collect_waiters i w s)"
| "rpc_serve (RPC_RECOVERY_READY m c) s = map_sum id (apfst Ready) (recovery_ready m c s)"
| "rpc_serve (RPC_CHECK_WAITER i w) s = Inr (Code (check_waiter i w s), s)"
| "rpc_serve (RPC_CHECK_HOLDER a i n) s = map_sum id (apfst Holders) (check_holder a i n s)"

fun rpc_run :: "rpc_call list \<Rightarrow> rpc_server \<Rightarrow> fl_error + rpc_reply list \<times> rpc_server" where
  "rpc_run [] s = Inr ([], s)"
| "rpc_run (c # cs) s =
     (case rpc_serve c s of
        Inl e \<Rightarrow> Inl e
      | Inr (r, s1) \<Rightarrow> map_sum id (apfst ((#) r)) (rpc_run cs s1))"

text \<open>The calls that tell a host without the agent of a lock to restore it.\<close>

fun restores :: "lock_id \<Rightarrow> rpc_call \<Rightarrow> rpc_reply \<Rightarrow> bool" where
  "restores i (RPC_CHECK_HOLDER a j n) (Holders r) \<longleftrightarrow> \<not> a \<and> j = i \<and> 0 < extra_num r"
| "restores i _ _ \<longleftrightarrow> False"

section \<open>The integrity check of a host (lib/lock.cc)\<close>

definition SERVER_FAILED :: "u64 \<Rightarrow> nat \<Rightarrow> bool" where
  "SERVER_FAILED code mid \<longleftrightarrow> code AND push_bit mid 1 = 0"

text \<open>
  The loop that removes waiters erases through the iterator and increments it afterwards, so
  that the element which moves into the erased place is not looked at.
\<close>

function erase_waiters :: "nat \<Rightarrow> nat \<Rightarrow> wqe list \<Rightarrow> wqe list" where
  "erase_waiters w host q =
     (if w < length q then
        (if unat (wq_host (q ! w)) = host then erase_waiters (Suc w) host (take w q @ drop (Suc w) q)
         else erase_waiters (Suc w) host q)
      else q)"
  by pat_completeness auto
termination
  by (relation "measure (\<lambda>(w, host, q). length q - w)") auto

declare erase_waiters.simps [simp del]

text \<open>Erasing the current element of a range-based loop over a set leaves an invalid iterator.\<close>

definition remove_failed_host :: "u64 \<Rightarrow> nat \<Rightarrow> innet_lock \<Rightarrow> fl_error + innet_lock" where
  "remove_failed_host fault_code i l =
     (if \<not> SERVER_FAILED fault_code i then Inr l
      else if \<exists>h \<in> holders l. unat (LOCK_HOLDER_HOST h) = i then Inl Invalid_pointer
      else Inr (l\<lparr>wqueue := erase_waiters 0 i (wqueue l)\<rparr>))"

fun remove_failed :: "u64 \<Rightarrow> nat list \<Rightarrow> innet_lock \<Rightarrow> fl_error + innet_lock" where
  "remove_failed fault_code [] l = Inr l"
| "remove_failed fault_code (i # is) l =
     (case remove_failed_host fault_code i l of
        Inl e \<Rightarrow> Inl e
      | Inr l1 \<Rightarrow> remove_failed fault_code is l1)"

text \<open>First phase, for one lock: submit local holders; as agent, drop the dead and submit waiters.\<close>

definition integrity_collect ::
  "u64 \<Rightarrow> host_id \<Rightarrow> innet_lock \<Rightarrow> rpc_server \<Rightarrow> fl_error + innet_lock \<times> rpc_server" where
  "integrity_collect fault_code me l s =
     (let s1 = fold (\<lambda>t. collect_holders (lid l) (LOCK_HOLDER me t)) (sorted_list_of_set (local_holders l)) s in
      if is_agent l then
        (case remove_failed fault_code [0..<unat HOST_NUM] l of
           Inl e \<Rightarrow> Inl e
         | Inr l1 \<Rightarrow>
             Inr (l1, fold (\<lambda>w. collect_waiters (lid l1) (LOCK_HOLDER (wq_host w) (wqe_task w))) (wqueue l1) s1))
      else Inr (l, s1))"

definition insert_holders :: "check_holder_reply \<Rightarrow> innet_lock \<Rightarrow> fl_error + innet_lock" where
  "insert_holders r l =
     (if int (length (extra_holders r)) < extra_num r then Inl Out_of_bounds
      else Inr (l\<lparr>holders := holders l \<union> set (take (nat (extra_num r)) (extra_holders r))\<rparr>))"

text \<open>
  Second phase, once the server has answered ready, for one lock: the result says whether the
  host sends an acquire that makes it the agent at the restarted switch. A host that is not the
  agent leaves the count in its request zero.
\<close>

definition integrity_restore ::
  "innet_lock \<Rightarrow> rpc_server \<Rightarrow> fl_error + (innet_lock \<times> bool) \<times> rpc_server" where
  "integrity_restore l s =
     (if is_agent l then
        (case check_holder True (lid l) (of_nat (card (holders l))) s of
           Inl e \<Rightarrow> Inl e
         | Inr (r, s1) \<Rightarrow>
             (if 0 < extra_num r
              then (case insert_holders r l of Inl e \<Rightarrow> Inl e | Inr l1 \<Rightarrow> Inr ((l1, True), s1))
              else Inr ((l, True), s1)))
      else if local_holders l \<noteq> {} then
        (case check_holder False (lid l) 0 s of
           Inl e \<Rightarrow> Inl e
         | Inr (r, s1) \<Rightarrow>
             (if 0 < extra_num r
              then (case insert_holders r
                           (l\<lparr>is_agent := True, mode := (if 1 < extra_num r then LOCK_SHARED else LOCK_EXCL)\<rparr>) of
                      Inl e \<Rightarrow> Inl e
                    | Inr l1 \<Rightarrow> Inr ((l1, True), s1))
              else Inr ((l, False), s1)))
      else Inr ((l, False), s))"

text \<open>Third phase: the post that restores the agent and the mode at the switch.\<close>

definition restore_post :: "host_id \<Rightarrow> innet_lock \<Rightarrow> packet" where
  "restore_post me l = send_post_acquire me (lock_state_code (mode l)) (lid l) me TASK_FOR_RESTORE"

section \<open>Waiters after a fault (lib/fault.cc)\<close>

text \<open>
  The end of \<open>check_error\<close> for a waiter: poll until the server has an answer, over the
  server states at the times of the polls; the result 1 aborts the waiter.
\<close>

fun poll_waiter :: "rpc_server list \<Rightarrow> host_id \<Rightarrow> lock_id \<Rightarrow> task_id \<Rightarrow> int option" where
  "poll_waiter [] me i task = None"
| "poll_waiter (s # ss) me i task =
     (let r = check_waiter i (LOCK_HOLDER me task) s in
      if r = 2 then poll_waiter ss me i task
      else if r = 1 then Some 0 else Some 1)"

section \<open>Identifiers\<close>

definition reg_wf :: "rpc_server \<Rightarrow> bool" where
  "reg_wf s \<longleftrightarrow> finite (dom (reg_tbl s)) \<and> unat (lid_pool s) = card (dom (reg_tbl s)) \<and>
     (\<forall>k i. reg_tbl s k = Some i \<longrightarrow> 0 < i \<and> i \<le> lid_pool s) \<and> inj_on (reg_tbl s) (dom (reg_tbl s))"

text \<open>The identifiers that a sequence of calls registers.\<close>

definition reg_keys :: "rpc_call list \<Rightarrow> u64 set" where
  "reg_keys cs = {k. RPC_LOCK_REGISTER k \<in> set cs}"

lemma reg_keys_Cons:
  "reg_keys (c # cs) = (case c of RPC_LOCK_REGISTER k \<Rightarrow> insert k (reg_keys cs) | _ \<Rightarrow> reg_keys cs)"
  by (auto simp: reg_keys_def split: rpc_call.split)

lemma finite_reg_keys [simp]: "finite (reg_keys cs)"
proof -
  have "reg_keys cs = RPC_LOCK_REGISTER -` set cs" by (auto simp: reg_keys_def)
  then show ?thesis by (simp add: finite_vimageI inj_on_def)
qed

lemma reg_wf_main: "reg_wf rpc_server_main"
  by (simp add: reg_wf_def rpc_server_main_def)

lemma lock_register_step:
  assumes wf: "reg_wf s" and few: "card (insert k (dom (reg_tbl s))) < 2 ^ 32"
    and r: "lock_register k s = (i, s')"
  shows "reg_wf s' \<and> reg_tbl s' k = Some i \<and> dom (reg_tbl s') = insert k (dom (reg_tbl s)) \<and>
    reg_tbl s \<subseteq>\<^sub>m reg_tbl s'"
proof (cases "reg_tbl s k")
  case (Some j)
  then show ?thesis using wf r by (auto simp: lock_register_def)
next
  case None
  let ?i = "lid_pool s + 1"
  have i: "i = ?i" "s' = s\<lparr>lid_pool := ?i, reg_tbl := (reg_tbl s)(k \<mapsto> ?i)\<rparr>"
    using r None by (auto simp: lock_register_def map_insert_def Let_def)
  have n: "unat (lid_pool s) = card (dom (reg_tbl s))" "finite (dom (reg_tbl s))"
    and le: "\<And>k' j. reg_tbl s k' = Some j \<Longrightarrow> 0 < j \<and> j \<le> lid_pool s"
    and inj: "inj_on (reg_tbl s) (dom (reg_tbl s))"
    using wf by (auto simp: reg_wf_def)
  have "Suc (unat (lid_pool s)) < 2 ^ 32" using few None n by (simp add: domIff)
  then have u: "unat ?i = Suc (unat (lid_pool s))" by (simp add: unat_word_ariths)
  then have lt: "lid_pool s < ?i" "0 < ?i" by (simp_all add: word_less_nat_alt)
  have "reg_tbl s k' \<noteq> Some ?i" for k' using le [of k' ?i] lt by auto
  then have "inj_on ((reg_tbl s)(k \<mapsto> ?i)) (insert k (dom (reg_tbl s)))"
    using inj None by (auto simp: inj_on_def)
  moreover have "0 < j \<and> j \<le> ?i" if "((reg_tbl s)(k \<mapsto> ?i)) k' = Some j" for k' j
    using le [of k' j] that lt by (auto split: if_splits)
  moreover have "unat ?i = card (insert k (dom (reg_tbl s)))" using u n None by (simp add: domIff)
  ultimately show ?thesis using n None by (auto simp: reg_wf_def i map_le_def)
qed

lemma rpc_serve_reg_tbl:
  "rpc_serve c s = Inr (r, s1) \<Longrightarrow> (\<And>k. c \<noteq> RPC_LOCK_REGISTER k) \<Longrightarrow>
   reg_tbl s1 = reg_tbl s \<and> lid_pool s1 = lid_pool s \<and> (\<forall>i. r \<noteq> Lid i)"
  by (cases c) (auto simp: collect_holders_def collect_waiters_def upd_lock_data_def recovery_ready_def
      check_holder_def Let_def split: if_splits sum.splits)

lemma rpc_run_Cons:
  "rpc_run (c # cs) s = Inr (rs, s') \<longleftrightarrow>
     (\<exists>r s1 rs1. rpc_serve c s = Inr (r, s1) \<and> rpc_run cs s1 = Inr (rs1, s') \<and> rs = r # rs1)"
proof (cases "rpc_serve c s")
  case (Inr b)
  then show ?thesis by (cases b; cases "rpc_run cs (snd b)") auto
qed simp

text \<open>Each registration is answered with the identifier that the final table has for the key.\<close>

lemma rpc_run_registered:
  assumes "rpc_run cs s = Inr (rs, s')" "reg_wf s" "card (dom (reg_tbl s) \<union> reg_keys cs) < 2 ^ 32"
  shows "reg_wf s' \<and> reg_tbl s \<subseteq>\<^sub>m reg_tbl s' \<and> length rs = length cs \<and>
    (\<forall>n < length cs. \<forall>k. cs ! n = RPC_LOCK_REGISTER k \<longrightarrow> (\<exists>i. rs ! n = Lid i \<and> reg_tbl s' k = Some i))"
  using assms
proof (induction cs arbitrary: s rs)
  case Nil
  then show ?case by simp
next
  case (Cons c cs)
  obtain r s1 rs1 where c: "rpc_serve c s = Inr (r, s1)" and cs: "rpc_run cs s1 = Inr (rs1, s')" and rs: "rs = r # rs1"
    using Cons.prems(1) by (auto simp only: rpc_run_Cons)
  have s1: "reg_wf s1 \<and> reg_tbl s \<subseteq>\<^sub>m reg_tbl s1 \<and> dom (reg_tbl s1) \<union> reg_keys cs = dom (reg_tbl s) \<union> reg_keys (c # cs) \<and>
      (\<forall>k. c = RPC_LOCK_REGISTER k \<longrightarrow> (\<exists>i. r = Lid i \<and> reg_tbl s1 k = Some i))"
  proof (cases "\<exists>k. c = RPC_LOCK_REGISTER k")
    case True
    then obtain k where k: "c = RPC_LOCK_REGISTER k" by blast
    obtain i where i: "lock_register k s = (i, s1)" "r = Lid i" using c k by (auto split: prod.splits)
    have "card (insert k (dom (reg_tbl s))) \<le> card (dom (reg_tbl s) \<union> reg_keys (c # cs))"
      using Cons.prems(2) k by (intro card_mono) (auto simp: reg_wf_def reg_keys_Cons)
    then show ?thesis
      using lock_register_step [OF Cons.prems(2) _ i(1)] Cons.prems(3) k i(2) by (auto simp: reg_keys_Cons)
  next
    case False
    then have "reg_tbl s1 = reg_tbl s" "lid_pool s1 = lid_pool s" using rpc_serve_reg_tbl [OF c] by auto
    then show ?thesis using False Cons.prems(2) by (auto simp: reg_wf_def reg_keys_Cons split: rpc_call.split)
  qed
  then have ih: "reg_wf s' \<and> reg_tbl s1 \<subseteq>\<^sub>m reg_tbl s' \<and> length rs1 = length cs \<and>
    (\<forall>n < length cs. \<forall>k. cs ! n = RPC_LOCK_REGISTER k \<longrightarrow> (\<exists>i. rs1 ! n = Lid i \<and> reg_tbl s' k = Some i))"
    using Cons.IH [OF cs] Cons.prems(3) by simp
  have "\<exists>i. rs ! n = Lid i \<and> reg_tbl s' k = Some i" if "n < length (c # cs)" "(c # cs) ! n = RPC_LOCK_REGISTER k" for n k
  proof (cases n)
    case 0
    then have "c = RPC_LOCK_REGISTER k" using that by simp
    then obtain i where "r = Lid i" "reg_tbl s1 k = Some i" using s1 by blast
    moreover have "reg_tbl s1 \<subseteq>\<^sub>m reg_tbl s'" using ih by blast
    ultimately show ?thesis using 0 by (metis domI map_le_def nth_Cons_0 rs)
  qed (use ih that in \<open>simp add: rs\<close>)
  with ih s1 show ?case by (auto simp: rs intro: map_le_trans)
qed

text \<open>
  C24. Lock identifiers are unique in the cluster: over any sequence of calls to the
  coordinator that registers fewer than \<open>2 ^ 32\<close> different keys, two registrations are
  answered with the same identifier exactly if they are for the same key, and no identifier
  is 0.
\<close>

theorem lock_register_unique:
  assumes "rpc_run cs rpc_server_main = Inr (rs, s)" "card (reg_keys cs) < 2 ^ 32"
    and "m < length cs" "cs ! m = RPC_LOCK_REGISTER k" "n < length cs" "cs ! n = RPC_LOCK_REGISTER k'"
  shows "\<exists>i j. rs ! m = Lid i \<and> rs ! n = Lid j \<and> i \<noteq> 0 \<and> (i = j \<longleftrightarrow> k = k')"
proof -
  have "dom (reg_tbl rpc_server_main) \<union> reg_keys cs = reg_keys cs" by (simp add: rpc_server_main_def)
  with assms(2) have "card (dom (reg_tbl rpc_server_main) \<union> reg_keys cs) < 2 ^ 32" by simp
  note run = rpc_run_registered [OF assms(1) reg_wf_main this]
  obtain i j where ij: "rs ! m = Lid i" "reg_tbl s k = Some i" "rs ! n = Lid j" "reg_tbl s k' = Some j"
    using run assms(3-6) by blast
  have wf: "\<And>k i. reg_tbl s k = Some i \<Longrightarrow> 0 < i" "inj_on (reg_tbl s) (dom (reg_tbl s))"
    using run by (auto simp: reg_wf_def)
  have "k = k'" if "i = j" using inj_onD [OF wf(2), of k k'] ij that by auto
  moreover have "i \<noteq> 0" using wf(1) [OF ij(2)] by auto
  ultimately show ?thesis using ij by auto
qed

theorem lock_register_unique_witness:
  "\<exists>i j rs s. rpc_run [RPC_LOCK_REGISTER 7, RPC_COLLECT_HOLDERS 1 4, RPC_LOCK_REGISTER 9] rpc_server_main = Inr (rs, s) \<and>
     rs ! 0 = Lid i \<and> rs ! 2 = Lid j \<and> i \<noteq> 0 \<and> i \<noteq> j"
proof -
  let ?cs = "[RPC_LOCK_REGISTER 7, RPC_COLLECT_HOLDERS 1 4, RPC_LOCK_REGISTER 9]"
  obtain rs s where r: "rpc_run ?cs rpc_server_main = Inr (rs, s)"
    by (simp add: lock_register_def rpc_server_main_def collect_holders_def upd_lock_data_def map_insert_def Let_def)
  have "reg_keys ?cs = {7, 9}" by (auto simp: reg_keys_def)
  with lock_register_unique [OF r, of 0 7 2 9] r show ?thesis by auto
qed


section \<open>Restored agents\<close>

lemma rpc_serve_has_agent:
  assumes "rpc_serve c s = Inr (r, s1)"
  shows "has_agent (lm_state s i) \<longrightarrow> has_agent (lm_state s1 i) \<and> \<not> restores i c r"
    and "restores i c r \<longrightarrow> has_agent (lm_state s1 i)"
  using assms
  by (cases c; auto simp: lock_register_def collect_holders_def collect_waiters_def upd_lock_data_def
      recovery_ready_def check_holder_def Let_def split: if_splits sum.splits option.splits)+

text \<open>
  C25. Whatever calls the hosts make, and in whatever order, the coordinator tells at most one
  host without the agent of a lock to restore the agent, and none once it knows of one.
\<close>

theorem one_agent_restored:
  assumes "rpc_run cs s = Inr (rs, s')"
  shows "length (filter (\<lambda>(c, r). restores i c r) (zip cs rs)) \<le> (if has_agent (lm_state s i) then 0 else 1)"
  using assms
proof (induction cs arbitrary: s rs)
  case (Cons c cs)
  then obtain r s1 rs1 where c: "rpc_serve c s = Inr (r, s1)" "rpc_run cs s1 = Inr (rs1, s')" "rs = r # rs1"
    by (auto simp only: rpc_run_Cons)
  with Cons.IH [OF c(2)] rpc_serve_has_agent [OF c(1), of i] show ?case by (auto split: if_splits)
qed simp

theorem one_agent_restored_witness:
  "\<exists>rs s'. rpc_run [RPC_COLLECT_HOLDERS 3 5, RPC_CHECK_HOLDER False 3 0, RPC_CHECK_HOLDER False 3 0]
       rpc_server_main = Inr (rs, s') \<and>
     length (filter (\<lambda>(c, r). restores 3 c r)
       (zip [RPC_COLLECT_HOLDERS 3 5, RPC_CHECK_HOLDER False 3 0, RPC_CHECK_HOLDER False 3 0] rs)) \<le> 1"
proof -
  let ?cs = "[RPC_COLLECT_HOLDERS 3 5, RPC_CHECK_HOLDER False 3 0, RPC_CHECK_HOLDER False 3 0]"
  obtain rs s' where r: "rpc_run ?cs rpc_server_main = Inr (rs, s')"
    by (simp add: check_holder_def reply_holders_def collect_holders_def upd_lock_data_def MAX_HOLDERS_def
        rpc_server_main_def Let_def)
  with one_agent_restored [OF r, of 3] show ?thesis by (auto simp: rpc_server_main_def)
qed

text \<open>
  An agent whose wait queue is empty submits nothing about its role, so that the
  coordinator takes the agent for lost: another host with a holder of the lock, even a single
  reader, makes itself a second agent of the lock, in exclusive mode.
\<close>

theorem live_agent_restored_again:
  assumes "is_agent l1" "wqueue l1 = []" "local_holders l1 = {}"
    and "integrity_collect fault_code m1 l1 rpc_server_main = Inr (l1', s1)"
    and "\<not> is_agent l2" "local_holders l2 = {t}" "lid l2 = lid l1"
  shows "\<exists>s2 l2' s3. integrity_collect fault_code m2 l2 s1 = Inr (l2, s2) \<and>
     integrity_restore l2 s2 = Inr ((l2', True), s3) \<and>
     is_agent l1' \<and> is_agent l2' \<and> mode l2' = LOCK_EXCL \<and> holders l2' = insert (LOCK_HOLDER m2 t) (holders l2)"
proof -
  have er: "erase_waiters 0 i [] = []" for i by (simp add: erase_waiters.simps)
  have rf: "remove_failed fault_code is l = Inr l' \<Longrightarrow> wqueue l = [] \<Longrightarrow> wqueue l' = [] \<and> is_agent l' = is_agent l" for "is" l l'
    by (induction "is" arbitrary: l) (auto simp: remove_failed_host_def er split: if_splits)
  from assms(1-4) have "remove_failed fault_code [0..<unat HOST_NUM] l1 = Inr l1'"
    and s1: "s1 = fold (\<lambda>w. collect_waiters (lid l1') (LOCK_HOLDER (wq_host w) (wqe_task w))) (wqueue l1') rpc_server_main"
    by (auto simp: integrity_collect_def split: sum.splits)
  from rf [OF this(1)] assms(1,2) have l1': "wqueue l1' = []" "is_agent l1'" by auto
  with s1 have "s1 = rpc_server_main" by simp
  then show ?thesis using assms(5-7) l1'(2)
    by (auto simp: integrity_collect_def integrity_restore_def check_holder_def reply_holders_def insert_holders_def
        collect_holders_def upd_lock_data_def rpc_server_main_def MAX_HOLDERS_def Let_def)
qed

theorem live_agent_restored_again_witness:
  "\<exists>l1' s1 s2 l2' s3.
     integrity_collect 0x1ff 1 ((new_lock 5 5)\<lparr>is_agent := True, mode := LOCK_SHARED, holders := {LOCK_HOLDER 2 9}\<rparr>)
       rpc_server_main = Inr (l1', s1) \<and>
     integrity_collect 0x1ff 2 ((new_lock 5 5)\<lparr>local_holders := {9}\<rparr>) s1 = Inr ((new_lock 5 5)\<lparr>local_holders := {9}\<rparr>, s2) \<and>
     integrity_restore ((new_lock 5 5)\<lparr>local_holders := {9}\<rparr>) s2 = Inr ((l2', True), s3) \<and>
     is_agent l1' \<and> is_agent l2' \<and> mode l2' = LOCK_EXCL"
proof -
  let ?l1 = "(new_lock 5 5)\<lparr>is_agent := True, mode := LOCK_SHARED, holders := {LOCK_HOLDER 2 9}\<rparr>"
  obtain l1' s1 where c: "integrity_collect 0x1ff 1 ?l1 rpc_server_main = Inr (l1', s1)"
    by (simp add: integrity_collect_def new_lock_def HOST_NUM_def upt_rec remove_failed_host_def SERVER_FAILED_def)
  show ?thesis
    using live_agent_restored_again [OF _ _ _ c, of "(new_lock 5 5)\<lparr>local_holders := {9}\<rparr>" 9 2] c
    by (simp add: new_lock_def) blast
qed

text \<open>
  The answer of the coordinator to a host that reports ready does not depend on the other
  hosts: the condition that all machines have submitted their data is always true, because
  of the precedence of its operators, and the host proceeds as soon as the switch is up.
\<close>

theorem recovery_ready_ignores_other_hosts:
  assumes "mid \<le> 30"
  shows "\<exists>s'. recovery_ready mid fault_code s = Inr (ready_signal s \<noteq> 0, s')"
proof -
  have "(x OR 1 :: u64) \<noteq> 0" for x by (metis bit_0_eq bit_1_iff bit_or_iff bot_apply bot_bool_def)
  then show ?thesis using assms by (simp add: recovery_ready_def Let_def not_less)
qed

theorem recovery_ready_ignores_other_hosts_witness:
  "\<exists>s'. recovery_ready 2 0x1ff (rpc_server_main\<lparr>ready_signal := 1\<rparr>) = Inr (True, s')"
  using recovery_ready_ignores_other_hosts [of 2 "0x1ff" "rpc_server_main\<lparr>ready_signal := 1\<rparr>"] by simp


section \<open>Waiters\<close>

text \<open>The erasing loop, by recursion on the queue.\<close>

fun erase_skip :: "nat \<Rightarrow> wqe list \<Rightarrow> wqe list" where
  "erase_skip h [] = []"
| "erase_skip h [x] = (if unat (wq_host x) = h then [] else [x])"
| "erase_skip h (x # y # q) =
     (if unat (wq_host x) = h then y # erase_skip h q else x # erase_skip h (y # q))"

fun adjacent :: "('a \<Rightarrow> bool) \<Rightarrow> 'a list \<Rightarrow> bool" where
  "adjacent P (x # y # q) \<longleftrightarrow> P x \<and> P y \<or> adjacent P (y # q)"
| "adjacent P _ \<longleftrightarrow> False"

lemma erase_waiters_skip: "erase_waiters (length p) h (p @ q) = p @ erase_skip h q"
proof (induction h q arbitrary: p rule: erase_skip.induct)
  case (2 h x)
  then show ?case by (subst erase_waiters.simps) (simp add: erase_waiters.simps [of "Suc (length p)"])
next
  case (3 h x y q)
  show ?case
  proof (cases "unat (wq_host x) = h")
    case True
    then show ?thesis using "3.IH"(1) [of "p @ [y]"] by (subst erase_waiters.simps) simp
  next
    case False
    then show ?thesis using "3.IH"(2) [of "p @ [x]"] by (subst erase_waiters.simps) simp
  qed
qed (simp add: erase_waiters.simps)

text \<open>
  After a fault the agent removes all waiters of a failed host from a wait queue, keeping
  the others in order, exactly if no two waiters of that host are adjacent: of two adjacent
  ones, the second stays.
\<close>

theorem failed_waiters_removed_iff:
  "erase_waiters 0 h q = filter (\<lambda>w. unat (wq_host w) \<noteq> h) q \<longleftrightarrow> \<not> adjacent (\<lambda>w. unat (wq_host w) = h) q"
proof -
  have "erase_skip h q = filter (\<lambda>w. unat (wq_host w) \<noteq> h) q \<longleftrightarrow> \<not> adjacent (\<lambda>w. unat (wq_host w) = h) q"
  proof (induction h q rule: erase_skip.induct)
    case (3 h x y q)
    have "adjacent (\<lambda>w. unat (wq_host w) = h) (y # q) = adjacent (\<lambda>w. unat (wq_host w) = h) q"
      if "unat (wq_host y) \<noteq> h" using that by (cases q) auto
    moreover have "y # ys \<noteq> filter (\<lambda>w. unat (wq_host w) \<noteq> h) q" if "unat (wq_host y) = h" for ys
    proof
      assume "y # ys = filter (\<lambda>w. unat (wq_host w) \<noteq> h) q"
      then have "y \<in> set (filter (\<lambda>w. unat (wq_host w) \<noteq> h) q)" by (metis list.set_intros(1))
      with that show False by simp
    qed
    ultimately show ?case using 3 by auto
  qed auto
  then show ?thesis using erase_waiters_skip [of "[]" h q] by simp
qed

text \<open>
  The verdict on a waiter after a fault: once the coordinator has all data, a waiter that
  the agent of its lock has in its wait queue is told to go on, any other is told to abort.
\<close>

theorem waiter_kept_iff_queued:
  assumes "is_agent l" "ld_waiters (lm_state s0 (lid l)) = {}"
    and "integrity_collect fault_code m l s0 = Inr (l', s)"
    and "s1 = s\<lparr>ready_bitmap := rb, fault_signal := fs\<rparr>" "fs \<noteq> 0" "rb OR 1 = fs OR 1"
  shows "poll_waiter [s1] me (lid l) task =
     Some (if LOCK_HOLDER me task \<in> wqe_holder ` set (wqueue l') then 0 else 1)"
proof -
  have w: "ld_waiters (lm_state (fold (\<lambda>w. collect_waiters i (LOCK_HOLDER (wq_host w) (wqe_task w))) ws t) i) =
      ld_waiters (lm_state t i) \<union> wqe_holder ` set ws"
    and a: "has_agent (lm_state (fold (\<lambda>w. collect_waiters i (LOCK_HOLDER (wq_host w) (wqe_task w))) ws t) i) =
      (has_agent (lm_state t i) \<or> ws \<noteq> [])" for i ws t
    by (induction ws arbitrary: t) (auto simp: collect_waiters_def upd_lock_data_def wqe_holder_def)
  have h: "ld_waiters (lm_state (fold (\<lambda>t. collect_holders i (LOCK_HOLDER m t)) ts t) i) = ld_waiters (lm_state t i)" for i ts t
    by (induction ts arbitrary: t) (auto simp: collect_holders_def upd_lock_data_def)
  have f: "remove_failed fault_code is k = Inr k' \<Longrightarrow> lid k' = lid k" for "is" k k'
    by (induction "is" arbitrary: k) (auto simp: remove_failed_host_def split: if_splits)
  obtain "lid l' = lid l"
    "s = fold (\<lambda>w. collect_waiters (lid l') (LOCK_HOLDER (wq_host w) (wqe_task w))) (wqueue l')
       (fold (\<lambda>t. collect_holders (lid l) (LOCK_HOLDER m t)) (sorted_list_of_set (local_holders l)) s0)"
    using assms(1,3) f by (auto simp: integrity_collect_def Let_def split: sum.splits)
  then show ?thesis using assms(2,4-6) w a h by (auto simp: check_waiter_def Let_def)
qed

theorem waiter_kept_iff_queued_witness:
  "\<exists>l' s. integrity_collect 0x1ff 1 ((new_lock 5 5)\<lparr>is_agent := True, wqueue := [mk_wqe LOCK_EXCL 9 2]\<rparr>) rpc_server_main = Inr (l', s) \<and>
     poll_waiter [s\<lparr>ready_bitmap := 0x1ff, fault_signal := 0x1ff\<rparr>] 2 5 9 =
       Some (if LOCK_HOLDER 2 9 \<in> wqe_holder ` set (wqueue l') then 0 else 1)"
proof -
  let ?l = "(new_lock 5 5)\<lparr>is_agent := True, wqueue := [mk_wqe LOCK_EXCL 9 2]\<rparr>"
  obtain l' s where c: "integrity_collect 0x1ff 1 ?l rpc_server_main = Inr (l', s)"
    by (simp add: integrity_collect_def new_lock_def HOST_NUM_def upt_rec remove_failed_host_def SERVER_FAILED_def)
  with waiter_kept_iff_queued [OF _ _ c refl, of "0x1ff" "0x1ff" 2 9] show ?thesis
    by (simp add: rpc_server_main_def new_lock_def)
qed

end
