(* ===== verification/Frame_Bytes.thy ===== *)
theory Frame_Bytes
  imports Fiss_Prelude
begin

text \<open>
  Fields in the bytes of a frame, as the network modules of all the hosts write and read
  them: 16-bit values in network order, 32-bit values in the order of the host (which is
  little-endian), and whole ranges of bytes.
\<close>

section \<open>Writing and reading fields\<close>

text \<open>The two bytes of a 16-bit value in network order.\<close>

definition bytes16 :: "u16 \<Rightarrow> u8 list" where
  "bytes16 x = [ucast (drop_bit 8 x), ucast (x AND 0xff)]"

definition put16 :: "nat \<Rightarrow> u16 \<Rightarrow> u8 list \<Rightarrow> u8 list" where
  "put16 i x f = f[i := ucast (drop_bit 8 x), Suc i := ucast (x AND 0xff)]"

definition get16 :: "nat \<Rightarrow> u8 list \<Rightarrow> u16" where
  "get16 i f = push_bit 8 (ucast (f ! i)) OR ucast (f ! Suc i)"

text \<open>The four bytes of a 32-bit value in the order of the host.\<close>

definition bytes32_le :: "u32 \<Rightarrow> u8 list" where
  "bytes32_le x = [ucast x, ucast (drop_bit 8 x), ucast (drop_bit 16 x), ucast (drop_bit 24 x)]"

definition word32_le :: "u8 list \<Rightarrow> u32" where
  "word32_le bs =
     ucast (bs ! 0) OR push_bit 8 (ucast (bs ! 1)) OR push_bit 16 (ucast (bs ! 2)) OR push_bit 24 (ucast (bs ! 3))"

definition put_bytes :: "nat \<Rightarrow> u8 list \<Rightarrow> u8 list \<Rightarrow> u8 list" where
  "put_bytes i bs f = take i f @ bs @ drop (i + length bs) f"

definition get_bytes :: "nat \<Rightarrow> nat \<Rightarrow> u8 list \<Rightarrow> u8 list" where
  "get_bytes i n f = take n (drop i f)"

section \<open>Laws of the 16-bit fields\<close>

lemma length_bytes16 [simp]: "length (bytes16 x) = 2"
  by (simp add: bytes16_def)

lemma length_put16 [simp]: "length (put16 i x f) = length f"
  by (simp add: put16_def)

lemma put16_append: "Suc i < length h \<Longrightarrow> put16 i x (h @ p) = put16 i x h @ p"
  by (simp add: put16_def list_update_append)

lemma put16_nth: "j \<noteq> i \<Longrightarrow> j \<noteq> Suc i \<Longrightarrow> put16 i x f ! j = f ! j"
  by (simp add: put16_def)

lemma put16_put16 [simp]: "put16 i x (put16 i y f) = put16 i x f"
  by (simp add: put16_def list_update_swap)

lemma drop_put16: "n \<le> i \<Longrightarrow> drop n (put16 i x f) = put16 (i - n) x (drop n f)"
  by (simp add: put16_def drop_update_swap Suc_diff_le)

lemma take_put16: "Suc i < n \<Longrightarrow> take n (put16 i x f) = put16 i x (take n f)"
  by (simp add: put16_def take_update_swap)

lemma take_drop_put16_after: "n + m \<le> i \<Longrightarrow> take m (drop n (put16 i x f)) = take m (drop n f)"
  by (auto simp: put16_def intro!: nth_equalityI)

lemma drop_put16_before: "Suc i < n \<Longrightarrow> drop n (put16 i x f) = drop n f"
  by (simp add: put16_def)

lemma word16_of_bytes: "push_bit 8 (ucast (ucast (drop_bit 8 x) :: u8)) OR ucast (ucast (x AND 0xff) :: u8) = (x :: u16)"
proof (rule bit_word_eqI)
  fix n assume n: "n < LENGTH(16)"
  have m: "(0xff :: u16) = mask 8" by (simp add: mask_eq_exp_minus_1)
  show "bit (push_bit 8 (ucast (ucast (drop_bit 8 x) :: u8)) OR ucast (ucast (x AND 0xff) :: u8) :: u16) n = bit x n"
    using n by (auto simp: m bit_or_iff bit_push_bit_iff bit_unsigned_iff bit_drop_bit_eq bit_and_iff bit_mask_iff)
qed

lemma get16_put16 [simp]: "Suc i < length f \<Longrightarrow> get16 i (put16 i x f) = x"
  by (simp add: get16_def put16_def word16_of_bytes)

lemma get16_put16_other [simp]: "j \<noteq> i \<Longrightarrow> j \<noteq> Suc i \<Longrightarrow> Suc j \<noteq> i \<Longrightarrow> get16 j (put16 i x f) = get16 j f"
  by (simp add: get16_def put16_nth)

lemma get16_list_update: "i \<noteq> j \<Longrightarrow> i \<noteq> Suc j \<Longrightarrow> get16 j (f[i := x]) = get16 j f"
  by (simp add: get16_def)

section \<open>Laws of byte ranges\<close>

lemma word32_le_bytes [simp]: "word32_le (bytes32_le x) = x"
proof (rule bit_word_eqI)
  fix n assume "n < LENGTH(32)"
  then show "bit (word32_le (bytes32_le x)) n = bit x n"
    by (cases "n < 24"; cases "n < 16") (auto simp: word32_le_def bytes32_le_def bit_or_iff bit_push_bit_iff bit_unsigned_iff bit_drop_bit_eq
        dest: bit_imp_le_length)
qed

lemma length_bytes32_le [simp]: "length (bytes32_le x) = 4"
  by (simp add: bytes32_le_def)

lemma length_put_bytes [simp]: "i + length bs \<le> length f \<Longrightarrow> length (put_bytes i bs f) = length f"
  by (simp add: put_bytes_def)

lemma get_put_bytes [simp]: "i + length bs \<le> length f \<Longrightarrow> n = length bs \<Longrightarrow> get_bytes i n (put_bytes i bs f) = bs"
  by (simp add: get_bytes_def put_bytes_def)

lemma nth_put_bytes:
  "i + length bs \<le> length f \<Longrightarrow> j < i \<or> i + length bs \<le> j \<Longrightarrow> j < length f \<Longrightarrow> put_bytes i bs f ! j = f ! j"
  by (auto simp: put_bytes_def nth_append)

lemma get16_put_bytes [simp]:
  "i + length bs \<le> length f \<Longrightarrow> Suc j < i \<or> i + length bs \<le> j \<Longrightarrow> Suc j < length f \<Longrightarrow>
   get16 j (put_bytes i bs f) = get16 j f"
  by (auto simp: get16_def nth_put_bytes)

lemma get_bytes_put16 [simp]: "i + n \<le> j \<or> Suc j < i \<Longrightarrow> get_bytes i n (put16 j x f) = get_bytes i n f"
  by (auto simp: get_bytes_def take_drop_put16_after drop_put16_before)

lemma get_bytes_put_bytes_other [simp]:
  "j + length bs \<le> length f \<Longrightarrow> i + n \<le> j \<or> j + length bs \<le> i \<Longrightarrow> get_bytes i n (put_bytes j bs f) = get_bytes i n f"
  by (auto simp: get_bytes_def put_bytes_def take_drop min_def)

lemma drop_put_bytes_before [simp]: "i + length bs \<le> length f \<Longrightarrow> i + length bs \<le> n \<Longrightarrow> drop n (put_bytes i bs f) = drop n f"
  by (simp add: put_bytes_def)

end
