(* ===== verification/Dpdk_Net.thy ===== *)
theory Dpdk_Net
  imports Frame_Bytes Fiss_Lock_Meta "HOL-Library.Multiset"
begin

text \<open>
  The DPDK network module of the FissLock hosts (lib/net.cc) and its back end
  (utils/dpdk.c): packet buffers with their bytes, the headers that are written in front of a
  post, sending of one buffer and of a batch, the loop that receives a burst, and the
  assignment of queues to cores. What DPDK answers is an argument: how many buffers a
  transmission accepts, which buffers the pool and the receive queue hand out, and the return
  values of the configuration calls. The theorems account for every buffer, and state that
  the lengths in the headers are those of the frame.
\<close>

section \<open>Buffers (utils/dpdk.c)\<close>

text \<open>
  A buffer is known by its address; \<open>mb_data\<close> is its data room, of which the first
  \<open>data_len\<close> bytes are the frame.
\<close>

record mbuf =
  mb_addr :: nat
  mb_data :: "u8 list"
  data_len :: u16
  pkt_len :: u32

text \<open>
  A core: the buffers it got from the pool or received, those that the transmission queue
  has accepted, those it has freed, and its count of sent packets.
\<close>

record dpdk_core =
  taken :: "nat list"
  tx_queue :: "mbuf list"
  freed :: "mbuf list"
  tx_count :: u32

definition FRAME_HDR_SIZE :: nat where
  "FRAME_HDR_SIZE = 14 + 20 + 8"

definition DPDK_RX_BURST_SIZE :: nat where
  "DPDK_RX_BURST_SIZE = 32"

definition dpdk_get_mbuf :: "mbuf option \<Rightarrow> dpdk_core \<Rightarrow> mbuf option \<times> dpdk_core" where
  "dpdk_get_mbuf m c =
     (m, case m of None \<Rightarrow> c | Some m \<Rightarrow> c\<lparr>taken := taken c @ [mb_addr m]\<rparr>)"

text \<open>The result of the bulk allocation is not looked at: all buffers, or none.\<close>

definition dpdk_get_mbuf_bulk :: "mbuf list option \<Rightarrow> nat \<Rightarrow> dpdk_core \<Rightarrow> mbuf option list \<times> dpdk_core" where
  "dpdk_get_mbuf_bulk ms n c =
     (case ms of
        None \<Rightarrow> (replicate n None, c)
      | Some ms \<Rightarrow> (map Some (take n ms), c\<lparr>taken := taken c @ map mb_addr (take n ms)\<rparr>))"

definition dpdk_mbuf_to_sendbuf :: "mbuf \<Rightarrow> u8 list" where
  "dpdk_mbuf_to_sendbuf m = drop FRAME_HDR_SIZE (mb_data m)"

text \<open>
  \<open>rte_eth_tx_burst\<close> takes the first \<open>acc\<close> of the buffers over; the others stay with the
  caller.
\<close>

definition dpdk_send :: "nat \<Rightarrow> mbuf \<Rightarrow> dpdk_core \<Rightarrow> nat \<times> dpdk_core" where
  "dpdk_send acc m c = (acc, c\<lparr>tx_queue := tx_queue c @ take acc [m]\<rparr>)"

definition dpdk_send_batch :: "nat \<Rightarrow> mbuf list \<Rightarrow> dpdk_core \<Rightarrow> nat \<times> dpdk_core" where
  "dpdk_send_batch acc ms c = (acc, c\<lparr>tx_queue := tx_queue c @ take acc ms\<rparr>)"

definition dpdk_poll_recvs :: "mbuf list \<Rightarrow> dpdk_core \<Rightarrow> mbuf list \<times> dpdk_core" where
  "dpdk_poll_recvs rx c =
     (let bufs = take DPDK_RX_BURST_SIZE rx in (bufs, c\<lparr>taken := taken c @ map mb_addr bufs\<rparr>))"

definition rte_pktmbuf_free :: "mbuf \<Rightarrow> dpdk_core \<Rightarrow> dpdk_core" where
  "rte_pktmbuf_free m c = c\<lparr>freed := freed c @ [m]\<rparr>"

section \<open>Sending (lib/net.cc)\<close>

definition DPDK_SERVER_POST_TYPE :: u16 where
  "DPDK_SERVER_POST_TYPE = 20001"

definition init_header_template :: "u8 list" where
  "init_header_template =
     (let t = replicate FRAME_HDR_SIZE 0;
          t = put16 12 0x0800 t;
          t = put_bytes 6 [0x08, 0xc0, 0xeb, 0xdc, 0xb3, 0x00] t;
          t = put_bytes 0 [0x08, 0xc0, 0xeb, 0xdc, 0xa1, 0x12] t;
          t = put_bytes 26 (bytes32_le 167772672) t;
          t = put_bytes 30 (bytes32_le 167772673) t;
          t = t[14 := 0x45];
          t = t[23 := 17]
      in put16 36 DPDK_SERVER_POST_TYPE t)"

text \<open>The headers in front of a post of \<open>sz\<close> bytes, and the two lengths of the buffer.\<close>

definition write_headers :: "u32 \<Rightarrow> nat \<Rightarrow> mbuf \<Rightarrow> fl_error + mbuf" where
  "write_headers txc sz m =
     (if length (mb_data m) < FRAME_HDR_SIZE then Inl Out_of_bounds
      else
        (let d = put_bytes 0 init_header_template (mb_data m);
             d = put16 16 (of_nat (20 + sz + 8)) d;
             d = put16 34 (DPDK_SERVER_POST_TYPE + ucast (txc mod 128)) d;
             d = put16 38 (of_nat (8 + sz)) d
         in Inr (m\<lparr>mb_data := d, data_len := of_nat (sz + FRAME_HDR_SIZE),
                   pkt_len := of_nat (sz + FRAME_HDR_SIZE)\<rparr>)))"

definition net_send :: "nat \<Rightarrow> mbuf \<Rightarrow> nat \<Rightarrow> dpdk_core \<Rightarrow> fl_error + dpdk_core" where
  "net_send acc m sz c =
     (case write_headers (tx_count c) sz m of
        Inl e \<Rightarrow> Inl e
      | Inr m \<Rightarrow>
          (let (tx_cnt, c) = dpdk_send acc m c in
           Inr (if tx_cnt \<noteq> 1 then rte_pktmbuf_free m c else c\<lparr>tx_count := tx_count c + 1\<rparr>)))"

fun write_headers_all :: "u32 \<Rightarrow> nat \<Rightarrow> mbuf list \<Rightarrow> fl_error + mbuf list" where
  "write_headers_all txc sz [] = Inr []"
| "write_headers_all txc sz (m # ms) =
     (case write_headers txc sz m of
        Inl e \<Rightarrow> Inl e
      | Inr m \<Rightarrow> (case write_headers_all txc sz ms of Inl e \<Rightarrow> Inl e | Inr ms \<Rightarrow> Inr (m # ms)))"

definition net_send_batch :: "nat \<Rightarrow> mbuf list \<Rightarrow> nat \<Rightarrow> dpdk_core \<Rightarrow> fl_error + dpdk_core" where
  "net_send_batch acc ms sz c =
     (if DPDK_TX_BURST_SIZE < length ms then Inl Out_of_bounds
      else
        (case write_headers_all (tx_count c) sz ms of
           Inl e \<Rightarrow> Inl e
         | Inr bufs \<Rightarrow>
             (let (tx_cnt, c) = dpdk_send_batch acc bufs c;
                  c = c\<lparr>tx_count := tx_count c + of_nat tx_cnt\<rparr>
              in Inr (fold rte_pktmbuf_free (drop tx_cnt bufs) c))))"

section \<open>Receiving (lib/net.cc)\<close>

text \<open>
  A dispatcher works on the bytes behind the headers, which it may change in place. The
  posts that it sends itself are part of its state \<open>'s\<close>.
\<close>

type_synonym 's dispatcher = "u8 list \<Rightarrow> 's \<Rightarrow> fl_error + int \<times> u8 list \<times> 's"

definition register_packet_dispatcher ::
  "post_t \<Rightarrow> 's dispatcher \<Rightarrow> (u8 \<Rightarrow> 's dispatcher option) \<Rightarrow> u8 \<Rightarrow> 's dispatcher option" where
  "register_packet_dispatcher t f ds = ds(post_code t := Some f)"

text \<open>The type of a received post is not checked before it is used as an index.\<close>

definition packet_dispatch :: "(u8 \<Rightarrow> 's dispatcher option) \<Rightarrow> u8 \<Rightarrow> 's dispatcher" where
  "packet_dispatch ds t buf s =
     (if NUM_POST_TYPES \<le> t then Inl Out_of_bounds
      else case ds t of None \<Rightarrow> Inr (0, buf, s) | Some f \<Rightarrow> f buf s)"

definition enlarge :: "int \<Rightarrow> mbuf \<Rightarrow> mbuf" where
  "enlarge ret m =
     m\<lparr>data_len := data_len m + of_int ret, pkt_len := pkt_len m + of_int ret,
       mb_data := put16 16 (get16 16 (mb_data m) + of_int ret) (mb_data m)\<rparr>"

text \<open>One turn of the loop; \<open>acc\<close> is the answer of the NIC if the buffer is sent back.\<close>

definition poll_one ::
  "(u8 \<Rightarrow> 's dispatcher option) \<Rightarrow> nat \<times> mbuf \<Rightarrow> 's \<times> dpdk_core \<Rightarrow> fl_error + 's \<times> dpdk_core" where
  "poll_one ds = (\<lambda>(acc, m) (s, c).
     (if length (mb_data m) \<le> FRAME_HDR_SIZE then Inl Out_of_bounds
      else
        (case packet_dispatch ds (mb_data m ! FRAME_HDR_SIZE) (drop FRAME_HDR_SIZE (mb_data m)) s of
           Inl e \<Rightarrow> Inl e
         | Inr (ret, buf, s) \<Rightarrow>
             (let m = m\<lparr>mb_data := take FRAME_HDR_SIZE (mb_data m) @ buf\<rparr> in
              if ret \<noteq> 0 then
                (let m = (if 1 < ret then enlarge ret m else m);
                     (tx_cnt, c) = dpdk_send acc m c
                 in if tx_cnt \<noteq> 1 then Inl Assertion_failed else Inr (s, c))
              else Inr (s, rte_pktmbuf_free m c)))))"

text \<open>The loop over a burst, which the network modules of the three systems share.\<close>

fun receive_loop ::
  "('r \<Rightarrow> 's \<times> dpdk_core \<Rightarrow> fl_error + 's \<times> dpdk_core) \<Rightarrow> 'r list \<Rightarrow> 's \<times> dpdk_core \<Rightarrow> fl_error + 's \<times> dpdk_core" where
  "receive_loop turn [] sc = Inr sc"
| "receive_loop turn (r # rs) sc = (case turn r sc of Inl e \<Rightarrow> Inl e | Inr sc \<Rightarrow> receive_loop turn rs sc)"

definition net_poll_packets ::
  "(u8 \<Rightarrow> 's dispatcher option) \<Rightarrow> (nat \<Rightarrow> nat) \<Rightarrow> mbuf list \<Rightarrow> 's \<times> dpdk_core \<Rightarrow> fl_error + nat \<times> 's \<times> dpdk_core" where
  "net_poll_packets ds accs rx = (\<lambda>(s, c).
     (let (bufs, c) = dpdk_poll_recvs rx c in
      case receive_loop (poll_one ds) (zip (map accs [0..<length bufs]) bufs) (s, c) of
        Inl e \<Rightarrow> Inl e
      | Inr sc \<Rightarrow> Inr (length bufs, sc)))"

section \<open>Every buffer is accounted for\<close>

definition handed_over :: "dpdk_core \<Rightarrow> nat multiset" where
  "handed_over c = mset (map mb_addr (tx_queue c)) + mset (map mb_addr (freed c))"

text \<open>The buffers \<open>K\<close> are with the core: taken, and neither given to the NIC nor freed.\<close>

definition outstanding :: "nat multiset \<Rightarrow> dpdk_core \<Rightarrow> bool" where
  "outstanding K c \<longleftrightarrow> mset (taken c) = handed_over c + K"

text \<open>The contract of one turn of a receive loop: its buffer is given to the NIC or freed, once.\<close>

locale receive_turn =
  fixes turn :: "'r \<Rightarrow> 's \<times> dpdk_core \<Rightarrow> fl_error + 's \<times> dpdk_core"
    and buffer :: "'r \<Rightarrow> mbuf"
  assumes turn_accounts: "turn r (s, c) = Inr (s', c') \<Longrightarrow>
            taken c' = taken c \<and> handed_over c' = handed_over c + {#mb_addr (buffer r)#}"
begin

lemma loop_accounts:
  "receive_loop turn rs (s, c) = Inr (s', c') \<Longrightarrow>
   taken c' = taken c \<and> handed_over c' = handed_over c + mset (map (mb_addr \<circ> buffer) rs)"
proof (induction rs arbitrary: s c)
  case (Cons r rs)
  then obtain s1 c1 where t: "turn r (s, c) = Inr (s1, c1)" and l: "receive_loop turn rs (s1, c1) = Inr (s', c')"
    by (auto split: sum.splits)
  from turn_accounts [OF t] Cons.IH [OF l] show ?case by simp
qed auto

lemma burst_outstanding:
  assumes "outstanding K c"
    and "receive_loop turn rs (s, c\<lparr>taken := taken c @ map (mb_addr \<circ> buffer) rs\<rparr>) = Inr (s', c')"
  shows "outstanding K c'"
  using loop_accounts [OF assms(2)] assms(1) by (simp add: outstanding_def handed_over_def)

end

lemma handed_over_update [simp]:
  "handed_over (c\<lparr>tx_count := n\<rparr>) = handed_over c"
  "handed_over (c\<lparr>taken := t\<rparr>) = handed_over c"
  "handed_over (rte_pktmbuf_free m c) = handed_over c + {#mb_addr m#}"
  "handed_over (c\<lparr>tx_queue := tx_queue c @ ms\<rparr>) = handed_over c + mset (map mb_addr ms)"
  by (simp_all add: handed_over_def rte_pktmbuf_free_def)

lemma taken_free [simp]: "taken (rte_pktmbuf_free m c) = taken c"
  by (simp add: rte_pktmbuf_free_def)

lemma mb_addr_enlarge [simp]: "mb_addr (enlarge n m) = mb_addr m"
  by (simp add: enlarge_def)

interpretation fiss: receive_turn "poll_one ds" snd for ds :: "u8 \<Rightarrow> 's dispatcher option"
proof
  fix r s c s' c'
  assume "poll_one ds r (s, c) = Inr (s', c')"
  then show "taken c' = taken c \<and> handed_over c' = handed_over c + {#mb_addr (snd r)#}"
    by (cases r) (auto simp: poll_one_def Let_def dpdk_send_def split: if_splits sum.splits)
qed

lemma write_headers_addr: "write_headers n sz m = Inr m' \<Longrightarrow> mb_addr m' = mb_addr m"
  by (auto simp: write_headers_def Let_def split: if_splits)

lemma write_headers_all_addr:
  "write_headers_all n sz ms = Inr ms' \<Longrightarrow> map mb_addr ms' = map mb_addr ms"
  by (induction ms arbitrary: ms') (auto dest: write_headers_addr split: sum.splits)

lemma net_send_accounts:
  "acc \<le> 1 \<Longrightarrow> net_send acc m sz c = Inr c' \<Longrightarrow>
   taken c' = taken c \<and> handed_over c' = handed_over c + {#mb_addr m#}"
  by (auto simp: net_send_def dpdk_send_def Let_def le_Suc_eq dest: write_headers_addr split: sum.splits)

lemma fold_free_accounts:
  "taken (fold rte_pktmbuf_free ms c) = taken c \<and>
   handed_over (fold rte_pktmbuf_free ms c) = handed_over c + mset (map mb_addr ms)"
  by (induction ms arbitrary: c) auto

lemma net_send_batch_accounts:
  assumes "acc \<le> length ms" and "net_send_batch acc ms sz c = Inr c'"
  shows "taken c' = taken c \<and> handed_over c' = handed_over c + mset (map mb_addr ms)"
proof -
  from assms(2) obtain bs where bs: "write_headers_all (tx_count c) sz ms = Inr bs"
    and c': "c' = fold rte_pktmbuf_free (drop acc bs)
        (c\<lparr>tx_queue := tx_queue c @ take acc bs, tx_count := tx_count c + of_nat acc\<rparr>)"
    by (auto simp: net_send_batch_def dpdk_send_batch_def Let_def split: if_splits sum.splits)
  have h: "handed_over (c\<lparr>tx_queue := tx_queue c @ take acc bs, tx_count := n\<rparr>) =
      handed_over c + mset (map mb_addr (take acc bs))" for n
    by (simp add: handed_over_def)
  have "mset (map mb_addr (take acc bs)) + mset (map mb_addr (drop acc bs)) = mset (map mb_addr bs)"
    by (metis append_take_drop_id map_append mset_append)
  with write_headers_all_addr [OF bs] show ?thesis
    using fold_free_accounts [of "drop acc bs"] by (simp add: c' h)
qed

text \<open>
  C20. No packet buffer is lost or given away twice. A burst of received buffers leaves the
  core with the buffers it had before: each received buffer is either sent back or freed,
  exactly once, whatever the registered dispatchers do with the posts. Sending does the same
  for its buffers, whether the NIC accepts all, some or none of them.
\<close>

theorem every_buffer_accounted:
  assumes "outstanding K c"
  shows "(net_poll_packets ds accs rx (s, c) = Inr (n, s', cr) \<longrightarrow>
            outstanding K cr \<and> mset (taken cr) = mset (taken c) + mset (map mb_addr (take 32 rx))) \<and>
         (K = K' + {#mb_addr m#} \<and> room \<le> 1 \<and> net_send room m sz c = Inr cs \<longrightarrow> outstanding K' cs) \<and>
         (K = K' + mset (map mb_addr ms) \<and> acc \<le> length ms \<and> net_send_batch acc ms sz c = Inr cb \<longrightarrow>
            outstanding K' cb)"
proof (intro conjI impI; (elim conjE)?)
  let ?b = "take 32 rx"
  let ?z = "zip (map accs [0..<length ?b]) ?b"
  assume p: "net_poll_packets ds accs rx (s, c) = Inr (n, s', cr)"
  have z: "map (mb_addr \<circ> snd) ?z = map mb_addr ?b" by (simp flip: map_map)
  from p have l: "receive_loop (poll_one ds) ?z (s, c\<lparr>taken := taken c @ map (mb_addr \<circ> snd) ?z\<rparr>) = Inr (s', cr)"
    unfolding z
    by (auto simp: net_poll_packets_def dpdk_poll_recvs_def DPDK_RX_BURST_SIZE_def Let_def split: sum.splits)
  show "outstanding K cr" by (rule fiss.burst_outstanding [OF assms l])
  have "taken cr = taken c @ map (mb_addr \<circ> snd) ?z" using fiss.loop_accounts [OF l] by simp
  then show "mset (taken cr) = mset (taken c) + mset (map mb_addr ?b)" unfolding z by simp
next
  assume "K = K' + {#mb_addr m#}" "room \<le> 1" "net_send room m sz c = Inr cs"
  then show "outstanding K' cs" using net_send_accounts assms by (fastforce simp: outstanding_def)
next
  assume k: "K = K' + mset (map mb_addr ms)" and b: "acc \<le> length ms" "net_send_batch acc ms sz c = Inr cb"
  from net_send_batch_accounts [OF b] assms k show "outstanding K' cb" by (simp add: outstanding_def)
qed

definition example_mbuf :: mbuf where
  "example_mbuf = \<lparr>mb_addr = 7, mb_data = replicate 64 1, data_len = 0, pkt_len = 0\<rparr>"

definition example_core :: dpdk_core where
  "example_core = \<lparr>taken = [7], tx_queue = [], freed = [], tx_count = 0\<rparr>"

theorem every_buffer_accounted_witness:
  "outstanding {#7#} example_core \<and> (\<exists>c2. net_send 0 example_mbuf 17 example_core = Inr c2 \<and> outstanding {#} c2)"
proof -
  have o: "outstanding {#7#} example_core" by (simp add: outstanding_def handed_over_def example_core_def)
  obtain c2 where c2: "net_send 0 example_mbuf 17 example_core = Inr c2"
    by (simp add: net_send_def write_headers_def example_mbuf_def FRAME_HDR_SIZE_def dpdk_send_def Let_def)
  have "outstanding {#} c2"
    using every_buffer_accounted [OF o, where K' = "{#}" and m = example_mbuf and room = 0 and sz = 17 and cs = c2,
        THEN conjunct2, THEN conjunct1] c2
    by (simp add: example_mbuf_def)
  then show ?thesis using o c2 by blast
qed

section \<open>The headers of a frame\<close>

text \<open>
  What a receiver may expect of a frame: the headers are those of a UDP packet for the lock
  service, and every length in it is that of the buffer.
\<close>

definition frame_ok :: "mbuf \<Rightarrow> bool" where
  "frame_ok m \<longleftrightarrow>
     unat (data_len m) \<le> length (mb_data m) \<and> pkt_len m = ucast (data_len m) \<and>
     unat (get16 16 (mb_data m)) + 14 = unat (data_len m) \<and>
     unat (get16 38 (mb_data m)) + 34 = unat (data_len m) \<and>
     get16 12 (mb_data m) = 0x0800 \<and> mb_data m ! 14 = 0x45 \<and> mb_data m ! 23 = 17 \<and>
     get16 36 (mb_data m) = DPDK_SERVER_POST_TYPE"

lemma length_template [simp]: "length init_header_template = 42"
  by (simp add: init_header_template_def FRAME_HDR_SIZE_def Let_def)

lemma template_fields:
  "get16 12 init_header_template = 0x0800" "init_header_template ! 14 = 0x45"
  "init_header_template ! 23 = 17" "get16 36 init_header_template = DPDK_SERVER_POST_TYPE"
  by (simp_all add: init_header_template_def FRAME_HDR_SIZE_def Let_def put16_nth nth_put_bytes
      get16_def put16_def DPDK_SERVER_POST_TYPE_def)

lemma write_headers_frame:
  assumes "sz + 42 < 2 ^ 16" and "sz + 42 \<le> length (mb_data m)"
  shows "\<exists>m'. write_headers n sz m = Inr m' \<and> frame_ok m' \<and> mb_addr m' = mb_addr m \<and>
           unat (data_len m') = sz + 42 \<and> dpdk_mbuf_to_sendbuf m' = dpdk_mbuf_to_sendbuf m"
proof -
  let ?d = "put_bytes 0 init_header_template (mb_data m)"
  have d: "length ?d = length (mb_data m)" "get16 12 ?d = 0x0800" "?d ! 14 = 0x45" "?d ! 23 = 17"
    "get16 36 ?d = DPDK_SERVER_POST_TYPE" "drop 42 ?d = drop 42 (mb_data m)"
    using assms(2) template_fields by (auto simp: put_bytes_def nth_append get16_def)
  have p: "(of_nat (sz + 42) :: u32) = ucast (of_nat (sz + 42) :: u16)"
    using unat_of_nat_u16 [OF assms(1)] by (metis of_nat_unat)
  obtain m' where m': "write_headers n sz m = Inr m'" using assms(2)
    by (auto simp: write_headers_def FRAME_HDR_SIZE_def Let_def)
  then have e: "m' = m\<lparr>mb_data := put16 38 (of_nat (8 + sz)) (put16 34 (DPDK_SERVER_POST_TYPE + ucast (n mod 128))
      (put16 16 (of_nat (20 + sz + 8)) ?d)), data_len := of_nat (sz + 42), pkt_len := of_nat (sz + 42)\<rparr>"
    using assms(2) by (auto simp: write_headers_def FRAME_HDR_SIZE_def Let_def)
  have "frame_ok m'"
    using assms d p unat_of_nat_u16 [of "sz + 42"] unat_of_nat_u16 [of "28 + sz"] unat_of_nat_u16 [of "8 + sz"]
    by (simp add: e frame_ok_def put16_nth add.commute add.left_commute)
  then show ?thesis using m' d unat_of_nat_u16 [OF assms(1)]
    by (simp add: e dpdk_mbuf_to_sendbuf_def FRAME_HDR_SIZE_def drop_put16_before)
qed

lemma write_headers_all_frames:
  assumes "sz + 42 < 2 ^ 16" and "\<forall>m \<in> set ms. sz + 42 \<le> length (mb_data m)"
  shows "\<exists>bs. write_headers_all n sz ms = Inr bs \<and>
           list_all2 (\<lambda>b m. frame_ok b \<and> mb_addr b = mb_addr m \<and> unat (data_len b) = sz + 42 \<and>
                            dpdk_mbuf_to_sendbuf b = dpdk_mbuf_to_sendbuf m) bs ms"
  using assms(2)
proof (induction ms)
  case (Cons m ms)
  then obtain bs where "write_headers_all n sz ms = Inr bs"
    "list_all2 (\<lambda>b m. frame_ok b \<and> mb_addr b = mb_addr m \<and> unat (data_len b) = sz + 42 \<and>
                            dpdk_mbuf_to_sendbuf b = dpdk_mbuf_to_sendbuf m) bs ms" by auto
  moreover obtain b where "write_headers n sz m = Inr b" "frame_ok b" "mb_addr b = mb_addr m"
    "unat (data_len b) = sz + 42" "dpdk_mbuf_to_sendbuf b = dpdk_mbuf_to_sendbuf m"
    using write_headers_frame [OF assms(1)] Cons.prems by (metis list.set_intros(1))
  ultimately show ?case by auto
qed simp

lemma fold_free [simp]:
  "freed (fold rte_pktmbuf_free ms c) = freed c @ ms" "tx_queue (fold rte_pktmbuf_free ms c) = tx_queue c"
  "tx_count (fold rte_pktmbuf_free ms c) = tx_count c"
  by (induction ms arbitrary: c) (simp_all add: rte_pktmbuf_free_def)

text \<open>
  Sending a batch puts well-formed frames on the wire: every buffer gets the headers of a
  UDP packet whose IP and UDP lengths agree with the length of the buffer, and keeps the post
  that it carries. The NIC gets the first frames, as many as it accepts, the others are freed,
  and the packets that were sent are counted.
\<close>

theorem sent_frames_ok:
  assumes "sz + 42 < 2 ^ 16" and "\<forall>m \<in> set ms. sz + 42 \<le> length (mb_data m)"
    and "length ms \<le> 1024" and "acc \<le> length ms"
  shows "\<exists>bs c'. net_send_batch acc ms sz c = Inr c' \<and>
           tx_queue c' = tx_queue c @ take acc bs \<and> freed c' = freed c @ drop acc bs \<and>
           tx_count c' = tx_count c + of_nat acc \<and>
           list_all2 (\<lambda>b m. frame_ok b \<and> mb_addr b = mb_addr m \<and> unat (data_len b) = sz + 42 \<and>
                            dpdk_mbuf_to_sendbuf b = dpdk_mbuf_to_sendbuf m) bs ms"
proof -
  obtain bs where "write_headers_all (tx_count c) sz ms = Inr bs"
    "list_all2 (\<lambda>b m. frame_ok b \<and> mb_addr b = mb_addr m \<and> unat (data_len b) = sz + 42 \<and>
                            dpdk_mbuf_to_sendbuf b = dpdk_mbuf_to_sendbuf m) bs ms"
    using write_headers_all_frames [OF assms(1,2)] by blast
  then show ?thesis using assms(3)
    by (intro exI [of _ bs]) (simp add: net_send_batch_def DPDK_TX_BURST_SIZE_def dpdk_send_batch_def Let_def)
qed

theorem sent_frames_ok_witness:
  "\<exists>b c'. net_send_batch 1 [example_mbuf] 17 example_core = Inr c' \<and> tx_queue c' = [b] \<and> freed c' = [] \<and>
     frame_ok b \<and> unat (data_len b) = 59"
proof -
  have "list_all2 P bs [x] \<Longrightarrow> \<exists>b. bs = [b] \<and> P b x" for P :: "mbuf \<Rightarrow> mbuf \<Rightarrow> bool" and bs x
    by (auto simp: list_all2_Cons2)
  from this show ?thesis using sent_frames_ok [of 17 "[example_mbuf]" 1 example_core]
    by (fastforce simp: example_mbuf_def example_core_def)
qed

text \<open>
  A buffer that is sent back enlarged has the right IP length, but its UDP header keeps the
  length of the packet that was received: it is short by the bytes that were added.
\<close>

theorem sent_back_udp_length_stale:
  assumes "frame_ok m" and "42 < unat (data_len m)" and "1 < ret" and "unat (data_len m) + nat ret < 2 ^ 16"
    and "packet_dispatch ds (mb_data m ! 42) (drop 42 (mb_data m)) s = Inr (ret, buf, s')"
  shows "\<exists>m' c'. poll_one ds (1, m) (s, c) = Inr (s', c') \<and> tx_queue c' = tx_queue c @ [m'] \<and>
           unat (data_len m') = unat (data_len m) + nat ret \<and>
           unat (get16 16 (mb_data m')) + 14 = unat (data_len m') \<and>
           unat (get16 38 (mb_data m')) + 34 + nat ret = unat (data_len m')"
proof -
  let ?t = "take 42 (mb_data m) @ buf"
  have l: "42 < length (mb_data m)" using assms(1,2) by (simp add: frame_ok_def)
  have g: "get16 j ?t = get16 j (mb_data m)" if "j < 41" for j
    using that l by (simp add: get16_def nth_append)
  have t: "41 < length ?t" using l by simp
  have r: "unat (x + of_int ret) = unat x + nat ret" if "unat x + nat ret < 2 ^ 16" for x :: u16
  proof -
    have "(of_int ret :: u16) = of_nat (nat ret)" using assms(3) by simp
    then show ?thesis using that unat_of_nat_u16 [of "nat ret"] by (simp add: unat_plus_if')
  qed
  have f: "unat (get16 16 (mb_data m)) + 14 = unat (data_len m)" "unat (get16 38 (mb_data m)) + 34 = unat (data_len m)"
    using assms(1) by (simp_all add: frame_ok_def)
  let ?m = "enlarge ret (m\<lparr>mb_data := ?t\<rparr>)"
  have "poll_one ds (1, m) (s, c) = Inr (s', c\<lparr>tx_queue := tx_queue c @ [?m]\<rparr>)"
    using assms(3,5) l by (simp add: poll_one_def FRAME_HDR_SIZE_def dpdk_send_def Let_def)
  moreover have "unat (data_len ?m) = unat (data_len m) + nat ret" using r assms(4) by (simp add: enlarge_def)
  moreover have "unat (get16 16 (mb_data ?m)) = unat (get16 16 (mb_data m)) + nat ret"
    using r f t g assms(4) by (simp add: enlarge_def)
  moreover have "get16 38 (mb_data ?m) = get16 38 (mb_data m)" using t g by (simp add: enlarge_def)
  ultimately show ?thesis using f by simp
qed

definition example_frame :: mbuf where
  "example_frame = (case write_headers 0 18 example_mbuf of Inr m \<Rightarrow> m | Inl e \<Rightarrow> example_mbuf)"

theorem sent_back_udp_length_stale_witness:
  "\<exists>m' c'. poll_one (\<lambda>t. Some (\<lambda>buf s. Inr (5, buf, s))) (1, example_frame) ((), example_core) = Inr ((), c') \<and>
     tx_queue c' = [m'] \<and> unat (get16 16 (mb_data m')) + 14 = unat (data_len m') \<and>
     unat (get16 38 (mb_data m')) + 39 = unat (data_len m')"
proof -
  obtain m where m: "write_headers 0 18 example_mbuf = Inr m" "frame_ok m" "unat (data_len m) = 60"
    "dpdk_mbuf_to_sendbuf m = dpdk_mbuf_to_sendbuf example_mbuf"
    using write_headers_frame [of 18 example_mbuf 0] by (auto simp: example_mbuf_def)
  then have e: "example_frame = m" by (simp add: example_frame_def)
  have l: "42 < length (mb_data m)" using m(2,3) by (simp add: frame_ok_def)
  have "mb_data m ! 42 = dpdk_mbuf_to_sendbuf m ! 0" using l by (simp add: dpdk_mbuf_to_sendbuf_def FRAME_HDR_SIZE_def)
  also have "\<dots> = 1" by (subst m(4)) (simp add: example_mbuf_def dpdk_mbuf_to_sendbuf_def FRAME_HDR_SIZE_def)
  finally have d: "packet_dispatch (\<lambda>t. Some (\<lambda>buf s. Inr (5, buf, s))) (mb_data m ! 42) (drop 42 (mb_data m)) ()
      = Inr (5, drop 42 (mb_data m), ())"
    by (simp add: packet_dispatch_def NUM_POST_TYPES_def word_le_nat_alt)
  show ?thesis using sent_back_udp_length_stale [OF m(2) _ _ _ d, of example_core] m(3)
    by (fastforce simp: e example_core_def)
qed

end
