(* ===== verification/Bmv2_Net.thy ===== *)
theory Bmv2_Net
  imports Fiss_Lock_Api Frame_Bytes
begin

text \<open>
  The network module of the BMv2 build (lib/bmv2/bmv2_net.cc): the frames it injects, with
  their checksums, and the scan of the capture files from which it takes received packets.
  Bytes of a frame are a list; the capture library is represented by the packets it returns
  from a file.
\<close>

section \<open>Frames\<close>

definition BMV2_SERVER_POST_TYPE :: u16 where "BMV2_SERVER_POST_TYPE = 20001"
definition BMV2_CLIENT_POST_TYPE :: u16 where "BMV2_CLIENT_POST_TYPE = 20002"

definition bmv2_header_template :: "u8 list" where
  "bmv2_header_template =
     [0x00, 0x00, 0x00, 0x00, 0x01, 0x00] @ [0x00, 0x00, 0x00, 0x00, 0x00, 0x01] @ [0x08, 0x00] @
     [0x45, 0, 0, 0, 0, 0, 0, 0, 0, 17, 0, 0, 10, 0, 0, 1, 10, 0, 0, 2] @
     [0x75, 0x30] @ bytes16 BMV2_SERVER_POST_TYPE @ [0, 0, 0, 0]"

lemma mask_word_16: "(0xffff :: u32) = mask 16"
  by (simp add: mask_eq_exp_minus_1)

lemma unat_low16: "unat (s AND 0xffff :: u32) = unat s mod 2 ^ 16"
proof -
  have "s AND 0xffff = take_bit 16 s" by (simp only: mask_word_16 take_bit_eq_mask)
  then have "unat (s AND 0xffff) = take_bit 16 (unat s)" by (simp only: unsigned_take_bit_eq)
  then show ?thesis by (simp only: take_bit_eq_mod)
qed

lemma unat_high16: "unat (drop_bit 16 s :: u32) = unat s div 2 ^ 16"
proof -
  have "unat (drop_bit 16 s) = drop_bit 16 (unat s)" by (rule unat_drop_bit_eq)
  then show ?thesis by (simp only: drop_bit_eq_div)
qed

lemma unat_fold_step: "unat ((s AND 0xffff) + drop_bit 16 s :: u32) = unat s mod 2 ^ 16 + unat s div 2 ^ 16"
proof -
  have "unat s < 2 ^ 32" using unsigned_less [of s] by simp
  then have "unat s mod 2 ^ 16 + unat s div 2 ^ 16 < 2 ^ 32" by simp
  then show ?thesis by (simp add: unat_word_ariths unat_low16 unat_high16)
qed

function checksum_fold :: "u32 \<Rightarrow> u32" where
  "checksum_fold s =
     (if drop_bit 16 s \<noteq> 0 then checksum_fold ((s AND 0xffff) + drop_bit 16 s) else s)"
  by pat_completeness auto
termination
proof (relation "measure unat")
  fix s :: u32
  assume "drop_bit 16 s \<noteq> 0"
  then have "unat s div 2 ^ 16 \<noteq> 0" using unat_high16 [of s] by (metis unat_eq_zero)
  moreover have "n mod 65536 + n div 65536 < n" if "n div 65536 \<noteq> 0" for n :: nat
  proof -
    have "n div 65536 * 65536 + n mod 65536 = n" by (rule div_mult_mod_eq)
    with that show ?thesis by linarith
  qed
  ultimately have "unat s mod 2 ^ 16 + unat s div 2 ^ 16 < unat s" by simp
  then show "((s AND 0xffff) + drop_bit 16 s, s) \<in> measure unat" by (simp add: unat_fold_step)
qed simp

declare checksum_fold.simps [simp del]

text \<open>The loop that adds the 16-bit words of a byte range to a sum; a last odd byte counts as high byte.\<close>

fun add_words :: "u32 \<Rightarrow> u8 list \<Rightarrow> u32" where
  "add_words s (a # b # bs) = add_words (s + (push_bit 8 (ucast a) OR ucast b)) bs"
| "add_words s [a] = s + push_bit 8 (ucast a)"
| "add_words s [] = s"

definition udp_pseudo_sum :: "u8 list \<Rightarrow> nat \<Rightarrow> u32" where
  "udp_pseudo_sum f udp_len = add_words 0 (take 8 (drop 26 f)) + 17 + of_nat udp_len"

definition fix_ipv4_udp_checksums :: "nat \<Rightarrow> u8 list \<Rightarrow> u8 list" where
  "fix_ipv4_udp_checksums psize frame =
     (let udp_len = 8 + psize;
          f1 = put16 24 0 frame;
          ip_csum = ucast (NOT (checksum_fold (add_words 0 (take 20 (drop 14 f1))))) :: u16;
          f2 = put16 24 ip_csum f1;
          f3 = put16 40 0 f2;
          c = ucast (NOT (checksum_fold (add_words (udp_pseudo_sum f3 udp_len) (take udp_len (drop 34 f3))))) :: u16;
          udp_csum = (if c = 0 then 0xffff else c)
      in put16 40 udp_csum f3)"

definition build_frame_from_post :: "u8 list \<Rightarrow> u8 list" where
  "build_frame_from_post post =
     (let out = bmv2_header_template @ post;
          o1 = put16 16 (of_nat (20 + 8 + length post)) out;
          o2 = put16 38 (of_nat (8 + length post)) o1
      in fix_ipv4_udp_checksums (length post) o2)"

text \<open>The frame is built in a buffer of 512 bytes; what is injected, or the failure.\<close>

definition bmv2_net_send :: "u8 list \<Rightarrow> fl_error + u8 list" where
  "bmv2_net_send post =
     (if 512 < 14 + 20 + 8 + length post then Inl Out_of_bounds else Inr (build_frame_from_post post))"

section \<open>Received packets\<close>

text \<open>The UDP payload that a captured packet carries for one of the two ports.\<close>

definition captured_payload :: "u8 list \<Rightarrow> u8 list option" where
  "captured_payload pkt =
     (if length pkt < 14 + 20 + 8 + 1 then None
      else if drop_bit 4 (pkt ! 14) \<noteq> 4 then None
      else
        (let ihl = unat (pkt ! 14 AND 0x0f) * 4 in
         if length pkt < 14 + ihl + 8 + 1 then None
         else
           (let dport = (push_bit 8 (ucast (pkt ! (14 + ihl + 2))) OR ucast (pkt ! (14 + ihl + 3))) :: u16 in
            if dport \<noteq> BMV2_SERVER_POST_TYPE \<and> dport \<noteq> BMV2_CLIENT_POST_TYPE then None
            else Some (drop (14 + ihl + 8) pkt))))"

text \<open>A payload whose first byte is no post type is dropped.\<close>

definition dispatch_udp_payload :: "u8 list \<Rightarrow> (post_t \<times> u8 list) option" where
  "dispatch_udp_payload payload =
     (case payload of
        [] \<Rightarrow> None
      | t # _ \<Rightarrow> (case post_of_code t of None \<Rightarrow> None | Some p \<Rightarrow> Some (p, payload)))"

text \<open>One scan of a file: skip what was dispatched before, dispatch the rest.\<close>

fun scan_loop :: "nat \<Rightarrow> nat \<Rightarrow> u8 list list \<Rightarrow> (post_t \<times> u8 list) list \<Rightarrow> nat \<times> (post_t \<times> u8 list) list" where
  "scan_loop skip index [] out = (index, out)"
| "scan_loop skip index (pkt # pkts) out =
     (if index < skip then scan_loop skip (Suc index) pkts out
      else
        (case captured_payload pkt of
           None \<Rightarrow> scan_loop skip (Suc index) pkts out
         | Some payload \<Rightarrow>
             (case dispatch_udp_payload payload of
                None \<Rightarrow> scan_loop skip (Suc index) pkts out
              | Some d \<Rightarrow> scan_loop skip (Suc index) pkts (out @ [d]))))"

text \<open>
  The module state: the bytes seen at the last poll and the packets dispatched of each of the
  three capture files. A capture directory holds the size and the packets of each file.
\<close>

record bmv2_net =
  pcap_bytes_before :: u64
  pcap_packets_done :: "nat list"

record pcap_file =
  pcap_size :: u64
  pcap_packets :: "u8 list list"

definition total_pcap_bytes :: "pcap_file list \<Rightarrow> u64" where
  "total_pcap_bytes fs = fold (\<lambda>f s. s + pcap_size f) fs 0"

definition bmv2_net_configure :: "pcap_file list \<Rightarrow> bmv2_net" where
  "bmv2_net_configure fs =
     \<lparr>pcap_bytes_before = total_pcap_bytes fs, pcap_packets_done = replicate (length fs) 0\<rparr>"

fun scan_pcap_files :: "nat list \<Rightarrow> pcap_file list \<Rightarrow> nat list \<times> (post_t \<times> u8 list) list" where
  "scan_pcap_files (skip # skips) (f # fs) =
     (let (n, out) = scan_loop skip 0 (pcap_packets f) []; (ns, outs) = scan_pcap_files skips fs
      in (n # ns, out @ outs))"
| "scan_pcap_files skips fs = (skips, [])"

definition bmv2_net_poll_packets :: "pcap_file list \<Rightarrow> bmv2_net \<Rightarrow> bmv2_net \<times> (post_t \<times> u8 list) list" where
  "bmv2_net_poll_packets fs s =
     (let now = total_pcap_bytes fs in
      if now \<le> pcap_bytes_before s then (s, [])
      else
        (let (dn, out) = scan_pcap_files (pcap_packets_done s) fs
         in (\<lparr>pcap_bytes_before = now, pcap_packets_done = dn\<rparr>, out)))"

section \<open>Checksums\<close>

lemma unat_checksum_fold:
  "unat (checksum_fold s) = (if s = 0 then 0 else (unat s - 1) mod 65535 + 1)"
proof (induction s rule: checksum_fold.induct)
  case (1 s)
  show ?case
  proof (cases "drop_bit 16 s = 0")
    case True
    then have "unat s div 2 ^ 16 = 0" by (metis unat_high16 unsigned_0)
    then have "unat s < 2 ^ 16" by (simp add: div_eq_0_iff)
    moreover have "0 < unat s" if "s \<noteq> 0" using that by (simp add: unat_gt_0)
    ultimately show ?thesis using True
      by (subst checksum_fold.simps) auto
  next
    case False
    let ?t = "(s AND 0xffff) + drop_bit 16 s" and ?n = "unat s"
    have "0 < ?n div 2 ^ 16" using False unat_high16 [of s] by (metis gr0I unat_eq_zero)
    then have pos: "0 < unat ?t" by (simp add: unat_fold_step)
    then have nz: "?t \<noteq> 0" "s \<noteq> 0" using False by (auto simp: unat_gt_0)
    have "?n = 65535 * (?n div 2 ^ 16) + unat ?t"
      unfolding unat_fold_step using div_mult_mod_eq [of ?n "2 ^ 16"] by simp
    then have "?n - 1 = 65535 * (?n div 2 ^ 16) + (unat ?t - 1)" using pos by linarith
    then have "(?n - 1) mod 65535 = (unat ?t - 1) mod 65535" by (metis mod_mult_self4)
    then show ?thesis using 1 [OF False] False nz by (subst checksum_fold.simps) simp
  qed
qed

text \<open>The sum of the 16-bit words of a byte list as a natural number.\<close>

fun words_sum :: "u8 list \<Rightarrow> nat" where
  "words_sum (a # b # bs) = 256 * unat a + unat b + words_sum bs"
| "words_sum [a] = 256 * unat a"
| "words_sum [] = 0"

lemma unat_word_of_bytes: "unat (push_bit 8 (ucast a) OR ucast b :: u32) = 256 * unat (a :: u8) + unat (b :: u8)"
proof -
  have "unat a < 256" "unat b < 256" using unsigned_less [of a] unsigned_less [of b] by auto
  have "push_bit 8 (ucast a) OR ucast b = (push_bit 8 (ucast a) + ucast b :: u32)"
    by (rule disjunctive_add [symmetric])
      (auto simp: bit_push_bit_iff bit_ucast_iff dest: bit_imp_le_length)
  moreover have "unat (push_bit 8 (ucast a) :: u32) = 256 * unat a"
    using \<open>unat a < 256\<close> by (simp add: push_bit_eq_mult unat_word_ariths unsigned_ucast_eq take_bit_nat_eq_self)
  ultimately show ?thesis using \<open>unat a < 256\<close> \<open>unat b < 256\<close>
    by (simp add: unat_word_ariths unsigned_ucast_eq take_bit_nat_eq_self)
qed

lemma unat_add_words:
  "unat s + words_sum bs < 2 ^ 32 \<Longrightarrow> unat (add_words s bs) = unat s + words_sum bs"
proof (induction s bs rule: add_words.induct)
  case (1 s a b bs)
  then have "unat (s + (push_bit 8 (ucast a) OR ucast b)) = unat s + (256 * unat a + unat b)"
    by (subst unat_word_ariths) (simp add: unat_word_of_bytes)
  with 1 show ?case by simp
next
  case (2 s a)
  have "unat (push_bit 8 (ucast a) :: u32) = 256 * unat a" using unat_word_of_bytes [of a 0] by simp
  with 2 show ?case by (simp add: unat_word_ariths)
qed simp

lemma words_sum_bound: "words_sum bs \<le> 65535 * length bs"
proof (induction bs rule: words_sum.induct)
  case (1 a b bs)
  have "unat a < 256" "unat b < 256" using unsigned_less [of a] unsigned_less [of b] by auto
  with 1 show ?case by simp
next
  case (2 a)
  have "unat a < 256" using unsigned_less [of a] by auto
  then show ?case by simp
qed simp

lemma words_sum_put16:
  "even i \<Longrightarrow> Suc i < length bs \<Longrightarrow> words_sum (put16 i x bs) = words_sum (put16 i 0 bs) + unat x"
proof (induction bs arbitrary: i rule: words_sum.induct)
  case (1 a b bs)
  show ?case
  proof (cases i)
    case 0
    have "unat (ucast (drop_bit 8 x) :: u8) = unat x div 256"
    proof -
      have "unat (drop_bit 8 x) = drop_bit 8 (unat x)" by (rule unat_drop_bit_eq)
      then have "unat (drop_bit 8 x) = unat x div 256" by (simp add: drop_bit_eq_div)
      moreover have "unat x < 65536" using unsigned_less [of x, where 'a = nat] by simp
      ultimately have "unat (drop_bit 8 x) < 256" by linarith
      then have "unat (ucast (drop_bit 8 x) :: u8) = unat (drop_bit 8 x)"
        by (simp only: unsigned_ucast_eq) (simp add: take_bit_nat_eq_self)
      with \<open>unat (drop_bit 8 x) = unat x div 256\<close> show ?thesis by simp
    qed
    moreover have "unat (ucast (x AND 0xff) :: u8) = unat x mod 256"
    proof -
      have "(0xff :: u16) = mask 8" by (simp add: mask_eq_exp_minus_1)
      then have "x AND 0xff = take_bit 8 x" by (simp only: take_bit_eq_mask)
      then have "unat (x AND 0xff) = take_bit 8 (unat x)" by (simp only: unsigned_take_bit_eq)
      then show ?thesis by (simp add: unsigned_ucast_eq take_bit_eq_mod)
    qed
    ultimately show ?thesis using 0 by (simp add: put16_def)
  next
    case (Suc j)
    with 1 obtain k where i: "i = Suc (Suc k)" "even k" by (cases j) auto
    with 1 show ?thesis by (simp add: put16_def)
  qed
qed auto

lemma checksum_fold_multiple:
  assumes "unat t = 65535 * m" "0 < m"
  shows "checksum_fold t = 0xffff"
proof -
  have "unat t - 1 = 65535 * (m - 1) + 65534" using assms by (cases m) auto
  then have "(unat t - 1) mod 65535 = 65534" by (simp add: mod_mult_self4)
  moreover have "t \<noteq> 0" using assms by auto
  ultimately have "unat (checksum_fold t) = unat (0xffff :: u32)" by (simp add: unat_checksum_fold)
  then show ?thesis by (simp only: word_unat_eq_iff)
qed

lemma unat_checksum: "unat (ucast (NOT (checksum_fold s)) :: u16) = 65535 - unat (checksum_fold s)"
proof -
  let ?x = "checksum_fold s"
  have x: "unat ?x \<le> 65535" by (auto simp: unat_checksum_fold less_Suc_eq_le [symmetric])
  have "NOT ?x = - ?x - 1" by (simp add: not_eq_complement)
  also have "\<dots> = (0xffffffff :: u32) - ?x" by simp
  finally have "unat (NOT ?x) = 4294967295 - unat ?x"
    using x by (simp add: unat_sub word_le_nat_alt)
  then have "unat (ucast (NOT ?x) :: u16) = (4294967295 - unat ?x) mod 65536"
    by (simp add: unsigned_ucast_eq take_bit_eq_mod)
  also have "4294967295 - unat ?x = 65535 - unat ?x + 65535 * 65536" using x by simp
  also have "(65535 - unat ?x + 65535 * 65536) mod 65536 = 65535 - unat ?x"
    by (simp only: mod_mult_self1) simp
  finally show ?thesis .
qed

text \<open>A range in which the checksum of the rest is stored sums up to all ones.\<close>

lemma checksum_valid:
  assumes i: "even i" "Suc i < length bs" and bd: "unat s + 65535 * length bs + 65535 < 2 ^ 32"
    and c: "c = ucast (NOT (checksum_fold (add_words s (put16 i 0 bs))))"
  shows "checksum_fold (add_words s (put16 i c bs)) = 0xffff"
    and "checksum_fold (add_words s (put16 i (if c = 0 then 0xffff else c) bs)) = 0xffff"
proof -
  let ?n = "unat s + words_sum (put16 i 0 bs)" and ?t = "add_words s (put16 i 0 bs)"
  have b0: "words_sum (put16 i 0 bs) \<le> 65535 * length bs" using words_sum_bound [of "put16 i 0 bs"] by simp
  then have n: "unat ?t = ?n" using bd by (intro unat_add_words) linarith
  have sum: "unat (add_words s (put16 i x bs)) = ?n + unat x" for x :: u16
  proof -
    have "unat x < 65536" using unsigned_less [of x] by simp
    then show ?thesis
      using bd b0 words_sum_put16 [OF i, of x] unat_add_words [of s "put16 i x bs"] by simp
  qed
  have u: "unat c = 65535 - unat (checksum_fold ?t)" unfolding c by (rule unat_checksum)
  have m: "\<exists>m > 0. ?n + unat c = 65535 * m"
  proof (cases "?n = 0")
    case True
    then have "?t = 0" using n by (metis unat_eq_zero)
    then have "unat (checksum_fold ?t) = 0" by (simp add: unat_checksum_fold)
    with True u show ?thesis by auto
  next
    case False
    then have "?t \<noteq> 0" using n by (metis unat_eq_zero)
    then have "unat (checksum_fold ?t) = (?n - 1) mod 65535 + 1" using unat_checksum_fold [of ?t] n by simp
    moreover have "?n = 65535 * ((?n - 1) div 65535) + (?n - 1) mod 65535 + 1"
      using False mult_div_mod_eq [of 65535 "?n - 1"] by linarith
    moreover have "(?n - 1) mod 65535 < 65535" by simp
    moreover have "n + c = 65535 * (q + 1)" if "f = r + 1" "n = 65535 * q + r + 1" "r < 65535" "c = 65535 - f"
      for n c q r f :: nat using that by simp
    ultimately have "?n + unat c = 65535 * ((?n - 1) div 65535 + 1)" using u by blast
    then show ?thesis by (metis Suc_eq_plus1 zero_less_Suc)
  qed
  then show "checksum_fold (add_words s (put16 i c bs)) = 0xffff"
    using sum [of c] checksum_fold_multiple by metis
  show "checksum_fold (add_words s (put16 i (if c = 0 then 0xffff else c) bs)) = 0xffff"
  proof (cases "c = 0")
    case True
    obtain m where "0 < m" "?n + unat c = 65535 * m" using m by blast
    with True have "unat (add_words s (put16 i 0xffff bs)) = 65535 * (m + 1)" using sum [of "0xffff"] by simp
    then have "checksum_fold (add_words s (put16 i 0xffff bs)) = 0xffff" by (rule checksum_fold_multiple) simp
    with True show ?thesis by simp
  qed (use \<open>checksum_fold (add_words s (put16 i c bs)) = 0xffff\<close> in simp)
qed

section \<open>Properties\<close>

lemma bmv2_template_length [simp]: "length bmv2_header_template = 42"
  by (simp add: bmv2_header_template_def bytes16_def)

lemma length_build_frame [simp]: "length (build_frame_from_post post) = 42 + length post"
  by (simp add: build_frame_from_post_def fix_ipv4_udp_checksums_def Let_def)

lemma build_frame_payload: "drop 42 (build_frame_from_post post) = post"
  by (simp add: build_frame_from_post_def fix_ipv4_udp_checksums_def Let_def drop_put16_before)

lemma build_frame_nth:
  "build_frame_from_post post ! 14 = 0x45" "build_frame_from_post post ! 36 = 0x4e"
  "build_frame_from_post post ! 37 = 0x21"
proof -
  have "bytes16 BMV2_SERVER_POST_TYPE = [0x4e, 0x21]" by (simp add: bytes16_def BMV2_SERVER_POST_TYPE_def)
  then have t: "bmv2_header_template ! 14 = 0x45" "bmv2_header_template ! 36 = 0x4e" "bmv2_header_template ! 37 = 0x21"
    by (simp_all add: bmv2_header_template_def)
  show "build_frame_from_post post ! 14 = 0x45" "build_frame_from_post post ! 36 = 0x4e"
    "build_frame_from_post post ! 37 = 0x21"
    by (simp_all add: build_frame_from_post_def fix_ipv4_udp_checksums_def Let_def put16_nth nth_append t)
qed

text \<open>
  A post survives the BMv2 network module: whatever the module injects is recognised when
  it is captured, and its payload is the post.
\<close>

theorem bmv2_frame_roundtrip:
  assumes "bmv2_net_send post = Inr f" "post \<noteq> []"
  shows "captured_payload f = Some post"
proof -
  have f: "f = build_frame_from_post post" using assms(1) by (simp add: bmv2_net_send_def split: if_splits)
  have "(push_bit 8 (ucast (0x4e :: u8)) OR ucast (0x21 :: u8) :: u16) = BMV2_SERVER_POST_TYPE"
    by (simp add: BMV2_SERVER_POST_TYPE_def)
  with assms(2) show ?thesis
    by (simp add: f captured_payload_def build_frame_nth build_frame_payload Let_def)
qed

theorem bmv2_frame_roundtrip_witness:
  "\<exists>f. bmv2_net_send [1, 2, 3] = Inr f \<and> captured_payload f = Some [1, 2, 3]"
  using bmv2_frame_roundtrip [of "[1, 2, 3]" "build_frame_from_post [1, 2, 3]"] by (simp add: bmv2_net_send_def)

lemma unat_udp_pseudo_sum: "unat (udp_pseudo_sum f n) \<le> 65535 * 8 + 17 + n"
proof -
  let ?a = "add_words 0 (take 8 (drop 26 f))"
  have "words_sum (take 8 (drop 26 f)) \<le> 65535 * 8"
    by (rule order_trans [OF words_sum_bound]) simp
  then have "unat ?a \<le> 65535 * 8" using unat_add_words [of 0 "take 8 (drop 26 f)"] by simp
  moreover have "udp_pseudo_sum f n = of_nat (unat ?a + 17 + n)" by (simp add: udp_pseudo_sum_def)
  then have "unat (udp_pseudo_sum f n) = (unat ?a + 17 + n) mod 2 ^ 32" by (simp only: unat_of_nat) simp
  then have "unat (udp_pseudo_sum f n) \<le> unat ?a + 17 + n" by simp
  ultimately show ?thesis by linarith
qed

text \<open>
  C27. Both checksums of an injected frame are valid: the one's complement sums over the IP
  header, and over the UDP pseudo header, header and payload, are all ones.
\<close>

theorem bmv2_frame_checksums:
  assumes "bmv2_net_send post = Inr f"
  shows "checksum_fold (add_words 0 (take 20 (drop 14 f))) = 0xffff \<and>
    checksum_fold (add_words (udp_pseudo_sum f (8 + length post)) (drop 34 f)) = 0xffff"
proof
  have len: "length post \<le> 470" and f: "f = build_frame_from_post post"
    using assms by (auto simp: bmv2_net_send_def split: if_splits)
  define o2 where "o2 = put16 38 (of_nat (8 + length post)) (put16 16 (of_nat (20 + 8 + length post)) (bmv2_header_template @ post))"
  have lo: "length o2 = 42 + length post" by (simp add: o2_def)
  define c where "c = (ucast (NOT (checksum_fold (add_words 0 (put16 10 0 (take 20 (drop 14 o2)))))) :: u16)"
  define f2 where "f2 = put16 24 c o2"
  define s where "s = udp_pseudo_sum f2 (8 + length post)"
  define d where "d = (ucast (NOT (checksum_fold (add_words s (put16 6 0 (drop 34 f2))))) :: u16)"
  define u where "u = (if d = 0 then 0xffff else d)"
  have tk: "take 20 (drop 14 (put16 24 x o2)) = put16 10 x (take 20 (drop 14 o2))" for x
    by (simp add: drop_put16 take_put16)
  have dr: "drop 34 (put16 40 x f2) = put16 6 x (drop 34 f2)" for x by (simp add: drop_put16)
  have ps: "udp_pseudo_sum (put16 40 x f2) n = udp_pseudo_sum f2 n" for x n
    by (simp add: udp_pseudo_sum_def take_drop_put16_after)
  have l2: "length f2 = 42 + length post" by (simp add: f2_def lo)
  have "take (8 + length post) (drop 34 (put16 40 0 f2)) = put16 6 0 (drop 34 f2)" by (simp add: dr l2)
  then have fe: "f = put16 40 u f2"
    unfolding f build_frame_from_post_def fix_ipv4_udp_checksums_def Let_def o2_def [symmetric]
    by (simp add: tk c_def [symmetric] f2_def [symmetric] ps s_def [symmetric] d_def [symmetric] u_def)
  have "take 20 (drop 14 f) = put16 10 c (take 20 (drop 14 o2))"
    by (simp add: fe take_drop_put16_after f2_def tk)
  then show "checksum_fold (add_words 0 (take 20 (drop 14 f))) = 0xffff"
    using checksum_valid(1) [of 10 "take 20 (drop 14 o2)" 0 c] lo by (simp add: c_def)
  have bd: "unat s + 65535 * length (drop 34 f2) + 65535 < 2 ^ 32"
    using len l2 unat_udp_pseudo_sum [of f2 "8 + length post"] by (simp add: s_def)
  have "checksum_fold (add_words s (put16 6 u (drop 34 f2))) = 0xffff"
    unfolding u_def by (rule checksum_valid(2) [OF _ _ bd d_def]) (simp_all add: l2)
  then show "checksum_fold (add_words (udp_pseudo_sum f (8 + length post)) (drop 34 f)) = 0xffff"
    by (simp only: fe ps dr s_def)
qed

theorem bmv2_frame_checksums_witness:
  "\<exists>f. bmv2_net_send [1, 2, 3] = Inr f \<and> checksum_fold (add_words 0 (take 20 (drop 14 f))) = 0xffff"
  using bmv2_frame_checksums [of "[1, 2, 3]" "build_frame_from_post [1, 2, 3]"] by (simp add: bmv2_net_send_def)

section \<open>Scanning captures\<close>

text \<open>What the packets of a capture lead to, each one once.\<close>

definition received :: "u8 list list \<Rightarrow> (post_t \<times> u8 list) list" where
  "received pkts = List.map_filter (\<lambda>pkt. Option.bind (captured_payload pkt) dispatch_udp_payload) pkts"

lemma scan_loop_eq:
  "scan_loop skip index pkts out = (index + length pkts, out @ received (drop (skip - index) pkts))"
proof (induction pkts arbitrary: index out)
  case (Cons p pkts)
  show ?case
  proof (cases "index < skip")
    case True
    then have "skip - index = Suc (skip - Suc index)" by simp
    with True Cons show ?thesis by simp
  next
    case False
    then show ?thesis
      using Cons by (simp add: received_def map_filter_simps split: option.split)
  qed
qed (simp add: received_def map_filter_simps)

lemma scan_pcap_files_eq:
  "length skips = length fs \<Longrightarrow>
   scan_pcap_files skips fs =
     (map (\<lambda>f. length (pcap_packets f)) fs, concat (map2 (\<lambda>n f. received (drop n (pcap_packets f))) skips fs))"
  by (induction skips fs rule: list_induct2) (simp_all add: scan_loop_eq)

text \<open>
  The BMv2 module hands every captured packet on exactly once: after a poll, the next poll
  that finds more bytes dispatches, file by file and in order, exactly the packets that the
  files have gained since.
\<close>

theorem bmv2_poll_dispatches_new_packets:
  assumes "bmv2_net_poll_packets fs1 s = (s1, out)" "pcap_bytes_before s < total_pcap_bytes fs1"
    and "length (pcap_packets_done s) = length fs1"
    and "total_pcap_bytes fs1 < total_pcap_bytes fs2" "length fs2 = length fs1"
  shows "snd (bmv2_net_poll_packets fs2 s1) =
    concat (map2 (\<lambda>f1 f2. received (drop (length (pcap_packets f1)) (pcap_packets f2))) fs1 fs2)"
proof -
  have "s1 = \<lparr>pcap_bytes_before = total_pcap_bytes fs1, pcap_packets_done = map (\<lambda>f. length (pcap_packets f)) fs1\<rparr>"
    using assms(1-3) by (auto simp: bmv2_net_poll_packets_def Let_def not_le [symmetric] scan_pcap_files_eq)
  then show ?thesis
    using assms(4,5) by (simp add: bmv2_net_poll_packets_def Let_def not_le [symmetric] scan_pcap_files_eq
        zip_map1 case_prod_unfold comp_def)
qed

theorem bmv2_poll_dispatches_new_packets_witness:
  "snd (bmv2_net_poll_packets [\<lparr>pcap_size = 100, pcap_packets = [[1], build_frame_from_post [1, 7]]\<rparr>]
     (fst (bmv2_net_poll_packets [\<lparr>pcap_size = 50, pcap_packets = [[1]]\<rparr>]
        \<lparr>pcap_bytes_before = 0, pcap_packets_done = [0]\<rparr>))) = [(POST_LOCK_ACQUIRE, [1, 7])]"
proof -
  let ?fs1 = "[\<lparr>pcap_size = 50, pcap_packets = [[1]]\<rparr>]" and ?s = "\<lparr>pcap_bytes_before = 0, pcap_packets_done = [0]\<rparr>"
  have "bmv2_net_poll_packets ?fs1 ?s = (fst (bmv2_net_poll_packets ?fs1 ?s), snd (bmv2_net_poll_packets ?fs1 ?s))"
    by simp
  note r = bmv2_poll_dispatches_new_packets [OF this,
      of "[\<lparr>pcap_size = 100, pcap_packets = [[1], build_frame_from_post [1, 7]]\<rparr>]"]
  have c: "captured_payload (build_frame_from_post [1, 7]) = Some [1, 7]"
    by (simp add: captured_payload_def build_frame_nth build_frame_payload BMV2_SERVER_POST_TYPE_def Let_def)
  show ?thesis
    by (subst r) (simp_all add: total_pcap_bytes_def received_def map_filter_simps c dispatch_udp_payload_def
        post_of_code_def)
qed

text \<open>
  Configuring the module forgets which packets have been dispatched, so that the first
  poll that finds more bytes also dispatches the packets that were captured before, for
  instance the grants of an earlier session.
\<close>

theorem bmv2_configure_replays_old_packets:
  assumes "total_pcap_bytes fs < total_pcap_bytes fs2" "length fs2 = length fs"
  shows "snd (bmv2_net_poll_packets fs2 (bmv2_net_configure fs)) = concat (map (\<lambda>f. received (pcap_packets f)) fs2)"
  using assms
  by (simp add: bmv2_net_poll_packets_def bmv2_net_configure_def Let_def not_le [symmetric] scan_pcap_files_eq
      zip_replicate1 case_prod_unfold comp_def)

theorem bmv2_configure_replays_old_packets_witness:
  "snd (bmv2_net_poll_packets [\<lparr>pcap_size = 100, pcap_packets = [build_frame_from_post [1, 7], [1]]\<rparr>]
     (bmv2_net_configure [\<lparr>pcap_size = 60, pcap_packets = [build_frame_from_post [1, 7]]\<rparr>])) = [(POST_LOCK_ACQUIRE, [1, 7])]"
proof -
  have c: "captured_payload (build_frame_from_post [1, 7]) = Some [1, 7]" "captured_payload [1] = None"
    by (simp_all add: captured_payload_def build_frame_nth build_frame_payload BMV2_SERVER_POST_TYPE_def Let_def)
  show ?thesis
    by (subst bmv2_configure_replays_old_packets)
      (simp_all add: total_pcap_bytes_def received_def map_filter_simps c dispatch_udp_payload_def post_of_code_def)
qed

end
