(* ===== verification/Bmv2_Host.thy ===== *)
theory Bmv2_Host
  imports Bmv2_Net
begin

text \<open>
  What becomes of a received packet in the two network modules (lib/net.cc for DPDK,
  lib/bmv2/bmv2_net.cc), and the interface that the BMv2 build offers to Java
  (lib/bmv2/fisslock_host_api.cc): registration, an exclusive acquire with a timeout, and
  the release.
\<close>

section \<open>Received packets\<close>

text \<open>
  The DPDK module sends the buffer back to the switch when the dispatcher returns a value
  other than 0. The packets a handler sends itself go out before that.
\<close>

definition net_receive :: "build \<Rightarrow> packet \<Rightarrow> host_state \<Rightarrow> fl_error + host_state \<times> packet list" where
  "net_receive b p s =
     (case lock_packet_dispatch b None s p of
        Inl e \<Rightarrow> Inl e
      | Inr (n, p1, s1, out) \<Rightarrow> Inr (s1, out @ (if n \<noteq> 0 then [p1] else [])))"

text \<open>The BMv2 module does not use the value that the dispatcher returns.\<close>

definition bmv2_receive :: "build \<Rightarrow> packet \<Rightarrow> host_state \<Rightarrow> fl_error + host_state \<times> packet list" where
  "bmv2_receive b p s =
     (case lock_packet_dispatch b None s p of
        Inl e \<Rightarrow> Inl e
      | Inr (n, p1, s1, out) \<Rightarrow> Inr (s1, out))"

fun bmv2_receive_all :: "build \<Rightarrow> packet list \<Rightarrow> host_state \<Rightarrow> fl_error + host_state \<times> packet list" where
  "bmv2_receive_all b [] s = Inr (s, [])"
| "bmv2_receive_all b (p # ps) s =
     (case bmv2_receive b p s of
        Inl e \<Rightarrow> Inl e
      | Inr (s1, out) \<Rightarrow>
          (case bmv2_receive_all b ps s1 of
             Inl e \<Rightarrow> Inl e
           | Inr (s2, out2) \<Rightarrow> Inr (s2, out @ out2)))"

section \<open>Interface for Java (fisslock_host_api.cc)\<close>

definition bmv2_build :: build where
  "bmv2_build = default_build\<lparr>FISSLOCK_BMV2 := True\<rparr>"

definition bmv2_env_setup :: "int \<Rightarrow> host_id" where
  "bmv2_env_setup host = (if 0 < host \<and> host < 256 then of_int host else 1)"

definition fl_bmv2_init :: "int \<Rightarrow> host_state" where
  "fl_bmv2_init host = host_start (bmv2_env_setup host) FLAG_ENB_LOCAL_GRANT"

definition fl_bmv2_register_lock :: "u32 \<Rightarrow> host_state \<Rightarrow> host_state" where
  "fl_bmv2_register_lock lock_id s = snd (lock_local_init s (ucast lock_id))"

text \<open>
  The loop that waits for the grant: one element for each turn before the deadline, with the
  packets that the polling thread dispatches before the flag is read.
\<close>

fun poll_until_deadline ::
  "build \<Rightarrow> packet list list \<Rightarrow> lock_req \<Rightarrow> host_state \<Rightarrow> fl_error + bool \<times> host_state \<times> packet list" where
  "poll_until_deadline b [] req s = Inr (False, s, [])"
| "poll_until_deadline b (ps # turns) req s =
     (case bmv2_receive_all b ps s of
        Inl e \<Rightarrow> Inl e
      | Inr (s1, out) \<Rightarrow>
          (case lock_req_granted s1 req of
             Inl e \<Rightarrow> Inl e
           | Inr (v, s2) \<Rightarrow>
               (if v \<noteq> 0 then Inr (True, s2, out)
                else
                  (case poll_until_deadline b turns req s2 of
                     Inl e \<Rightarrow> Inl e
                   | Inr (g, s3, out2) \<Rightarrow> Inr (g, s3, out @ out2)))))"

definition fl_bmv2_try_acquire_excl ::
  "build \<Rightarrow> packet list list \<Rightarrow> u32 \<Rightarrow> task_id \<Rightarrow> host_state \<Rightarrow> fl_error + int \<times> host_state \<times> packet list" where
  "fl_bmv2_try_acquire_excl b turns lock_id task s =
     (case lock_acquire_async b s (ucast lock_id) task LOCK_EXCL of
        Inl e \<Rightarrow> Inl e
      | Inr (req, s1, out) \<Rightarrow>
          (if req = Req_granted then Inr (1, s1, out)
           else
             (case poll_until_deadline b turns req s1 of
                Inl e \<Rightarrow> Inl e
              | Inr (True, s2, out2) \<Rightarrow> Inr (1, s2, out @ out2)
              | Inr (False, s2, out2) \<Rightarrow>
                  (case lock_release b s2 (ucast lock_id) task LOCK_EXCL of
                     Inl e \<Rightarrow> Inl e
                   | Inr (_, s3, out3) \<Rightarrow> Inr (0, s3, out @ out2 @ out3)))))"

definition fl_bmv2_release_excl ::
  "build \<Rightarrow> u32 \<Rightarrow> task_id \<Rightarrow> host_state \<Rightarrow> fl_error + int \<times> host_state \<times> packet list" where
  "fl_bmv2_release_excl b lock_id task s =
     (case lock_release b s (ucast lock_id) task LOCK_EXCL of
        Inl e \<Rightarrow> Inl e
      | Inr (r, s1, out) \<Rightarrow> Inr (if r = 0 then 0 else -1, s1, out))"

section \<open>Properties\<close>

text \<open>A grant with which the switch makes a host the agent of a lock, for one of its tasks.\<close>

definition agent_grant :: "lock_id \<Rightarrow> host_id \<Rightarrow> task_id \<Rightarrow> packet" where
  "agent_grant i me task =
     \<lparr>ptype = POST_LOCK_GRANT_WITH_AGENT,
      hdr = \<lparr>mode_old_mode = MODE_OLD_MODE 3 0, hdr_lock_id = htonl i, machine_id = me,
             hdr_task_id = task, agent = me, wq_size = 0, hdr_ncnt = 0\<rparr>,
      pkt_wq = []\<rparr>"

lemma agent_grant_sel [simp]:
  "ptype (agent_grant i me task) = POST_LOCK_GRANT_WITH_AGENT"
  "hdr_lock_id (hdr (agent_grant i me task)) = htonl i" "hdr_task_id (hdr (agent_grant i me task)) = task"
  "agent (hdr (agent_grant i me task)) = me" "MODE (mode_old_mode (hdr (agent_grant i me task))) = LOCK_EXCL"
  "\<not> TRANSFERRED (hdr (agent_grant i me task))"
  by (simp_all add: agent_grant_def MODE_def MODE_OLD_MODE_def lock_state_of_def TRANSFERRED_def)

lemma dispatch_agent_grant:
  assumes "lock_id_map s (lid l) = Some d" "lock_heap s d = Some l" "\<not> is_agent l" "task \<noteq> TASK_FOR_RESTORE"
  shows "bmv2_receive b (agent_grant (lid l) (localhost_id s) task) s =
    Inr (put_lock s d (lock_local_notify (l\<lparr>is_agent := True, mode := LOCK_EXCL, ncnt := 0,
           holders := insert (LOCK_HOLDER (localhost_id s) task) (holders l)\<rparr>) task), [])"
  using assms
  by (cases l) (simp add: bmv2_receive_def lock_packet_dispatch_def lock_id_to_desc_def lmeta_def
      lock_packet_process_def process_grant_with_agent_def ASSERT_def lock_add_holder_def
      lock_local_notify_def Let_def)

text \<open>
  C26. An uncontended exclusive acquire and release through the BMv2 interface: whatever turn
  the grant of the switch arrives in before the deadline, the acquire returns 1 and has sent
  one request, the host is the agent and the task the only holder; the release returns 0,
  sends the switch one free, and leaves the lock free.
\<close>

theorem bmv2_acquire_release_excl:
  assumes "asks_switch bmv2_build s (ucast lock_id) d l" "holders l = {}" "wqueue l = []" "local_holders l = {}"
    and "task_granted l task = None" "task \<noteq> TASK_FOR_RESTORE"
    and "turns = replicate n [] @ [agent_grant (lid l) (localhost_id s) task] # rest"
  shows "\<exists>s1 l1 s2.
     fl_bmv2_try_acquire_excl bmv2_build turns lock_id task s =
       Inr (1, s1, [send_post_acquire (localhost_id s) 3 (lid l) (localhost_id s) task]) \<and>
     lock_heap s1 d = Some l1 \<and> is_agent l1 \<and> mode l1 = LOCK_EXCL \<and>
     holders l1 = {LOCK_HOLDER (localhost_id s) task} \<and>
     fl_bmv2_release_excl bmv2_build lock_id task s1 =
       Inr (0, s2, [send_post_free (localhost_id s) (lid l) 0 3]) \<and>
     lock_heap s2 d = Some (l\<lparr>task_granted := (task_granted l)(task \<mapsto> False), ncnt := 0\<rparr>)"
proof -
  let ?me = "localhost_id s" and ?k = "ucast lock_id :: lock_key"
  let ?l1 = "l\<lparr>task_granted := (task_granted l)(task \<mapsto> False)\<rparr>"
  let ?s1 = "put_lock s d ?l1"
  let ?l2 = "?l1\<lparr>is_agent := True, mode := LOCK_EXCL, ncnt := 0, holders := {LOCK_HOLDER ?me task}\<rparr>"
  let ?l3 = "?l2\<lparr>local_holders := {task}\<rparr>"
  have a: "lock_tbl s ?k = Some d" "lock_id_map s (lid l) = Some d" "\<not> is_agent l" "mode l = FREE"
    "\<not> lock_out_of_range l" "\<not> TPCC_ENB_LOCAL bmv2_build"
    using assms(1) by (simp_all add: asks_switch_def bmv2_build_def default_build_def)
  have acq: "lock_acquire_async bmv2_build s ?k task LOCK_EXCL = Inr (Req_flag d task, ?s1, [send_post_acquire ?me 3 (lid l) ?me task])"
    using acquire_asks_switch [OF assms(1), of LOCK_EXCL task] assms(5) by (simp add: lock_prepare_wait_def)
  have g: "bmv2_receive bmv2_build (agent_grant (lid l) ?me task) ?s1 = Inr (put_lock s d (lock_local_notify ?l2 task), [])"
    using dispatch_agent_grant [of ?s1 ?l1 d task bmv2_build] a assms(2,6) by (simp add: put_lock_def)
  have gr: "lock_req_granted (put_lock s d (lock_local_notify ?l2 task)) (Req_flag d task) = Inr (1, put_lock s d ?l3)"
    using assms(4) by (cases l) (simp add: lock_req_granted_def lmeta_def put_lock_def lock_local_notify_def)
  have not_yet: "lock_req_granted ?s1 (Req_flag d task) = Inr (0, ?s1)"
    by (simp add: lock_req_granted_def lmeta_def put_lock_def)
  have turn: "poll_until_deadline b (replicate n [] @ [p] # rest) req t = Inr (True, t3, [])"
    if "lock_req_granted t req = Inr (0, t)" "bmv2_receive b p t = Inr (t2, [])" "lock_req_granted t2 req = Inr (1, t3)"
    for b p req t t2 t3 using that by (induction n) simp_all
  have poll: "poll_until_deadline bmv2_build turns (Req_flag d task) ?s1 = Inr (True, put_lock s d ?l3, [])"
    unfolding assms(7) by (rule turn [OF not_yet g gr])
  have rel: "lock_release bmv2_build (put_lock s d ?l3) ?k task LOCK_EXCL =
      Inr (0, put_lock s d (l\<lparr>task_granted := (task_granted l)(task \<mapsto> False), ncnt := 0\<rparr>),
           [send_post_free ?me (lid l) 0 3])"
    using a assms(2-4)
    by (cases l) (simp add: lock_release_def lock_key_to_desc_def lmeta_def put_lock_def release_on_def release_at_agent_def
        handle_release_def lock_has_holder_def lock_remove_holder_def lock_no_holders_def lock_no_waiters_def
        release_free_local_def lock_out_of_range_def ASSERT_def bmv2_build_def default_build_def Let_def)
  show ?thesis
    using acq poll rel by (simp add: fl_bmv2_try_acquire_excl_def fl_bmv2_release_excl_def put_lock_def)
qed

theorem bmv2_acquire_release_excl_witness:
  "\<exists>s1 s2. fl_bmv2_try_acquire_excl bmv2_build [[], [agent_grant 5 1 7]] 5 7 (fl_bmv2_register_lock 5 (fl_bmv2_init 1)) =
       Inr (1, s1, [send_post_acquire 1 3 5 1 7]) \<and>
     fl_bmv2_release_excl bmv2_build 5 7 s1 = Inr (0, s2, [send_post_free 1 5 0 3])"
proof -
  let ?s = "fl_bmv2_register_lock 5 (fl_bmv2_init 1)"
  have "lock_tbl ?s 5 = Some 1" "lock_heap ?s 1 = Some (new_lock 5 5)" "lock_id_map ?s 5 = Some 1" "enb_local_grants ?s"
    and me: "localhost_id ?s = 1"
    by (simp_all add: fl_bmv2_register_lock_def fl_bmv2_init_def host_start_def lock_setup_def lock_local_init_def
        register_lock_def alloc_lock_def map_insert_def bmv2_env_setup_def FLAG_ENB_LOCAL_GRANT_def)
  then have "asks_switch bmv2_build ?s (ucast (5 :: u32)) 1 (new_lock 5 5)"
    by (simp add: asks_switch_def new_lock_def lock_out_of_range_def SWITCH_LOCK_NUM_def bmv2_build_def default_build_def)
  from bmv2_acquire_release_excl [OF this, of 7 "[[], [agent_grant 5 1 7]]" 1 "[]"] me show ?thesis
    by (auto simp: new_lock_def TASK_FOR_RESTORE_def)
qed

text \<open>
  The BMv2 module loses what a packet handler sends back in the received buffer. When the
  last holder of a lock, on another host, releases it, the agent gives the lock up and
  returns a free packet for the switch: the DPDK module sends it, the BMv2 module drops it,
  so that the switch still takes this host for the agent.
\<close>

theorem bmv2_drops_free_packet:
  assumes "lock_id_map s (lid l) = Some d" "lock_heap s d = Some l"
    and "\<not> lock_out_of_range l" "is_agent l" "holders l = {LOCK_HOLDER h t}" "wqueue l = []" "\<not> FISSLOCK_DEBUG b"
    and "p = send_post_release h (lid l) h t"
  shows "\<exists>s1 f l1. net_receive b p s = Inr (s1, [f]) \<and> ptype f = POST_LOCK_FREE \<and>
     bmv2_receive b p s = Inr (s1, []) \<and> lock_heap s1 d = Some l1 \<and> \<not> is_agent l1 \<and> mode l1 = FREE"
  using assms
  by (auto simp: net_receive_def bmv2_receive_def lock_packet_dispatch_def lock_id_to_desc_def lmeta_def
      lock_packet_process_def process_release_def release_free_or_transfer_def handle_release_def
      lock_has_holder_def lock_remove_holder_def lock_no_holders_def lock_no_waiters_def lock_free_helper_def
      lock_out_of_range_def put_lock_def ASSERT_def send_post_defs Let_def)

theorem bmv2_drops_free_packet_witness:
  "\<exists>s1 f l1. net_receive bmv2_build (send_post_release 2 5 2 9) (put_lock example_host 1 example_agent) = Inr (s1, [f]) \<and>
     ptype f = POST_LOCK_FREE \<and>
     bmv2_receive bmv2_build (send_post_release 2 5 2 9) (put_lock example_host 1 example_agent) = Inr (s1, []) \<and>
     lock_heap s1 1 = Some l1 \<and> \<not> is_agent l1 \<and> mode l1 = FREE"
  by (rule bmv2_drops_free_packet [where l = example_agent and h = 2 and t = 9])
    (simp_all add: example_host_def put_lock_def host_start_def lock_setup_def lock_local_init_def register_lock_def
      alloc_lock_def map_insert_def new_lock_def lock_out_of_range_def SWITCH_LOCK_NUM_def bmv2_build_def default_build_def)

end
