(* ===== verification/Dpdk_Host.thy ===== *)
theory Dpdk_Host
  imports Dpdk_Net Bmv2_Host
begin

text \<open>
  The lock library over the DPDK network module: the bytes of a post (the packed structs of
  lib/post.h and lib/lock.h), the buffers that the posts of lib/post.c and the grants of
  \<open>lock_digest_wq\<close> (lib/lock.cc) are written to, and the dispatcher of lock packets on the
  bytes of a received buffer. The theorems show that the bytes carry the posts of the other
  theories, that polling refines \<open>net_receive\<close>, and what becomes of the buffers.
\<close>

section \<open>Posts as bytes (lib/post.h, lib/lock.h)\<close>

text \<open>The bit fields of a wait queue entry: 2 bits, 30 bits, 8 bits, the lowest first.\<close>

definition wqe_bytes :: "wqe \<Rightarrow> u8 list" where
  "wqe_bytes w = bytes32_le (ucast (lock_state_code (wq_op w)) OR push_bit 2 (ucast (wq_task w))) @ [wq_host w]"

definition wqe_of_bytes :: "u8 list \<Rightarrow> wqe" where
  "wqe_of_bytes bs =
     (let x = word32_le bs in
      \<lparr>wq_op = lock_state_of (ucast (x AND 3)), wq_task = ucast (drop_bit 2 x), wq_host = bs ! 4\<rparr>)"

definition post_bytes :: "packet \<Rightarrow> u8 list" where
  "post_bytes p =
     (let h = hdr p in
      [post_code (ptype p), mode_old_mode h] @ bytes32_le (hdr_lock_id h) @ [machine_id h] @
      bytes32_le (hdr_task_id h) @ [agent h] @ bytes32_le (wq_size h) @ [hdr_ncnt h] @
      concat (map wqe_bytes (pkt_wq p)))"

text \<open>Reading entries beyond the data room is out of bounds.\<close>

fun read_wq :: "nat \<Rightarrow> u8 list \<Rightarrow> wqe list option" where
  "read_wq 0 bs = Some []"
| "read_wq (Suc n) bs =
     (if length bs < sizeof_wqe then None
      else map_option (Cons (wqe_of_bytes (take sizeof_wqe bs))) (read_wq n (drop sizeof_wqe bs)))"

definition read_post :: "u8 list \<Rightarrow> packet option" where
  "read_post bs =
     (if length bs < POST_HDR_SIZE then None
      else
        (let h = \<lparr>mode_old_mode = bs ! 1, hdr_lock_id = word32_le (drop 2 bs), machine_id = bs ! 6,
                  hdr_task_id = word32_le (drop 7 bs), agent = bs ! 11, wq_size = word32_le (drop 12 bs),
                  hdr_ncnt = bs ! 16\<rparr>
         in case post_of_code (bs ! 0) of
              None \<Rightarrow> None
            | Some t \<Rightarrow>
                map_option (\<lambda>wq. \<lparr>ptype = t, hdr = h, pkt_wq = wq\<rparr>)
                  (read_wq (unat (wq_size h)) (drop POST_HDR_SIZE bs))))"

section \<open>Buffers for posts (lib/post.c, lib/lock.cc)\<close>

definition fill_post :: "packet \<Rightarrow> mbuf \<Rightarrow> fl_error + mbuf" where
  "fill_post p m =
     (if length (mb_data m) < FRAME_HDR_SIZE + length (post_bytes p) then Inl Out_of_bounds
      else Inr (m\<lparr>mb_data := put_bytes FRAME_HDR_SIZE (post_bytes p) (mb_data m)\<rparr>))"

text \<open>The end of \<open>send_post_lock_generic\<close>; a buffer that could not be allocated is used all the same.\<close>

definition send_post :: "mbuf option \<Rightarrow> nat \<Rightarrow> packet \<Rightarrow> dpdk_core \<Rightarrow> fl_error + dpdk_core" where
  "send_post pool acc p c =
     (case dpdk_get_mbuf pool c of
        (None, _) \<Rightarrow> Inl Invalid_pointer
      | (Some m, c) \<Rightarrow>
          (case fill_post p m of Inl e \<Rightarrow> Inl e | Inr m \<Rightarrow> net_send acc m (post_size None p) c))"

fun fill_posts :: "mbuf option list \<Rightarrow> packet list \<Rightarrow> fl_error + mbuf list" where
  "fill_posts hdls [] = Inr []"
| "fill_posts [] (g # gs) = Inl Out_of_bounds"
| "fill_posts (None # hdls) (g # gs) = Inl Invalid_pointer"
| "fill_posts (Some m # hdls) (g # gs) =
     (case fill_post g m of
        Inl e \<Rightarrow> Inl e
      | Inr m \<Rightarrow> (case fill_posts hdls gs of Inl e \<Rightarrow> Inl e | Inr ms \<Rightarrow> Inr (m # ms)))"

text \<open>
  The buffers of \<open>lock_digest_wq\<close>: one is allocated for each of the \<open>n\<close> waiters, those for
  the grants are filled and sent.
\<close>

definition digest_send :: "mbuf list option \<Rightarrow> nat \<Rightarrow> nat \<Rightarrow> packet list \<Rightarrow> dpdk_core \<Rightarrow> fl_error + dpdk_core" where
  "digest_send pool acc n grants c =
     (let (bhdls, c) = dpdk_get_mbuf_bulk pool n c in
      case fill_posts bhdls grants of
        Inl e \<Rightarrow> Inl e
      | Inr bufs \<Rightarrow> net_send_batch acc bufs POST_HDR_SIZE c)"

section \<open>Dispatch (lib/lock.cc)\<close>

text \<open>
  The dispatcher of lock packets on the bytes of a buffer. Its state is the host and the
  posts that the handlers have sent.
\<close>

definition lock_handler :: "build \<Rightarrow> (host_state \<times> packet list) dispatcher" where
  "lock_handler b buf = (\<lambda>(s, sent).
     (case read_post buf of
        None \<Rightarrow> Inl Out_of_bounds
      | Some p \<Rightarrow>
          (case lock_packet_dispatch b None s p of
             Inl e \<Rightarrow> Inl e
           | Inr (n, p1, s1, out) \<Rightarrow>
               if n = 0 then Inr (0, buf, s1, sent @ out)
               else if length buf < length (post_bytes p1) then Inl Out_of_bounds
               else Inr (int n, put_bytes 0 (post_bytes p1) buf, s1, sent @ out))))"

text \<open>The dispatchers that \<open>lock_setup\<close> registers.\<close>

definition lock_dispatchers :: "build \<Rightarrow> u8 \<Rightarrow> (host_state \<times> packet list) dispatcher option" where
  "lock_dispatchers b =
     fold (\<lambda>t. register_packet_dispatcher t (lock_handler b))
       [POST_LOCK_ACQUIRE, POST_LOCK_GRANT_WITH_AGENT, POST_LOCK_GRANT_WO_AGENT, POST_LOCK_RELEASE,
        POST_LOCK_TRANSFER, POST_LOCK_FREE] (\<lambda>_. None)"

section \<open>Posts are read as they were written\<close>

lemma lock_state_code_bit: "bit (lock_state_code s) n \<Longrightarrow> n < 2"
  by (cases s) (auto simp: bit_1_iff bit_numeral_rec split: nat.splits if_splits)

lemma wqe_fields:
  fixes t :: "30 word" and s :: lock_state
  defines "x \<equiv> ucast (lock_state_code s) OR push_bit 2 (ucast t) :: u32"
  shows "ucast (x AND 3) = lock_state_code s" and "ucast (drop_bit 2 x) = t"
proof -
  have m: "(3 :: u32) = mask 2" by (simp add: mask_eq_exp_minus_1)
  show "ucast (x AND 3) = lock_state_code s"
    by (rule bit_word_eqI)
      (auto simp: m x_def bit_simps dest: lock_state_code_bit)
  show "ucast (drop_bit 2 x) = t"
    by (rule bit_word_eqI)
      (auto simp: x_def bit_simps dest: lock_state_code_bit bit_imp_le_length)
qed

lemma length_wqe_bytes [simp]: "length (wqe_bytes w) = 5"
  by (simp add: wqe_bytes_def)

lemma wqe_of_bytes_bytes: "wqe_of_bytes (wqe_bytes w) = w"
proof -
  have "word32_le (bytes32_le x @ ys) = x" for x ys
    using word32_le_bytes [of x] by (simp add: word32_le_def bytes32_le_def)
  then show ?thesis by (simp add: wqe_of_bytes_def wqe_bytes_def Let_def wqe_fields nth_append del: drop_bit_or)
qed

lemma read_wq_bytes: "read_wq (length ws) (concat (map wqe_bytes ws) @ rest) = Some ws"
  by (induction ws) (simp_all add: sizeof_wqe_def wqe_of_bytes_bytes)

lemma length_post_bytes: "length (post_bytes p) = 17 + 5 * length (pkt_wq p)"
  by (simp add: post_bytes_def Let_def length_concat comp_def sum_list_triv)

lemma post_size_length: "post_size None p = length (post_bytes p)"
  by (simp add: post_size_def length_post_bytes POST_HDR_SIZE_def sizeof_post_header_def
      sizeof_lock_post_header_def sizeof_wqe_def)

lemma read_post_bytes:
  assumes "packet_wf p"
  shows "read_post (post_bytes p @ rest) = Some p"
proof -
  have b: "word32_le (bytes32_le x @ ys) = x" for x ys
    using word32_le_bytes [of x] by (simp add: word32_le_def bytes32_le_def)
  have l: "\<not> length (post_bytes p @ rest) < POST_HDR_SIZE"
    by (simp add: length_post_bytes POST_HDR_SIZE_def sizeof_post_header_def sizeof_lock_post_header_def)
  have n: "(post_bytes p @ rest) ! 0 = post_code (ptype p)" "(post_bytes p @ rest) ! 1 = mode_old_mode (hdr p)"
    "(post_bytes p @ rest) ! 6 = machine_id (hdr p)" "(post_bytes p @ rest) ! 11 = agent (hdr p)"
    "(post_bytes p @ rest) ! 16 = hdr_ncnt (hdr p)"
    by (simp_all add: post_bytes_def bytes32_le_def Let_def)
  have d: "word32_le (drop 2 (post_bytes p @ rest)) = hdr_lock_id (hdr p)"
    "word32_le (drop 7 (post_bytes p @ rest)) = hdr_task_id (hdr p)"
    "word32_le (drop 12 (post_bytes p @ rest)) = wq_size (hdr p)"
    using word32_le_bytes by (simp_all add: post_bytes_def bytes32_le_def word32_le_def Let_def)
  have q: "drop 17 (post_bytes p @ rest) = concat (map wqe_bytes (pkt_wq p)) @ rest"
    by (simp add: post_bytes_def bytes32_le_def Let_def)
  show ?thesis using assms l
    by (simp add: read_post_def Let_def n d q packet_wf_def read_wq_bytes POST_HDR_SIZE_def
        sizeof_post_header_def sizeof_lock_post_header_def del: drop_append nth_append One_nat_def)
qed

lemma put_post_bytes:
  "length (post_bytes p) \<le> length buf \<Longrightarrow>
   put_bytes 0 (post_bytes p) buf = post_bytes p @ drop (length (post_bytes p)) buf"
  by (simp add: put_bytes_def)

lemma fill_post_sendbuf:
  assumes "FRAME_HDR_SIZE + length (post_bytes p) \<le> length (mb_data m)"
  shows "\<exists>m'. fill_post p m = Inr m' \<and> mb_addr m' = mb_addr m \<and> length (mb_data m') = length (mb_data m) \<and>
           dpdk_mbuf_to_sendbuf m' = post_bytes p @ drop (length (post_bytes p)) (dpdk_mbuf_to_sendbuf m)"
  using assms by (simp add: fill_post_def dpdk_mbuf_to_sendbuf_def put_bytes_def add.commute)

text \<open>
  C21. A post arrives as it was sent. Sending a post writes it behind the headers of a
  well-formed frame that is exactly as long as the post needs, and reading the bytes behind
  the headers gives the post again, with all its fields and its wait queue.
\<close>

theorem sent_post_roundtrip:
  assumes "packet_wf p" and "42 + length (post_bytes p) \<le> length (mb_data m)" and "42 + length (post_bytes p) < 2 ^ 16"
  shows "\<exists>m' c'. send_post (Some m) 1 p c = Inr c' \<and> tx_queue c' = tx_queue c @ [m'] \<and>
           frame_ok m' \<and> unat (data_len m') = 42 + post_size None p \<and>
           read_post (dpdk_mbuf_to_sendbuf m') = Some p"
proof -
  obtain m1 where m1: "fill_post p m = Inr m1" "length (mb_data m1) = length (mb_data m)"
    "dpdk_mbuf_to_sendbuf m1 = post_bytes p @ drop (length (post_bytes p)) (dpdk_mbuf_to_sendbuf m)"
    using fill_post_sendbuf [of p m] assms(2) by (auto simp: FRAME_HDR_SIZE_def)
  let ?c = "snd (dpdk_get_mbuf (Some m) c)"
  obtain m2 where m2: "write_headers (tx_count ?c) (post_size None p) m1 = Inr m2" "frame_ok m2"
    "unat (data_len m2) = post_size None p + 42" "dpdk_mbuf_to_sendbuf m2 = dpdk_mbuf_to_sendbuf m1"
    using write_headers_frame [of "post_size None p" m1] assms(2,3) m1(2)
    by (metis add.commute post_size_length)
  have "read_post (dpdk_mbuf_to_sendbuf m2) = Some p" using read_post_bytes [OF assms(1)] m2(4) m1(3) by simp
  then show ?thesis using m1(1) m2(1-3)
    by (simp add: send_post_def dpdk_get_mbuf_def net_send_def dpdk_send_def Let_def)
qed

theorem sent_post_roundtrip_witness:
  "\<exists>m' c'. send_post (Some example_mbuf) 1 (send_post_acquire 1 1 5 2 9) example_core = Inr c' \<and> tx_queue c' = [m'] \<and>
     frame_ok m' \<and> unat (data_len m') = 59 \<and> read_post (dpdk_mbuf_to_sendbuf m') = Some (send_post_acquire 1 1 5 2 9)"
  using sent_post_roundtrip [of "send_post_acquire 1 1 5 2 9" example_mbuf example_core]
  by (simp add: packet_wf_def send_post_defs length_post_bytes post_size_length example_mbuf_def example_core_def)

section \<open>Polling refines the dispatch of posts\<close>

lemma queue_bytes_enlarge: "ws \<noteq> [] \<Longrightarrow> Suc 0 < length ws * 5"
  by (cases ws) auto

text \<open>What a handler sends back is as long as the bytes it asks to add.\<close>

lemma release_free_or_transfer_back:
  assumes "release_free_or_transfer me l p = Inr (n, p1, l1, out)" and "n \<noteq> 0" and "pkt_wq p = []"
    and "length (pkt_wq p1) < 2 ^ 32"
  shows "packet_wf p1 \<and> 5 * length (pkt_wq p1) = (if 1 < n then n else 0)"
  using assms
  by (auto simp: release_free_or_transfer_def lock_free_helper_def lock_transfer_helper_def packet_wf_def sizeof_wqe_def
      unat_of_nat_u32 queue_bytes_enlarge split: if_splits list.splits sum.splits)

lemma process_release_back:
  assumes "process_release b me l p = Inr (n, p1, l1, out)" and "n \<noteq> 0" and "pkt_wq p = []" and "packet_wf p"
    and "length (pkt_wq p1) < 2 ^ 32"
  shows "packet_wf p1 \<and> 5 * length (pkt_wq p1) = (if 1 < n then n else 0)"
  using assms release_free_or_transfer_back [of me _ p n p1 l1 out]
  by (auto simp: process_release_def Let_def packet_wf_def split: if_splits sum.splits list.splits bool.splits prod.splits)

lemma process_acquire_back:
  assumes "process_acquire b l p = Inr (n, p1, l1, out)" and "n \<noteq> 0" and "packet_wf p"
  shows "packet_wf p1 \<and> pkt_wq p1 = pkt_wq p \<and> n = 1"
  using assms by (auto simp: process_acquire_def Let_def packet_wf_def split: if_splits sum.splits prod.splits)

lemma process_grant_with_agent_back:
  assumes "process_grant_with_agent b me l p = Inr (n, p1, l1, out)" and "n \<noteq> 0" and "packet_wf p"
  shows "packet_wf p1 \<and> pkt_wq p1 = pkt_wq p \<and> n = 1"
  using assms by (auto simp: process_grant_with_agent_def ASSERT_def Let_def packet_wf_def split: if_splits sum.splits prod.splits)

lemma process_grant_wo_agent_back:
  assumes "process_grant_wo_agent b me l p = Inr (n, p1, l1, out)" and "n \<noteq> 0" and "packet_wf p"
  shows "packet_wf p1 \<and> pkt_wq p1 = pkt_wq p \<and> n = 1"
  using assms by (auto simp: process_grant_wo_agent_def ASSERT_def packet_wf_def split: if_splits sum.splits prod.splits)

lemma process_push_back_back:
  assumes "process_push_back b l p = Inr (n, p1, l1, out)" and "n \<noteq> 0" and "packet_wf p"
  shows "packet_wf p1 \<and> pkt_wq p1 = pkt_wq p \<and> n = 1"
  using assms by (auto simp: process_push_back_def ASSERT_def Let_def packet_wf_def split: if_splits sum.splits prod.splits)

lemmas process_back =
  process_release_back process_acquire_back process_grant_with_agent_back process_grant_wo_agent_back
  process_push_back_back

lemma sent_back_post:
  assumes "lock_packet_dispatch b None s p = Inr (n, p1, s1, out)" and "n \<noteq> 0" and "packet_wf p"
    and "ptype p = POST_LOCK_RELEASE \<longrightarrow> pkt_wq p = []" and "length (pkt_wq p1) < 2 ^ 32"
  shows "packet_wf p1 \<and> length (post_bytes p1) = length (post_bytes p) + (if 1 < n then n else 0)"
proof -
  from assms(1) obtain me l l1 where "lock_packet_process b None me l p = Inr (n, p1, l1, out)"
    by (auto simp: lock_packet_dispatch_def Let_def split: sum.splits prod.splits)
  then show ?thesis
    using assms(2-5)
    by (auto simp: lock_packet_process_def length_post_bytes dest: process_back split: post_t.splits)
qed

lemma lock_dispatchers_registered:
  "t \<noteq> POST_MEM_DIFF \<Longrightarrow> t \<noteq> POST_CLEAR_SEQ \<Longrightarrow> lock_dispatchers b (post_code t) = Some (lock_handler b)"
  by (cases t) (simp_all add: lock_dispatchers_def register_packet_dispatcher_def)

lemma dispatch_post:
  assumes "t \<noteq> POST_MEM_DIFF" and "t \<noteq> POST_CLEAR_SEQ"
  shows "packet_dispatch (lock_dispatchers b) (post_code t) buf st = lock_handler b buf st"
  using lock_dispatchers_registered [OF assms, of b] post_code_range [of t] by (auto simp: packet_dispatch_def dest: leD)

text \<open>The buffer that is sent back, in terms of the post in it.\<close>

lemma send_back_buffer:
  fixes m :: mbuf
  assumes len: "unat (data_len m) = 42 + length (post_bytes p)" and room: "length (mb_data m) < 2 ^ 16"
    and p1: "packet_wf p1" "length (post_bytes p1) = length (post_bytes p) + (if 1 < n then n else 0)"
    and fits: "42 + length (post_bytes p1) \<le> length (mb_data m)" and big: "42 < length (mb_data m)"
  defines "m1 \<equiv> m\<lparr>mb_data := take 42 (mb_data m) @ put_bytes 0 (post_bytes p1) (drop 42 (mb_data m))\<rparr>"
  defines "m2 \<equiv> (if 1 < n then enlarge (int n) m1 else m1)"
  shows "read_post (dpdk_mbuf_to_sendbuf m2) = Some p1 \<and> unat (data_len m2) = 42 + length (post_bytes p1)"
proof -
  have "drop 42 (mb_data m2) = put_bytes 0 (post_bytes p1) (drop 42 (mb_data m))"
    using big by (simp add: m2_def m1_def enlarge_def drop_put16_before)
  then have "dpdk_mbuf_to_sendbuf m2 = post_bytes p1 @ drop (length (post_bytes p1)) (drop 42 (mb_data m))"
    using fits by (simp add: dpdk_mbuf_to_sendbuf_def FRAME_HDR_SIZE_def put_post_bytes)
  then have r: "read_post (dpdk_mbuf_to_sendbuf m2) = Some p1" using read_post_bytes [OF p1(1)] by simp
  have "unat (data_len m + of_nat n) = unat (data_len m) + n" if "1 < n"
    using that len p1(2) fits room unat_of_nat_u16 [of n] by (simp add: unat_plus_if')
  then have "unat (data_len m2) = 42 + length (post_bytes p1)"
    using len p1(2) by (simp add: m2_def m1_def enlarge_def)
  with r show ?thesis by simp
qed

text \<open>
  C19. Polling a received buffer does what \<open>net_receive\<close> says of the post in it. The host ends
  in the same state; the posts that the handler sends, followed by the post in the buffer that
  is sent back, if any, are the posts that \<open>net_receive\<close> returns; and the buffer that is sent
  back is exactly as long as its post, also when the handler has added a wait queue.
\<close>

theorem poll_refines_net_receive:
  assumes "net_receive b p s = Inr (s', out)" and "packet_wf p"
    and "ptype p \<noteq> POST_MEM_DIFF" and "ptype p \<noteq> POST_CLEAR_SEQ"
    and "ptype p = POST_LOCK_RELEASE \<longrightarrow> pkt_wq p = []"
    and "drop 42 (mb_data m) = post_bytes p @ rest" and "length (mb_data m) < 2 ^ 16"
    and "unat (data_len m) = 42 + length (post_bytes p)"
    and "\<forall>q \<in> set out. 42 + length (post_bytes q) \<le> length (mb_data m)"
  shows "\<exists>n p1 o1 bufs c'. lock_packet_dispatch b None s p = Inr (n, p1, s', o1) \<and>
           out = o1 @ (if n = 0 then [] else [p1]) \<and>
           poll_one (lock_dispatchers b) (1, m) ((s, sent), c) = Inr ((s', sent @ o1), c') \<and>
           tx_queue c' = tx_queue c @ bufs \<and>
           list_all2 (\<lambda>m' q. read_post (dpdk_mbuf_to_sendbuf m') = Some q \<and>
                             unat (data_len m') = 42 + length (post_bytes q)) bufs (if n = 0 then [] else [p1])"
proof -
  have "length (drop 42 (mb_data m)) = length (post_bytes p @ rest)" using assms(6) by simp
  then have big: "42 < length (mb_data m)" using length_post_bytes [of p] by simp
  have "mb_data m ! 42 = drop 42 (mb_data m) ! 0" using big by simp
  also have "\<dots> = post_code (ptype p)" unfolding assms(6) by (simp add: post_bytes_def Let_def)
  finally have t: "mb_data m ! 42 = post_code (ptype p)" .
  have rp: "read_post (drop 42 (mb_data m)) = Some p" unfolding assms(6) by (rule read_post_bytes [OF assms(2)])
  obtain n p1 o1 where d: "lock_packet_dispatch b None s p = Inr (n, p1, s', o1)"
    and out: "out = o1 @ (if n \<noteq> 0 then [p1] else [])"
    using assms(1) by (auto simp: net_receive_def split: sum.splits)
  note poll = poll_one_def FRAME_HDR_SIZE_def t dispatch_post [OF assms(3,4)] lock_handler_def rp d
  show ?thesis
  proof (cases "n = 0")
    case True
    then show ?thesis using big out d by (simp add: poll rte_pktmbuf_free_def Let_def)
  next
    case False
    have fits: "42 + length (post_bytes p1) \<le> length (mb_data m)" using assms(9) False out by simp
    then have "length (pkt_wq p1) < 2 ^ 32" using assms(7) by (simp add: length_post_bytes)
    with sent_back_post [OF d False assms(2,5)]
    have p1: "packet_wf p1" "length (post_bytes p1) = length (post_bytes p) + (if 1 < n then n else 0)" by simp_all
    note bk = send_back_buffer [OF assms(8,7) p1 fits big]
    let ?m1 = "m\<lparr>mb_data := take 42 (mb_data m) @ put_bytes 0 (post_bytes p1) (drop 42 (mb_data m))\<rparr>"
    let ?m2 = "if 1 < n then enlarge (int n) ?m1 else ?m1"
    have pl: "poll_one (lock_dispatchers b) (1, m) ((s, sent), c) = Inr ((s', sent @ o1), c\<lparr>tx_queue := tx_queue c @ [?m2]\<rparr>)"
      using big fits False by (simp add: poll Let_def dpdk_send_def)
    show ?thesis using d out False pl bk by (auto intro!: exI [of _ "[?m2]"])
  qed
qed

definition waited_agent :: innet_lock where
  "waited_agent = example_agent\<lparr>wqueue := [mk_wqe LOCK_EXCL 3 1, mk_wqe LOCK_EXCL 4 2]\<rparr>"

definition received_release :: mbuf where
  "received_release =
     \<lparr>mb_addr = 7, mb_data = replicate 42 0 @ post_bytes (send_post_release 2 5 2 9) @ replicate 16 0,
      data_len = 59, pkt_len = 59\<rparr>"

lemma waited_agent_transfer:
  "\<exists>s1 q. net_receive default_build (send_post_release 2 5 2 9) (put_lock example_host 1 waited_agent) = Inr (s1, [q]) \<and>
     length (pkt_wq q) = 1"
  by (simp add: example_host_def waited_agent_def put_lock_def host_start_def lock_setup_def lock_local_init_def
      register_lock_def alloc_lock_def map_insert_def new_lock_def lock_out_of_range_def SWITCH_LOCK_NUM_def
      default_build_def net_receive_def lock_packet_dispatch_def lock_id_to_desc_def lmeta_def
      lock_packet_process_def process_release_def release_free_or_transfer_def handle_release_def
      lock_has_holder_def lock_remove_holder_def lock_no_holders_def lock_no_waiters_def lock_transfer_helper_def
      ASSERT_def sizeof_wqe_def send_post_defs Let_def)

lemma waited_agent_sends_back:
  "lock_packet_dispatch default_build None (put_lock example_host 1 waited_agent) (send_post_release 2 5 2 9) \<noteq> Inr (0, x)"
  by (simp add: example_host_def waited_agent_def put_lock_def host_start_def lock_setup_def lock_local_init_def
      register_lock_def alloc_lock_def map_insert_def new_lock_def lock_out_of_range_def SWITCH_LOCK_NUM_def
      default_build_def lock_packet_dispatch_def lock_id_to_desc_def lmeta_def
      lock_packet_process_def process_release_def release_free_or_transfer_def handle_release_def
      lock_has_holder_def lock_remove_holder_def lock_no_holders_def lock_no_waiters_def lock_transfer_helper_def
      ASSERT_def sizeof_wqe_def send_post_defs Let_def)

theorem poll_refines_net_receive_witness:
  "\<exists>s1 q m' c'. net_receive default_build (send_post_release 2 5 2 9) (put_lock example_host 1 waited_agent) = Inr (s1, [q]) \<and>
     poll_one (lock_dispatchers default_build) (1, received_release) ((put_lock example_host 1 waited_agent, []), example_core)
       = Inr ((s1, []), c') \<and> tx_queue c' = [m'] \<and>
     read_post (dpdk_mbuf_to_sendbuf m') = Some q \<and> unat (data_len m') = 64"
proof -
  obtain s1 q where n: "net_receive default_build (send_post_release 2 5 2 9) (put_lock example_host 1 waited_agent) = Inr (s1, [q])"
    and q: "length (pkt_wq q) = 1" using waited_agent_transfer by blast
  have l: "length (post_bytes (send_post_release 2 5 2 9)) = 17" by (simp add: length_post_bytes send_post_defs)
  let ?s = "put_lock example_host 1 waited_agent"
  obtain n p1 o1 bufs c' where p: "[q] = o1 @ (if n = 0 then [] else [p1])"
    "lock_packet_dispatch default_build None ?s (send_post_release 2 5 2 9) = Inr (n, p1, s1, o1)"
    "poll_one (lock_dispatchers default_build) (1, received_release) ((?s, []), example_core) = Inr ((s1, [] @ o1), c')"
    "tx_queue c' = tx_queue example_core @ bufs"
    "list_all2 (\<lambda>m' q. read_post (dpdk_mbuf_to_sendbuf m') = Some q \<and> unat (data_len m') = 42 + length (post_bytes q))
       bufs (if n = 0 then [] else [p1])"
    using poll_refines_net_receive [OF n, of received_release "replicate 16 0" "[]" example_core] q l
    by (auto simp: packet_wf_def send_post_defs received_release_def length_post_bytes)
  have "n \<noteq> 0" using waited_agent_sends_back p(2) by auto
  then have "bufs = [hd bufs]" "q = p1" "o1 = []" using p(1,5) by (auto simp: list_all2_Cons2)
  then show ?thesis using n p q \<open>n \<noteq> 0\<close>
    by (intro exI [of _ s1] exI [of _ q] exI [of _ "hd bufs"] exI [of _ c'])
      (auto simp: list_all2_Cons2 length_post_bytes example_core_def)
qed

section \<open>Buffers of the readers of a transferred queue\<close>

lemma fill_posts_result:
  assumes "length gs \<le> length ms" and "\<forall>m \<in> set ms. 59 \<le> length (mb_data m)" and "\<forall>g \<in> set gs. pkt_wq g = []"
  shows "\<exists>bs. fill_posts (map Some ms) gs = Inr bs \<and> map mb_addr bs = map mb_addr (take (length gs) ms) \<and>
           (\<forall>b \<in> set bs. 59 \<le> length (mb_data b))"
  using assms
proof (induction ms arbitrary: gs)
  case (Cons m ms)
  show ?case
  proof (cases gs)
    case (Cons g gs')
    obtain b where b: "fill_post g m = Inr b" "mb_addr b = mb_addr m" "length (mb_data b) = length (mb_data m)"
      using fill_post_sendbuf [of g m] Cons.prems Cons by (auto simp: FRAME_HDR_SIZE_def length_post_bytes)
    from Cons.IH [of gs'] Cons.prems Cons obtain bs where "fill_posts (map Some ms) gs' = Inr bs"
      "map mb_addr bs = map mb_addr (take (length gs') ms)" "\<forall>b \<in> set bs. 59 \<le> length (mb_data b)" by auto
    with b Cons.prems Cons show ?thesis by auto
  qed simp
qed simp

lemma digest_grants:
  assumes "lock_digest_wq l wq = Inr (l1, grants)"
  shows "length grants = length (filter (\<lambda>w. wq_op w = LOCK_SHARED) wq) \<and> (\<forall>g \<in> set grants. pkt_wq g = []) \<and>
         length wq \<le> 1024"
  using assms by (auto simp: lock_digest_wq_def digest_loop_eq digest_grant_def DPDK_TX_BURST_SIZE_def split: if_splits)

lemma write_headers_all_ok:
  assumes "sz + 42 < 2 ^ 16" and "\<forall>m \<in> set ms. sz + 42 \<le> length (mb_data m)" and "length ms \<le> 1024"
  shows "\<exists>c'. net_send_batch acc ms sz c = Inr c'"
  using write_headers_all_frames [OF assms(1,2), of "tx_count c"] assms(3)
  by (auto simp: net_send_batch_def DPDK_TX_BURST_SIZE_def dpdk_send_batch_def Let_def)

text \<open>
  C39. The buffers of exclusive waiters leak. When the queue of a transferred shared lock is
  taken over, a buffer is allocated for every waiter, but only those for the grants of the
  readers are sent; the buffers for the other waiters are neither used nor freed.
\<close>

theorem digest_leaks_buffers:
  assumes "outstanding K c" and "lock_digest_wq l wq = Inr (l1, grants)"
    and "length ms = length wq" and "\<forall>m \<in> set ms. 59 \<le> length (mb_data m)" and "acc \<le> length grants"
  shows "\<exists>c' (leaked :: mbuf list). digest_send (Some ms) acc (length wq) grants c = Inr c' \<and>
           outstanding (K + mset (map mb_addr leaked)) c' \<and>
           length leaked = length (filter (\<lambda>w. wq_op w \<noteq> LOCK_SHARED) wq)"
proof -
  note g = digest_grants [OF assms(2)]
  have "length grants \<le> length ms" using g assms(3) by simp
  with fill_posts_result [of grants ms] g assms(4) obtain bs where bs: "fill_posts (map Some ms) grants = Inr bs"
    "map mb_addr bs = map mb_addr (take (length grants) ms)" "\<forall>b \<in> set bs. 59 \<le> length (mb_data b)" by auto
  have lb: "length bs = length grants" using arg_cong [OF bs(2), of length] \<open>length grants \<le> length ms\<close> by simp
  let ?c = "c\<lparr>taken := taken c @ map mb_addr ms\<rparr>"
  obtain c' where c': "net_send_batch acc bs 17 ?c = Inr c'"
    using write_headers_all_ok [of 17 bs acc ?c] bs(3) lb g \<open>length grants \<le> length ms\<close> assms(3) by auto
  have acc: "acc \<le> length bs" using assms(5) lb by simp
  let ?d = "drop (length grants) ms"
  have ms: "mset (map mb_addr ms) = mset (map mb_addr bs) + mset (map mb_addr ?d)"
    unfolding bs(2) by (metis append_take_drop_id map_append mset_append)
  have "outstanding (K + mset (map mb_addr ?d)) c'"
    using net_send_batch_accounts [OF acc c'] assms(1) ms by (simp add: outstanding_def)
  moreover have "digest_send (Some ms) acc (length wq) grants c = Inr c'"
    using c' bs(1) assms(3) by (simp add: digest_send_def dpdk_get_mbuf_bulk_def POST_HDR_SIZE_def
        sizeof_post_header_def sizeof_lock_post_header_def)
  moreover have "length ?d = length (filter (\<lambda>w. wq_op w \<noteq> LOCK_SHARED) wq)"
    using g assms(3) sum_length_filter_compl [of "\<lambda>w. wq_op w = LOCK_SHARED" wq] by simp
  ultimately show ?thesis by blast
qed

theorem digest_leaks_buffers_witness:
  "\<exists>l1 grants c' (leaked :: mbuf list).
     lock_digest_wq (new_lock 5 5) [mk_wqe LOCK_SHARED 3 1, mk_wqe LOCK_EXCL 4 2] = Inr (l1, grants) \<and>
     digest_send (Some [example_mbuf, example_mbuf\<lparr>mb_addr := 8\<rparr>]) 1 2 grants example_core = Inr c' \<and>
     outstanding ({#7#} + mset (map mb_addr leaked)) c' \<and> length leaked = 1"
proof -
  let ?wq = "[mk_wqe LOCK_SHARED 3 1, mk_wqe LOCK_EXCL 4 2]"
  obtain l1 grants where g: "lock_digest_wq (new_lock 5 5) ?wq = Inr (l1, grants)"
    by (simp add: lock_digest_wq_def digest_loop_eq DPDK_TX_BURST_SIZE_def)
  have k: "outstanding {#7#} example_core" by (simp add: outstanding_def handed_over_def example_core_def)
  show ?thesis using digest_leaks_buffers [OF k g, of "[example_mbuf, example_mbuf\<lparr>mb_addr := 8\<rparr>]" 1] g digest_grants [OF g]
    by (auto simp: example_mbuf_def numeral_2_eq_2)
qed

end
