(* ===== verification/Hash_Map.thy ===== *)
theory Hash_Map
  imports Fiss_Prelude
begin

text \<open>
  The operations that the sources use of \<open>std::unordered_map\<close>, on association lists. A loop
  over a hash map visits the entries in an order that the library does not fix; here it is
  the order of insertion, and no theorem depends on it.
\<close>

section \<open>Operations\<close>

definition emplace :: "'k \<Rightarrow> 'v \<Rightarrow> ('k \<times> 'v) list \<Rightarrow> ('k \<times> 'v) list" where
  "emplace k v m = (if map_of m k = None then m @ [(k, v)] else m)"

definition subscript :: "'v \<Rightarrow> 'k \<Rightarrow> ('k \<times> 'v) list \<Rightarrow> 'v \<times> ('k \<times> 'v) list" where
  "subscript d k m = (case map_of m k of Some v \<Rightarrow> (v, m) | None \<Rightarrow> (d, m @ [(k, d)]))"

definition assign :: "'k \<Rightarrow> 'v \<Rightarrow> ('k \<times> 'v) list \<Rightarrow> ('k \<times> 'v) list" where
  "assign k v m = map (\<lambda>(k', v'). if k' = k then (k', v) else (k', v')) m"

definition store :: "'k \<Rightarrow> 'v \<Rightarrow> ('k \<times> 'v) list \<Rightarrow> ('k \<times> 'v) list" where
  "store k v m = (if map_of m k = None then m @ [(k, v)] else assign k v m)"

definition erase_key :: "'k \<Rightarrow> ('k \<times> 'v) list \<Rightarrow> ('k \<times> 'v) list" where
  "erase_key k m = filter (\<lambda>(k', _). k' \<noteq> k) m"

text \<open>\<open>insert\<close> of a range: each entry whose key is not in the map yet.\<close>

definition insert_range :: "('k \<times> 'v) list \<Rightarrow> ('k \<times> 'v) list \<Rightarrow> ('k \<times> 'v) list" where
  "insert_range r m = fold (\<lambda>(k, v). emplace k v) r m"

section \<open>Laws\<close>

lemma emplace_cases: "emplace k v m = m \<or> emplace k v m = m @ [(k, v)]"
  by (simp add: emplace_def)

lemma emplace_present: "map_of m k \<noteq> None \<Longrightarrow> emplace k v m = m"
  by (simp add: emplace_def)

lemma map_of_emplace:
  "map_of (emplace k v m) k' = (if k' = k \<and> map_of m k = None then Some v else map_of m k')"
  by (auto simp: emplace_def map_add_def split: option.splits)

lemma map_fst_assign [simp]: "map fst (assign k v m) = map fst m"
  by (induction m) (auto simp: assign_def)

lemma map_of_assign: "map_of (assign k v m) k' = (if k' = k \<and> map_of m k \<noteq> None then Some v else map_of m k')"
  by (induction m) (auto simp: assign_def)

lemma map_of_store: "map_of (store k v m) k' = (if k' = k then Some v else map_of m k')"
  by (auto simp: store_def map_of_assign map_add_def split: option.splits)

lemma map_of_insert_range:
  "map_of (insert_range r m) k = (case map_of m k of Some v \<Rightarrow> Some v | None \<Rightarrow> map_of r k)"
  unfolding insert_range_def
proof (induction r arbitrary: m)
  case Nil
  then show ?case by (simp split: option.splits)
next
  case (Cons x r)
  then show ?case by (cases x) (simp add: map_of_emplace split: option.splits)
qed

text \<open>Every key once: kept by all operations.\<close>

definition keys_once :: "('k \<times> 'v) list \<Rightarrow> bool" where
  "keys_once m \<longleftrightarrow> distinct (map fst m)"

lemma keys_once_Nil [simp, intro]: "keys_once []"
  by (simp add: keys_once_def)

lemma keys_once_emplace [intro]: "keys_once m \<Longrightarrow> keys_once (emplace k v m)"
  by (auto simp: keys_once_def emplace_def map_of_eq_None_iff)

lemma keys_once_store [intro]: "keys_once m \<Longrightarrow> keys_once (store k v m)"
  by (auto simp: keys_once_def store_def map_of_eq_None_iff)

lemma keys_once_insert_range [intro]: "keys_once m \<Longrightarrow> keys_once (insert_range r m)"
  unfolding insert_range_def by (induction r arbitrary: m) auto

lemma keys_once_lookup: "keys_once m \<Longrightarrow> (k, v) \<in> set m \<longleftrightarrow> map_of m k = Some v"
  by (simp add: keys_once_def)

end
