(* ===== verification/Statistics.thy ===== *)
theory Statistics
  imports Hash_Map Fiss_Types
begin

text \<open>
  The statistics module (utils/statistics.cc): time stamps of locks and transactions, kept
  for each core, the log that \<open>report_timer\<close> prints, counters, and the sizes of the lock
  queues. A point in time is a number of nanoseconds; the clock is an argument of the
  operations that read it, and so is the core that calls. The default configuration is
  modelled: counters are on and latencies are precise. The reports of throughput and the
  profiler, which only print floating point numbers, are left out.
\<close>

section \<open>Time stamps\<close>

definition DPDK_LCORE_NUM :: nat where "DPDK_LCORE_NUM = 12"

datatype timer_name =
    T_acquire | T_acquire_sent | T_grant_begin | T_grant_w_agent | T_grant_wo_agent | T_grant_local
  | T_grant_tx | T_release | T_release_sent | T_release_local | T_schedule_start | T_schedule_end
  | T_handle_acquire_begin | T_handle_acquire_end | T_queue_start | T_queue_end
  | T_secondary_begin | T_secondary_end | T_switch_direct_grant

type_synonym time = int

record stats =
  timers :: "timer_name \<Rightarrow> nat \<Rightarrow> (lktsk \<times> time) list"
  burst_time :: "nat \<Rightarrow> time"
  start_time :: u64
  txn_begin_time :: "nat \<Rightarrow> (u32 \<times> time) list"
  txn_end_time :: "nat \<Rightarrow> (u32 \<times> time) list"
  txn_type_map :: "nat \<Rightarrow> (u32 \<times> u32) list"
  schedule_pair :: "nat \<Rightarrow> (lktsk \<times> lktsk) list"
  txn_lock_map :: "u32 \<Rightarrow> u32 list"

definition initial_stats :: stats where
  "initial_stats =
     \<lparr>timers = (\<lambda>_ _. []), burst_time = (\<lambda>_. 0), start_time = 0, txn_begin_time = (\<lambda>_. []),
      txn_end_time = (\<lambda>_. []), txn_type_map = (\<lambda>_. []), schedule_pair = (\<lambda>_. []), txn_lock_map = (\<lambda>_. [])\<rparr>"

definition upd_timer ::
  "timer_name \<Rightarrow> nat \<Rightarrow> ((lktsk \<times> time) list \<Rightarrow> (lktsk \<times> time) list) \<Rightarrow> stats \<Rightarrow> stats" where
  "upd_timer n core f s = s\<lparr>timers := (timers s)(n := (timers s n)(core := f (timers s n core)))\<rparr>"

text \<open>The two functions that \<open>timer_define\<close> makes for each name.\<close>

definition timer_record :: "timer_name \<Rightarrow> nat \<Rightarrow> time \<Rightarrow> lock_id \<Rightarrow> task_id \<Rightarrow> stats \<Rightarrow> stats" where
  "timer_record n core now lock task s = upd_timer n core (emplace (LKTSK lock task) now) s"

definition timer_since_burst :: "timer_name \<Rightarrow> nat \<Rightarrow> lock_id \<Rightarrow> task_id \<Rightarrow> stats \<Rightarrow> stats" where
  "timer_since_burst n core lock task s = upd_timer n core (emplace (LKTSK lock task) (burst_time s core)) s"

definition set_burst_time :: "nat \<Rightarrow> time \<Rightarrow> stats \<Rightarrow> stats" where
  "set_burst_time core now s = s\<lparr>burst_time := (burst_time s)(core := now)\<rparr>"

definition timer_start :: "time \<Rightarrow> stats \<Rightarrow> stats" where
  "timer_start now s = s\<lparr>start_time := word_of_int now\<rparr>"

definition timer_now :: "time \<Rightarrow> stats \<Rightarrow> u64" where
  "timer_now now s = word_of_int now - start_time s"

definition timer_txn_begin :: "nat \<Rightarrow> time \<Rightarrow> u32 \<Rightarrow> u32 \<Rightarrow> stats \<Rightarrow> stats" where
  "timer_txn_begin core now txn ty s =
     s\<lparr>txn_begin_time := (txn_begin_time s)(core := emplace txn now (txn_begin_time s core)),
       txn_type_map := (txn_type_map s)(core := emplace txn ty (txn_type_map s core))\<rparr>"

definition timer_txn_end :: "nat \<Rightarrow> time \<Rightarrow> u32 \<Rightarrow> stats \<Rightarrow> stats" where
  "timer_txn_end core now txn s =
     s\<lparr>txn_end_time := (txn_end_time s)(core := emplace txn now (txn_end_time s core))\<rparr>"

definition timer_schedule_from_to ::
  "nat \<Rightarrow> time \<Rightarrow> lock_id \<Rightarrow> task_id \<Rightarrow> task_id \<Rightarrow> stats \<Rightarrow> stats" where
  "timer_schedule_from_to core now lk from_task to_task s =
     (upd_timer T_schedule_end core (store (LKTSK lk to_task) now) s)
       \<lparr>schedule_pair := (schedule_pair s)(core := store (LKTSK lk to_task) (LKTSK lk from_task) (schedule_pair s core))\<rparr>"

definition add_txn_lock_map :: "u32 \<Rightarrow> u32 \<Rightarrow> stats \<Rightarrow> stats" where
  "add_txn_lock_map txn lock s = s\<lparr>txn_lock_map := (txn_lock_map s)(txn := txn_lock_map s txn @ [lock])\<rparr>"

section \<open>The log\<close>

text \<open>
  The lines of the log: of a lock and a task, the same with host and core, of a lock that
  goes from one task to another, and of a transaction.
\<close>

datatype log_line =
    Lock_line lktsk int string
  | Host_line lktsk int string nat nat
  | From_line lktsk lktsk int string
  | Txn_line u32 u32 int string

text \<open>A latency is a signed number of 64 bits.\<close>

definition latency :: "time \<Rightarrow> time \<Rightarrow> int" where
  "latency beg fin = signed_take_bit 63 (fin - beg)"

definition timer_merge :: "(nat \<Rightarrow> ('k \<times> 'v) list) \<Rightarrow> nat \<Rightarrow> ('k \<times> 'v) list" where
  "timer_merge m = m(0 := fold (\<lambda>core. insert_range (m core)) [1..<DPDK_LCORE_NUM] (m 0))"

definition merge_timers :: "stats \<Rightarrow> stats" where
  "merge_timers s =
     s\<lparr>timers := (\<lambda>n. if n \<in> {T_handle_acquire_begin, T_handle_acquire_end} then timers s n else timer_merge (timers s n)),
       txn_begin_time := timer_merge (txn_begin_time s), txn_end_time := timer_merge (txn_end_time s),
       schedule_pair := timer_merge (schedule_pair s), txn_type_map := timer_merge (txn_type_map s)\<rparr>"

text \<open>\<open>t(lktsk, name)\<close>: the time stamp after merging.\<close>

definition stamp :: "stats \<Rightarrow> timer_name \<Rightarrow> lktsk \<Rightarrow> time option" where
  "stamp s n k = map_of (timers s n 0) k"

text \<open>A report: a failed assertion in one part is a failure of the whole.\<close>

fun gather :: "('a \<Rightarrow> fl_error + log_line list) \<Rightarrow> 'a list \<Rightarrow> fl_error + log_line list" where
  "gather f [] = Inr []"
| "gather f (x # xs) =
     (case f x of Inl e \<Rightarrow> Inl e
      | Inr l \<Rightarrow> (case gather f xs of Inl e \<Rightarrow> Inl e | Inr ls \<Rightarrow> Inr (l @ ls)))"

definition handle_lines :: "nat \<Rightarrow> stats \<Rightarrow> log_line list" where
  "handle_lines me s =
     concat (map (\<lambda>core. concat (map (\<lambda>(k, hab).
       case map_of (timers s T_handle_acquire_end core) k of
         None \<Rightarrow> [] | Some hae \<Rightarrow> [Host_line k (latency hab hae) ''h'' me core])
       (timers s T_handle_acquire_begin core))) [0..<DPDK_LCORE_NUM])"

text \<open>When a request was granted: the first of the four time stamps that exists, and its label.\<close>

definition grant_stamp :: "stats \<Rightarrow> lktsk \<Rightarrow> (time \<times> string) option" where
  "grant_stamp s k =
     (case stamp s T_grant_local k of Some g \<Rightarrow> Some (g, ''gl'')
      | None \<Rightarrow> (case stamp s T_grant_w_agent k of Some g \<Rightarrow> Some (g, ''gw'')
      | None \<Rightarrow> (case stamp s T_grant_wo_agent k of Some g \<Rightarrow> Some (g, ''gn'')
      | None \<Rightarrow> (case stamp s T_switch_direct_grant k of Some g \<Rightarrow> Some (g, ''gs'') | None \<Rightarrow> None))))"

definition grant_lines :: "stats \<Rightarrow> lktsk \<times> time \<Rightarrow> fl_error + log_line list" where
  "grant_lines s = (\<lambda>(k, at).
     (case stamp s T_grant_begin k of
        None \<Rightarrow> Inr []
      | Some gbt \<Rightarrow>
          (case grant_stamp s k of
             None \<Rightarrow> Inl Assertion_failed
           | Some (g, label) \<Rightarrow> Inr [Lock_line k (latency gbt g) label, Lock_line k (latency at g) ''ge''])))"

definition release_lines :: "stats \<Rightarrow> lktsk \<Rightarrow> fl_error + log_line list" where
  "release_lines s k =
     (case stamp s T_release k of
        None \<Rightarrow> Inr []
      | Some rt \<Rightarrow>
          (case stamp s T_release_sent k of Some rst \<Rightarrow> Inr [Lock_line k (latency rt rst) ''r'']
           | None \<Rightarrow> (case stamp s T_release_local k of Some rlt \<Rightarrow> Inr [Lock_line k (latency rt rlt) ''rl'']
           | None \<Rightarrow> Inl Assertion_failed)))"

definition acquire_lines :: "stats \<Rightarrow> lktsk \<times> time \<Rightarrow> fl_error + log_line list" where
  "acquire_lines s x =
     (case x of (k, at) \<Rightarrow>
     (case stamp s T_acquire_sent k of
        None \<Rightarrow> Inl Assertion_failed
      | Some ast \<Rightarrow>
          (case grant_lines s (k, at) of
             Inl e \<Rightarrow> Inl e
           | Inr gs \<Rightarrow>
               (case release_lines s k of
                  Inl e \<Rightarrow> Inl e
                | Inr rs \<Rightarrow> Inr (Lock_line k (latency at ast) ''a'' # gs @ rs)))))"

definition schedule_lines :: "stats \<Rightarrow> lktsk \<times> time \<Rightarrow> fl_error + log_line list" where
  "schedule_lines s = (\<lambda>(k, set).
     (let from = (case map_of (schedule_pair s 0) k of Some f \<Rightarrow> f | None \<Rightarrow> 0) in
      (case stamp s T_schedule_start from of
         None \<Rightarrow> Inl Assertion_failed
       | Some sst \<Rightarrow> Inr [From_line k from (latency sst set) ''s''])))"

text \<open>The time between a grant and the moment the transaction sees it, for one lock.\<close>

definition grant_delay :: "stats \<Rightarrow> lktsk \<Rightarrow> int" where
  "grant_delay s k =
     (case stamp s T_grant_tx k of
        None \<Rightarrow> 0
      | Some tx \<Rightarrow>
          (case stamp s T_grant_w_agent k of Some g \<Rightarrow> latency g tx
           | None \<Rightarrow> (case stamp s T_grant_wo_agent k of Some g \<Rightarrow> latency g tx
           | None \<Rightarrow> (case stamp s T_grant_local k of Some g \<Rightarrow> latency g tx | None \<Rightarrow> 0))))"

text \<open>\<open>extra_time\<close> is unsigned and printed as signed.\<close>

definition txn_lines :: "stats \<Rightarrow> u32 \<times> time \<Rightarrow> fl_error + log_line list" where
  "txn_lines s = (\<lambda>(txn, tbt).
     (case map_of (txn_type_map s 0) txn of
        None \<Rightarrow> Inl Assertion_failed
      | Some ty \<Rightarrow>
          (case map_of (txn_end_time s 0) txn of
             None \<Rightarrow> Inr []
           | Some tet \<Rightarrow>
               (let extra = (fold (\<lambda>l e. e + word_of_int (grant_delay s (LKTSK l txn))) (txn_lock_map s txn) 0 :: u64)
                in Inr [Txn_line txn ty (sint extra) ''et'',
                        Txn_line txn ty (sint (word_of_int (latency tbt tet) - extra)) ''t'']))))"

definition report_timer :: "nat \<Rightarrow> stats \<Rightarrow> fl_error + log_line list" where
  "report_timer me s0 =
     (let s = merge_timers s0 in
      (case gather (acquire_lines s) (timers s T_acquire 0) of Inl e \<Rightarrow> Inl e
       | Inr a \<Rightarrow> (case gather (schedule_lines s) (timers s T_schedule_end 0) of Inl e \<Rightarrow> Inl e
       | Inr sc \<Rightarrow> (case gather (txn_lines s) (txn_begin_time s 0) of Inl e \<Rightarrow> Inl e
       | Inr t \<Rightarrow> Inr (handle_lines me s @ a @ sc @ t)))))"

section \<open>Counters and queue sizes\<close>

text \<open>One counter: a 32-bit number for each core.\<close>

definition count_inc :: "nat \<Rightarrow> (nat \<Rightarrow> u32) \<Rightarrow> nat \<Rightarrow> u32" where
  "count_inc core c = c(core := c core + 1)"

definition multi_count :: "nat \<Rightarrow> int \<Rightarrow> (nat \<Rightarrow> u32) \<Rightarrow> nat \<Rightarrow> u32" where
  "multi_count core n c = c(core := c core + word_of_int n)"

definition counter_total :: "(nat \<Rightarrow> u32) \<Rightarrow> u32" where
  "counter_total c = fold (\<lambda>core ct. ct + c core) [0..<DPDK_LCORE_NUM] 0"

definition get_tx_count_lcore :: "(nat \<Rightarrow> u32) \<Rightarrow> nat \<Rightarrow> u32" where
  "get_tx_count_lcore tx core = tx core"

text \<open>The queue of a core: its size, and every size that it had after growing.\<close>

definition inc_lock_queue_size :: "int \<times> int list \<Rightarrow> int \<times> int list" where
  "inc_lock_queue_size q = (fst q + 1, snd q @ [fst q + 1])"

definition dec_lock_queue_size :: "int \<times> int list \<Rightarrow> int \<times> int list" where
  "dec_lock_queue_size q = (fst q - 1, snd q)"

definition report_lock_queue_size :: "int \<times> int list \<Rightarrow> int" where
  "report_lock_queue_size q = fold (\<lambda>s m. max m s) (snd q) 0"

text \<open>\<open>delay\<close>: the readings of the clock until the time has passed.\<close>

fun delay :: "int \<Rightarrow> time \<Rightarrow> time list \<Rightarrow> time list option" where
  "delay nanosec start [] = None"
| "delay nanosec start (now # later) = (if nanosec \<le> now - start then Some later else delay nanosec start later)"

section \<open>Every run of the program keeps one time stamp for a key\<close>

datatype stat_call =
    Timer timer_name nat time lock_id task_id
  | Since_burst timer_name nat lock_id task_id
  | Burst nat time
  | Start time
  | Txn_begin nat time u32 u32
  | Txn_end nat time u32
  | Schedule nat time lock_id task_id task_id
  | Txn_lock u32 u32

fun stat_apply :: "stat_call \<Rightarrow> stats \<Rightarrow> stats" where
  "stat_apply (Timer n core now lock task) = timer_record n core now lock task"
| "stat_apply (Since_burst n core lock task) = timer_since_burst n core lock task"
| "stat_apply (Burst core now) = set_burst_time core now"
| "stat_apply (Start now) = timer_start now"
| "stat_apply (Txn_begin core now txn ty) = timer_txn_begin core now txn ty"
| "stat_apply (Txn_end core now txn) = timer_txn_end core now txn"
| "stat_apply (Schedule core now lk f t) = timer_schedule_from_to core now lk f t"
| "stat_apply (Txn_lock txn lock) = add_txn_lock_map txn lock"

definition stat_run :: "stat_call list \<Rightarrow> stats" where
  "stat_run cs = fold stat_apply cs initial_stats"

definition stats_wf :: "stats \<Rightarrow> bool" where
  "stats_wf s \<longleftrightarrow> (\<forall>n core. keys_once (timers s n core))"

lemma stats_wf_upd_timer:
  "stats_wf s \<Longrightarrow> (\<And>m. keys_once m \<Longrightarrow> keys_once (f m)) \<Longrightarrow> stats_wf (upd_timer n core f s)"
  by (simp add: stats_wf_def upd_timer_def)

lemma stats_wf_apply: "stats_wf s \<Longrightarrow> stats_wf (stat_apply c s)"
proof (cases c)
  case (Schedule core now lk f t)
  assume "stats_wf s"
  then have "stats_wf (upd_timer T_schedule_end core (store (LKTSK lk t) now) s)"
    by (rule stats_wf_upd_timer) auto
  then show ?thesis using Schedule by (simp add: timer_schedule_from_to_def stats_wf_def)
qed (auto simp: timer_record_def timer_since_burst_def intro: stats_wf_upd_timer,
  auto simp: stats_wf_def set_burst_time_def timer_start_def timer_txn_begin_def timer_txn_end_def add_txn_lock_map_def)

lemma stats_wf_run: "stats_wf (stat_run cs)"
proof -
  have "stats_wf s \<Longrightarrow> stats_wf (fold stat_apply cs s)" for s
    by (induction cs arbitrary: s) (auto intro: stats_wf_apply)
  then show ?thesis by (simp add: stat_run_def stats_wf_def initial_stats_def)
qed

lemma keys_once_timer_merge: "keys_once (m 0) \<Longrightarrow> keys_once (timer_merge m 0)"
proof -
  have "keys_once a \<Longrightarrow> keys_once (fold (\<lambda>core. insert_range (m core)) cs a)" for cs a
    by (induction cs arbitrary: a) auto
  then show "keys_once (m 0) \<Longrightarrow> ?thesis" by (simp add: timer_merge_def)
qed

lemma keys_once_merged: "stats_wf s \<Longrightarrow> keys_once (timers (merge_timers s) n 0)"
  by (auto simp: merge_timers_def stats_wf_def intro: keys_once_timer_merge)

lemma gather_Inr:
  "gather f xs = Inr ls \<Longrightarrow> \<exists>lss. ls = concat lss \<and> list_all2 (\<lambda>x l. f x = Inr l) xs lss"
proof (induction xs arbitrary: ls)
  case (Cons x xs)
  then obtain l ls' where l: "f x = Inr l" "gather f xs = Inr ls'" "ls = l @ ls'" by (auto split: sum.splits)
  from Cons.IH [OF l(2)] obtain lss where "ls' = concat lss" "list_all2 (\<lambda>x l. f x = Inr l) xs lss" by blast
  with l show ?case by (auto intro!: exI [of _ "l # lss"])
qed simp

lemma fold_add_word:
  "fold (\<lambda>x a. a + f x) xs (a :: 'w :: len word) = a + sum_list (map f xs)"
  by (induction xs arbitrary: a) (auto simp: algebra_simps)

text \<open>
  The total that is reported for a counter is the number of times it was counted, on all
  cores together, modulo \<open>2 ^ 32\<close>.
\<close>

theorem counter_total_counts:
  assumes "\<forall>c \<in> set cores. c < DPDK_LCORE_NUM"
  shows "counter_total (fold count_inc cores (\<lambda>_. 0)) = of_nat (length cores)"
proof -
  have step: "counter_total (count_inc c f) = counter_total f + 1" if "c < DPDK_LCORE_NUM" for c f
  proof -
    have "(\<Sum>core\<leftarrow>[0..<n]. if core = c then f c + 1 else f core) = sum_list (map f [0..<n]) + (if c < n then 1 else 0)" for n
      by (induction n) auto
    with that show ?thesis by (simp add: counter_total_def count_inc_def fold_add_word)
  qed
  have "counter_total (fold count_inc cores f) = counter_total f + of_nat (length cores)" for f
    using assms by (induction cores arbitrary: f) (auto simp: step algebra_simps)
  then show ?thesis by (simp add: counter_total_def fold_add_word)
qed

theorem counter_total_counts_witness:
  "counter_total (fold count_inc [0, 11, 3, 11] (\<lambda>_. 0)) = 4"
  using counter_total_counts [of "[0, 11, 3, 11]"] by (simp add: DPDK_LCORE_NUM_def)

end
