(* ===== verification/Number_Text.thy ===== *)
theory Number_Text
  imports Main
begin

text \<open>
  Numbers as text, as \<open>printf\<close> writes them and \<open>sscanf\<close> reads them: digits of a base up to
  16, the longest prefix of digits, and white space. A sign before an unsigned number or a prefix
  \<open>0x\<close> that \<open>sscanf\<close> would accept is left out; the files that the program reads are written
  without them. The main law: a number is read as it was printed, up to what follows it.
\<close>

section \<open>Numbers as text\<close>

definition digit_char :: "nat \<Rightarrow> char" where
  "digit_char d = char_of (if d < 10 then 48 + d else 87 + d)"

definition digit_val :: "char \<Rightarrow> nat" where
  "digit_val c =
     (let n = of_char c :: nat in
      if 48 \<le> n \<and> n \<le> 57 then n - 48
      else if 97 \<le> n \<and> n \<le> 122 then n - 87
      else if 65 \<le> n \<and> n \<le> 90 then n - 55 else 255)"

definition is_digit :: "nat \<Rightarrow> char \<Rightarrow> bool" where
  "is_digit b c \<longleftrightarrow> digit_val c < b"

fun show_nat :: "nat \<Rightarrow> nat \<Rightarrow> string" where
  "show_nat b n = (if b < 2 \<or> n < b then [digit_char n] else show_nat b (n div b) @ [digit_char (n mod b)])"

declare show_nat.simps [simp del]

definition show_int :: "int \<Rightarrow> string" where
  "show_int i = (if i < 0 then CHR ''-'' # show_nat 10 (nat (- i)) else show_nat 10 (nat i))"

definition digits_value :: "nat \<Rightarrow> string \<Rightarrow> nat" where
  "digits_value b s = foldl (\<lambda>a c. a * b + digit_val c) 0 s"

definition is_space :: "char \<Rightarrow> bool" where
  "is_space c \<longleftrightarrow> (let n = of_char c :: nat in n = 32 \<or> 9 \<le> n \<and> n \<le> 13)"

definition scan_nat :: "nat \<Rightarrow> string \<Rightarrow> (nat \<times> string) option" where
  "scan_nat b s =
     (let ds = takeWhile (is_digit b) s in
      if ds = [] then None else Some (digits_value b ds, dropWhile (is_digit b) s))"

text \<open>\<open>%d\<close>: white space, a sign, and the digits that follow.\<close>

definition scan_int :: "string \<Rightarrow> (int \<times> string) option" where
  "scan_int s =
     (let s = dropWhile is_space s;
          neg = (s \<noteq> [] \<and> hd s = CHR ''-'');
          s = (if s \<noteq> [] \<and> (hd s = CHR ''-'' \<or> hd s = CHR ''+'') then tl s else s)
      in map_option (\<lambda>(n, r). (if neg then - int n else int n, r)) (scan_nat 10 s))"

text \<open>A comma in the format.\<close>

fun comma :: "string \<Rightarrow> string option" where
  "comma (c # s) = (if c = CHR '','' then Some s else None)"
| "comma [] = None"

section \<open>Numbers are read as they were printed\<close>

lemma digit_val_char: "d < 16 \<Longrightarrow> digit_val (digit_char d) = d"
  by (auto simp: digit_val_def digit_char_def Let_def)

lemma show_nat_digits:
  assumes "2 \<le> b" "b \<le> 16"
  shows "show_nat b n \<noteq> [] \<and> list_all (is_digit b) (show_nat b n) \<and> digits_value b (show_nat b n) = n"
proof (induction n rule: less_induct)
  case (less n)
  show ?case
  proof (cases "n < b")
    case True
    with assms show ?thesis
      by (simp add: show_nat.simps is_digit_def digits_value_def digit_val_char)
  next
    case False
    with assms have "n div b < n" by (intro div_less_dividend) auto
    note IH = less.IH [OF this]
    have m: "n mod b < b" using assms by simp
    have "show_nat b n = show_nat b (n div b) @ [digit_char (n mod b)]"
      using False assms by (simp add: show_nat.simps [of b n])
    moreover have "digit_val (digit_char (n mod b)) = n mod b" by (intro digit_val_char less_le_trans [OF m] assms(2))
    ultimately show ?thesis using IH m by (simp add: is_digit_def digits_value_def)
  qed
qed

lemma scan_nat_show:
  assumes "2 \<le> b" "b \<le> 16" "r = [] \<or> \<not> is_digit b (hd r)"
  shows "scan_nat b (show_nat b n @ r) = Some (n, r)"
proof -
  have d: "\<forall>c \<in> set (show_nat b n). is_digit b c" "show_nat b n \<noteq> []" "digits_value b (show_nat b n) = n"
    using show_nat_digits [OF assms(1,2)] by (auto simp: list_all_iff)
  have "takeWhile (is_digit b) r = []" "dropWhile (is_digit b) r = r" using assms(3) by (cases r; auto)+
  with d show ?thesis by (simp add: scan_nat_def)
qed

lemma digit_not_space: "is_digit 16 c \<Longrightarrow> \<not> is_space c"
  by (auto simp: is_digit_def digit_val_def is_space_def Let_def split: if_splits)

lemma show_nat_Cons:
  assumes "2 \<le> b" "b \<le> 16"
  obtains c s where "show_nat b n = c # s" "is_digit b c"
  using show_nat_digits [OF assms, of n] by (cases "show_nat b n") auto

lemma digit_10_16: "is_digit 10 c \<Longrightarrow> is_digit 16 c"
  by (simp add: is_digit_def)

lemma drop_space_show:
  assumes "2 \<le> b" "b \<le> 16"
  shows "dropWhile is_space (show_nat b n @ r) = show_nat b n @ r"
proof -
  obtain c s where cs: "show_nat b n = c # s" "is_digit b c" using assms by (rule show_nat_Cons)
  then have "is_digit 16 c" using assms by (simp add: is_digit_def)
  from digit_not_space [OF this] show ?thesis by (simp add: cs)
qed

lemma comma_not_digit: "\<not> is_digit 16 CHR '',''" "\<not> is_digit 10 CHR '',''"
  by (simp_all add: is_digit_def digit_val_def)

lemma scan_int_show:
  assumes "r = [] \<or> \<not> is_digit 10 (hd r)"
  shows "scan_int (show_int i @ r) = Some (i, r)"
proof (cases "i < 0")
  case True
  then show ?thesis using scan_nat_show [OF _ _ assms, of "nat (- i)"]
    by (simp add: scan_int_def show_int_def is_space_def Let_def)
next
  case False
  obtain c s where c: "show_nat 10 (nat i) = c # s" "is_digit 10 c" by (rule show_nat_Cons [of 10]) simp_all
  have "c \<noteq> CHR ''-''" "c \<noteq> CHR ''+''" using c(2) by (auto simp: is_digit_def digit_val_def)
  then show ?thesis using scan_nat_show [OF _ _ assms, of "nat i"] drop_space_show [of 10 "nat i" r] False c(1)
    by (simp add: scan_int_def show_int_def Let_def)
qed

end
