(* ===== verification/Dpdk_Setup.thy ===== *)
theory Dpdk_Setup
  imports Dpdk_Net Statistics Number_Text
begin

text \<open>
  Configuration of a host: the values it takes from the environment (utils/conf.c), the
  initialisation of the network port, with one receive queue and one transmission queue for
  each core, and the flow rules that spread packets over cores (utils/dpdk.c). What DPDK
  answers to a configuration call is an argument.
\<close>

section \<open>Environment (utils/conf.c)\<close>

record configurations =
  max_lock_num :: int
  conf_localhost_id :: host_id
  tx_core_num :: int
  rx_core_num :: int

text \<open>A number that the text begins with, as an \<open>int\<close>; 0 if there is none.\<close>

definition atoi :: "string \<Rightarrow> int" where
  "atoi s = (case scan_int s of None \<Rightarrow> 0 | Some (n, _) \<Rightarrow> n)"

definition LOAD_AND_CHECK_ENV :: "(string \<rightharpoonup> string) \<Rightarrow> string \<Rightarrow> fl_error + string" where
  "LOAD_AND_CHECK_ENV env v = (case env v of None \<Rightarrow> Inl Error_exit | Some s \<Rightarrow> Inr s)"

definition load_configurations :: "(string \<rightharpoonup> string) \<Rightarrow> int \<Rightarrow> int \<Rightarrow> fl_error + configurations" where
  "load_configurations env tx_num rx_num =
     (case LOAD_AND_CHECK_ENV env ''MAX_LOCK_NUM'' of
        Inl e \<Rightarrow> Inl e
      | Inr locks \<Rightarrow>
          (case LOAD_AND_CHECK_ENV env ''HOST_ID'' of
             Inl e \<Rightarrow> Inl e
           | Inr host \<Rightarrow>
               Inr \<lparr>max_lock_num = atoi locks, conf_localhost_id = of_int (atoi host),
                    tx_core_num = tx_num, rx_core_num = rx_num\<rparr>))"

section \<open>Port (utils/dpdk.c)\<close>

record lcore_configuration =
  rx_queue_id :: u32
  tx_queue_id :: u32

type_synonym lcore_conf = "nat \<Rightarrow> lcore_configuration"

record port_conf =
  rx_offloads :: u64
  tx_offloads :: u64
  rss_hf :: u64

text \<open>A network device: its answers to the calls of the initialisation.\<close>

record eth_device =
  dev_is_valid_port :: bool
  dev_info_get :: int
  tx_offload_capa :: u64
  flow_type_rss_offloads :: u64
  dev_configure :: "port_conf \<Rightarrow> int"
  dev_adjust_desc :: int
  rx_queue_setup :: "nat \<Rightarrow> u64 \<Rightarrow> int"
  tx_queue_setup :: "nat \<Rightarrow> u64 \<Rightarrow> int"
  dev_start :: int
  promiscuous_enable :: int

text \<open>The loop that gives the next queue to every enabled core.\<close>

fun assign_queues :: "(nat \<Rightarrow> bool) \<Rightarrow> nat list \<Rightarrow> u32 \<Rightarrow> u32 \<Rightarrow> lcore_conf \<Rightarrow> lcore_conf" where
  "assign_queues enabled [] rxq txq conf = conf"
| "assign_queues enabled (i # is) rxq txq conf =
     (if enabled i
      then assign_queues enabled is (rxq + 1) (txq + 1) (conf(i := \<lparr>rx_queue_id = rxq, tx_queue_id = txq\<rparr>))
      else assign_queues enabled is rxq txq conf)"

text \<open>The first negative answer of a queue setup, or 0.\<close>

fun setup_queues :: "(nat \<Rightarrow> int) \<Rightarrow> nat list \<Rightarrow> int" where
  "setup_queues answer [] = 0"
| "setup_queues answer (q # qs) = (if answer q < 0 then answer q else setup_queues answer qs)"

definition port_init ::
  "u64 \<Rightarrow> eth_device \<Rightarrow> (nat \<Rightarrow> bool) \<Rightarrow> port_conf \<Rightarrow> lcore_conf \<Rightarrow> int \<times> lcore_conf" where
  "port_init fast_free dev enabled pc conf =
     (if \<not> dev_is_valid_port dev then (- 1, conf)
      else if dev_info_get dev \<noteq> 0 then (dev_info_get dev, conf)
      else
        (let pc = (if tx_offload_capa dev AND fast_free \<noteq> 0 then pc\<lparr>tx_offloads := tx_offloads pc OR fast_free\<rparr> else pc);
             pc = pc\<lparr>rss_hf := rss_hf pc AND flow_type_rss_offloads dev\<rparr>;
             conf = assign_queues enabled [0..<DPDK_LCORE_NUM] 0 0 conf;
             rx = setup_queues (\<lambda>q. rx_queue_setup dev q (rx_offloads pc)) [0..<DPDK_LCORE_NUM];
             tx = setup_queues (\<lambda>q. tx_queue_setup dev q (tx_offloads pc)) [0..<DPDK_LCORE_NUM]
         in (if dev_configure dev pc \<noteq> 0 then dev_configure dev pc
             else if dev_adjust_desc dev \<noteq> 0 then dev_adjust_desc dev
             else if rx < 0 then rx
             else if tx < 0 then tx
             else if dev_start dev < 0 then dev_start dev
             else promiscuous_enable dev, conf)))"

text \<open>The initialisation of DPDK; only the first port is used. Without a port it also succeeds.\<close>

definition dpdk_setup ::
  "int \<Rightarrow> bool \<Rightarrow> u64 \<Rightarrow> (nat \<times> eth_device) list \<Rightarrow> (nat \<Rightarrow> bool) \<Rightarrow> port_conf \<Rightarrow> lcore_conf \<Rightarrow> fl_error + nat \<times> lcore_conf" where
  "dpdk_setup eal_init pool fast_free devs enabled port_conf_template conf =
     (if eal_init < 0 then Inl Error_exit
      else if \<not> pool then Inl Error_exit
      else case devs of
          [] \<Rightarrow> Inr (0, conf)
        | (portid, dev) # _ \<Rightarrow>
            (let (ret, conf) = port_init fast_free dev enabled port_conf_template conf in
             if ret \<noteq> 0 then Inl Error_exit else Inr (portid, conf)))"

text \<open>\<open>env_setup\<close>, without the recovery service, which is not configured.\<close>

definition env_setup ::
  "(string \<rightharpoonup> string) \<Rightarrow> int \<Rightarrow> int \<Rightarrow> (fl_error + nat \<times> lcore_conf) \<Rightarrow> fl_error + configurations \<times> nat \<times> lcore_conf" where
  "env_setup env tx_num rx_num dpdk =
     (case load_configurations env tx_num rx_num of
        Inl e \<Rightarrow> Inl e
      | Inr conf \<Rightarrow> (case dpdk of Inl e \<Rightarrow> Inl e | Inr d \<Rightarrow> Inr (conf, d)))"

section \<open>Flows (utils/dpdk.c)\<close>

record rss_flow =
  flow_dst_port :: u16
  flow_queue_num :: u32
  flow_queues :: "u16 list"

text \<open>The array of queues has a place for every core.\<close>

definition register_flow :: "(rss_flow \<Rightarrow> int) \<Rightarrow> u16 \<Rightarrow> int \<Rightarrow> int \<Rightarrow> fl_error + rss_flow" where
  "register_flow flow_validate udp_dst_port lcore_left lcore_right =
     (if int DPDK_LCORE_NUM < lcore_right - lcore_left + 1 then Inl Out_of_bounds
      else
        (let rx_core = fold (\<lambda>i q. q[nat (i - lcore_left) := of_int i]) [lcore_left..lcore_right]
                         (replicate DPDK_LCORE_NUM 0);
             f = \<lparr>flow_dst_port = udp_dst_port, flow_queue_num = of_int (lcore_right - lcore_left + 1),
                  flow_queues = rx_core\<rparr>
         in if flow_validate f = 0 then Inr f else Inl Error_exit))"

section \<open>Queues of cores\<close>

lemma assign_queues_eq:
  "distinct is \<Longrightarrow> assign_queues enabled is q q conf i =
     (if i \<in> set is \<and> enabled i
      then (let n = q + of_nat (length (filter enabled (takeWhile (\<lambda>j. j \<noteq> i) is)))
            in \<lparr>rx_queue_id = n, tx_queue_id = n\<rparr>)
      else conf i)"
  by (induction "is" arbitrary: q conf) (auto simp: Let_def add.commute add.left_commute)

lemma takeWhile_upt: "k < n \<Longrightarrow> takeWhile (\<lambda>j. j \<noteq> k) [0..<n] = [0..<k]"
proof -
  assume "k < n"
  then have "[0..<n] = [0..<k] @ k # [Suc k..<n]" by (metis upt_add_eq_append upt_conv_Cons le_add1 plus_nat.add_0 less_imp_le_nat le_add_diff_inverse)
  then show ?thesis by (simp only:) (subst takeWhile_append2; auto)
qed

lemma port_init_queue:
  assumes "port_init fast_free dev enabled pc conf = (0, conf')" and "k < DPDK_LCORE_NUM" and "enabled k"
  shows "rx_queue_id (conf' k) = of_nat (length (filter enabled [0..<k]))"
    and "tx_queue_id (conf' k) = of_nat (length (filter enabled [0..<k]))"
proof -
  have "conf' = assign_queues enabled [0..<DPDK_LCORE_NUM] 0 0 conf"
    using assms(1) by (auto simp: port_init_def Let_def split: if_splits)
  then show "rx_queue_id (conf' k) = of_nat (length (filter enabled [0..<k]))"
    "tx_queue_id (conf' k) = of_nat (length (filter enabled [0..<k]))"
    using assms(2,3) by (simp_all add: assign_queues_eq takeWhile_upt Let_def)
qed

lemma enabled_below_less:
  assumes "k < k'" and "enabled k"
  shows "length (filter enabled [0..<k]) < length (filter enabled [0..<k'])"
proof -
  have "[0..<k'] = [0..<k] @ k # [Suc k..<k']"
    using assms(1) by (metis upt_add_eq_append upt_conv_Cons le_add1 plus_nat.add_0 less_imp_le_nat le_add_diff_inverse)
  then show ?thesis using assms(2) by simp
qed

lemma enabled_below_le: "length (filter enabled [0..<k]) \<le> k"
  by (metis diff_zero length_filter_le length_upt)

lemma fill_range:
  "n \<le> length q \<Longrightarrow>
   fold (\<lambda>i q. q[nat (i - l) := of_int i]) [l..l + int n - 1] q = map (\<lambda>j. of_int (l + int j)) [0..<n] @ drop n q"
proof (induction n)
  case (Suc n)
  have "[l..l + int (Suc n) - 1] = [l..l + int n - 1] @ [l + int n]"
    using upto_rec2 [of l "l + int n"] by simp
  then show ?case using Suc by (simp add: list_update_append Cons_nth_drop_Suc [symmetric])
qed simp

text \<open>
  C29. After a successful initialisation every enabled core has queues of its own: different
  cores have different queues. A flow that is registered for a range of cores names the queues
  with the numbers of those cores. These are the queues that the cores poll exactly when no
  core with a smaller number is left out; otherwise another core, or none, polls them.
\<close>

theorem flow_reaches_its_cores:
  assumes "port_init fast_free dev enabled pc conf = (0, conf')"
    and "0 \<le> l" and "l \<le> r" and "r < 12" and "flow_validate = (\<lambda>_. 0)"
  shows "\<exists>f. register_flow flow_validate port l r = Inr f \<and>
           take (unat (flow_queue_num f)) (flow_queues f) = map of_int [l..r] \<and>
           (\<forall>k < 12. enabled k \<longrightarrow>
              (rx_queue_id (conf' k) = of_nat k \<longleftrightarrow> (\<forall>j < k. enabled j)) \<and>
              (\<forall>k' < 12. enabled k' \<and> rx_queue_id (conf' k') = rx_queue_id (conf' k) \<longrightarrow> k' = k))"
proof -
  let ?n = "nat (r - l + 1)"
  have n: "?n \<le> 12" "r = l + int ?n - 1" using assms(2-4) by auto
  let ?q = "fold (\<lambda>i q. q[nat (i - l) := of_int i]) [l..r] (replicate 12 (0 :: u16))"
  have q: "?q = map (\<lambda>j. of_int (l + int j)) [0..<?n] @ drop ?n (replicate 12 0)"
    using fill_range [of ?n "replicate 12 0" l] n by simp
  have m: "map (\<lambda>j. of_int (l + int j)) [0..<?n] = (map of_int [l..r] :: u16 list)"
    using n assms(3) by (intro nth_equalityI) auto
  have u: "unat (of_int (r - l + 1) :: u32) = ?n"
  proof -
    have "(of_int (r - l + 1) :: u32) = of_nat ?n" using assms(3) by simp
    then show ?thesis using unat_of_nat_u32 [of ?n] n by simp
  qed
  have f: "\<exists>f. register_flow flow_validate port l r = Inr f \<and>
           take (unat (flow_queue_num f)) (flow_queues f) = map of_int [l..r]"
    using n u q m assms(5) by (simp add: register_flow_def DPDK_LCORE_NUM_def Let_def)
  have rx: "rx_queue_id (conf' k) = of_nat (length (filter enabled [0..<k]))" if "k < 12" "enabled k" for k
    using port_init_queue(1) [OF assms(1)] that by (simp add: DPDK_LCORE_NUM_def)
  have e: "rx_queue_id (conf' k) = of_nat k \<longleftrightarrow> (\<forall>j < k. enabled j)" if "k < 12" "enabled k" for k
  proof -
    have "length (filter enabled [0..<k]) = k \<longleftrightarrow> (\<forall>j \<in> set [0..<k]. enabled j)"
      by (metis diff_zero filter_True length_filter_less length_upt nat_less_le)
    then show ?thesis using that enabled_below_le [of enabled k] by (simp add: rx u32_of_nat_inj Ball_def)
  qed
  have i: "k' = k" if "k < 12" "enabled k" "k' < 12" "enabled k'" "rx_queue_id (conf' k') = rx_queue_id (conf' k)" for k k'
    using that enabled_below_le [of enabled k] enabled_below_le [of enabled k'] enabled_below_less [of k k' enabled]
      enabled_below_less [of k' k enabled] by (auto simp: rx u32_of_nat_inj) (metis linorder_less_linear less_irrefl)
  from f e i show ?thesis by blast
qed

definition example_device :: eth_device where
  "example_device =
     \<lparr>dev_is_valid_port = True, dev_info_get = 0, tx_offload_capa = 0, flow_type_rss_offloads = 0,
      dev_configure = (\<lambda>_. 0), dev_adjust_desc = 0, rx_queue_setup = (\<lambda>_ _. 0), tx_queue_setup = (\<lambda>_ _. 0),
      dev_start = 0, promiscuous_enable = 0\<rparr>"

definition example_port :: "(nat \<Rightarrow> bool) \<Rightarrow> int \<times> lcore_conf" where
  "example_port enabled =
     port_init 0 example_device enabled \<lparr>rx_offloads = 0, tx_offloads = 0, rss_hf = 0\<rparr>
       (\<lambda>_. \<lparr>rx_queue_id = 0, tx_queue_id = 0\<rparr>)"

theorem flow_reaches_its_cores_witness:
  "(\<exists>conf'. example_port (\<lambda>k. k \<noteq> 0) = (0, conf') \<and> rx_queue_id (conf' 3) \<noteq> 3) \<and>
   (\<exists>conf'. example_port (\<lambda>k. True) = (0, conf') \<and> rx_queue_id (conf' 3) = 3)"
proof -
  have z: "setup_queues (\<lambda>q. 0) qs = 0" for qs by (induction qs) simp_all
  have p: "\<exists>conf'. example_port enabled = (0, conf')" for enabled
    by (simp add: example_port_def port_init_def example_device_def Let_def z)
  have q: "rx_queue_id (snd (example_port enabled) 3) = 3 \<longleftrightarrow> (\<forall>j < 3. enabled j)" if e: "enabled 3" for enabled
  proof -
    from p [of enabled] obtain conf' where c: "example_port enabled = (0, conf')" by blast
    from flow_reaches_its_cores [OF c [unfolded example_port_def], of 1 5 "\<lambda>_. 0" 20001]
    have "\<forall>k < 12. enabled k \<longrightarrow> (rx_queue_id (conf' k) = of_nat k \<longleftrightarrow> (\<forall>j < k. enabled j))" by auto
    from this [rule_format, of 3] e c show ?thesis by simp
  qed
  have "rx_queue_id (snd (example_port (\<lambda>k. k \<noteq> 0)) 3) \<noteq> 3" using q [of "\<lambda>k. k \<noteq> 0"] by auto
  moreover have "rx_queue_id (snd (example_port (\<lambda>k. True)) 3) = 3" using q [of "\<lambda>k. True"] by simp
  ultimately show ?thesis using p [of "\<lambda>k. k \<noteq> 0"] p [of "\<lambda>k. True"] by (metis snd_conv)
qed

end
