(* ===== verification/Par_Queue.thy ===== *)
theory Par_Queue
  imports Lock_Manager_Spec
begin

text \<open>
  The lock queue of the ParLock baseline (baseline/ParLock/lib/lock_queue.cc): one queue of
  requests per lock with two counters and a state. Each operation of \<open>LockTable\<close> is a
  function on the queue of the lock it is called for; the callers hold the mutex of that
  queue. The trace of queue lengths (utils/statistics.cc) is left out.
\<close>

section \<open>Definitions\<close>

text \<open>The two preprocessor symbols of utils/conf.h that select the queueing policy.\<close>

record par_build =
  PARLOCK_READER_FIRST :: bool
  PARLOCK_ENQUEUE_HOLDERS :: bool

definition par_default :: par_build where
  "par_default = \<lparr>PARLOCK_READER_FIRST = True, PARLOCK_ENQUEUE_HOLDERS = False\<rparr>"

definition par_fifo :: par_build where
  "par_fifo = \<lparr>PARLOCK_READER_FIRST = False, PARLOCK_ENQUEUE_HOLDERS = False\<rparr>"

record lock_queue_entry =
  le_op :: lock_state
  le_requester :: u32
  le_host :: u8

datatype par_state = STATE_FREE | STATE_SHARED | STATE_EXCLUSIVE

record lock_queue =
  request_queue :: "lock_queue_entry list"
  shared_counter :: int
  exclusive_counter :: int
  par_lock_state :: par_state

definition par_init_lock :: lock_queue where
  "par_init_lock =
     \<lparr>request_queue = [], shared_counter = 0, exclusive_counter = 0, par_lock_state = STATE_FREE\<rparr>"

definition set_lock_state :: "par_state \<Rightarrow> lock_queue \<Rightarrow> lock_queue" where
  "set_lock_state st q = q\<lparr>par_lock_state := st\<rparr>"

definition add_shared_counter :: "lock_queue \<Rightarrow> lock_queue" where
  "add_shared_counter q = q\<lparr>shared_counter := shared_counter q + 1\<rparr>"

definition sub_shared_counter :: "lock_queue \<Rightarrow> lock_queue" where
  "sub_shared_counter q = q\<lparr>shared_counter := shared_counter q - 1\<rparr>"

definition add_exclusive_counter :: "lock_queue \<Rightarrow> lock_queue" where
  "add_exclusive_counter q = q\<lparr>exclusive_counter := exclusive_counter q + 1\<rparr>"

definition sub_exclusive_counter :: "lock_queue \<Rightarrow> lock_queue" where
  "sub_exclusive_counter q = q\<lparr>exclusive_counter := exclusive_counter q - 1\<rparr>"

definition enqueue_request :: "lock_state \<Rightarrow> u8 \<Rightarrow> u32 \<Rightarrow> lock_queue \<Rightarrow> lock_queue" where
  "enqueue_request op host lh q =
     q\<lparr>request_queue := request_queue q @ [\<lparr>le_op = op, le_requester = lh, le_host = host\<rparr>]\<rparr>"

definition dequeue_request :: "lock_queue \<Rightarrow> lock_queue_entry option \<times> lock_queue" where
  "dequeue_request q =
     (case request_queue q of
        [] \<Rightarrow> (None, q)
      | e # es \<Rightarrow> (Some e, q\<lparr>request_queue := es\<rparr>))"

definition get_head_request :: "lock_queue \<Rightarrow> lock_queue_entry option" where
  "get_head_request q = (case request_queue q of [] \<Rightarrow> None | e # _ \<Rightarrow> Some e)"

definition is_entry :: "u32 \<Rightarrow> u8 \<Rightarrow> lock_state \<Rightarrow> lock_queue_entry \<Rightarrow> bool" where
  "is_entry requester host op e \<longleftrightarrow> le_host e = host \<and> le_requester e = requester \<and> le_op e = op"

text \<open>The loop of \<open>is_lock_holder\<close> over a queue whose head is not exclusive.\<close>

fun holder_loop :: "u32 \<Rightarrow> u8 \<Rightarrow> lock_state \<Rightarrow> lock_queue_entry list \<Rightarrow> bool" where
  "holder_loop requester host op [] = False"
| "holder_loop requester host op (e # es) =
     (if le_op e = LOCK_EXCL then False
      else if is_entry requester host op e then True
      else holder_loop requester host op es)"

definition is_lock_holder :: "u32 \<Rightarrow> u8 \<Rightarrow> lock_state \<Rightarrow> lock_queue \<Rightarrow> bool" where
  "is_lock_holder requester host op q =
     (case request_queue q of
        [] \<Rightarrow> False
      | e # es \<Rightarrow>
          (if le_op e = LOCK_EXCL then is_entry requester host op e
           else holder_loop requester host op (e # es)))"

fun head_shared_loop :: "lock_queue_entry list \<Rightarrow> lock_queue_entry list" where
  "head_shared_loop [] = []"
| "head_shared_loop (e # es) = (if le_op e = LOCK_SHARED then e # head_shared_loop es else [])"

definition get_head_shared_requests :: "lock_queue \<Rightarrow> lock_queue_entry list" where
  "get_head_shared_requests q = head_shared_loop (request_queue q)"

text \<open>
  The loop of \<open>dequeue_shared_requests\<close>. The iterator stands at index \<open>i\<close>, which is
  \<open>prev_idx + 1\<close>; erasing keeps the index, stepping increments it.
\<close>

function dequeue_shared_loop ::
  "nat \<Rightarrow> lock_queue_entry list \<Rightarrow> lock_queue_entry list \<Rightarrow> lock_queue_entry list \<times> lock_queue_entry list" where
  "dequeue_shared_loop i rq result =
     (if length rq \<le> i then (result, rq)
      else if le_op (rq ! i) = LOCK_SHARED then
        (let rq1 = take i rq @ drop (Suc i) rq; result1 = result @ [rq ! i] in
         if rq1 = [] then (result1, rq1) else dequeue_shared_loop i rq1 result1)
      else dequeue_shared_loop (Suc i) rq result)"
  by pat_completeness auto
termination by (relation "measure (\<lambda>(i, rq, result). length rq - i)") auto

declare dequeue_shared_loop.simps [simp del]

definition dequeue_shared_requests :: "lock_queue \<Rightarrow> lock_queue_entry list \<times> lock_queue" where
  "dequeue_shared_requests q =
     (let (result, rq) = dequeue_shared_loop 0 (request_queue q) []
      in (result, q\<lparr>request_queue := rq\<rparr>))"

definition get_shared_requests :: "lock_queue \<Rightarrow> lock_queue_entry list" where
  "get_shared_requests q = filter (\<lambda>e. le_op e = LOCK_SHARED) (request_queue q)"

definition erase_lock_request ::
  "par_build \<Rightarrow> u32 \<Rightarrow> u8 \<Rightarrow> lock_state \<Rightarrow> lock_queue \<Rightarrow> int \<times> lock_queue" where
  "erase_lock_request b requester host op q =
     (let hit = is_entry requester host op;
          q1 = q\<lparr>request_queue := erase_first hit (request_queue q)\<rparr> in
      if PARLOCK_READER_FIRST b \<and> PARLOCK_ENQUEUE_HOLDERS b then
        (case index_first hit (request_queue q) of
           None \<Rightarrow> (-1, q)
         | Some idx \<Rightarrow> (if op = LOCK_SHARED then 0 else int idx, q1))
      else
        (case index_first hit (request_queue q) of
           None \<Rightarrow> (0, q)
         | Some _ \<Rightarrow> (1, q1)))"

lemmas [par_defs] =
  set_lock_state_def add_shared_counter_def sub_shared_counter_def add_exclusive_counter_def
  sub_exclusive_counter_def enqueue_request_def dequeue_request_def get_head_request_def
  get_shared_requests_def

section \<open>Facts\<close>

lemma par_default_sel [simp]:
  "PARLOCK_READER_FIRST par_default" "\<not> PARLOCK_ENQUEUE_HOLDERS par_default"
  by (simp_all add: par_default_def)

lemma head_shared_loop_takeWhile: "head_shared_loop es = takeWhile (\<lambda>e. le_op e = LOCK_SHARED) es"
  by (induction es) simp_all

lemma dequeue_shared_loop_split:
  "dequeue_shared_loop (length pre) (pre @ rest) result =
     (result @ filter (\<lambda>e. le_op e = LOCK_SHARED) rest, pre @ filter (\<lambda>e. le_op e \<noteq> LOCK_SHARED) rest)"
proof (induction rest arbitrary: pre result)
  case Nil
  then show ?case by (simp add: dequeue_shared_loop.simps)
next
  case (Cons e rest)
  show ?case
  proof (cases "le_op e = LOCK_SHARED")
    case True
    then show ?thesis using Cons.IH [of pre "result @ [e]"]
      by (subst dequeue_shared_loop.simps) (auto simp: Let_def)
  next
    case False
    then show ?thesis using Cons.IH [of "pre @ [e]" result]
      by (subst dequeue_shared_loop.simps) (auto simp: nth_append)
  qed
qed

lemma dequeue_shared_loop_filter:
  "dequeue_shared_loop 0 rq [] =
     (filter (\<lambda>e. le_op e = LOCK_SHARED) rq, filter (\<lambda>e. le_op e \<noteq> LOCK_SHARED) rq)"
  using dequeue_shared_loop_split [of "[]" rq "[]"] by simp

text \<open>
  Dequeuing the shared requests of a ParLock queue, by erasing them one at a time while
  walking over the queue, splits the queue into its shared requests and the others, both in
  their order.
\<close>

theorem dequeue_shared_requests_partition:
  "dequeue_shared_requests q =
     (get_shared_requests q,
      q\<lparr>request_queue := filter (\<lambda>e. le_op e \<noteq> LOCK_SHARED) (request_queue q)\<rparr>)"
  by (simp add: dequeue_shared_requests_def get_shared_requests_def dequeue_shared_loop_filter)

end
