(* ===== verification/Par_Lock.thy ===== *)
theory Par_Lock
  imports Par_Queue
begin

text \<open>
  The handlers of the ParLock baseline (baseline/ParLock/lib): the server side for requests
  of other hosts (server.cc) and the client side for locks the local host serves
  (client.cc), each for both queueing policies. A handler runs on the queue of its lock with
  the mutex held. It returns the queue and what it sends: a signal to a local requester or a
  reply to another host. A call of \<open>ERROR\<close> ends the process.
\<close>

section \<open>Granting\<close>

datatype par_out =
    Signal u32
  | Reply u8 lock_state u32

type_synonym par_result = "fl_error + lock_queue \<times> par_out list"

text \<open>The grant of a queued request, to a local or to a remote waiter.\<close>

definition par_deliver :: "u8 \<Rightarrow> lock_queue_entry \<Rightarrow> par_out" where
  "par_deliver me e =
     (if le_host e = me then Signal (le_requester e)
      else Reply (le_host e) (le_op e) (le_requester e))"

text \<open>Grant the exclusive request at the head of the queue.\<close>

definition grant_next_exclusive :: "par_build \<Rightarrow> u8 \<Rightarrow> lock_queue_entry \<Rightarrow> lock_queue \<Rightarrow> par_result" where
  "grant_next_exclusive b me head q =
     (let q1 = set_lock_state STATE_EXCLUSIVE q;
          q2 = (if PARLOCK_ENQUEUE_HOLDERS b then q1 else snd (dequeue_request q1))
      in Inr (q2, [par_deliver me head]))"

text \<open>Grant all shared requests in the queue; each one increments the counter.\<close>

fun grant_shared_loop :: "u8 \<Rightarrow> lock_queue_entry list \<Rightarrow> lock_queue \<Rightarrow> par_out list \<Rightarrow> lock_queue \<times> par_out list" where
  "grant_shared_loop me [] q out = (q, out)"
| "grant_shared_loop me (e # es) q out =
     grant_shared_loop me es (add_shared_counter q) (out @ [par_deliver me e])"

definition grant_next_shared :: "par_build \<Rightarrow> u8 \<Rightarrow> lock_queue \<Rightarrow> par_result" where
  "grant_next_shared b me q =
     (let q1 = set_lock_state STATE_SHARED q;
          (shared_head, q2) = (if PARLOCK_ENQUEUE_HOLDERS b then (get_shared_requests q1, q1)
                               else dequeue_shared_requests q1)
      in Inr (grant_shared_loop me shared_head q2 []))"

section \<open>Server handlers (server.cc)\<close>

definition server_handle_exclusive_lock :: "par_build \<Rightarrow> u8 \<Rightarrow> u32 \<Rightarrow> lock_queue \<Rightarrow> par_result" where
  "server_handle_exclusive_lock b host lh q =
     (if PARLOCK_READER_FIRST b then
        (if par_lock_state q = STATE_FREE then
           (let q1 = set_lock_state STATE_EXCLUSIVE q;
                q2 = (if PARLOCK_ENQUEUE_HOLDERS b then enqueue_request LOCK_EXCL host lh q1 else q1)
            in Inr (q2, [Reply host LOCK_EXCL lh]))
         else Inr (enqueue_request LOCK_EXCL host lh q, []))
      else if shared_counter q = 0 \<and> exclusive_counter q = 0 then
        Inr (enqueue_request LOCK_EXCL host lh (add_exclusive_counter q), [Reply host LOCK_EXCL lh])
      else Inr (enqueue_request LOCK_EXCL host lh (add_exclusive_counter q), []))"

definition server_handle_shared_lock :: "par_build \<Rightarrow> u8 \<Rightarrow> u32 \<Rightarrow> lock_queue \<Rightarrow> par_result" where
  "server_handle_shared_lock b host lh q =
     (if PARLOCK_READER_FIRST b then
        (if par_lock_state q \<noteq> STATE_EXCLUSIVE then
           (let q1 = set_lock_state STATE_SHARED q;
                q2 = (if PARLOCK_ENQUEUE_HOLDERS b then enqueue_request LOCK_SHARED host lh q1 else q1)
            in Inr (add_shared_counter q2, [Reply host LOCK_SHARED lh]))
         else Inr (enqueue_request LOCK_SHARED host lh q, []))
      else
        (let q1 = add_shared_counter q in
         if exclusive_counter q1 = 0
         then Inr (enqueue_request LOCK_SHARED host lh q1, [Reply host LOCK_SHARED lh])
         else Inr (enqueue_request LOCK_SHARED host lh q1, [])))"

definition server_handle_exclusive_unlock :: "par_build \<Rightarrow> u8 \<Rightarrow> u8 \<Rightarrow> u32 \<Rightarrow> lock_queue \<Rightarrow> par_result" where
  "server_handle_exclusive_unlock b me host lh q =
     (if PARLOCK_READER_FIRST b then
        (let (ret, q1) = erase_lock_request b lh host LOCK_EXCL q in
         if par_lock_state q1 = STATE_EXCLUSIVE \<and> ret = 0 then
           (let q2 = set_lock_state STATE_FREE q1 in
            case get_head_request q2 of
              None \<Rightarrow> Inr (q2, [])
            | Some h \<Rightarrow>
                (if le_op h = LOCK_EXCL then grant_next_exclusive b me h q2
                 else if le_op h = LOCK_SHARED then grant_next_shared b me q2
                 else Inr (q2, [])))
         else Inr (q1, []))
      else
        (case get_head_request q of
           None \<Rightarrow> Inl Invalid_pointer
         | Some cur \<Rightarrow>
             (if le_requester cur \<noteq> lh then
                (let (ret, q1) = erase_lock_request b lh host LOCK_EXCL q
                 in Inr (if ret = 1 then sub_exclusive_counter q1 else q1, []))
              else
                (let q1 = sub_exclusive_counter (snd (dequeue_request q)) in
                 case get_head_request q1 of
                   None \<Rightarrow> Inr (q1, [])
                 | Some h \<Rightarrow>
                     (if le_op h = LOCK_EXCL then Inr (q1, [par_deliver me h])
                      else if le_op h = LOCK_SHARED
                      then Inr (q1, map (par_deliver me) (get_head_shared_requests q1))
                      else Inr (q1, []))))))"

definition server_handle_shared_unlock :: "par_build \<Rightarrow> u8 \<Rightarrow> u8 \<Rightarrow> u32 \<Rightarrow> lock_queue \<Rightarrow> par_result" where
  "server_handle_shared_unlock b me host lh q =
     (if PARLOCK_READER_FIRST b then
        (let (ret, q1) = erase_lock_request b lh host LOCK_SHARED q in
         if par_lock_state q1 = STATE_SHARED \<and> ret = 0 then
           (let q2 = sub_shared_counter q1 in
            if 0 < shared_counter q2 then Inr (q2, [])
            else
              (let q3 = set_lock_state STATE_FREE q2 in
               case get_head_request q3 of
                 None \<Rightarrow> Inr (q3, [])
               | Some h \<Rightarrow>
                   (if le_op h = LOCK_EXCL then grant_next_exclusive b me h q3
                    else if le_op h = LOCK_SHARED then Inl Error_exit
                    else Inr (q3, []))))
         else if par_lock_state q1 = STATE_SHARED then Inl Error_exit
         else Inr (q1, []))
      else
        (case get_head_request q of
           None \<Rightarrow> Inl Invalid_pointer
         | Some cur \<Rightarrow>
             (if le_requester cur \<noteq> lh then
                (let (ret, q1) = erase_lock_request b lh host LOCK_SHARED q
                 in Inr (if ret = 1 then sub_shared_counter q1 else q1, []))
              else
                (let q1 = sub_shared_counter (snd (dequeue_request q)) in
                 case get_head_request q1 of
                   None \<Rightarrow> Inr (q1, [])
                 | Some h \<Rightarrow>
                     (if le_op h = LOCK_EXCL then Inr (q1, [par_deliver me h]) else Inr (q1, []))))))"

section \<open>Client side of local locks (client.cc)\<close>

definition acquire_lock_local :: "par_build \<Rightarrow> u8 \<Rightarrow> u32 \<Rightarrow> lock_state \<Rightarrow> lock_queue \<Rightarrow> par_result" where
  "acquire_lock_local b me requester op q =
     (if PARLOCK_READER_FIRST b then
        (if op = LOCK_EXCL then
           (if par_lock_state q = STATE_FREE then
              (let q1 = set_lock_state STATE_EXCLUSIVE q;
                   q2 = (if PARLOCK_ENQUEUE_HOLDERS b then enqueue_request op me requester q1 else q1)
               in Inr (q2, [Signal requester]))
            else Inr (enqueue_request op me requester q, []))
         else if op = LOCK_SHARED then
           (if par_lock_state q \<noteq> STATE_EXCLUSIVE then
              (let q1 = set_lock_state STATE_SHARED q;
                   q2 = (if PARLOCK_ENQUEUE_HOLDERS b then enqueue_request op me requester q1 else q1)
               in Inr (add_shared_counter q2, [Signal requester]))
            else Inr (enqueue_request op me requester q, []))
         else Inr (q, []))
      else
        (if op = LOCK_EXCL then
           (if shared_counter q = 0 \<and> exclusive_counter q = 0
            then Inr (enqueue_request op me requester (add_exclusive_counter q), [Signal requester])
            else Inr (enqueue_request op me requester (add_exclusive_counter q), []))
         else if op = LOCK_SHARED then
           (if exclusive_counter q = 0
            then Inr (enqueue_request op me requester (add_shared_counter q), [Signal requester])
            else Inr (enqueue_request op me requester (add_shared_counter q), []))
         else Inr (q, [])))"

text \<open>The reader-first part of \<open>release_lock_local\<close>.\<close>

definition release_local_reader_first :: "par_build \<Rightarrow> u8 \<Rightarrow> u32 \<Rightarrow> lock_state \<Rightarrow> lock_queue \<Rightarrow> par_result" where
  "release_local_reader_first b me requester op q =
     (let (ret, q1) = erase_lock_request b requester me op q in
      if op = LOCK_EXCL then
        (if par_lock_state q1 = STATE_EXCLUSIVE \<and> ret = 0 then
           (let q2 = set_lock_state STATE_FREE q1 in
            case get_head_request q2 of
              None \<Rightarrow> Inr (q2, [])
            | Some h \<Rightarrow>
                (if le_op h = LOCK_EXCL then grant_next_exclusive b me h q2
                 else if le_op h = LOCK_SHARED then grant_next_shared b me q2
                 else Inr (q2, [])))
         else Inr (q1, []))
      else if op = LOCK_SHARED then
        (if par_lock_state q1 = STATE_SHARED \<and> ret = 0 then
           (let q2 = sub_shared_counter q1 in
            if 0 < shared_counter q2 then Inr (q2, [])
            else
              (let q3 = set_lock_state STATE_FREE q2 in
               case get_head_request q3 of
                 None \<Rightarrow> Inr (q3, [])
               | Some h \<Rightarrow>
                   (if le_op h = LOCK_EXCL then grant_next_exclusive b me h q3
                    else if le_op h = LOCK_SHARED then Inl Error_exit
                    else Inr (q3, []))))
         else if par_lock_state q1 = STATE_SHARED then Inl Error_exit
         else Inr (q1, []))
      else Inr (q1, []))"

text \<open>The first-in-first-out part, which looks at the operator of the dequeued entry.\<close>

definition release_local_fifo :: "par_build \<Rightarrow> u8 \<Rightarrow> u32 \<Rightarrow> lock_state \<Rightarrow> lock_queue \<Rightarrow> par_result" where
  "release_local_fifo b me requester op q =
     (case get_head_request q of
        None \<Rightarrow> Inl Invalid_pointer
      | Some cur \<Rightarrow>
          (if le_requester cur \<noteq> requester then
             (let (ret, q1) = erase_lock_request b requester me op q
              in Inr (if ret = 1 then
                        (if op = LOCK_EXCL then sub_exclusive_counter q1
                         else if op = LOCK_SHARED then sub_shared_counter q1 else q1)
                      else q1, []))
           else
             (let q1 = snd (dequeue_request q) in
              if le_op cur = LOCK_EXCL then
                (let q2 = sub_exclusive_counter q1 in
                 case get_head_request q2 of
                   None \<Rightarrow> Inr (q2, [])
                 | Some h \<Rightarrow>
                     (if le_op h = LOCK_EXCL then Inr (q2, [par_deliver me h])
                      else if le_op h = LOCK_SHARED
                      then Inr (q2, map (par_deliver me) (get_head_shared_requests q2))
                      else Inr (q2, [])))
              else if le_op cur = LOCK_SHARED then
                (let q2 = sub_shared_counter q1 in
                 case get_head_request q2 of
                   None \<Rightarrow> Inr (q2, [])
                 | Some h \<Rightarrow>
                     (if le_op h = LOCK_EXCL then Inr (q2, [par_deliver me h]) else Inr (q2, [])))
              else Inr (q1, []))))"

definition release_lock_local :: "par_build \<Rightarrow> u8 \<Rightarrow> u32 \<Rightarrow> lock_state \<Rightarrow> lock_queue \<Rightarrow> par_result" where
  "release_lock_local b me requester op q =
     (if PARLOCK_READER_FIRST b then release_local_reader_first b me requester op q
      else release_local_fifo b me requester op q)"

section \<open>Request dispatch (lock.cc)\<close>

definition process_lock_req :: "par_build \<Rightarrow> lock_state \<Rightarrow> u8 \<Rightarrow> u32 \<Rightarrow> lock_queue \<Rightarrow> par_result" where
  "process_lock_req b op host lh q =
     (if op = LOCK_EXCL then server_handle_exclusive_lock b host lh q
      else if op = LOCK_SHARED then server_handle_shared_lock b host lh q
      else Inr (q, []))"

definition process_unlock_req :: "par_build \<Rightarrow> u8 \<Rightarrow> lock_state \<Rightarrow> u8 \<Rightarrow> u32 \<Rightarrow> lock_queue \<Rightarrow> par_result" where
  "process_unlock_req b me op host lh q =
     (if op = LOCK_EXCL then server_handle_exclusive_unlock b me host lh q
      else if op = LOCK_SHARED then server_handle_shared_unlock b me host lh q
      else Inr (q, []))"

end
