(* ===== verification/Par_Manager.thy ===== *)
theory Par_Manager
  imports Par_Lock
begin

text \<open>
  Correctness of the ParLock queue handlers: the client code for local locks agrees with the
  server code, and in the configured build (reader first, holders not queued) the handlers
  of one lock implement an abortable reader-writer lock manager.
\<close>

section \<open>Local and server code\<close>

definition out_for :: "u8 \<Rightarrow> par_out \<Rightarrow> u8 \<times> u32" where
  "out_for me x = (case x of Signal r \<Rightarrow> (me, r) | Reply h op r \<Rightarrow> (h, r))"

text \<open>
  A lock request of a local client changes the queue of the lock as the same request
  from another host would, and grants the lock in the same cases; only the form of the
  grant differs, a signal instead of a reply.
\<close>

theorem par_acquire_local_eq_server:
  "acquire_lock_local b me r op q =
     (case process_lock_req b op me r q of
        Inl e \<Rightarrow> Inl e | Inr (q', out) \<Rightarrow> Inr (q', map (\<lambda>_. Signal r) out))"
  by (simp add: acquire_lock_local_def process_lock_req_def server_handle_exclusive_lock_def
      server_handle_shared_lock_def add_shared_counter_def Let_def)

lemma release_reader_first_eq:
  assumes "PARLOCK_READER_FIRST b" "op = LOCK_SHARED \<or> op = LOCK_EXCL"
  shows "release_local_reader_first b me r op q = process_unlock_req b me op me r q"
  using assms
  by (auto simp: release_local_reader_first_def process_unlock_req_def
      server_handle_exclusive_unlock_def server_handle_shared_unlock_def)

text \<open>
  The release of a local client does what the server does for an unlock request. In the
  first-in-first-out build the local code looks at the operator of the dequeued entry where
  the server relies on the operator of the request, so there the two have to be the same.
\<close>

theorem par_release_local_eq_server:
  assumes "op = LOCK_SHARED \<or> op = LOCK_EXCL"
    and "\<not> PARLOCK_READER_FIRST b \<Longrightarrow>
      \<forall>h. get_head_request q = Some h \<and> le_requester h = r \<longrightarrow> le_op h = op"
  shows "release_lock_local b me r op q = process_unlock_req b me op me r q"
proof (cases "PARLOCK_READER_FIRST b")
  case True
  then show ?thesis by (simp add: release_lock_local_def release_reader_first_eq [OF _ assms(1)])
next
  case False
  note defs = release_lock_local_def release_local_fifo_def process_unlock_req_def
    server_handle_exclusive_unlock_def server_handle_shared_unlock_def Let_def
  show ?thesis
  proof (cases "get_head_request q")
    case None
    with False assms(1) show ?thesis by (auto simp: defs)
  next
    case (Some h)
    with False assms show ?thesis
      by (cases "le_requester h = r") (auto simp: defs split: prod.split)
  qed
qed

theorem par_release_local_eq_server_witness:
  "release_lock_local par_default 1 7 LOCK_EXCL par_init_lock =
     process_unlock_req par_default 1 LOCK_EXCL 1 7 par_init_lock"
  by (rule par_release_local_eq_server) simp_all

section \<open>One lock as a state machine\<close>

definition par_result_of :: "u8 \<Rightarrow> par_result \<Rightarrow> (lock_queue \<times> (u8 \<times> u32) list) option" where
  "par_result_of me x = (case x of Inl e \<Rightarrow> None | Inr (q, out) \<Rightarrow> Some (q, map (out_for me) out))"

definition par_acq :: "par_build \<Rightarrow> u8 \<Rightarrow> u8 \<times> u32 \<Rightarrow> access \<Rightarrow> lock_queue
    \<Rightarrow> (lock_queue \<times> (u8 \<times> u32) list) option" where
  "par_acq b me r a q =
     par_result_of me
       (if fst r = me then acquire_lock_local b me (snd r) (access_op a) q
        else process_lock_req b (access_op a) (fst r) (snd r) q)"

definition par_rel :: "par_build \<Rightarrow> u8 \<Rightarrow> u8 \<times> u32 \<Rightarrow> access \<Rightarrow> lock_queue
    \<Rightarrow> (lock_queue \<times> (u8 \<times> u32) list) option" where
  "par_rel b me r a q =
     par_result_of me
       (if fst r = me then release_lock_local b me (snd r) (access_op a) q
        else process_unlock_req b me (access_op a) (fst r) (snd r) q)"

definition le_req :: "lock_queue_entry \<Rightarrow> u8 \<times> u32" where
  "le_req e = (le_host e, le_requester e)"

lemma out_for_deliver [simp]: "out_for me (par_deliver me e) = le_req e"
  by (simp add: out_for_def par_deliver_def le_req_def)

lemma par_acq_eq:
  "par_acq par_default me r a q =
     (if a = Wr \<and> par_lock_state q = STATE_FREE
      then Some (q\<lparr>par_lock_state := STATE_EXCLUSIVE\<rparr>, [r])
      else if a = Rd \<and> par_lock_state q \<noteq> STATE_EXCLUSIVE
      then Some (q\<lparr>par_lock_state := STATE_SHARED, shared_counter := shared_counter q + 1\<rparr>, [r])
      else Some (q\<lparr>request_queue := request_queue q @
             [\<lparr>le_op = access_op a, le_requester = snd r, le_host = fst r\<rparr>]\<rparr>, []))"
  by (cases r; cases a) (simp_all add: par_acq_def par_result_of_def acquire_lock_local_def
      process_lock_req_def server_handle_exclusive_lock_def server_handle_shared_lock_def
      par_defs Let_def out_for_def)

lemma grant_shared_loop_eq:
  "grant_shared_loop me es q out =
     (q\<lparr>shared_counter := shared_counter q + int (length es)\<rparr>, out @ map (par_deliver me) es)"
  by (induction es arbitrary: q out) (simp_all add: add_shared_counter_def)

lemma grant_next_shared_default:
  "grant_next_shared par_default me q =
     Inr (q\<lparr>par_lock_state := STATE_SHARED,
            shared_counter := shared_counter q + int (length (get_shared_requests q)),
            request_queue := filter (\<lambda>e. le_op e \<noteq> LOCK_SHARED) (request_queue q)\<rparr>,
          map (par_deliver me) (get_shared_requests q))"
  by (simp add: grant_next_shared_def Let_def dequeue_shared_requests_def
      dequeue_shared_loop_filter grant_shared_loop_eq set_lock_state_def get_shared_requests_def)

lemma grant_next_exclusive_default:
  "request_queue q = h # es \<Longrightarrow>
   grant_next_exclusive par_default me h q =
     Inr (q\<lparr>par_lock_state := STATE_EXCLUSIVE, request_queue := es\<rparr>, [par_deliver me h])"
  by (simp add: grant_next_exclusive_def Let_def par_defs)

lemma erase_default:
  "erase_lock_request par_default lh host op q =
     (if \<exists>e \<in> set (request_queue q). is_entry lh host op e
      then (1, q\<lparr>request_queue := erase_first (is_entry lh host op) (request_queue q)\<rparr>)
      else (0, q))"
  by (auto simp: erase_lock_request_def Let_def split: option.split dest: index_first_Some)

text \<open>What a release does that comes from an owner, and one that comes from a waiting client.\<close>

lemma par_rel_server:
  "par_rel par_default me r a q =
     par_result_of me (process_unlock_req par_default me (access_op a) (fst r) (snd r) q)"
  using release_reader_first_eq [OF _ access_op_ops [of a], of par_default me "snd r" q]
  by (auto simp: par_rel_def release_lock_local_def)

lemma erase_entry:
  assumes "\<forall>e \<in> set (request_queue q). le_req e = r \<longrightarrow> le_op e = op"
  shows "erase_lock_request par_default (snd r) (fst r) op q =
     (if r \<in> le_req ` set (request_queue q)
      then (1, q\<lparr>request_queue := erase_first (\<lambda>e. le_req e = r) (request_queue q)\<rparr>) else (0, q))"
proof -
  have e: "is_entry (snd r) (fst r) op e = (le_req e = r)" if "e \<in> set (request_queue q)" for e
    using assms that by (auto simp: is_entry_def le_req_def)
  have "(\<exists>e \<in> set (request_queue q). is_entry (snd r) (fst r) op e) \<longleftrightarrow> r \<in> le_req ` set (request_queue q)"
    using e by auto
  moreover have "erase_first (is_entry (snd r) (fst r) op) (request_queue q) =
      erase_first (\<lambda>e. le_req e = r) (request_queue q)"
    by (rule erase_first_cong) (rule e)
  ultimately show ?thesis by (simp add: erase_default)
qed

lemma par_rel_writer:
  assumes "r \<notin> le_req ` set (request_queue q)" "par_lock_state q = STATE_EXCLUSIVE"
  shows "par_rel par_default me r Wr q =
     (case request_queue q of
        [] \<Rightarrow> Some (q\<lparr>par_lock_state := STATE_FREE\<rparr>, [])
      | h # es \<Rightarrow>
          (if le_op h = LOCK_EXCL then Some (q\<lparr>request_queue := es\<rparr>, [le_req h])
           else if le_op h = LOCK_SHARED then
             Some (q\<lparr>par_lock_state := STATE_SHARED,
                     shared_counter := shared_counter q + int (length (get_shared_requests q)),
                     request_queue := filter (\<lambda>e. le_op e \<noteq> LOCK_SHARED) (request_queue q)\<rparr>,
                   map le_req (get_shared_requests q))
           else Some (q\<lparr>par_lock_state := STATE_FREE\<rparr>, [])))"
proof -
  have e: "erase_lock_request par_default (snd r) (fst r) LOCK_EXCL q = (0, q)"
    using erase_entry [of q r LOCK_EXCL] assms(1) by auto
  have u: "par_rel par_default me r Wr q = par_result_of me
     (case request_queue q of
        [] \<Rightarrow> Inr (q\<lparr>par_lock_state := STATE_FREE\<rparr>, [])
      | h # es \<Rightarrow>
          (if le_op h = LOCK_EXCL then grant_next_exclusive par_default me h (q\<lparr>par_lock_state := STATE_FREE\<rparr>)
           else if le_op h = LOCK_SHARED then grant_next_shared par_default me (q\<lparr>par_lock_state := STATE_FREE\<rparr>)
           else Inr (q\<lparr>par_lock_state := STATE_FREE\<rparr>, [])))"
    using assms(2) by (simp add: par_rel_server process_unlock_req_def server_handle_exclusive_unlock_def e Let_def
        set_lock_state_def get_head_request_def split: list.split)
  have s: "get_shared_requests (q\<lparr>par_lock_state := x\<rparr>) = get_shared_requests q" for x
    by (simp add: get_shared_requests_def)
  show ?thesis
    unfolding u using assms(2)
    by (cases "request_queue q")
      (simp_all add: par_result_of_def grant_next_exclusive_default grant_next_shared_default s comp_def)
qed

lemma par_rel_reader:
  assumes "r \<notin> le_req ` set (request_queue q)" "par_lock_state q = STATE_SHARED"
  shows "par_rel par_default me r Rd q =
     (if 1 < shared_counter q then Some (q\<lparr>shared_counter := shared_counter q - 1\<rparr>, [])
      else case request_queue q of
        [] \<Rightarrow> Some (q\<lparr>par_lock_state := STATE_FREE, shared_counter := shared_counter q - 1\<rparr>, [])
      | h # es \<Rightarrow>
          (if le_op h = LOCK_EXCL then
             Some (q\<lparr>par_lock_state := STATE_EXCLUSIVE, shared_counter := shared_counter q - 1,
                     request_queue := es\<rparr>, [le_req h])
           else if le_op h = LOCK_SHARED then None
           else Some (q\<lparr>par_lock_state := STATE_FREE, shared_counter := shared_counter q - 1\<rparr>, [])))"
proof -
  have e: "erase_lock_request par_default (snd r) (fst r) LOCK_SHARED q = (0, q)"
    using erase_entry [of q r LOCK_SHARED] assms(1) by auto
  show ?thesis
    using assms(2)
    by (cases "request_queue q")
      (auto simp: par_rel_server process_unlock_req_def server_handle_shared_unlock_def e Let_def
        set_lock_state_def get_head_request_def par_result_of_def grant_next_exclusive_default sub_shared_counter_def)
qed

lemma par_rel_abort:
  assumes "r \<in> le_req ` set (request_queue q)" "a = Rd \<Longrightarrow> par_lock_state q \<noteq> STATE_SHARED"
    and "\<forall>e \<in> set (request_queue q). le_req e = r \<longrightarrow> le_op e = access_op a"
  shows "par_rel par_default me r a q =
     Some (q\<lparr>request_queue := erase_first (\<lambda>e. le_req e = r) (request_queue q)\<rparr>, [])"
  using erase_entry [OF assms(3)] assms(1,2)
  by (cases a) (auto simp: par_rel_server process_unlock_req_def server_handle_exclusive_unlock_def
      server_handle_shared_unlock_def par_result_of_def)


section \<open>Coupling with the specification\<close>

abbreviation pq_coupled :: "lock_queue_entry list \<Rightarrow> (u8 \<times> u32) ghost \<Rightarrow> bool" where
  "pq_coupled \<equiv> queue_coupled le_req le_op"

definition par_state_coupled :: "lock_queue \<Rightarrow> (u8 \<times> u32) ghost \<Rightarrow> bool" where
  "par_state_coupled q g \<longleftrightarrow>
     (case par_lock_state q of
        STATE_FREE \<Rightarrow> wants g = Map.empty \<and> owned g = {} \<and> shared_counter q = 0
      | STATE_SHARED \<Rightarrow> owned g \<noteq> {} \<and> shared_counter q = int (card (owned g)) \<and>
          (\<forall>r \<in> owned g. wants g r = Some Rd) \<and> (\<forall>e \<in> set (request_queue q). le_op e = LOCK_EXCL)
      | STATE_EXCLUSIVE \<Rightarrow> shared_counter q = 0 \<and> sole_writer g)"

definition par_coupled :: "lock_queue \<Rightarrow> (u8 \<times> u32) ghost \<Rightarrow> bool" where
  "par_coupled q g \<longleftrightarrow> pq_coupled (request_queue q) g \<and> par_state_coupled q g \<and>
     owned g \<subseteq> dom (wants g) \<and> finite (dom (wants g))"

lemma par_acq_coupled:
  assumes c: "par_coupled q g" and n: "wants g r = None"
  shows "\<exists>q' G. par_acq par_default me r a q = Some (q', G) \<and> g_fresh G g (g_acq r a G g) \<and>
     par_coupled q' (g_acq r a G g)"
proof -
  have o: "pq_coupled (request_queue q) g" "par_state_coupled q g" "owned g \<subseteq> dom (wants g)"
    "finite (dom (wants g))" using c by (simp_all add: par_coupled_def)
  have nr: "r \<notin> owned g" using o(3) n by auto
  have fin: "finite (owned g)" using o(3,4) by (rule finite_subset)
  let ?e = "\<lparr>le_op = access_op a, le_requester = snd r, le_host = fst r\<rparr>"
  have e: "le_req ?e = r" "le_op ?e = access_op a" by (simp_all add: le_req_def)
  note grant = queue_coupled_grant [OF o(1) n o(3)] and app = queue_coupled_append [OF o(1) n o(3) e]
  consider "a = Wr" "par_lock_state q = STATE_FREE" | "a = Rd" "par_lock_state q \<noteq> STATE_EXCLUSIVE"
    | "\<not> (a = Wr \<and> par_lock_state q = STATE_FREE)" "\<not> (a = Rd \<and> par_lock_state q \<noteq> STATE_EXCLUSIVE)" by blast
  then show ?thesis
  proof cases
    case 1
    then have "par_state_coupled (q\<lparr>par_lock_state := STATE_EXCLUSIVE\<rparr>) (g_acq r a [r] g)"
      using o(2) sole_writer_grant(1) [of g r] by (simp add: par_state_coupled_def)
    with 1 show ?thesis using o grant nr by (auto simp: par_acq_eq par_coupled_def g_fresh_def)
  next
    case 2
    let ?q = "q\<lparr>par_lock_state := STATE_SHARED, shared_counter := shared_counter q + 1\<rparr>"
    have "request_queue q = []" if "par_lock_state q = STATE_FREE"
      using o(1,2) that by (auto simp: par_state_coupled_def queue_coupled_def)
    then have "par_state_coupled ?q (g_acq r a [r] g)"
      using 2 o(2) nr fin by (cases "par_lock_state q") (auto simp: par_state_coupled_def)
    with 2 show ?thesis using o grant nr by (auto simp: par_acq_eq par_coupled_def g_fresh_def)
  next
    case 3
    then have "par_state_coupled (q\<lparr>request_queue := request_queue q @ [?e]\<rparr>) (g_acq r a [] g)"
      using o(2) nr sole_writer_no_grant(1) [of g r a]
      by (cases a; cases "par_lock_state q") (auto simp: par_state_coupled_def)
    with 3 show ?thesis using o app by (auto simp: par_acq_eq par_coupled_def g_fresh_def)
  qed
qed

lemma par_abort_coupled:
  assumes c: "par_coupled q g" and r: "r \<notin> owned g" "wants g r = Some a"
  shows "\<exists>q'. par_rel par_default me r a q = Some (q', []) \<and> par_coupled q' (g_rel r [] g)"
proof -
  have o: "pq_coupled (request_queue q) g" "par_state_coupled q g" "owned g \<subseteq> dom (wants g)"
    "finite (dom (wants g))" using c by (simp_all add: par_coupled_def)
  have mem: "r \<in> le_req ` set (request_queue q)" using o(1) r by (auto simp: queue_coupled_def)
  have ops: "\<forall>e \<in> set (request_queue q). le_req e = r \<longrightarrow> le_op e = access_op a"
    using queue_coupled_D(2) [OF o(1)] r(2) by fastforce
  have "par_lock_state q \<noteq> STATE_SHARED" if "a = Rd"
    using o(2) mem ops that by (auto simp: par_state_coupled_def)
  then have "par_rel par_default me r a q =
      Some (q\<lparr>request_queue := filter (\<lambda>e. le_req e \<noteq> r) (request_queue q)\<rparr>, [])"
    using par_rel_abort [OF mem _ ops] erase_first_key [of le_req "request_queue q"] o(1)
    by (simp add: queue_coupled_def)
  moreover have "par_state_coupled (q\<lparr>request_queue := filter (\<lambda>e. le_req e \<noteq> r) (request_queue q)\<rparr>) (g_rel r [] g)"
    using o(2) r sole_writer_no_grant(2) [of g r]
    by (cases "par_lock_state q") (auto simp: par_state_coupled_def)
  ultimately show ?thesis
    using o queue_coupled_abort [OF o(1) r(1)] r(1) by (auto simp: par_coupled_def)
qed

lemma par_coupledI:
  assumes "par_coupled q g" "pq_coupled (request_queue q') (g_rel r G g)"
    "par_state_coupled q' (g_rel r G g)" "g_fresh G g (g_rel r G g)"
  shows "par_coupled q' (g_rel r G g)"
  using assms by (auto simp: par_coupled_def g_fresh_def)

lemma par_rel_writer_coupled:
  assumes c: "par_coupled q g" and r: "owned g = {r}" "par_lock_state q = STATE_EXCLUSIVE" "shared_counter q = 0"
    and nm: "r \<notin> le_req ` set (request_queue q)"
  shows "\<exists>q' G. par_rel par_default me r Wr q = Some (q', G) \<and> g_fresh G g (g_rel r G g) \<and>
     par_coupled q' (g_rel r G g)"
proof -
  have o: "pq_coupled (request_queue q) g" "owned g \<subseteq> dom (wants g)"
    using c by (simp_all add: par_coupled_def)
  show ?thesis
  proof (cases "request_queue q")
    case Nil
    then have "par_state_coupled (q\<lparr>par_lock_state := STATE_FREE\<rparr>) (g_rel r [] g)"
      using queue_coupled_empty [of le_req le_op g r] o r by (simp add: par_state_coupled_def)
    then show ?thesis using Nil queue_coupled_rel [OF o(1) _ o(2), of r] r(1)
      by (auto simp: par_rel_writer [OF nm r(2)] g_fresh_def intro!: par_coupledI [OF c])
  next
    case (Cons h es)
    show ?thesis
    proof (cases "le_op h = LOCK_SHARED")
      case True
      let ?G = "map le_req (get_shared_requests q)"
      let ?q = "q\<lparr>par_lock_state := STATE_SHARED,
                  shared_counter := shared_counter q + int (length (get_shared_requests q)),
                  request_queue := filter (\<lambda>e. le_op e \<noteq> LOCK_SHARED) (request_queue q)\<rparr>"
      have take: "pq_coupled (request_queue ?q) (g_rel r ?G g)" "g_fresh ?G g (g_rel r ?G g)"
        using queue_coupled_take [OF o(1) refl, of r "\<lambda>e. le_op e = LOCK_SHARED"] r(1)
        by (simp_all add: get_shared_requests_def)
      have ne: "set ?G \<noteq> {}" using Cons True by (auto simp: get_shared_requests_def)
      have card: "int (length (get_shared_requests q)) = int (card (set ?G))"
        using take(2) by (simp only: g_fresh_def distinct_card length_map)
      have rd: "wants g x = Some Rd \<and> x \<noteq> r" if "x \<in> set ?G" for x
        using that queue_coupled_D(1,3) [OF o(1)] r(1) by (auto simp: get_shared_requests_def)
      have "le_op e = LOCK_EXCL" if "e \<in> set (request_queue ?q)" for e
        using that queue_coupled_D(4) [OF o(1)] by simp
      then have "par_state_coupled ?q (g_rel r ?G g)"
        unfolding par_state_coupled_def using r rd ne card by simp
      then have "par_coupled ?q (g_rel r ?G g)" using take by (intro par_coupledI [OF c])
      moreover have "par_rel par_default me r Wr q = Some (?q, ?G)"
        unfolding par_rel_writer [OF nm r(2)] using True by (simp only: Cons list.case) simp
      ultimately show ?thesis using take(2) by blast
    next
      case False
      have w: "wants g (le_req h) = Some Wr" "le_op h = LOCK_EXCL" "le_req h \<notin> owned g"
        using queue_coupled_D(1,4) [OF o(1), of h] False Cons by simp_all
      note head = queue_coupled_head [OF o(1) [unfolded Cons], of r]
      have "par_state_coupled (q\<lparr>request_queue := es\<rparr>) (g_rel r [le_req h] g)"
        using w r sole_writer_grant(2) [OF r(1) w(1)] by (auto simp: par_state_coupled_def)
      then have "par_coupled (q\<lparr>request_queue := es\<rparr>) (g_rel r [le_req h] g)"
        using head r(1) by (intro par_coupledI [OF c]) simp_all
      moreover have "par_rel par_default me r Wr q = Some (q\<lparr>request_queue := es\<rparr>, [le_req h])"
        unfolding par_rel_writer [OF nm r(2)] using w(2) Cons by simp
      ultimately show ?thesis using head(2) r(1) by simp
    qed
  qed
qed

lemma par_rel_reader_coupled:
  assumes c: "par_coupled q g" and r: "r \<in> owned g" "par_lock_state q = STATE_SHARED"
    and nm: "r \<notin> le_req ` set (request_queue q)"
  shows "\<exists>q' G. par_rel par_default me r Rd q = Some (q', G) \<and> g_fresh G g (g_rel r G g) \<and>
     par_coupled q' (g_rel r G g)"
proof -
  have o: "pq_coupled (request_queue q) g" "par_state_coupled q g" "owned g \<subseteq> dom (wants g)"
    using c by (simp_all add: par_coupled_def)
  have fin: "finite (owned g)" using o(3) c finite_subset unfolding par_coupled_def by blast
  have sc: "shared_counter q = int (card (owned g))" and rd: "\<forall>x \<in> owned g. wants g x = Some Rd"
    and ex: "\<forall>e \<in> set (request_queue q). le_op e = LOCK_EXCL"
    using o(2) r(2) by (simp_all add: par_state_coupled_def)
  have card: "int (card (owned g - {r})) = int (card (owned g)) - 1"
    using card_Suc_Diff1 [OF fin r(1)] by linarith
  show ?thesis
  proof (cases "owned g = {r}")
    case False
    have ne: "owned g - {r} \<noteq> {}" using False r(1) by auto
    then have "0 < card (owned g - {r})" using fin by (simp add: card_gt_0_iff)
    then have "1 < shared_counter q" using card sc by linarith
    moreover have "par_state_coupled (q\<lparr>shared_counter := shared_counter q - 1\<rparr>) (g_rel r [] g)"
      using r(2) sc rd ex card ne by (simp add: par_state_coupled_def)
    ultimately show ?thesis using queue_coupled_rel [OF o(1) r(1) o(3)]
      by (auto simp: par_rel_reader [OF nm r(2)] g_fresh_def intro!: par_coupledI [OF c])
  next
    case True
    then have one: "shared_counter q = 1" using sc by simp
    show ?thesis
    proof (cases "request_queue q")
      case Nil
      then have "(wants g)(r := None) = Map.empty"
        using queue_coupled_empty [of le_req le_op g r] o True by simp
      then have "par_state_coupled (q\<lparr>par_lock_state := STATE_FREE, shared_counter := shared_counter q - 1\<rparr>) (g_rel r [] g)"
        using one True by (simp add: par_state_coupled_def)
      then show ?thesis using Nil one queue_coupled_rel [OF o(1) r(1) o(3)]
        by (auto simp: par_rel_reader [OF nm r(2)] g_fresh_def intro!: par_coupledI [OF c])
    next
      case (Cons h es)
      have w: "wants g (le_req h) = Some Wr" "le_op h = LOCK_EXCL" "le_req h \<notin> owned g"
        using queue_coupled_D(1,4) [OF o(1), of h] ex Cons by simp_all
      have "par_state_coupled (q\<lparr>par_lock_state := STATE_EXCLUSIVE, shared_counter := shared_counter q - 1,
          request_queue := es\<rparr>) (g_rel r [le_req h] g)"
        using w True one sole_writer_grant(2) [OF True w(1)] by (auto simp: par_state_coupled_def)
      then show ?thesis using w Cons one r(1) queue_coupled_head [OF o(1) [unfolded Cons], of r]
        by (auto simp: par_rel_reader [OF nm r(2)] intro!: par_coupledI [OF c])
    qed
  qed
qed

lemma par_rel_coupled:
  assumes c: "par_coupled q g" and r: "r \<in> owned g" "wants g r = Some a"
  shows "\<exists>q' G. par_rel par_default me r a q = Some (q', G) \<and> g_fresh G g (g_rel r G g) \<and>
     par_coupled q' (g_rel r G g)"
proof -
  have o: "pq_coupled (request_queue q) g" "par_state_coupled q g"
    using c by (simp_all add: par_coupled_def)
  have nm: "r \<notin> le_req ` set (request_queue q)" using o(1) r(1) by (auto simp: queue_coupled_def)
  show ?thesis
  proof (cases a)
    case Wr
    then have "owned g = {r}" "par_lock_state q = STATE_EXCLUSIVE" "shared_counter q = 0"
      using o(2) r sole_writer_owner [of g r] by (auto simp: par_state_coupled_def split: par_state.splits)
    with Wr c nm show ?thesis using par_rel_writer_coupled by blast
  next
    case Rd
    then have "par_lock_state q = STATE_SHARED"
      using o(2) r sole_writer_owner [of g r] by (auto simp: par_state_coupled_def split: par_state.splits)
    with Rd c nm r(1) show ?thesis using par_rel_reader_coupled by blast
  qed
qed

lemma par_coupled_safe: "par_coupled q g \<Longrightarrow> g_safe g"
  using sole_writer_owner [of g]
  by (auto simp: par_coupled_def g_safe_def par_state_coupled_def split: par_state.splits)

lemma par_coupled_live: "par_coupled q g \<Longrightarrow> g_live g"
  by (auto simp: par_coupled_def g_live_def par_state_coupled_def sole_writer_def split: par_state.splits)

interpretation par: abortable_lock_manager par_init_lock "par_acq par_default me" "par_rel par_default me"
    "\<lambda>_ _. True" par_coupled
proof unfold_locales
  show "par_coupled par_init_lock g_init"
    by (simp add: par_coupled_def par_init_lock_def par_state_coupled_def queue_coupled_def)
qed (use par_acq_coupled par_rel_coupled par_abort_coupled par_coupled_safe par_coupled_live
     in \<open>auto simp: par_coupled_def\<close>)


section \<open>Properties\<close>

text \<open>
  C7. Mutual exclusion of ParLock: under every interleaving of lock requests, unlocks by
  owners and unlocks by clients that give up waiting, local or remote, a request that asked
  for exclusive access and has been granted the lock is the only one that owns it.
\<close>

theorem par_mutual_exclusion:
  assumes "mgr_reach True par_init_lock (par_acq par_default me) (par_rel par_default me) (\<lambda>_ _. True) q g"
    and "r \<in> owned g" "wants g r = Some Wr"
  shows "owned g = {r}"
  using assms by (rule par.mutual_exclusion_ab)

text \<open>
  The calls of \<open>ERROR\<close> in the ParLock handlers, which would end the process on an
  abnormal condition, are never reached: every new request is accepted, and every unlock of
  an outstanding request, granted or not, succeeds.
\<close>

theorem par_error_unreachable:
  assumes "mgr_reach True par_init_lock (par_acq par_default me) (par_rel par_default me) (\<lambda>_ _. True) q g"
  shows "(\<forall>r a. wants g r = None \<longrightarrow> par_acq par_default me r a q \<noteq> None) \<and>
         (\<forall>r a. wants g r = Some a \<longrightarrow> par_rel par_default me r a q \<noteq> None)"
proof -
  have c: "par_coupled q g" using par.reach_ab_coupled [OF assms] .
  have "par_rel par_default me r a q \<noteq> None" if "wants g r = Some a" for r a
    using par.rel_coupled [OF c _ that] par.abort_coupled [OF c _ that]
    by (cases "r \<in> owned g") fastforce+
  moreover have "par_acq par_default me r a q \<noteq> None" if "wants g r = None" for r a
    using par.acq_coupled [OF c _ that] by fastforce
  ultimately show ?thesis by blast
qed


text \<open>A run: a local writer owns the lock and a remote reader waits.\<close>

lemma par_run:
  "mgr_reach True par_init_lock (par_acq par_default 1) (par_rel par_default 1) (\<lambda>_ _. True)
     (par_init_lock\<lparr>par_lock_state := STATE_EXCLUSIVE,
        request_queue := [\<lparr>le_op = LOCK_SHARED, le_requester = 5, le_host = 2\<rparr>]\<rparr>)
     (g_acq (2, 5) Rd [] (g_acq (1, 7) Wr [(1, 7)] g_init))"
proof -
  have "mgr_reach True par_init_lock (par_acq par_default 1) (par_rel par_default 1) (\<lambda>_ _. True)
     (par_init_lock\<lparr>par_lock_state := STATE_EXCLUSIVE\<rparr>) (g_acq (1, 7) Wr [(1, 7)] g_init)"
    by (rule mgr_reach.acquire [OF mgr_reach.start]) (simp_all add: par_acq_eq par_init_lock_def)
  then show ?thesis
    by (rule mgr_reach.acquire) (simp_all add: par_acq_eq par_init_lock_def)
qed

theorem par_mutual_exclusion_witness:
  "owned (g_acq (2, 5) Rd [] (g_acq (1, 7) Wr [(1, 7)] g_init)) = {(1 :: u8, 7 :: u32)}"
  by (rule par_mutual_exclusion [OF par_run]) simp_all

theorem par_error_unreachable_witness:
  "par_rel par_default 1 (1, 7) Wr (par_init_lock\<lparr>par_lock_state := STATE_EXCLUSIVE,
     request_queue := [\<lparr>le_op = LOCK_SHARED, le_requester = 5, le_host = 2\<rparr>]\<rparr>) \<noteq> None"
  using par_error_unreachable [OF par_run] by simp


text \<open>
  In the first-in-first-out build a reader can be stranded: a reader owns the lock, a
  writer and behind it a second reader wait, the writer gives up, and the first reader
  unlocks. The second reader is then alone in the queue of a lock nobody owns, and has been
  sent no grant.
\<close>

theorem par_fifo_abort_strands_reader:
  "\<exists>q1 q2 q3 q4 q5. process_lock_req par_fifo LOCK_SHARED 2 1 par_init_lock = Inr (q1, [Reply 2 LOCK_SHARED 1]) \<and>
     process_lock_req par_fifo LOCK_EXCL 3 2 q1 = Inr (q2, []) \<and>
     process_lock_req par_fifo LOCK_SHARED 4 3 q2 = Inr (q3, []) \<and>
     process_unlock_req par_fifo 1 LOCK_EXCL 3 2 q3 = Inr (q4, []) \<and>
     process_unlock_req par_fifo 1 LOCK_SHARED 2 1 q4 = Inr (q5, []) \<and>
     request_queue q5 = [\<lparr>le_op = LOCK_SHARED, le_requester = 3, le_host = 4\<rparr>]"
  by (simp add: par_fifo_def process_lock_req_def process_unlock_req_def server_handle_shared_lock_def
      server_handle_exclusive_lock_def server_handle_exclusive_unlock_def server_handle_shared_unlock_def
      par_init_lock_def par_defs Let_def erase_lock_request_def is_entry_def)

end
