(* ===== verification/Par_Host.thy ===== *)
theory Par_Host
  imports Par_Manager
begin

text \<open>
  A ParLock host (baseline/ParLock/lib): the table of lock queues, the wait table in which
  clients poll for their grants (coroutine_wait_queue.cc), the placement of locks on hosts
  and the packets (net.cc), and the interface for applications (lock.cc).
\<close>

section \<open>Packets and lock placement (net.h, net.cc)\<close>

datatype par_post = POST_LOCK_REQ | POST_UNLOCK_REQ | POST_LOCK_REPLY

record par_header =
  post_type :: par_post
  ph_op :: lock_state
  ph_lock_id :: u32
  ph_machine_id :: u8
  ph_lh_id :: u32

record par_packet =
  pp_dest :: u8
  pp_dst_port :: u16
  pp_hdr :: par_header

definition SERVER_POST_TYPE :: u16 where "SERVER_POST_TYPE = 30001"
definition CLIENT_POST_TYPE :: u16 where "CLIENT_POST_TYPE = 30002"

text \<open>The table of hardware addresses has eight rows, indexed by the destination less one.\<close>

definition par_net_send ::
  "u8 \<Rightarrow> par_post \<Rightarrow> lock_state \<Rightarrow> u32 \<Rightarrow> u8 \<Rightarrow> u32 \<Rightarrow> fl_error + par_packet" where
  "par_net_send dest t op lock_id host lh_id =
     (if dest = 0 \<or> 8 < dest then Inl Out_of_bounds
      else Inr \<lparr>pp_dest = dest,
                pp_dst_port = (if t = POST_LOCK_REQ \<or> t = POST_UNLOCK_REQ
                               then SERVER_POST_TYPE else CLIENT_POST_TYPE),
                pp_hdr = \<lparr>post_type = t, ph_op = op, ph_lock_id = lock_id,
                          ph_machine_id = host, ph_lh_id = lh_id\<rparr>\<rparr>)"

text \<open>
  The default placement: every host serves a range of \<open>MAX_LOCK_NUM / HOST_NUM\<close> locks, the
  last host also what is left over. A division by zero is an error.
\<close>

definition lock_per_host :: "nat \<Rightarrow> nat" where
  "lock_per_host max_lock_num = max_lock_num div 8"

definition get_lock_server :: "nat \<Rightarrow> u32 \<Rightarrow> fl_error + u8" where
  "get_lock_server max_lock_num lock_id =
     (if lock_per_host max_lock_num = 0 then Inl Error_exit
      else let idx = unat lock_id div lock_per_host max_lock_num;
               idx1 = (if 8 \<le> idx then 7 else idx)
           in Inr ([1, 2, 3, 4, 5, 6, 7, 8] ! idx1))"

text \<open>The locks that \<open>init_all_locks\<close> initialises on a host.\<close>

definition init_range :: "nat \<Rightarrow> u8 \<Rightarrow> u32 set" where
  "init_range max_lock_num me =
     {lock_id. lock_per_host max_lock_num * (unat me - 1) \<le> unat lock_id \<and>
               unat lock_id < lock_per_host max_lock_num * unat me}"

section \<open>Wait table (coroutine_wait_queue.cc)\<close>

record par_host =
  ph_localhost :: u8
  ph_max_lock_num :: nat
  queue_per_lock :: "u32 \<rightharpoonup> lock_queue"
  lock_wait_table :: "u32 \<rightharpoonup> (u32 \<rightharpoonup> bool)"

definition init_lock_wait_table :: "u32 \<Rightarrow> par_host \<Rightarrow> par_host" where
  "init_lock_wait_table lock_id h =
     h\<lparr>lock_wait_table := map_insert (lock_wait_table h) lock_id Map.empty\<rparr>"

definition add_to_wait_queue :: "u32 \<Rightarrow> u32 \<Rightarrow> par_host \<Rightarrow> fl_error + par_host" where
  "add_to_wait_queue lock_id requester h =
     (case lock_wait_table h lock_id of
        None \<Rightarrow> Inl Error_exit
      | Some flags \<Rightarrow>
          Inr (h\<lparr>lock_wait_table := (lock_wait_table h)(lock_id \<mapsto> map_insert flags requester False)\<rparr>))"

definition coroutine_wait_queue_signal :: "u32 \<Rightarrow> u32 \<Rightarrow> par_host \<Rightarrow> fl_error + par_host" where
  "coroutine_wait_queue_signal lock_id requester h =
     (case lock_wait_table h lock_id of
        None \<Rightarrow> Inl Error_exit
      | Some flags \<Rightarrow>
          (case flags requester of
             None \<Rightarrow> Inl Error_exit
           | Some _ \<Rightarrow>
               Inr (h\<lparr>lock_wait_table := (lock_wait_table h)(lock_id \<mapsto> flags(requester \<mapsto> True))\<rparr>)))"

text \<open>The busy-loop variant, which is the configured one.\<close>

definition coroutine_wait_queue_wait :: "u32 \<Rightarrow> u32 \<Rightarrow> par_host \<Rightarrow> fl_error + bool" where
  "coroutine_wait_queue_wait lock_id requester h =
     (case lock_wait_table h lock_id of
        None \<Rightarrow> Inl Error_exit
      | Some flags \<Rightarrow> (case flags requester of None \<Rightarrow> Inl Error_exit | Some v \<Rightarrow> Inr v))"

section \<open>Operations of a host (lock.cc, client.cc)\<close>

definition init_lock :: "u32 \<Rightarrow> par_host \<Rightarrow> par_host" where
  "init_lock lock_id h = h\<lparr>queue_per_lock := map_insert (queue_per_lock h) lock_id par_init_lock\<rparr>"

definition par_lock_local_init :: "lock_key \<Rightarrow> par_host \<Rightarrow> par_host" where
  "par_lock_local_init key h = init_lock_wait_table (ucast key) (init_lock (ucast key) h)"

text \<open>What a handler sends: signals go to the wait table, replies to the network.\<close>

fun run_outputs :: "u32 \<Rightarrow> par_out list \<Rightarrow> par_host \<Rightarrow> fl_error + par_host \<times> par_packet list" where
  "run_outputs lock_id [] h = Inr (h, [])"
| "run_outputs lock_id (Signal r # outs) h =
     (case coroutine_wait_queue_signal lock_id r h of
        Inl e \<Rightarrow> Inl e
      | Inr h1 \<Rightarrow> run_outputs lock_id outs h1)"
| "run_outputs lock_id (Reply host op r # outs) h =
     (case par_net_send host POST_LOCK_REPLY op lock_id host r of
        Inl e \<Rightarrow> Inl e
      | Inr p \<Rightarrow>
          (case run_outputs lock_id outs h of
             Inl e \<Rightarrow> Inl e
           | Inr (h1, ps) \<Rightarrow> Inr (h1, p # ps)))"

text \<open>Run a handler on the queue of a lock; the entry of an unknown lock is a null pointer.\<close>

definition on_queue ::
  "u32 \<Rightarrow> (lock_queue \<Rightarrow> par_result) \<Rightarrow> par_host \<Rightarrow> fl_error + par_host \<times> par_packet list" where
  "on_queue lock_id f h =
     (case queue_per_lock h lock_id of
        None \<Rightarrow> Inl Invalid_pointer
      | Some q \<Rightarrow>
          (case f q of
             Inl e \<Rightarrow> Inl e
           | Inr (q1, outs) \<Rightarrow>
               run_outputs lock_id outs (h\<lparr>queue_per_lock := (queue_per_lock h)(lock_id \<mapsto> q1)\<rparr>)))"

definition par_packet_dispatch :: "par_build \<Rightarrow> par_header \<Rightarrow> par_host \<Rightarrow> fl_error + par_host \<times> par_packet list" where
  "par_packet_dispatch b lk h =
     (case post_type lk of
        POST_LOCK_REQ \<Rightarrow>
          on_queue (ph_lock_id lk) (process_lock_req b (ph_op lk) (ph_machine_id lk) (ph_lh_id lk)) h
      | POST_UNLOCK_REQ \<Rightarrow>
          on_queue (ph_lock_id lk)
            (process_unlock_req b (ph_localhost h) (ph_op lk) (ph_machine_id lk) (ph_lh_id lk)) h
      | POST_LOCK_REPLY \<Rightarrow>
          (case coroutine_wait_queue_signal (ph_lock_id lk) (ph_lh_id lk) h of
             Inl e \<Rightarrow> Inl e
           | Inr h1 \<Rightarrow> Inr (h1, [])))"

type_synonym par_lock_req = u64

definition par_req :: "u32 \<Rightarrow> u32 \<Rightarrow> par_lock_req" where
  "par_req lkey requester = push_bit 32 (ucast lkey) OR ucast requester"

definition par_lock_acquire_async ::
  "par_build \<Rightarrow> u32 \<Rightarrow> u32 \<Rightarrow> lock_state \<Rightarrow> par_host \<Rightarrow> fl_error + par_lock_req \<times> par_host \<times> par_packet list" where
  "par_lock_acquire_async b lkey requester op h =
     (case add_to_wait_queue lkey requester h of
        Inl e \<Rightarrow> Inl e
      | Inr h1 \<Rightarrow>
          (case get_lock_server (ph_max_lock_num h) lkey of
             Inl e \<Rightarrow> Inl e
           | Inr server \<Rightarrow>
               (if server = ph_localhost h then
                  (case on_queue lkey (acquire_lock_local b (ph_localhost h) requester op) h1 of
                     Inl e \<Rightarrow> Inl e
                   | Inr (h2, ps) \<Rightarrow> Inr (par_req lkey requester, h2, ps))
                else
                  (case par_net_send server POST_LOCK_REQ op lkey (ph_localhost h) requester of
                     Inl e \<Rightarrow> Inl e
                   | Inr p \<Rightarrow> Inr (par_req lkey requester, h1, [p])))))"

definition par_lock_release ::
  "par_build \<Rightarrow> u32 \<Rightarrow> u32 \<Rightarrow> lock_state \<Rightarrow> par_host \<Rightarrow> fl_error + par_host \<times> par_packet list" where
  "par_lock_release b lkey requester op h =
     (case get_lock_server (ph_max_lock_num h) lkey of
        Inl e \<Rightarrow> Inl e
      | Inr server \<Rightarrow>
          (if server = ph_localhost h then
             on_queue lkey (release_lock_local b (ph_localhost h) requester op) h
           else
             (case par_net_send server POST_UNLOCK_REQ op lkey (ph_localhost h) requester of
                Inl e \<Rightarrow> Inl e
              | Inr p \<Rightarrow> Inr (h, [p]))))"

definition par_lock_req_granted :: "par_lock_req \<Rightarrow> par_host \<Rightarrow> fl_error + bool" where
  "par_lock_req_granted req h =
     coroutine_wait_queue_wait (ucast (drop_bit 32 req AND 0xffffffff)) (ucast (req AND 0xffffffff)) h"


section \<open>Properties\<close>

lemma par_lock_req_granted_eq:
  "par_lock_req_granted (par_req l r) h = coroutine_wait_queue_wait l r h"
  by (simp only: par_lock_req_granted_def par_req_def or_pair_decode)

lemma host_list_nth: "i < 8 \<Longrightarrow> unat ([1, 2, 3, 4, 5, 6, 7, 8 :: u8] ! i) = Suc i"
  by (simp add: less_Suc_eq eval_nat_numeral) (elim disjE; simp)

text \<open>
  The host that ParLock asks for a lock is the host that has initialised it, for every
  lock below the largest multiple of eight hosts' shares; the locks above it are directed to
  the last host, which has not initialised them.
\<close>

theorem par_lock_server_initialised:
  assumes "0 < lock_per_host n"
  shows "\<exists>s. get_lock_server n l = Inr s \<and> 1 \<le> unat s \<and> unat s \<le> 8 \<and>
     (l \<in> init_range n s \<longleftrightarrow> unat l < 8 * lock_per_host n)"
proof -
  let ?p = "lock_per_host n"
  define i where "i = (if 8 \<le> unat l div ?p then 7 else unat l div ?p)"
  have i: "i < 8" by (simp add: i_def)
  have g: "get_lock_server n l = Inr ([1, 2, 3, 4, 5, 6, 7, 8] ! i)"
    using assms by (simp add: get_lock_server_def Let_def i_def)
  have "?p * i \<le> unat l \<and> unat l < ?p * Suc i \<longleftrightarrow> unat l < 8 * ?p"
  proof (cases "8 \<le> unat l div ?p")
    case True
    then have "8 * ?p \<le> unat l" using assms by (metis div_le_mono less_eq_div_iff_mult_less_eq)
    with True show ?thesis by (simp add: i_def)
  next
    case False
    then have "unat l < 8 * ?p" using assms by (simp add: div_less_iff_less_mult not_le)
    moreover have "?p * (unat l div ?p) \<le> unat l" by simp
    moreover have "unat l < ?p * Suc (unat l div ?p)" using assms by (simp add: dividend_less_times_div)
    ultimately show ?thesis using False by (simp add: i_def)
  qed
  with g i show ?thesis by (simp add: host_list_nth init_range_def)
qed

theorem par_lock_server_initialised_witness:
  "\<exists>s. get_lock_server 1000 999 = Inr s \<and> 1 \<le> unat s \<and> unat s \<le> 8 \<and>
     (999 \<in> init_range 1000 s \<longleftrightarrow> unat (999 :: u32) < 8 * lock_per_host 1000)"
  by (rule par_lock_server_initialised) (simp add: lock_per_host_def)

text \<open>
  A remote lock request of ParLock, from the call to the grant: the client sends one
  request to the server of the lock; the server, where the lock is free, sends one reply;
  when the client receives it, and not before, its handle reports the lock as granted.
\<close>

theorem par_remote_acquire_granted:
  assumes "get_lock_server (ph_max_lock_num c) l = Inr (ph_localhost s)" "ph_localhost c \<noteq> ph_localhost s"
    and "ph_localhost c \<in> {1..8}" "ph_localhost s \<in> {1..8}"
    and "lock_wait_table c l = Some flags" "flags r = None"
    and "queue_per_lock s l = Some q" "par_lock_state q = STATE_FREE"
    and "op = LOCK_SHARED \<or> op = LOCK_EXCL"
  shows "\<exists>req c1 p s1 p' c2.
     par_lock_acquire_async par_default l r op c = Inr (req, c1, [p]) \<and> pp_dest p = ph_localhost s \<and>
     par_lock_req_granted req c1 = Inr False \<and>
     par_packet_dispatch par_default (pp_hdr p) s = Inr (s1, [p']) \<and> pp_dest p' = ph_localhost c \<and>
     par_packet_dispatch par_default (pp_hdr p') c1 = Inr (c2, []) \<and>
     par_lock_req_granted req c2 = Inr True"
proof -
  have d: "\<not> (x = 0 \<or> 8 < x)" if "x \<in> {1..8 :: u8}" for x using that by (auto simp: not_less)
  show ?thesis
    using assms d [OF assms(3)] d [OF assms(4)]
    by (auto simp: par_lock_acquire_async_def add_to_wait_queue_def map_insert_def par_net_send_def
        par_lock_req_granted_eq coroutine_wait_queue_wait_def par_packet_dispatch_def on_queue_def
        process_lock_req_def server_handle_exclusive_lock_def server_handle_shared_lock_def Let_def
        coroutine_wait_queue_signal_def)
qed


text \<open>Host \<open>me\<close> of a system with 1000 locks, after the initialisation of lock 200.\<close>

definition par_example :: "u8 \<Rightarrow> par_host" where
  "par_example me = par_lock_local_init 200
     \<lparr>ph_localhost = me, ph_max_lock_num = 1000, queue_per_lock = Map.empty, lock_wait_table = Map.empty\<rparr>"

lemmas par_example_defs = par_example_def par_lock_local_init_def init_lock_wait_table_def init_lock_def
  map_insert_def get_lock_server_def lock_per_host_def par_init_lock_def

theorem par_remote_acquire_granted_witness:
  "\<exists>req c1 p s1 p' c2.
     par_lock_acquire_async par_default 200 7 LOCK_EXCL (par_example 1) = Inr (req, c1, [p]) \<and>
     pp_dest p = ph_localhost (par_example 2) \<and> par_lock_req_granted req c1 = Inr False \<and>
     par_packet_dispatch par_default (pp_hdr p) (par_example 2) = Inr (s1, [p']) \<and>
     pp_dest p' = ph_localhost (par_example 1) \<and>
     par_packet_dispatch par_default (pp_hdr p') c1 = Inr (c2, []) \<and> par_lock_req_granted req c2 = Inr True"
  by (rule par_remote_acquire_granted [where flags = Map.empty and q = par_init_lock])
    (simp_all add: par_example_defs)

lemma flag_signal:
  "lock_wait_table h l = Some flags \<Longrightarrow> flags r = Some True \<Longrightarrow>
   coroutine_wait_queue_signal l x h = Inr h' \<Longrightarrow>
   \<exists>flags'. lock_wait_table h' l = Some flags' \<and> flags' r = Some True"
  by (auto simp: coroutine_wait_queue_signal_def split: option.splits)

lemma flag_run_outputs:
  "run_outputs l outs h = Inr (h', ps) \<Longrightarrow> lock_wait_table h l = Some flags \<Longrightarrow> flags r = Some True \<Longrightarrow>
   \<exists>flags'. lock_wait_table h' l = Some flags' \<and> flags' r = Some True"
proof (induction l outs h arbitrary: h' ps flags rule: run_outputs.induct)
  case (2 l x outs h)
  then obtain h1 where h1: "coroutine_wait_queue_signal l x h = Inr h1" "run_outputs l outs h1 = Inr (h', ps)"
    by (auto split: sum.splits)
  with 2 flag_signal [OF 2(3,4) h1(1)] show ?case by blast
qed (auto split: sum.splits)

text \<open>
  The wait flag of a ParLock requester is set by its first grant and never cleared: a
  later request of the same requester for the same lock is reported as granted as soon as
  it has been made, whether the lock is free or not.
\<close>

theorem par_second_request_reported_granted:
  assumes "lock_wait_table h l = Some flags" "flags r = Some True"
    and "par_lock_acquire_async b l r op h = Inr (req, h', ps)"
  shows "par_lock_req_granted req h' = Inr True"
proof -
  let ?h = "h\<lparr>lock_wait_table := (lock_wait_table h)(l \<mapsto> flags)\<rparr>"
  have a: "add_to_wait_queue l r h = Inr ?h"
    using assms(1,2) by (simp add: add_to_wait_queue_def map_insert_def)
  have "req = par_req l r \<and> (\<exists>flags'. lock_wait_table h' l = Some flags' \<and> flags' r = Some True)"
  proof (cases "get_lock_server (ph_max_lock_num h) l = Inr (ph_localhost h)")
    case True
    with assms(3) a obtain q f outs q1 where "req = par_req l r"
      "run_outputs l outs (?h\<lparr>queue_per_lock := (queue_per_lock ?h)(l \<mapsto> q1)\<rparr>) = Inr (h', ps)"
      by (auto simp: par_lock_acquire_async_def on_queue_def split: sum.splits option.splits)
    with flag_run_outputs [OF this(2), of flags r] assms(2) show ?thesis by simp
  next
    case False
    with assms a show ?thesis
      by (auto simp: par_lock_acquire_async_def par_net_send_def split: sum.splits if_splits)
  qed
  then show ?thesis by (auto simp: par_lock_req_granted_eq coroutine_wait_queue_wait_def)
qed

theorem par_second_request_reported_granted_witness:
  "\<exists>req h' ps. par_lock_acquire_async par_default 200 7 LOCK_EXCL
      ((par_example 2)\<lparr>lock_wait_table := [200 \<mapsto> [7 \<mapsto> True]],
         queue_per_lock := [200 \<mapsto> par_init_lock\<lparr>par_lock_state := STATE_EXCLUSIVE\<rparr>]\<rparr>) = Inr (req, h', ps) \<and>
     par_lock_req_granted req h' = Inr True"
proof -
  let ?h = "(par_example 2)\<lparr>lock_wait_table := [200 \<mapsto> [7 \<mapsto> True]],
         queue_per_lock := [200 \<mapsto> par_init_lock\<lparr>par_lock_state := STATE_EXCLUSIVE\<rparr>]\<rparr>"
  have "\<exists>x. par_lock_acquire_async par_default 200 7 LOCK_EXCL ?h = Inr x"
    by (simp add: par_lock_acquire_async_def par_example_defs add_to_wait_queue_def on_queue_def
        acquire_lock_local_def)
  then obtain req h' ps where r: "par_lock_acquire_async par_default 200 7 LOCK_EXCL ?h = Inr (req, h', ps)"
    by (metis surj_pair)
  have "par_lock_req_granted req h' = Inr True"
    by (rule par_second_request_reported_granted [OF _ _ r, of "[7 \<mapsto> True]"]) simp_all
  with r show ?thesis by blast
qed

end
