(* ===== verification/Par_Net.thy ===== *)
theory Par_Net
  imports Dpdk_Net Par_Host
begin

text \<open>
  The network module of the ParLock baseline (baseline/ParLock/lib/net.cc) on the bytes of
  the buffers: the header template of a host, the frame that is sent for a lock message, and
  the receive loop with its dispatch. The theorems connect the bytes with the packets of the
  host model and account for the buffers.
\<close>

section \<open>Addresses and messages\<close>

definition mac_list :: "u8 list list" where
  "mac_list =
     [[0x10, 0x70, 0xfd, 0x0d, 0xe2, 0x30], [0x08, 0xc0, 0xeb, 0xfd, 0x52, 0xc4],
      [0x08, 0xc0, 0xeb, 0xfe, 0x8c, 0x50], [0x10, 0x70, 0xfd, 0x0d, 0xe4, 0x48],
      [0x08, 0xc0, 0xeb, 0xde, 0x01, 0x56], [0x08, 0xc0, 0xeb, 0xdc, 0xb3, 0x0a],
      [0x08, 0xc0, 0xeb, 0xde, 0x01, 0x1a], [0x08, 0xc0, 0xeb, 0xdc, 0xa1, 0x5a]]"

definition host_list :: "u8 list" where
  "host_list = [1, 2, 3, 4, 5, 6, 7, 8]"

text \<open>The row of a host that is not in the list lies behind the table.\<close>

definition host_id_to_mac :: "u8 \<Rightarrow> fl_error + u8 list" where
  "host_id_to_mac i =
     (case index_first (\<lambda>h. h = i) host_list of None \<Rightarrow> Inl Out_of_bounds | Some k \<Rightarrow> Inr (mac_list ! k))"

text \<open>The row with index \<open>dest - 1\<close>.\<close>

definition mac_row :: "u8 \<Rightarrow> fl_error + u8 list" where
  "mac_row dest = (if dest = 0 \<or> 8 < dest then Inl Out_of_bounds else Inr (mac_list ! (unat dest - 1)))"

fun par_post_code :: "par_post \<Rightarrow> u8" where
  "par_post_code POST_LOCK_REQ = 1"
| "par_post_code POST_UNLOCK_REQ = 2"
| "par_post_code POST_LOCK_REPLY = 3"

definition par_post_of_code :: "u8 \<Rightarrow> par_post option" where
  "par_post_of_code x =
     (if x = 1 then Some POST_LOCK_REQ else if x = 2 then Some POST_UNLOCK_REQ
      else if x = 3 then Some POST_LOCK_REPLY else None)"

text \<open>The packed struct of a lock message, 11 bytes.\<close>

definition par_header_bytes :: "par_header \<Rightarrow> u8 list" where
  "par_header_bytes h =
     [par_post_code (post_type h), lock_state_code (ph_op h)] @ bytes32_le (ph_lock_id h) @ [ph_machine_id h] @
     bytes32_le (ph_lh_id h)"

definition read_par_header :: "u8 list \<Rightarrow> par_header option" where
  "read_par_header bs =
     map_option (\<lambda>t. \<lparr>post_type = t, ph_op = lock_state_of (bs ! 1), ph_lock_id = word32_le (drop 2 bs),
                      ph_machine_id = bs ! 6, ph_lh_id = word32_le (drop 7 bs)\<rparr>) (par_post_of_code (bs ! 0))"

section \<open>Sending\<close>

definition PAR_FRAME_SIZE :: nat where
  "PAR_FRAME_SIZE = FRAME_HDR_SIZE + 11"

definition par_header_template :: "u8 \<Rightarrow> fl_error + u8 list" where
  "par_header_template localhost =
     (case mac_row localhost of
        Inl e \<Rightarrow> Inl e
      | Inr mac \<Rightarrow>
          (let t = replicate PAR_FRAME_SIZE 0;
               t = put16 12 0x0800 t;
               t = put_bytes 6 mac t;
               t = put_bytes 0 mac t;
               t = put_bytes 26 (bytes32_le 167772672) t;
               t = put_bytes 30 (bytes32_le 167772673) t;
               t = put16 16 (20 + 11 + 8) t;
               t = t[23 := 17];
               t = t[14 := 0x45];
               t = put16 34 1234 t;
               t = put16 36 1234 t
           in Inr (put16 38 (8 + 11) t)))"

definition par_write_frame :: "u8 list \<Rightarrow> u32 \<Rightarrow> u8 \<Rightarrow> par_header \<Rightarrow> mbuf \<Rightarrow> fl_error + mbuf" where
  "par_write_frame tmpl txc dest h m =
     (if length (mb_data m) < PAR_FRAME_SIZE then Inl Out_of_bounds
      else
        (case mac_row dest of
           Inl e \<Rightarrow> Inl e
         | Inr mac \<Rightarrow>
             (let ip = 167772672 + txc mod 256;
                  d = put_bytes 0 tmpl (mb_data m);
                  d = put_bytes 0 mac d;
                  d = put_bytes 26 (bytes32_le ip) d;
                  d = put_bytes 30 (bytes32_le ip) d;
                  d = put16 36 (if post_type h = POST_LOCK_REQ \<or> post_type h = POST_UNLOCK_REQ
                                then SERVER_POST_TYPE else CLIENT_POST_TYPE) d;
                  d = put_bytes 42 (par_header_bytes h) d
              in Inr (m\<lparr>mb_data := d, data_len := of_nat PAR_FRAME_SIZE, pkt_len := of_nat PAR_FRAME_SIZE\<rparr>))))"

text \<open>A buffer that the NIC does not accept is freed, and the program stops.\<close>

definition par_dpdk_send :: "u8 list \<Rightarrow> mbuf option \<Rightarrow> nat \<Rightarrow> u8 \<Rightarrow> par_header \<Rightarrow> dpdk_core \<Rightarrow> fl_error + dpdk_core" where
  "par_dpdk_send tmpl pool acc dest h c =
     (case dpdk_get_mbuf pool c of
        (None, _) \<Rightarrow> Inl Error_exit
      | (Some m, c) \<Rightarrow>
          (case par_write_frame tmpl (tx_count c) dest h m of
             Inl e \<Rightarrow> Inl e
           | Inr m \<Rightarrow>
               (let (txc, c) = dpdk_send acc m c in
                if txc \<noteq> 1 then Inl Assertion_failed else Inr (c\<lparr>tx_count := tx_count c + 1\<rparr>))))"

section \<open>Receiving\<close>

text \<open>A missing dispatcher is called all the same.\<close>

definition par_dispatch :: "(u8 \<Rightarrow> (par_header \<Rightarrow> 's \<Rightarrow> fl_error + 's) option) \<Rightarrow> u8 list \<Rightarrow> 's \<Rightarrow> fl_error + 's" where
  "par_dispatch ds bs s =
     (case read_par_header bs of
        None \<Rightarrow> Inl Out_of_bounds
      | Some h \<Rightarrow> (case ds (par_post_code (post_type h)) of None \<Rightarrow> Inl Invalid_pointer | Some f \<Rightarrow> f h s))"

definition par_poll_one ::
  "(u8 \<Rightarrow> (par_header \<Rightarrow> 's \<Rightarrow> fl_error + 's) option) \<Rightarrow> mbuf \<Rightarrow> 's \<times> dpdk_core \<Rightarrow> fl_error + 's \<times> dpdk_core" where
  "par_poll_one ds m = (\<lambda>(s, c).
     (if length (mb_data m) < PAR_FRAME_SIZE then Inl Out_of_bounds
      else if get16 34 (mb_data m) \<noteq> 1234 then Inr (s, rte_pktmbuf_free m c)
      else
        (let hd = get_bytes 42 11 (mb_data m); c = rte_pktmbuf_free m c in
         case par_dispatch ds hd s of Inl e \<Rightarrow> Inl e | Inr s \<Rightarrow> Inr (s, c))))"

definition par_net_poll_packets ::
  "(u8 \<Rightarrow> (par_header \<Rightarrow> 's \<Rightarrow> fl_error + 's) option) \<Rightarrow> mbuf list \<Rightarrow> 's \<times> dpdk_core \<Rightarrow> fl_error + nat \<times> 's \<times> dpdk_core" where
  "par_net_poll_packets ds rx = (\<lambda>(s, c).
     (let (bufs, c) = dpdk_poll_recvs rx c in
      case receive_loop (par_poll_one ds) bufs (s, c) of Inl e \<Rightarrow> Inl e | Inr sc \<Rightarrow> Inr (length bufs, sc)))"

interpretation par: receive_turn "par_poll_one ds" "\<lambda>m. m" for ds :: "u8 \<Rightarrow> (par_header \<Rightarrow> 's \<Rightarrow> fl_error + 's) option"
proof
  fix m s c s' c'
  assume "par_poll_one ds m (s, c) = Inr (s', c')"
  then show "taken c' = taken c \<and> handed_over c' = handed_over c + {#mb_addr m#}"
    by (auto simp: par_poll_one_def Let_def split: if_splits sum.splits)
qed

section \<open>Messages arrive as they were sent\<close>

lemma read_par_header_bytes: "read_par_header (par_header_bytes h) = Some h"
proof -
  have "word32_le (drop 2 (par_header_bytes h)) = ph_lock_id h" "word32_le (drop 7 (par_header_bytes h)) = ph_lh_id h"
    using word32_le_bytes by (simp_all add: par_header_bytes_def bytes32_le_def word32_le_def)
  moreover have "par_header_bytes h ! 0 = par_post_code (post_type h)" "par_header_bytes h ! 1 = lock_state_code (ph_op h)"
    "par_header_bytes h ! 6 = ph_machine_id h"
    by (simp_all add: par_header_bytes_def bytes32_le_def)
  moreover have "par_post_of_code (par_post_code t) = Some t" for t by (cases t) (simp_all add: par_post_of_code_def)
  ultimately show ?thesis by (simp add: read_par_header_def del: One_nat_def)
qed

lemma length_par_header_bytes [simp]: "length (par_header_bytes h) = 11"
  by (simp add: par_header_bytes_def)

lemma length_mac_row: "mac_row d = Inr mac \<Longrightarrow> length mac = 6"
proof -
  assume a: "mac_row d = Inr mac"
  then have "unat d - 1 < length mac_list" "mac = mac_list ! (unat d - 1)"
    by (auto simp: mac_row_def mac_list_def word_less_nat_alt split: if_splits)
  then have "mac \<in> set mac_list" by simp
  then show ?thesis by (auto simp: mac_list_def)
qed

lemma par_template_fields:
  assumes "par_header_template me = Inr tmpl"
  shows "length tmpl = 53" and "get16 34 tmpl = 1234" and "get16 16 tmpl = 39" and "get16 38 tmpl = 19"
proof -
  obtain mac where mac: "mac_row me = Inr mac" using assms by (auto simp: par_header_template_def split: sum.splits)
  note l = length_mac_row [OF mac]
  show "length tmpl = 53" "get16 34 tmpl = 1234" "get16 16 tmpl = 39" "get16 38 tmpl = 19"
    using assms mac l
    by (auto simp: par_header_template_def PAR_FRAME_SIZE_def FRAME_HDR_SIZE_def Let_def get16_list_update)
qed

text \<open>
  C28. A ParLock message arrives as it was sent. The frame that the network module writes for a
  packet of the host model has the hardware address of the destination and the port of the
  packet, its lengths are those of the frame, and a host that polls the frame frees the buffer
  and runs the dispatcher for the message once, on the header of the packet.
\<close>

theorem par_message_arrives:
  assumes "par_header_template me = Inr tmpl" and "53 \<le> length (mb_data m)"
    and "par_net_send dest t op lock_id host lh_id = Inr pkt"
  shows "\<exists>m' c'. par_dpdk_send tmpl (Some m) 1 dest (pp_hdr pkt) c = Inr c' \<and> tx_queue c' = tx_queue c @ [m'] \<and>
           get_bytes 0 6 (mb_data m') = mac_list ! (unat (pp_dest pkt) - 1) \<and>
           get16 36 (mb_data m') = pp_dst_port pkt \<and>
           data_len m' = 53 \<and> get16 16 (mb_data m') = 53 - 14 \<and> get16 38 (mb_data m') = 53 - 34 \<and>
           par_poll_one ds m' (s, cr) =
             (case ds (par_post_code t) of
                None \<Rightarrow> Inl Invalid_pointer
              | Some f \<Rightarrow> (case f (pp_hdr pkt) s of Inl e \<Rightarrow> Inl e | Inr s' \<Rightarrow> Inr (s', rte_pktmbuf_free m' cr)))"
proof -
  have d: "\<not> (dest = 0 \<or> 8 < dest)" using assms(3) by (auto simp: par_net_send_def split: if_splits)
  then have mac: "mac_row dest = Inr (mac_list ! (unat dest - 1))" by (simp add: mac_row_def)
  note l = length_mac_row [OF mac]
  note tf = par_template_fields [OF assms(1)]
  have p: "pp_dest pkt = dest" "post_type (pp_hdr pkt) = t"
    "pp_dst_port pkt = (if t = POST_LOCK_REQ \<or> t = POST_UNLOCK_REQ then SERVER_POST_TYPE else CLIENT_POST_TYPE)"
    using assms(3) d by (auto simp: par_net_send_def split: if_splits)
  let ?d0 = "put_bytes 0 tmpl (mb_data m)"
  have d0: "length ?d0 = length (mb_data m)" "get16 34 ?d0 = 1234" "get16 16 ?d0 = 39" "get16 38 ?d0 = 19"
    using tf assms(2) by (auto simp: put_bytes_def get16_def nth_append)
  obtain m' where m': "par_write_frame tmpl (tx_count (snd (dpdk_get_mbuf (Some m) c))) dest (pp_hdr pkt) m = Inr m'"
    "length (mb_data m') = length (mb_data m)"
    "get_bytes 0 6 (mb_data m') = mac_list ! (unat dest - 1)" "get16 36 (mb_data m') = pp_dst_port pkt"
    "data_len m' = 53" "get16 34 (mb_data m') = 1234" "get16 16 (mb_data m') = 39" "get16 38 (mb_data m') = 19"
    "get_bytes 42 11 (mb_data m') = par_header_bytes (pp_hdr pkt)"
    using assms(2) l d0 p by (simp add: par_write_frame_def PAR_FRAME_SIZE_def FRAME_HDR_SIZE_def mac Let_def)
  have "par_poll_one ds m' (s, cr) =
             (case ds (par_post_code t) of
                None \<Rightarrow> Inl Invalid_pointer
              | Some f \<Rightarrow> (case f (pp_hdr pkt) s of Inl e \<Rightarrow> Inl e | Inr s' \<Rightarrow> Inr (s', rte_pktmbuf_free m' cr)))"
    using m' assms(2) p
    by (simp add: par_poll_one_def PAR_FRAME_SIZE_def FRAME_HDR_SIZE_def par_dispatch_def read_par_header_bytes Let_def
        split: option.split)
  then show ?thesis using m' p by (simp add: par_dpdk_send_def dpdk_get_mbuf_def dpdk_send_def Let_def)
qed

definition example_release :: par_header where
  "example_release = \<lparr>post_type = POST_UNLOCK_REQ, ph_op = LOCK_EXCL, ph_lock_id = 5, ph_machine_id = 1, ph_lh_id = 9\<rparr>"

theorem par_message_arrives_witness:
  "\<exists>tmpl m' c'. par_header_template 1 = Inr tmpl \<and>
     par_dpdk_send tmpl (Some example_mbuf) 1 2 example_release example_core = Inr c' \<and> tx_queue c' = [m'] \<and>
     get16 36 (mb_data m') = SERVER_POST_TYPE \<and>
     par_poll_one (\<lambda>t. Some (\<lambda>h s. Inr (h # s))) m' ([], example_core) = Inr ([example_release], rte_pktmbuf_free m' example_core)"
proof -
  obtain tmpl where t: "par_header_template 1 = Inr tmpl"
    by (simp add: par_header_template_def mac_row_def word_less_nat_alt)
  show ?thesis
    using par_message_arrives [OF t, of example_mbuf 2 POST_UNLOCK_REQ LOCK_EXCL 5 1 9 _ example_core
        "\<lambda>t. Some (\<lambda>h s. Inr (h # s))" "[]" example_core] t
    by (auto simp: par_net_send_def example_release_def example_mbuf_def example_core_def word_less_nat_alt)
qed

text \<open>A ParLock host frees every buffer that it receives.\<close>

lemma par_poll_outstanding:
  assumes "outstanding K c" and "par_net_poll_packets ds rx (s, c) = Inr (n, s', c')"
  shows "outstanding K c'"
proof -
  let ?b = "take DPDK_RX_BURST_SIZE rx"
  from assms(2) have "receive_loop (par_poll_one ds) ?b (s, c\<lparr>taken := taken c @ map (mb_addr \<circ> (\<lambda>m. m)) ?b\<rparr>) = Inr (s', c')"
    by (auto simp: par_net_poll_packets_def dpdk_poll_recvs_def comp_def Let_def split: sum.splits)
  from par.burst_outstanding [OF assms(1) this] show ?thesis .
qed

end
