(* ===== verification/Net_Queue.thy ===== *)
theory Net_Queue
  imports Lock_Manager_Spec
begin

text \<open>
  The lock server of the NetLock baseline (baseline/NetLock/lib): the queue of requests per
  lock (request.cc), the parsing of a received frame into a request, the frames the server
  sends (net.cc), and the handlers of a server as primary and as secondary backup of the
  switch (lock_server.cc). A handler runs on the queue of its lock with the mutex held and
  returns the queue and the frames it sends. Timers and counters are left out.
\<close>

section \<open>Requests and frames (lock.h, post.h)\<close>

definition ACQUIRE_LOCK :: u8 where "ACQUIRE_LOCK = 0"
definition RELEASE_LOCK :: u8 where "RELEASE_LOCK = 1"
definition PUSH_BACK_LOCK :: u8 where "PUSH_BACK_LOCK = 2"
definition GRANT_LOCK_FROM_SERVER :: u8 where "GRANT_LOCK_FROM_SERVER = 3"
definition DIRECT_GRANT_FROM_SWITCH :: u8 where "DIRECT_GRANT_FROM_SWITCH = 4"
definition MEM_DIFF :: u8 where "MEM_DIFF = 5"
definition PRIMARY_BACKUP :: u8 where "PRIMARY_BACKUP = 1"
definition SECONDARY_BACKUP :: u8 where "SECONDARY_BACKUP = 2"
definition SHARED :: u8 where "SHARED = 0"
definition EXCLUSIVE :: u8 where "EXCLUSIVE = 1"
definition LK_PORT :: u16 where "LK_PORT = 8888"

lemmas nl_codes = ACQUIRE_LOCK_def RELEASE_LOCK_def PUSH_BACK_LOCK_def GRANT_LOCK_FROM_SERVER_def
  DIRECT_GRANT_FROM_SWITCH_def MEM_DIFF_def PRIMARY_BACKUP_def SECONDARY_BACKUP_def
  SHARED_def EXCLUSIVE_def LK_PORT_def

record lock_queue_node =
  nd_op_type :: u8
  nd_mode :: u8
  nd_client_id :: u8
  nd_txn_id :: u32
  nd_lock_id :: u32
  nd_ip_src :: u32
  nd_role :: u8
  nd_payload :: "u8 list"

record nl_header =
  nh_op_type :: u8
  nh_mode :: u8
  nh_client_id :: u8
  nh_txn_id :: u32
  nh_lock_id :: u32
  nh_ncnt :: u8
  nh_transferred :: u8

record nl_frame =
  eth_src :: "u8 list"
  eth_dst :: "u8 list"
  ip_src_addr :: u32
  ip_dst_addr :: u32
  udp_dst_port :: u16
  nl_hdr :: nl_header
  nl_payload :: "u8 list"

text \<open>\<open>mbuf_to_node\<close>; the two hardware addresses of a frame have six bytes.\<close>

definition mbuf_to_node :: "nl_frame \<Rightarrow> lock_queue_node" where
  "mbuf_to_node f =
     (let h = nl_hdr f; s = eth_src f in
      \<lparr>nd_op_type = nh_op_type h, nd_mode = nh_mode h, nd_client_id = nh_client_id h,
       nd_txn_id = ntohl (nh_txn_id h), nd_lock_id = ntohl (nh_lock_id h),
       nd_ip_src = ucast (s ! 2) OR push_bit 8 (ucast (s ! 3)) OR push_bit 16 (ucast (s ! 4)) OR
                   push_bit 24 (ucast (s ! 5)),
       nd_role = eth_dst f ! 5, nd_payload = nl_payload f\<rparr>)"

definition mac_src_addr :: "u8 list" where
  "mac_src_addr = [0xaa, 0xbb, 0xcc, 0xdd, 0xee, 0xff]"

definition mac_dst_addr :: "u8 list" where
  "mac_dst_addr = [0x01, 0x11, 0x22, 0x33, 0x44, 0x01]"

text \<open>
  The frame a client sends, from the header template of the host. The addresses of the two
  ends are parameters, as is the payload that a registered packet modifier appends.
\<close>

definition generate_header :: "u8 \<Rightarrow> u32 \<Rightarrow> u32 \<Rightarrow> u8 list \<Rightarrow> u32 \<Rightarrow> u8 \<Rightarrow> u32 \<Rightarrow> u8 \<Rightarrow> nl_frame" where
  "generate_header me src_ip dst_ip modifier txn_id action_type lock_id lock_type =
     \<lparr>eth_src = mac_src_addr, eth_dst = mac_dst_addr, ip_src_addr = src_ip, ip_dst_addr = dst_ip,
      udp_dst_port = LK_PORT,
      nl_hdr = \<lparr>nh_op_type = action_type, nh_mode = lock_type, nh_client_id = me,
                nh_txn_id = htonl txn_id, nh_lock_id = htonl lock_id, nh_ncnt = 0, nh_transferred = 0\<rparr>,
      nl_payload = modifier\<rparr>"

text \<open>The frame the server sends for a request; the counter is truncated to eight bits.\<close>

definition net_send_lock_server :: "lock_queue_node \<Rightarrow> u8 \<Rightarrow> u8 \<Rightarrow> int \<Rightarrow> nl_frame" where
  "net_send_lock_server node action_type transferred seqnum =
     \<lparr>eth_src = mac_src_addr, eth_dst = mac_dst_addr,
      ip_src_addr = nd_ip_src node, ip_dst_addr = nd_ip_src node, udp_dst_port = LK_PORT,
      nl_hdr = \<lparr>nh_op_type = action_type, nh_mode = nd_mode node, nh_client_id = nd_client_id node,
                nh_txn_id = htonl (nd_txn_id node), nh_lock_id = htonl (nd_lock_id node),
                nh_ncnt = of_int seqnum, nh_transferred = transferred\<rparr>,
      nl_payload = nd_payload node\<rparr>"

section \<open>Queue operations (request.cc)\<close>

datatype nl_state = NL_FREE | NL_SHARED | NL_EXCLUSIVE

record node_queue =
  node_list :: "lock_queue_node list"
  nl_shared_counter :: int
  nl_exclusive_counter :: int
  nl_lock_state :: nl_state
  seqnum :: int
  ticket_id :: int

definition init_lock_queue :: node_queue where
  "init_lock_queue =
     \<lparr>node_list = [], nl_shared_counter = 0, nl_exclusive_counter = 0, nl_lock_state = NL_FREE,
      seqnum = 0, ticket_id = 0\<rparr>"

definition nl_enqueue_request :: "lock_queue_node \<Rightarrow> node_queue \<Rightarrow> node_queue" where
  "nl_enqueue_request n q = q\<lparr>node_list := node_list q @ [n]\<rparr>"

definition nl_dequeue_request :: "node_queue \<Rightarrow> lock_queue_node option \<times> node_queue" where
  "nl_dequeue_request q =
     (case node_list q of [] \<Rightarrow> (None, q) | n # ns \<Rightarrow> (Some n, q\<lparr>node_list := ns\<rparr>))"

definition nl_get_head_request :: "node_queue \<Rightarrow> lock_queue_node option" where
  "nl_get_head_request q = (case node_list q of [] \<Rightarrow> None | n # _ \<Rightarrow> Some n)"

definition nl_get_shared_requests :: "node_queue \<Rightarrow> lock_queue_node list" where
  "nl_get_shared_requests q = filter (\<lambda>n. nd_mode n = SHARED) (node_list q)"

definition get_request :: "nat \<Rightarrow> node_queue \<Rightarrow> fl_error + lock_queue_node" where
  "get_request i q = (if i < length (node_list q) then Inr (node_list q ! i) else Inl Out_of_bounds)"

definition nl_set_lock_state :: "nl_state \<Rightarrow> node_queue \<Rightarrow> node_queue" where
  "nl_set_lock_state st q = q\<lparr>nl_lock_state := st\<rparr>"

definition nl_add_shared_counter :: "node_queue \<Rightarrow> node_queue" where
  "nl_add_shared_counter q = q\<lparr>nl_shared_counter := nl_shared_counter q + 1\<rparr>"

definition nl_sub_shared_counter :: "node_queue \<Rightarrow> node_queue" where
  "nl_sub_shared_counter q = q\<lparr>nl_shared_counter := nl_shared_counter q - 1\<rparr>"

definition add_seqnum :: "node_queue \<Rightarrow> node_queue" where
  "add_seqnum q = q\<lparr>seqnum := seqnum q + 1\<rparr>"

text \<open>\<open>block_queue\<close> takes the mutex and counts the acquisition.\<close>

definition block_queue :: "node_queue \<Rightarrow> node_queue" where
  "block_queue q = q\<lparr>ticket_id := ticket_id q + 1\<rparr>"

definition is_request :: "u32 \<Rightarrow> u32 \<Rightarrow> u8 \<Rightarrow> u8 \<Rightarrow> lock_queue_node \<Rightarrow> bool" where
  "is_request lock_id requester host op n \<longleftrightarrow>
     nd_client_id n = host \<and> nd_lock_id n = lock_id \<and> nd_txn_id n = requester \<and> nd_mode n = op"

definition nl_erase_lock_request :: "u32 \<Rightarrow> u32 \<Rightarrow> u8 \<Rightarrow> u8 \<Rightarrow> node_queue \<Rightarrow> int \<times> node_queue" where
  "nl_erase_lock_request lock_id requester host op q =
     (case index_first (is_request lock_id requester host op) (node_list q) of
        None \<Rightarrow> (0, q)
      | Some i \<Rightarrow>
          (int i, q\<lparr>node_list := erase_first (is_request lock_id requester host op) (node_list q)\<rparr>))"

lemmas [net_defs] =
  nl_enqueue_request_def nl_dequeue_request_def nl_get_head_request_def nl_set_lock_state_def
  nl_add_shared_counter_def nl_sub_shared_counter_def add_seqnum_def block_queue_def

section \<open>Primary backup (lock_server.cc)\<close>

type_synonym nl_result = "node_queue \<times> nl_frame list"

definition process_primary_acquire :: "lock_queue_node \<Rightarrow> node_queue \<Rightarrow> nl_result" where
  "process_primary_acquire n q0 =
     (let q = nl_enqueue_request n (block_queue q0) in
      if nd_mode n = SHARED then
        (if nl_lock_state q = NL_FREE \<or> nl_lock_state q = NL_SHARED then
           (let q1 = nl_add_shared_counter (nl_set_lock_state NL_SHARED q)
            in (q1, [net_send_lock_server n GRANT_LOCK_FROM_SERVER 0 (seqnum q1)]))
         else (q, []))
      else if nd_mode n = EXCLUSIVE then
        (if nl_lock_state q = NL_FREE then
           (let q1 = nl_set_lock_state NL_EXCLUSIVE q
            in (q1, [net_send_lock_server n GRANT_LOCK_FROM_SERVER 0 (seqnum q1)]))
         else (q, []))
      else (q, []))"

text \<open>Hand the lock and the payload of the released request to the request at the head.\<close>

definition schedule_exclusive :: "lock_queue_node \<Rightarrow> lock_queue_node \<Rightarrow> node_queue \<Rightarrow> nl_result" where
  "schedule_exclusive n h q =
     (let q1 = nl_set_lock_state NL_EXCLUSIVE q;
          h1 = h\<lparr>nd_payload := nd_payload n\<rparr>
      in (q1\<lparr>node_list := h1 # tl (node_list q1)\<rparr>,
          [net_send_lock_server h1 GRANT_LOCK_FROM_SERVER 1 (seqnum q1)]))"

text \<open>Grant all shared requests in the queue, which stay there with the new payload.\<close>

definition schedule_shared :: "lock_queue_node \<Rightarrow> node_queue \<Rightarrow> nl_result" where
  "schedule_shared n q =
     (let q1 = nl_set_lock_state NL_SHARED q;
          give = (\<lambda>m. if nd_mode m = SHARED then m\<lparr>nd_payload := nd_payload n\<rparr> else m);
          q2 = q1\<lparr>node_list := map give (node_list q1),
                  nl_shared_counter := nl_shared_counter q1 + int (length (nl_get_shared_requests q1))\<rparr>
      in (q2, map (\<lambda>m. net_send_lock_server m GRANT_LOCK_FROM_SERVER 1 (seqnum q1))
                (nl_get_shared_requests q2)))"

definition process_primary_release :: "lock_queue_node \<Rightarrow> node_queue \<Rightarrow> nl_result" where
  "process_primary_release n q0 =
     (let (ret, q) = nl_erase_lock_request (nd_lock_id n) (nd_txn_id n) (nd_client_id n) (nd_mode n)
                       (block_queue q0) in
      if nd_mode n = SHARED then
        (if nl_lock_state q = NL_SHARED then
           (let q1 = nl_sub_shared_counter q in
            if 0 < nl_shared_counter q1 then (q1, [])
            else
              (let q2 = nl_set_lock_state NL_FREE q1 in
               case nl_get_head_request q2 of
                 None \<Rightarrow> (add_seqnum q2, [])
               | Some h \<Rightarrow>
                   (if nd_mode h = EXCLUSIVE then schedule_exclusive n h q2
                    else if nd_mode h = SHARED then (q2, [])
                    else (add_seqnum q2, []))))
         else (q, []))
      else if nd_mode n = EXCLUSIVE then
        (if nl_lock_state q = NL_EXCLUSIVE \<and> ret = 0 then
           (let q1 = nl_set_lock_state NL_FREE q in
            case nl_get_head_request q1 of
              None \<Rightarrow> (add_seqnum q1, [])
            | Some h \<Rightarrow>
                (if nd_mode h = EXCLUSIVE then schedule_exclusive n h q1
                 else if nd_mode h = SHARED then schedule_shared n q1
                 else (add_seqnum q1, [])))
         else (q, []))
      else (q, []))"

definition process_primary_backup :: "lock_queue_node \<Rightarrow> node_queue \<Rightarrow> nl_result" where
  "process_primary_backup n q =
     (if nd_op_type n = ACQUIRE_LOCK then process_primary_acquire n q
      else if nd_op_type n = RELEASE_LOCK then process_primary_release n q
      else (q, []))"

section \<open>Secondary backup\<close>

definition process_secondary_acquire :: "lock_queue_node \<Rightarrow> node_queue \<Rightarrow> nl_result" where
  "process_secondary_acquire n q = (nl_enqueue_request n (block_queue q), [])"

fun push_back_loop :: "nat \<Rightarrow> nat \<Rightarrow> node_queue \<Rightarrow> nl_frame list \<Rightarrow> fl_error + nl_frame list" where
  "push_back_loop 0 i q out = Inr out"
| "push_back_loop (Suc m) i q out =
     (case get_request i q of
        Inl e \<Rightarrow> Inl e
      | Inr n \<Rightarrow> push_back_loop m (Suc i) q (out @ [net_send_lock_server n PUSH_BACK_LOCK 0 (seqnum q)]))"

fun dequeue_loop :: "nat \<Rightarrow> node_queue \<Rightarrow> node_queue" where
  "dequeue_loop 0 q = q"
| "dequeue_loop (Suc m) q = dequeue_loop m (snd (nl_dequeue_request q))"

definition process_secondary_release :: "int \<Rightarrow> lock_queue_node \<Rightarrow> node_queue \<Rightarrow> fl_error + nl_result" where
  "process_secondary_release len_on_switch n q0 =
     (let q = block_queue q0;
          len_in_server = int (length (node_list q));
          dequeue_length = (if len_in_server < len_on_switch then len_in_server else len_on_switch) in
      case push_back_loop (nat dequeue_length) 0 q [] of
        Inl e \<Rightarrow> Inl e
      | Inr out \<Rightarrow> Inr (dequeue_loop (nat dequeue_length) q, out))"

definition process_secondary_backup :: "int \<Rightarrow> lock_queue_node \<Rightarrow> node_queue \<Rightarrow> fl_error + nl_result" where
  "process_secondary_backup len_on_switch n q =
     (if nd_op_type n = ACQUIRE_LOCK \<or> nd_op_type n = PUSH_BACK_LOCK
      then Inr (process_secondary_acquire n q)
      else if nd_op_type n = RELEASE_LOCK then process_secondary_release len_on_switch n q
      else Inr (q, []))"

section \<open>The server (request.cc, server/main.cc)\<close>

text \<open>
  The queues of all locks and, for each lock, how many requests the switch can hold. A
  request for an unknown lock ends the server.
\<close>

record nl_server =
  nl_lock_queue :: "u32 \<rightharpoonup> node_queue"
  len_in_switch :: "u32 \<rightharpoonup> int"

definition nl_init_all_locks :: "nat \<Rightarrow> u32 \<rightharpoonup> node_queue" where
  "nl_init_all_locks max_lock_num = (\<lambda>i. if unat i < max_lock_num then Some init_lock_queue else None)"

text \<open>The switch lengths without a configuration file (\<open>map_obj\<close> unset).\<close>

definition init_len_in_switch :: "nat \<Rightarrow> u32 \<rightharpoonup> int" where
  "init_len_in_switch max_lock_num = (\<lambda>i. if unat i < max_lock_num then Some 10 else None)"

definition nl_server_main :: "nat \<Rightarrow> nl_server" where
  "nl_server_main max_lock_num =
     \<lparr>nl_lock_queue = nl_init_all_locks max_lock_num, len_in_switch = init_len_in_switch max_lock_num\<rparr>"

text \<open>One received frame in \<open>rx_loop\<close>.\<close>

definition rx_frame :: "nl_frame \<Rightarrow> nl_server \<Rightarrow> fl_error + nl_server \<times> nl_frame list" where
  "rx_frame f s =
     (let n = mbuf_to_node f; i = nd_lock_id n;
          put = (\<lambda>q. s\<lparr>nl_lock_queue := (nl_lock_queue s)(i \<mapsto> q)\<rparr>) in
      if nd_role n = PRIMARY_BACKUP then
        (if nd_op_type n = ACQUIRE_LOCK \<or> nd_op_type n = RELEASE_LOCK then
           (case nl_lock_queue s i of
              None \<Rightarrow> Inl Error_exit
            | Some q \<Rightarrow> (let (q1, out) = process_primary_backup n q in Inr (put q1, out)))
         else Inr (s, []))
      else if nd_role n = SECONDARY_BACKUP then
        (if nd_op_type n = ACQUIRE_LOCK \<or> nd_op_type n = PUSH_BACK_LOCK \<or> nd_op_type n = RELEASE_LOCK then
           (case nl_lock_queue s i of
              None \<Rightarrow> Inl Error_exit
            | Some q \<Rightarrow>
                (case len_in_switch s i of
                   None \<Rightarrow> Inl Out_of_bounds
                 | Some len \<Rightarrow>
                     (case process_secondary_backup len n q of
                        Inl e \<Rightarrow> Inl e
                      | Inr (q1, out) \<Rightarrow> Inr (put q1, out))))
         else Inr (s, []))
      else Inr (s, []))"

section \<open>Frames and the secondary queue\<close>

text \<open>
  A request survives the network: the node that the NetLock server parses from the frame
  of a client, or from a frame a server has sent, has the lock, the transaction, the client
  and the mode of the request, and its payload.
\<close>

theorem nl_frame_roundtrip:
  "(let m = mbuf_to_node (generate_header me src dst md txn act lid lock_type) in
      nd_lock_id m = lid \<and> nd_txn_id m = txn \<and> nd_client_id m = me \<and> nd_mode m = lock_type \<and>
      nd_op_type m = act \<and> nd_role m = PRIMARY_BACKUP \<and> nd_payload m = md) \<and>
   mbuf_to_node (net_send_lock_server n act' tr sq) =
     n\<lparr>nd_op_type := act', nd_role := PRIMARY_BACKUP,
       nd_ip_src := nd_ip_src (mbuf_to_node (net_send_lock_server n act' tr sq))\<rparr>"
  by (simp add: mbuf_to_node_def generate_header_def net_send_lock_server_def Let_def
      mac_dst_addr_def PRIMARY_BACKUP_def)

lemma push_back_loop_eq:
  "i + m \<le> length (node_list q) \<Longrightarrow>
   push_back_loop m i q out =
     Inr (out @ map (\<lambda>n. net_send_lock_server n PUSH_BACK_LOCK 0 (seqnum q)) (take m (drop i (node_list q))))"
proof (induction m arbitrary: i out)
  case 0
  then show ?case by simp
next
  case (Suc m)
  then have i: "i < length (node_list q)" by simp
  have "take (Suc m) (drop i (node_list q)) = node_list q ! i # take m (drop (Suc i) (node_list q))"
    using i by (simp add: Cons_nth_drop_Suc [symmetric])
  with Suc i show ?case by (simp add: get_request_def)
qed

lemma dequeue_loop_eq: "dequeue_loop m q = q\<lparr>node_list := drop m (node_list q)\<rparr>"
  by (induction m q rule: dequeue_loop.induct)
    (auto simp: nl_dequeue_request_def drop_Suc split: list.split)

text \<open>
  When the switch reports room, the secondary backup pushes back as many requests as the
  switch can hold, or all if there are fewer: the oldest ones, in their order, each exactly
  once; the others stay queued in their order.
\<close>

theorem secondary_release_pushes_back_oldest:
  "process_secondary_release len_on_switch n q =
     (let m = nat (min len_on_switch (int (length (node_list q)))) in
      Inr (q\<lparr>node_list := drop m (node_list q), ticket_id := ticket_id q + 1\<rparr>,
           map (\<lambda>d. net_send_lock_server d PUSH_BACK_LOCK 0 (seqnum q)) (take m (node_list q))))"
proof -
  have "nat (if int (length (node_list q)) < len_on_switch then int (length (node_list q)) else len_on_switch)
      = nat (min len_on_switch (int (length (node_list q))))" by (auto simp: min_def)
  moreover have "nat (min len_on_switch (int (length (node_list q)))) \<le> length (node_list q)" by auto
  ultimately show ?thesis
    by (simp add: process_secondary_release_def Let_def block_queue_def push_back_loop_eq dequeue_loop_eq)
qed

end
