(* ===== verification/Net_Manager.thy ===== *)
theory Net_Manager
  imports Net_Queue
begin

text \<open>
  Correctness of the NetLock server as primary backup: on the frames of its clients it
  implements an abortable reader-writer lock manager. Its queue keeps the requests that own
  the lock together with those that wait.
\<close>

section \<open>One lock as a state machine\<close>

fun access_mode :: "access \<Rightarrow> u8" where
  "access_mode Rd = SHARED"
| "access_mode Wr = EXCLUSIVE"

lemma shared_neq_exclusive [simp]: "SHARED \<noteq> EXCLUSIVE" "EXCLUSIVE \<noteq> SHARED"
  by (simp_all add: SHARED_def EXCLUSIVE_def)

lemma access_mode_iff [simp]:
  "access_mode a = SHARED \<longleftrightarrow> a = Rd" "access_mode a = EXCLUSIVE \<longleftrightarrow> a = Wr"
  "SHARED = access_mode a \<longleftrightarrow> a = Rd" "EXCLUSIVE = access_mode a \<longleftrightarrow> a = Wr"
  by (cases a; simp)+

lemma access_mode_inject [simp]: "access_mode a = access_mode c \<longleftrightarrow> a = c"
  by (cases a; cases c) simp_all

definition nl_key :: "lock_queue_node \<Rightarrow> u8 \<times> u32" where
  "nl_key n = (nd_client_id n, nd_txn_id n)"

definition nl_grants :: "nl_frame list \<Rightarrow> (u8 \<times> u32) list" where
  "nl_grants fs = map (\<lambda>f. (nh_client_id (nl_hdr f), ntohl (nh_txn_id (nl_hdr f))))
     (filter (\<lambda>f. nh_op_type (nl_hdr f) = GRANT_LOCK_FROM_SERVER) fs)"

text \<open>The node of a client request, as the server parses it from the client's frame.\<close>

definition nl_request :: "u32 \<Rightarrow> u8 \<times> u32 \<Rightarrow> access \<Rightarrow> u8 \<Rightarrow> lock_queue_node" where
  "nl_request lid r a act =
     mbuf_to_node (generate_header (fst r) 0 0 [] (snd r) act lid (access_mode a))"

definition nl_acq :: "u32 \<Rightarrow> u8 \<times> u32 \<Rightarrow> access \<Rightarrow> node_queue \<Rightarrow> (node_queue \<times> (u8 \<times> u32) list) option" where
  "nl_acq lid r a q =
     (let (q1, out) = process_primary_backup (nl_request lid r a ACQUIRE_LOCK) q in Some (q1, nl_grants out))"

definition nl_rel :: "u32 \<Rightarrow> u8 \<times> u32 \<Rightarrow> access \<Rightarrow> node_queue \<Rightarrow> (node_queue \<times> (u8 \<times> u32) list) option" where
  "nl_rel lid r a q =
     (let (q1, out) = process_primary_backup (nl_request lid r a RELEASE_LOCK) q in Some (q1, nl_grants out))"

lemma nl_request_sel [simp]:
  "nd_lock_id (nl_request lid r a act) = lid" "nd_mode (nl_request lid r a act) = access_mode a"
  "nd_op_type (nl_request lid r a act) = act" "nl_key (nl_request lid r a act) = r"
  "nd_txn_id (nl_request lid r a act) = snd r" "nd_client_id (nl_request lid r a act) = fst r"
  by (simp_all add: nl_request_def mbuf_to_node_def generate_header_def Let_def nl_key_def)

lemma nl_grants_simps [simp]:
  "nl_grants [] = []"
  "nl_grants (net_send_lock_server n GRANT_LOCK_FROM_SERVER t s # fs) = nl_key n # nl_grants fs"
  "nl_grants (map (\<lambda>m. net_send_lock_server m GRANT_LOCK_FROM_SERVER t s) ns) = map nl_key ns"
  by (simp_all add: nl_grants_def net_send_lock_server_def nl_key_def filter_map comp_def)

lemma nl_key_payload [simp]: "nl_key (n\<lparr>nd_payload := p\<rparr>) = nl_key n"
  by (simp add: nl_key_def)

lemma nl_acq_eq:
  "nl_acq lid r a q =
     (let n = nl_request lid r a ACQUIRE_LOCK;
          q1 = q\<lparr>node_list := node_list q @ [n], ticket_id := ticket_id q + 1\<rparr> in
      if a = Rd \<and> nl_lock_state q \<noteq> NL_EXCLUSIVE
      then Some (q1\<lparr>nl_lock_state := NL_SHARED, nl_shared_counter := nl_shared_counter q + 1\<rparr>, [r])
      else if a = Wr \<and> nl_lock_state q = NL_FREE
      then Some (q1\<lparr>nl_lock_state := NL_EXCLUSIVE\<rparr>, [r])
      else Some (q1, []))"
  by (cases a; cases "nl_lock_state q")
    (simp_all add: nl_acq_def process_primary_backup_def process_primary_acquire_def net_defs Let_def)

text \<open>Removing a request from the queue, by its key.\<close>

abbreviation without :: "u8 \<times> u32 \<Rightarrow> lock_queue_node list \<Rightarrow> lock_queue_node list" where
  "without r ns \<equiv> filter (\<lambda>n. nl_key n \<noteq> r) ns"

definition nodes_ok :: "u32 \<Rightarrow> lock_queue_node list \<Rightarrow> (u8 \<times> u32) ghost \<Rightarrow> bool" where
  "nodes_ok lid ns g \<longleftrightarrow> (\<forall>n \<in> set ns. nd_lock_id n = lid) \<and> distinct (map nl_key ns) \<and>
     nl_key ` set ns = dom (wants g) \<and>
     (\<forall>n \<in> set ns. \<exists>a. wants g (nl_key n) = Some a \<and> nd_mode n = access_mode a)"

lemma nodes_ok_mode:
  assumes "nodes_ok lid ns g" "n \<in> set ns"
  shows "nd_mode n = EXCLUSIVE \<and> wants g (nl_key n) = Some Wr \<or>
    nd_mode n = SHARED \<and> wants g (nl_key n) = Some Rd"
proof -
  obtain a where "wants g (nl_key n) = Some a" "nd_mode n = access_mode a"
    using assms by (auto simp: nodes_ok_def)
  then show ?thesis by (cases a) auto
qed

lemma index_first_0: "index_first p (x # xs) = Some 0 \<longleftrightarrow> p x"
  by auto

lemma nl_erase_known:
  assumes "nodes_ok lid (node_list q) g" "wants g r = Some a"
  shows "\<exists>i. nl_erase_lock_request lid (snd r) (fst r) (access_mode a) q =
     (int i, q\<lparr>node_list := without r (node_list q)\<rparr>) \<and> (i = 0 \<longleftrightarrow> nl_key (hd (node_list q)) = r)"
proof -
  have e: "is_request lid (snd r) (fst r) (access_mode a) n \<longleftrightarrow> nl_key n = r" if "n \<in> set (node_list q)" for n
    using assms that by (fastforce simp: nodes_ok_def is_request_def nl_key_def)
  obtain m where m: "m \<in> set (node_list q)" "nl_key m = r"
    using assms by (metis domI imageE nodes_ok_def)
  obtain i where i: "index_first (is_request lid (snd r) (fst r) (access_mode a)) (node_list q) = Some i"
    using m e by (metis index_first_None not_Some_eq)
  have "erase_first (is_request lid (snd r) (fst r) (access_mode a)) (node_list q) =
      erase_first (\<lambda>n. nl_key n = r) (node_list q)" by (rule erase_first_cong) (rule e)
  also have "\<dots> = without r (node_list q)"
    using assms(1) by (intro erase_first_key) (simp add: nodes_ok_def)
  finally have "nl_erase_lock_request lid (snd r) (fst r) (access_mode a) q =
     (int i, q\<lparr>node_list := without r (node_list q)\<rparr>)" by (simp add: nl_erase_lock_request_def i)
  moreover have "i = 0 \<longleftrightarrow> nl_key (hd (node_list q)) = r"
    using i e by (cases "node_list q") (auto split: if_splits)
  ultimately show ?thesis by blast
qed


lemma nl_rel_abort:
  assumes "nodes_ok lid (node_list q) g" "wants g r = Some a"
    and "a = Rd \<Longrightarrow> nl_lock_state q \<noteq> NL_SHARED"
    and "a = Wr \<Longrightarrow> nl_lock_state q = NL_EXCLUSIVE \<Longrightarrow> nl_key (hd (node_list q)) \<noteq> r"
  shows "nl_rel lid r a q = Some (q\<lparr>node_list := without r (node_list q), ticket_id := ticket_id q + 1\<rparr>, [])"
proof -
  obtain i where "nl_erase_lock_request lid (snd r) (fst r) (access_mode a) (block_queue q) =
     (int i, q\<lparr>node_list := without r (node_list q), ticket_id := ticket_id q + 1\<rparr>)"
    "i = 0 \<longleftrightarrow> nl_key (hd (node_list q)) = r"
    using nl_erase_known [of lid "block_queue q" g r a] assms(1,2) by (auto simp: block_queue_def)
  with assms(3,4) show ?thesis
    by (cases a) (auto simp: nl_rel_def process_primary_backup_def process_primary_release_def nl_codes)
qed

text \<open>What the last owner's release does with the queue that remains.\<close>

definition nl_next :: "lock_queue_node \<Rightarrow> node_queue \<Rightarrow> nl_result" where
  "nl_next n q =
     (case node_list q of
        [] \<Rightarrow> (q\<lparr>nl_lock_state := NL_FREE, seqnum := seqnum q + 1\<rparr>, [])
      | h # _ \<Rightarrow> (if nd_mode h = EXCLUSIVE then schedule_exclusive n h (q\<lparr>nl_lock_state := NL_FREE\<rparr>)
                  else schedule_shared n (q\<lparr>nl_lock_state := NL_FREE\<rparr>)))"

lemma nl_rel_writer:
  assumes "nodes_ok lid (node_list q) g" "wants g r = Some Wr"
    and "nl_lock_state q = NL_EXCLUSIVE" "nl_key (hd (node_list q)) = r"
  shows "\<exists>q1 out. nl_next (nl_request lid r Wr RELEASE_LOCK)
      (q\<lparr>node_list := without r (node_list q), ticket_id := ticket_id q + 1\<rparr>) = (q1, out) \<and>
    nl_rel lid r Wr q = Some (q1, nl_grants out)"
proof -
  have "nl_erase_lock_request lid (snd r) (fst r) EXCLUSIVE (block_queue q) =
     (0, q\<lparr>node_list := without r (node_list q), ticket_id := ticket_id q + 1\<rparr>)"
    using nl_erase_known [of lid "block_queue q" g r Wr] assms by (auto simp: block_queue_def)
  moreover have "nd_mode h = EXCLUSIVE \<or> nd_mode h = SHARED" if "without r (node_list q) = h # t" for h t
    using nodes_ok_mode [OF assms(1), of h] Cons_eq_filterD [OF that [symmetric]] by auto
  ultimately show ?thesis using assms(3)
    by (auto simp: nl_rel_def process_primary_backup_def process_primary_release_def nl_next_def Let_def
        nl_set_lock_state_def nl_get_head_request_def add_seqnum_def ACQUIRE_LOCK_def RELEASE_LOCK_def
        split: list.split prod.split)
qed

lemma nl_rel_reader:
  assumes "nodes_ok lid (node_list q) g" "wants g r = Some Rd" "nl_lock_state q = NL_SHARED"
    and "nl_shared_counter q \<le> 1 \<Longrightarrow> \<forall>n \<in> set (without r (node_list q)). nd_mode n = EXCLUSIVE"
  shows "\<exists>q1 out. (if 1 < nl_shared_counter q
      then (q\<lparr>node_list := without r (node_list q), ticket_id := ticket_id q + 1,
              nl_shared_counter := nl_shared_counter q - 1\<rparr>, [])
      else nl_next (nl_request lid r Rd RELEASE_LOCK)
        (q\<lparr>node_list := without r (node_list q), ticket_id := ticket_id q + 1,
           nl_shared_counter := nl_shared_counter q - 1\<rparr>)) = (q1, out) \<and>
    nl_rel lid r Rd q = Some (q1, nl_grants out)"
proof -
  obtain i where "nl_erase_lock_request lid (snd r) (fst r) SHARED (block_queue q) =
     (int i, q\<lparr>node_list := without r (node_list q), ticket_id := ticket_id q + 1\<rparr>)"
    using nl_erase_known [of lid "block_queue q" g r Rd] assms(1,2) by (auto simp: block_queue_def)
  moreover have "nd_mode h = EXCLUSIVE" if "without r (node_list q) = h # t" "\<not> 1 < nl_shared_counter q" for h t
    using assms(4) that(2) Cons_eq_filterD [OF that(1) [symmetric]] by (auto simp: not_less)
  ultimately show ?thesis using assms(3)
    by (auto simp: nl_rel_def process_primary_backup_def process_primary_release_def nl_next_def Let_def
        nl_set_lock_state_def nl_sub_shared_counter_def nl_get_head_request_def add_seqnum_def
        ACQUIRE_LOCK_def RELEASE_LOCK_def split: list.split prod.split)
qed


section \<open>Coupling with the specification\<close>

abbreviation shared_nodes :: "lock_queue_node list \<Rightarrow> lock_queue_node list" where
  "shared_nodes ns \<equiv> filter (\<lambda>n. nd_mode n = SHARED) ns"

definition nl_state_coupled :: "node_queue \<Rightarrow> (u8 \<times> u32) ghost \<Rightarrow> bool" where
  "nl_state_coupled q g \<longleftrightarrow>
     (case nl_lock_state q of
        NL_FREE \<Rightarrow> node_list q = [] \<and> owned g = {} \<and> nl_shared_counter q = 0
      | NL_SHARED \<Rightarrow> owned g = nl_key ` set (shared_nodes (node_list q)) \<and>
          shared_nodes (node_list q) \<noteq> [] \<and>
          nl_shared_counter q = int (length (shared_nodes (node_list q)))
      | NL_EXCLUSIVE \<Rightarrow> nl_shared_counter q = 0 \<and> node_list q \<noteq> [] \<and>
          nd_mode (hd (node_list q)) = EXCLUSIVE \<and> owned g = {nl_key (hd (node_list q))})"

definition nl_coupled :: "u32 \<Rightarrow> node_queue \<Rightarrow> (u8 \<times> u32) ghost \<Rightarrow> bool" where
  "nl_coupled lid q g \<longleftrightarrow> nodes_ok lid (node_list q) g \<and> nl_state_coupled q g"

lemma nodes_ok_wants: "wants g' = wants g \<Longrightarrow> nodes_ok lid ns g' = nodes_ok lid ns g"
  by (simp add: nodes_ok_def)

lemma nodes_ok_append:
  assumes "nodes_ok lid ns g" "wants g r = None"
  shows "nodes_ok lid (ns @ [nl_request lid r a act]) (g_acq r a G g)"
proof -
  have "r \<notin> nl_key ` set ns" using assms by (auto simp: nodes_ok_def)
  then show ?thesis using assms by (auto simp: nodes_ok_def)
qed

lemma nodes_ok_without:
  assumes "nodes_ok lid ns g"
  shows "nodes_ok lid (without r ns) (g_rel r G g)"
  using assms image_filter_neq [of nl_key r ns] distinct_map_filter_key [of nl_key ns "\<lambda>n. nl_key n \<noteq> r"]
  by (auto simp: nodes_ok_def)

text \<open>New payloads change neither the keys nor the modes of the queued requests.\<close>

lemma nodes_ok_payload:
  assumes "nodes_ok lid ns g" "\<And>n. nl_key (f n) = nl_key n \<and> nd_mode (f n) = nd_mode n \<and> nd_lock_id (f n) = nd_lock_id n"
  shows "nodes_ok lid (map f ns) g" "map nl_key (shared_nodes (map f ns)) = map nl_key (shared_nodes ns)"
proof -
  have "nl_key \<circ> f = nl_key" using assms(2) by (auto simp: comp_def)
  then show "nodes_ok lid (map f ns) g"
    using assms unfolding nodes_ok_def by (auto simp: image_image)
  show "map nl_key (shared_nodes (map f ns)) = map nl_key (shared_nodes ns)"
    using assms(2) by (simp add: filter_map comp_def)
qed

lemma nl_owned: "nl_coupled lid q g \<Longrightarrow> owned g \<subseteq> dom (wants g)"
proof -
  assume c: "nl_coupled lid q g"
  then have "nl_key ` set (node_list q) = dom (wants g)" by (simp add: nl_coupled_def nodes_ok_def)
  moreover have "owned g \<subseteq> nl_key ` set (node_list q)"
    using c by (cases "nl_lock_state q") (auto simp: nl_coupled_def nl_state_coupled_def)
  ultimately show ?thesis by simp
qed

lemma nl_acq_coupled:
  assumes "nl_coupled lid q g" "wants g r = None"
  shows "\<exists>q' G. nl_acq lid r a q = Some (q', G) \<and> g_fresh G g (g_acq r a G g) \<and> nl_coupled lid q' (g_acq r a G g)"
proof -
  have ok: "nodes_ok lid (node_list q) g" and st: "nl_state_coupled q g"
    using assms(1) by (simp_all add: nl_coupled_def)
  have nr: "r \<notin> owned g" using nl_owned [OF assms(1)] assms(2) by auto
  show ?thesis
    using nodes_ok_append [OF ok assms(2), of a ACQUIRE_LOCK] st nr
    by (cases a; cases "nl_lock_state q")
      (auto simp: nl_acq_eq Let_def nl_coupled_def nl_state_coupled_def g_fresh_def)
qed

lemma nl_next_coupled:
  assumes ok: "nodes_ok lid (node_list q) (g_rel r [] g)" and own: "owned g = {r}" and sc: "nl_shared_counter q = 0"
    and n: "nl_next n q = (q1, out)"
  shows "g_fresh (nl_grants out) g (g_rel r (nl_grants out) g) \<and> nl_coupled lid q1 (g_rel r (nl_grants out) g)"
proof (cases "node_list q")
  case Nil
  with n have "out = []" "q1 = q\<lparr>nl_lock_state := NL_FREE, seqnum := seqnum q + 1\<rparr>"
    by (auto simp: nl_next_def)
  with ok own sc Nil show ?thesis by (simp add: g_fresh_def nl_coupled_def nl_state_coupled_def)
next
  case (Cons h t)
  have keys: "nl_key ` set (node_list q) = dom (wants g) - {r}" and dist: "distinct (map nl_key (node_list q))"
    using ok by (simp_all add: nodes_ok_def)
  have okG: "nodes_ok lid ns (g_rel r G g) = nodes_ok lid ns (g_rel r [] g)" for ns G
    by (rule nodes_ok_wants) simp
  show ?thesis
  proof (cases "nd_mode h = EXCLUSIVE")
    case True
    with n Cons have q1: "q1 = q\<lparr>nl_lock_state := NL_EXCLUSIVE, node_list := h\<lparr>nd_payload := nd_payload n\<rparr> # t\<rparr>"
      and G: "nl_grants out = [nl_key h]"
      by (auto simp: nl_next_def schedule_exclusive_def Let_def nl_set_lock_state_def)
    have "nodes_ok lid (node_list q1) (g_rel r [] g)"
      using ok Cons by (auto simp: nodes_ok_def q1)
    moreover have "nl_state_coupled q1 (g_rel r [nl_key h] g)"
      using own sc True by (simp add: nl_state_coupled_def q1)
    moreover have "nl_key h \<in> nl_key ` set (node_list q)" using Cons by simp
    then have "nl_key h \<in> dom (wants g)" "nl_key h \<noteq> r" unfolding keys by blast+
    then have "g_fresh [nl_key h] g (g_rel r [nl_key h] g)" using own by (simp add: g_fresh_def)
    ultimately show ?thesis using okG [of "node_list q1" "[nl_key h]"] by (simp add: G nl_coupled_def)
  next
    case False
    let ?f = "\<lambda>m. if nd_mode m = SHARED then m\<lparr>nd_payload := nd_payload n\<rparr> else m"
    have f: "nl_key (?f m) = nl_key m \<and> nd_mode (?f m) = nd_mode m \<and> nd_lock_id (?f m) = nd_lock_id m" for m
      by simp
    note p = nodes_ok_payload [OF ok, of ?f, OF f]
    from False n Cons have q1: "q1 = q\<lparr>nl_lock_state := NL_SHARED, node_list := map ?f (node_list q),
        nl_shared_counter := nl_shared_counter q + int (length (shared_nodes (node_list q)))\<rparr>"
      and G: "nl_grants out = map nl_key (shared_nodes (node_list q1))"
      by (auto simp: nl_next_def schedule_shared_def Let_def nl_set_lock_state_def nl_get_shared_requests_def)
    have G': "nl_grants out = map nl_key (shared_nodes (node_list q))" using p(2) by (simp add: G q1)
    have h: "nd_mode h = SHARED" using nodes_ok_mode [OF ok, of h] Cons False by auto
    have fr: "g_fresh (nl_grants out) g (g_rel r (nl_grants out) g)"
      using keys own distinct_map_filter_key [OF dist] by (auto simp: G' g_fresh_def)
    have len: "length (shared_nodes (map ?f (node_list q))) = length (shared_nodes (node_list q))"
      using arg_cong [OF p(2), of length] by (simp only: length_map)
    have own1: "owned (g_rel r (nl_grants out) g) = nl_key ` set (shared_nodes (node_list q1))"
      using own by (simp add: G)
    have "shared_nodes (node_list q1) \<noteq> []" using h Cons by (simp add: q1)
    then have "nl_state_coupled q1 (g_rel r (nl_grants out) g)"
      using own1 sc len by (simp add: nl_state_coupled_def q1)
    moreover have "nodes_ok lid (node_list q1) (g_rel r (nl_grants out) g)"
      using p(1) okG [of "node_list q1" "nl_grants out"] by (simp add: q1)
    ultimately show ?thesis using fr by (simp add: nl_coupled_def)
  qed
qed


lemma shared_without:
  assumes "nodes_ok lid ns g" "wants g r = Some a"
  shows "a = Rd \<Longrightarrow> nl_key ` set (shared_nodes (without r ns)) = nl_key ` set (shared_nodes ns) - {r}"
    and "a = Rd \<Longrightarrow> length (shared_nodes ns) = Suc (length (shared_nodes (without r ns)))"
    and "a = Wr \<Longrightarrow> shared_nodes (without r ns) = shared_nodes ns"
proof -
  obtain m where m: "m \<in> set ns" "nl_key m = r" using assms by (metis domI imageE nodes_ok_def)
  have md: "nd_mode n = access_mode a" if "n \<in> set ns" "nl_key n = r" for n
    using assms that by (auto simp: nodes_ok_def)
  show "nl_key ` set (shared_nodes (without r ns)) = nl_key ` set (shared_nodes ns) - {r}" by auto
  show "shared_nodes (without r ns) = shared_nodes ns" if "a = Wr"
    using md that by (auto simp: filter_filter intro!: filter_cong)
  assume "a = Rd"
  let ?S = "shared_nodes ns"
  have "distinct (map nl_key ?S)" using assms(1) by (simp add: nodes_ok_def distinct_map_filter_key)
  then have "length ?S = card (nl_key ` set ?S)"
    using distinct_card [of "map nl_key ?S"] by simp
  also have "\<dots> = Suc (card (nl_key ` set ?S - {r}))"
    using m md [OF m] \<open>a = Rd\<close> by (intro card_Suc_Diff1 [symmetric]) auto
  also have "nl_key ` set ?S - {r} = nl_key ` set (shared_nodes (without r ns))" by auto
  also have "card \<dots> = length (shared_nodes (without r ns))"
    using assms(1) distinct_card [of "map nl_key (shared_nodes (without r ns))"]
    by (simp add: nodes_ok_def distinct_map_filter_key)
  finally show "length ?S = Suc (length (shared_nodes (without r ns)))" .
qed


lemma nl_rel_coupled:
  assumes c: "nl_coupled lid q g" and r: "r \<in> owned g" "wants g r = Some a"
  shows "\<exists>q' G. nl_rel lid r a q = Some (q', G) \<and> g_fresh G g (g_rel r G g) \<and> nl_coupled lid q' (g_rel r G g)"
proof -
  have ok: "nodes_ok lid (node_list q) g" and st: "nl_state_coupled q g"
    using c by (simp_all add: nl_coupled_def)
  note wo = nodes_ok_without [OF ok, of r "[]"] and sh = shared_without [OF ok r(2)]
  show ?thesis
  proof (cases a)
    case Wr
    have "nl_lock_state q \<noteq> NL_SHARED"
    proof
      assume "nl_lock_state q = NL_SHARED"
      then obtain n where "n \<in> set (node_list q)" "nl_key n = r" "nd_mode n = SHARED"
        using st r(1) by (auto simp: nl_state_coupled_def)
      with nodes_ok_mode [OF ok, of n] r(2) Wr show False by auto
    qed
    then have s: "nl_lock_state q = NL_EXCLUSIVE" "nl_key (hd (node_list q)) = r" "owned g = {r}"
      "nl_shared_counter q = 0"
      using st r(1) by (auto simp: nl_state_coupled_def split: nl_state.splits)
    have w: "wants g r = Some Wr" using r(2) Wr by simp
    obtain q1 out where n: "nl_next (nl_request lid r Wr RELEASE_LOCK)
        (q\<lparr>node_list := without r (node_list q), ticket_id := ticket_id q + 1\<rparr>) = (q1, out)"
      and rel: "nl_rel lid r Wr q = Some (q1, nl_grants out)"
      using nl_rel_writer [OF ok w s(1,2)] by blast
    from nl_next_coupled [OF _ s(3) _ n] wo s(4) rel Wr show ?thesis by simp
  next
    case Rd
    have s: "nl_lock_state q = NL_SHARED"
    proof (rule ccontr)
      assume "nl_lock_state q \<noteq> NL_SHARED"
      then have "nl_key (hd (node_list q)) = r" "hd (node_list q) \<in> set (node_list q)"
        "nd_mode (hd (node_list q)) = EXCLUSIVE"
        using st r(1) by (auto simp: nl_state_coupled_def split: nl_state.splits)
      with nodes_ok_mode [OF ok, of "hd (node_list q)"] r(2) Rd show False by auto
    qed
    have sc: "nl_shared_counter q = int (Suc (length (shared_nodes (without r (node_list q)))))"
      and own: "owned g - {r} = nl_key ` set (shared_nodes (without r (node_list q)))"
      using st s sh(1,2) [OF Rd] by (simp_all add: nl_state_coupled_def)
    have ex: "\<forall>n \<in> set (without r (node_list q)). nd_mode n = EXCLUSIVE" if "nl_shared_counter q \<le> 1"
    proof -
      have "shared_nodes (without r (node_list q)) = []" using that sc by simp
      then have "\<forall>n \<in> set (without r (node_list q)). nd_mode n \<noteq> SHARED" by (simp only: filter_empty_conv)
      then show ?thesis using nodes_ok_mode [OF wo] by blast
    qed
    have w: "wants g r = Some Rd" using r(2) Rd by simp
    note rd = nl_rel_reader [OF ok w s ex]
    show ?thesis
    proof (cases "1 < nl_shared_counter q")
      case True
      let ?q = "q\<lparr>node_list := without r (node_list q), ticket_id := ticket_id q + 1,
              nl_shared_counter := nl_shared_counter q - 1\<rparr>"
      have "shared_nodes (without r (node_list q)) \<noteq> []" using True sc by auto
      then have "nl_coupled lid ?q (g_rel r [] g)"
        using wo s sc own by (simp add: nl_coupled_def nl_state_coupled_def)
      with True rd r(2) Rd show ?thesis by (auto simp: g_fresh_def)
    next
      case False
      then have o1: "owned g = {r}" using sc own r(1) by auto
      have z: "nl_shared_counter q - 1 = 0" using False sc by simp
      obtain q1 out where nx: "nl_next (nl_request lid r Rd RELEASE_LOCK)
          (q\<lparr>node_list := without r (node_list q), ticket_id := ticket_id q + 1,
             nl_shared_counter := nl_shared_counter q - 1\<rparr>) = (q1, out)"
        and rel: "nl_rel lid r Rd q = Some (q1, nl_grants out)"
        using rd False by auto
      from nl_next_coupled [OF _ o1 _ nx] wo z rel Rd show ?thesis by simp
    qed
  qed
qed


lemma nl_abort_coupled:
  assumes c: "nl_coupled lid q g" and r: "r \<notin> owned g" "wants g r = Some a"
  shows "\<exists>q'. nl_rel lid r a q = Some (q', []) \<and> nl_coupled lid q' (g_rel r [] g)"
proof -
  have ok: "nodes_ok lid (node_list q) g" and st: "nl_state_coupled q g"
    using c by (simp_all add: nl_coupled_def)
  let ?q = "q\<lparr>node_list := without r (node_list q), ticket_id := ticket_id q + 1\<rparr>"
  have mem: "r \<in> nl_key ` set (node_list q)" using ok r(2) by (auto simp: nodes_ok_def)
  have ns: "nl_lock_state q \<noteq> NL_SHARED" if "a = Rd"
  proof
    assume "nl_lock_state q = NL_SHARED"
    with st r(1) have "r \<notin> nl_key ` set (shared_nodes (node_list q))" by (simp add: nl_state_coupled_def)
    with mem obtain n where "n \<in> set (node_list q)" "nl_key n = r" "nd_mode n \<noteq> SHARED" by auto
    with nodes_ok_mode [OF ok, of n] r(2) that show False by auto
  qed
  have h: "nl_key (hd (node_list q)) \<noteq> r" if "nl_lock_state q = NL_EXCLUSIVE"
    using st r(1) that by (auto simp: nl_state_coupled_def)
  have "nl_state_coupled ?q (g_rel r [] g)"
  proof (cases "nl_lock_state q")
    case NL_FREE
    with st mem show ?thesis by (simp add: nl_state_coupled_def)
  next
    case NL_SHARED
    then have "a = Wr" using ns by (cases a) auto
    then show ?thesis using st r(1) NL_SHARED shared_without(3) [OF ok r(2)]
      by (simp add: nl_state_coupled_def)
  next
    case NL_EXCLUSIVE
    then obtain n t where "node_list q = n # t" using st by (cases "node_list q") (auto simp: nl_state_coupled_def)
    then show ?thesis using st h NL_EXCLUSIVE r(1) by (simp add: nl_state_coupled_def)
  qed
  then show ?thesis
    using nl_rel_abort [OF ok r(2) ns h] nodes_ok_without [OF ok, of r "[]"] by (simp add: nl_coupled_def)
qed

lemma nl_coupled_safe: "nl_coupled lid q g \<Longrightarrow> g_safe g"
proof -
  assume c: "nl_coupled lid q g"
  have "owned g = {r}" if "r \<in> owned g" "wants g r = Some Wr" for r
  proof (cases "nl_lock_state q")
    case NL_SHARED
    then have "r \<in> nl_key ` set (shared_nodes (node_list q))"
      using c that(1) by (simp add: nl_coupled_def nl_state_coupled_def)
    then obtain n where "n \<in> set (node_list q)" "nl_key n = r" "nd_mode n = SHARED" by auto
    with c nodes_ok_mode [of lid "node_list q" g n] that(2) show ?thesis by (auto simp: nl_coupled_def)
  qed (use c that(1) in \<open>auto simp: nl_coupled_def nl_state_coupled_def\<close>)
  with nl_owned [OF c] show ?thesis by (simp add: g_safe_def)
qed

lemma nl_coupled_live: "nl_coupled lid q g \<Longrightarrow> g_live g"
proof (cases "nl_lock_state q")
  case NL_FREE
  assume c: "nl_coupled lid q g"
  with NL_FREE have "node_list q = []" by (simp add: nl_coupled_def nl_state_coupled_def)
  moreover have "nl_key ` set (node_list q) = dom (wants g)" using c by (simp add: nl_coupled_def nodes_ok_def)
  ultimately have "wants g = Map.empty" by (metis dom_eq_empty_conv image_empty list.set(1))
  then show ?thesis by (simp add: g_live_def)
qed (auto simp: nl_coupled_def nl_state_coupled_def g_live_def)

lemma nl_coupled_finite: "nl_coupled lid q g \<Longrightarrow> finite (dom (wants g))"
  by (metis nl_coupled_def nodes_ok_def finite_imageI finite_set)

interpretation nl: abortable_lock_manager init_lock_queue "nl_acq lid" "nl_rel lid" "\<lambda>_ _. True" "nl_coupled lid"
proof unfold_locales
  show "nl_coupled lid init_lock_queue g_init"
    by (simp add: nl_coupled_def init_lock_queue_def nodes_ok_def nl_state_coupled_def)
qed (use nl_acq_coupled nl_rel_coupled nl_abort_coupled nl_coupled_safe nl_coupled_live nl_coupled_finite in auto)

section \<open>Properties\<close>

text \<open>
  C8. Mutual exclusion of the NetLock server: under every interleaving of acquires, of
  releases by owners and of releases by clients that give up waiting, a request for
  exclusive access that has been granted is the only owner of the lock.
\<close>

theorem nl_mutual_exclusion:
  assumes "mgr_reach True init_lock_queue (nl_acq lid) (nl_rel lid) (\<lambda>_ _. True) q g"
    and "r \<in> owned g" "wants g r = Some Wr"
  shows "owned g = {r}"
  using assms by (rule nl.mutual_exclusion_ab)


text \<open>A run: client 1 writes and client 2 waits to read.\<close>

lemma nl_run:
  "mgr_reach True init_lock_queue (nl_acq 3) (nl_rel 3) (\<lambda>_ _. True)
     (init_lock_queue\<lparr>nl_lock_state := NL_EXCLUSIVE,
        node_list := [nl_request 3 (1, 7) Wr ACQUIRE_LOCK, nl_request 3 (2, 5) Rd ACQUIRE_LOCK],
        ticket_id := ticket_id init_lock_queue + 2\<rparr>)
     (g_acq (2, 5) Rd [] (g_acq (1, 7) Wr [(1, 7)] g_init))"
proof -
  have "mgr_reach True init_lock_queue (nl_acq 3) (nl_rel 3) (\<lambda>_ _. True)
     (init_lock_queue\<lparr>nl_lock_state := NL_EXCLUSIVE, node_list := [nl_request 3 (1, 7) Wr ACQUIRE_LOCK],
        ticket_id := ticket_id init_lock_queue + 1\<rparr>)
     (g_acq (1, 7) Wr [(1, 7)] g_init)"
    by (rule mgr_reach.acquire [OF mgr_reach.start]) (simp_all add: nl_acq_eq init_lock_queue_def)
  then show ?thesis
    by (rule mgr_reach.acquire) (simp_all add: nl_acq_eq init_lock_queue_def)
qed

theorem nl_mutual_exclusion_witness:
  "owned (g_acq (2, 5) Rd [] (g_acq (1, 7) Wr [(1, 7)] g_init)) = {(1 :: u8, 7 :: u32)}"
  by (rule nl_mutual_exclusion [OF nl_run]) simp_all


text \<open>
  The erase routine returns 0 both when it removed the head of the queue and when it
  found nothing. An exclusive release of a request that is not in the queue, for instance a
  release the network duplicated, is therefore taken for the release of the owner: the
  writer at the head keeps its place but the lock is granted again, to that same writer,
  and a second such release repeats it.
\<close>

theorem nl_unknown_release_regrants:
  "\<exists>q1 q2. nl_acq 3 (1, 7) Wr init_lock_queue = Some (q1, [(1, 7)]) \<and>
     nl_rel 3 (2, 5) Wr q1 = Some (q2, [(1, 7)]) \<and>
     map nl_key (node_list q2) = [(1, 7)] \<and> nl_lock_state q2 = NL_EXCLUSIVE"
  by (simp add: nl_acq_eq init_lock_queue_def nl_rel_def process_primary_backup_def
      process_primary_release_def nl_erase_lock_request_def is_request_def schedule_exclusive_def
      net_defs ACQUIRE_LOCK_def RELEASE_LOCK_def Let_def)

end
