(* ===== verification/Net_Client.thy ===== *)
theory Net_Client
  imports Net_Manager
begin

text \<open>
  A NetLock client (baseline/NetLock/lib/lock.cc, coroutine_wait_queue.cc and the dispatch of
  net.cc): it sends its requests to the switch, which forwards those it cannot serve to the
  server, and waits for grants by polling flags, one for each requester of a lock.
\<close>

section \<open>Wait table (coroutine_wait_queue.cc)\<close>

type_synonym nl_wait_table = "u32 \<rightharpoonup> (u32 \<rightharpoonup> bool)"

definition nl_init_lock_wait_table :: "u32 \<Rightarrow> nl_wait_table \<Rightarrow> nl_wait_table" where
  "nl_init_lock_wait_table lock_id t = map_insert t lock_id Map.empty"

definition nl_add_to_wait_queue :: "u32 \<Rightarrow> u32 \<Rightarrow> nl_wait_table \<Rightarrow> fl_error + nl_wait_table" where
  "nl_add_to_wait_queue lock_id requester t =
     (case t lock_id of
        None \<Rightarrow> Inl Error_exit
      | Some flags \<Rightarrow> Inr (t(lock_id \<mapsto> map_insert flags requester False)))"

definition nl_wait_queue_signal :: "u32 \<Rightarrow> u32 \<Rightarrow> nl_wait_table \<Rightarrow> fl_error + nl_wait_table" where
  "nl_wait_queue_signal lock_id requester t =
     (case t lock_id of
        None \<Rightarrow> Inl Error_exit
      | Some flags \<Rightarrow>
          (case flags requester of
             None \<Rightarrow> Inl Error_exit
           | Some _ \<Rightarrow> Inr (t(lock_id \<mapsto> flags(requester \<mapsto> True)))))"

text \<open>The busy-loop variant, which is the configured one: a flag that is read as set is cleared.\<close>

definition nl_lock_req_granted :: "u64 \<Rightarrow> nl_wait_table \<Rightarrow> fl_error + bool \<times> nl_wait_table" where
  "nl_lock_req_granted req t =
     (let lock_id = ucast (drop_bit 32 req AND 0xffffffff); requester = ucast (req AND 0xffffffff) in
      case t lock_id of
        None \<Rightarrow> Inl Error_exit
      | Some flags \<Rightarrow>
          (case flags requester of
             None \<Rightarrow> Inl Error_exit
           | Some True \<Rightarrow> Inr (True, t(lock_id \<mapsto> flags(requester \<mapsto> False)))
           | Some False \<Rightarrow> Inr (False, t)))"

section \<open>Interface (lock.cc)\<close>

text \<open>The client state: the identity and addresses that go into its frames, and its wait table.\<close>

record nl_client =
  nc_localhost :: u8
  nc_src_ip :: u32
  nc_dst_ip :: u32
  nc_wait_table :: nl_wait_table

definition nl_net_send :: "nl_client \<Rightarrow> u32 \<Rightarrow> u8 \<Rightarrow> u32 \<Rightarrow> u8 \<Rightarrow> nl_frame" where
  "nl_net_send c txn_id action_type lock_id lock_type =
     generate_header (nc_localhost c) (nc_src_ip c) (nc_dst_ip c) [] txn_id action_type lock_id lock_type"

definition nl_lock_acquire_async ::
  "u32 \<Rightarrow> u32 \<Rightarrow> lock_state \<Rightarrow> nl_client \<Rightarrow> fl_error + u64 \<times> nl_client \<times> nl_frame list" where
  "nl_lock_acquire_async lkey requester op c =
     (case nl_add_to_wait_queue lkey requester (nc_wait_table c) of
        Inl e \<Rightarrow> Inl e
      | Inr t \<Rightarrow>
          Inr (push_bit 32 (ucast lkey) OR ucast requester, c\<lparr>nc_wait_table := t\<rparr>,
               (if op = LOCK_EXCL then [nl_net_send c requester ACQUIRE_LOCK lkey EXCLUSIVE]
                else if op = LOCK_SHARED then [nl_net_send c requester ACQUIRE_LOCK lkey SHARED]
                else [])))"

definition nl_lock_release :: "u32 \<Rightarrow> u32 \<Rightarrow> lock_state \<Rightarrow> nl_client \<Rightarrow> nl_frame list" where
  "nl_lock_release lkey requester op c =
     (if op = LOCK_EXCL then [nl_net_send c requester RELEASE_LOCK lkey EXCLUSIVE]
      else if op = LOCK_SHARED then [nl_net_send c requester RELEASE_LOCK lkey SHARED]
      else [])"

definition nl_lock_packet_dispatch :: "nl_header \<Rightarrow> nl_client \<Rightarrow> fl_error + nl_client" where
  "nl_lock_packet_dispatch h c =
     (if nh_op_type h = DIRECT_GRANT_FROM_SWITCH \<or> nh_op_type h = GRANT_LOCK_FROM_SERVER then
        (case nl_wait_queue_signal (ntohl (nh_lock_id h)) (ntohl (nh_txn_id h)) (nc_wait_table c) of
           Inl e \<Rightarrow> Inl e
         | Inr t \<Rightarrow> Inr (c\<lparr>nc_wait_table := t\<rparr>))
      else Inr c)"

text \<open>
  The dispatcher of the network module, after \<open>lock_setup\<close> has registered the one for
  grants; memory updates go to the dispatcher of an application, if there is one.
\<close>

definition nl_packet_dispatch ::
  "(nl_header \<Rightarrow> nl_client \<Rightarrow> nl_client) option \<Rightarrow> nl_header \<Rightarrow> nl_client \<Rightarrow> fl_error + nl_client" where
  "nl_packet_dispatch mem_diff h c =
     (if nh_op_type h = GRANT_LOCK_FROM_SERVER \<or> nh_op_type h = DIRECT_GRANT_FROM_SWITCH
      then nl_lock_packet_dispatch h c
      else if nh_op_type h = MEM_DIFF then
        (case mem_diff of None \<Rightarrow> Inr c | Some f \<Rightarrow> Inr (f h c))
      else Inr c)"

definition nl_lock_local_init :: "lock_key \<Rightarrow> nl_client \<Rightarrow> nl_client" where
  "nl_lock_local_init k c = c\<lparr>nc_wait_table := nl_init_lock_wait_table (ucast k) (nc_wait_table c)\<rparr>"

section \<open>From request to grant\<close>

lemma nl_req_granted_pair:
  "nl_lock_req_granted (push_bit 32 (ucast l) OR ucast r) t =
     (case t l of
        None \<Rightarrow> Inl Error_exit
      | Some flags \<Rightarrow>
          (case flags r of
             None \<Rightarrow> Inl Error_exit
           | Some True \<Rightarrow> Inr (True, t(l \<mapsto> flags(r \<mapsto> False)))
           | Some False \<Rightarrow> Inr (False, t)))"
  by (simp only: nl_lock_req_granted_def or_pair_decode Let_def)

text \<open>
  A NetLock request from the call to the grant, when the lock is free at the server: the
  client sends one frame and polls no grant; the server answers the frame with one grant;
  once that has arrived the client polls the grant exactly once, so that the flag is down
  again for its next request.
\<close>

theorem nl_acquire_granted_once:
  assumes "nc_wait_table c lkey = Some flags" "flags requester \<noteq> Some True"
    and "op = LOCK_SHARED \<or> op = LOCK_EXCL"
    and "nl_lock_queue s lkey = Some q" "nl_lock_state q = NL_FREE"
  shows "\<exists>req c1 f s1 g c2 t3.
     nl_lock_acquire_async lkey requester op c = Inr (req, c1, [f]) \<and>
     nl_lock_req_granted req (nc_wait_table c1) = Inr (False, nc_wait_table c1) \<and>
     rx_frame f s = Inr (s1, [g]) \<and>
     nl_packet_dispatch None (nl_hdr g) c1 = Inr c2 \<and>
     nl_lock_req_granted req (nc_wait_table c2) = Inr (True, t3) \<and>
     nl_lock_req_granted req t3 = Inr (False, t3)"
proof -
  let ?lt = "if op = LOCK_EXCL then EXCLUSIVE else SHARED"
  let ?f = "nl_net_send c requester ACQUIRE_LOCK lkey ?lt" and ?req = "push_bit 32 (ucast lkey) OR ucast requester"
  let ?n = "mbuf_to_node ?f"
  let ?c1 = "c\<lparr>nc_wait_table := (nc_wait_table c)(lkey \<mapsto> flags(requester \<mapsto> False))\<rparr>"
  have "map_insert flags requester False = flags(requester \<mapsto> False)"
    using assms(2) by (cases "flags requester") (auto simp: map_insert_def)
  then have acq: "nl_lock_acquire_async lkey requester op c = Inr (?req, ?c1, [?f])"
    using assms(1,3) by (auto simp: nl_lock_acquire_async_def nl_add_to_wait_queue_def)
  have n: "nd_lock_id ?n = lkey" "nd_txn_id ?n = requester" "nd_mode ?n = ?lt" "nd_op_type ?n = ACQUIRE_LOCK"
    "nd_role ?n = PRIMARY_BACKUP"
    by (simp_all add: nl_net_send_def mbuf_to_node_def generate_header_def mac_dst_addr_def PRIMARY_BACKUP_def Let_def)
  obtain q1 sq where rx: "process_primary_backup ?n q = (q1, [net_send_lock_server ?n GRANT_LOCK_FROM_SERVER 0 sq])"
    using assms(3,5) n by (auto simp: process_primary_backup_def process_primary_acquire_def net_defs Let_def)
  let ?g = "net_send_lock_server ?n GRANT_LOCK_FROM_SERVER 0 sq"
  have g: "nh_op_type (nl_hdr ?g) = GRANT_LOCK_FROM_SERVER" "ntohl (nh_lock_id (nl_hdr ?g)) = lkey"
    "ntohl (nh_txn_id (nl_hdr ?g)) = requester"
    using n by (simp_all add: net_send_lock_server_def)
  have "rx_frame ?f s = Inr (s\<lparr>nl_lock_queue := (nl_lock_queue s)(lkey \<mapsto> q1)\<rparr>, [?g])"
    using assms(4) n rx by (simp add: rx_frame_def Let_def)
  moreover have "nl_packet_dispatch None (nl_hdr ?g) ?c1 =
      Inr (?c1\<lparr>nc_wait_table := (nc_wait_table ?c1)(lkey \<mapsto> (flags(requester \<mapsto> False))(requester \<mapsto> True))\<rparr>)"
    using g by (simp add: nl_packet_dispatch_def nl_lock_packet_dispatch_def nl_wait_queue_signal_def)
  ultimately show ?thesis using acq by (force simp: nl_req_granted_pair)
qed

definition nl_example_client :: nl_client where
  "nl_example_client = nl_lock_local_init 5 \<lparr>nc_localhost = 2, nc_src_ip = 0, nc_dst_ip = 0, nc_wait_table = Map.empty\<rparr>"

theorem nl_acquire_granted_once_witness:
  "\<exists>req c1 f s1 g c2 t3.
     nl_lock_acquire_async 5 7 LOCK_EXCL nl_example_client = Inr (req, c1, [f]) \<and>
     nl_lock_req_granted req (nc_wait_table c1) = Inr (False, nc_wait_table c1) \<and>
     rx_frame f (nl_server_main 10) = Inr (s1, [g]) \<and>
     nl_packet_dispatch None (nl_hdr g) c1 = Inr c2 \<and>
     nl_lock_req_granted req (nc_wait_table c2) = Inr (True, t3) \<and>
     nl_lock_req_granted req t3 = Inr (False, t3)"
  by (rule nl_acquire_granted_once [where flags = Map.empty and q = init_lock_queue])
    (simp_all add: nl_example_client_def nl_lock_local_init_def nl_init_lock_wait_table_def map_insert_def
      nl_server_main_def nl_init_all_locks_def init_lock_queue_def)

end
