(* ===== verification/Net_Frames.thy ===== *)
theory Net_Frames
  imports Dpdk_Net Net_Client Number_Text
begin

text \<open>
  The network module and the start of the NetLock baseline: the receive loop of a client and
  the broadcast to the other hosts (baseline/NetLock/lib/net.cc), and the table of queue
  lengths that the server reads from a file (baseline/NetLock/server/main.cc).
\<close>

section \<open>Addresses (net.cc)\<close>

definition MEM_DIFF_PORT :: u16 where
  "MEM_DIFF_PORT = 18888"

definition nl_host_list :: "u8 list" where
  "nl_host_list = [1, 2, 3, 4, 5, 6, 7, 8]"

text \<open>The addresses in the form of \<open>inet_pton\<close>: four bytes in memory.\<close>

definition ip_list :: "u32 list" where
  "ip_list = map (\<lambda>d. word32_le [10, 0, 2, d]) [4, 1, 2, 3, 5, 6, 7, 8]"

section \<open>Receive loop and broadcast (net.cc)\<close>

text \<open>A received buffer with the frame in it.\<close>

definition nl_poll_one ::
  "(nl_header \<Rightarrow> nl_client \<Rightarrow> nl_client) option \<Rightarrow> mbuf \<times> nl_frame \<Rightarrow> nl_client \<times> dpdk_core \<Rightarrow> fl_error + nl_client \<times> dpdk_core" where
  "nl_poll_one mem_diff = (\<lambda>(m, f) (s, c).
     (case nl_packet_dispatch mem_diff (nl_hdr f) s of Inl e \<Rightarrow> Inl e | Inr s \<Rightarrow> Inr (s, rte_pktmbuf_free m c)))"

interpretation nl: receive_turn "nl_poll_one mem_diff" fst for mem_diff
proof
  fix r s c s' c'
  assume "nl_poll_one mem_diff r (s, c) = Inr (s', c')"
  then show "taken c' = taken c \<and> handed_over c' = handed_over c + {#mb_addr (fst r)#}"
    by (cases r) (auto simp: nl_poll_one_def split: sum.splits)
qed

definition nl_net_poll_packets ::
  "(nl_header \<Rightarrow> nl_client \<Rightarrow> nl_client) option \<Rightarrow> (mbuf \<times> nl_frame) list \<Rightarrow> nl_client \<times> dpdk_core
     \<Rightarrow> fl_error + nat \<times> nl_client \<times> dpdk_core" where
  "nl_net_poll_packets mem_diff rx = (\<lambda>(s, c).
     (let bufs = take DPDK_RX_BURST_SIZE rx;
          c = snd (dpdk_poll_recvs (map fst rx) c)
      in case receive_loop (nl_poll_one mem_diff) bufs (s, c) of Inl e \<Rightarrow> Inl e | Inr sc \<Rightarrow> Inr (length bufs, sc)))"

text \<open>One frame for every host of the list other than this one, each with a buffer of its own.\<close>

definition broadcast_frames :: "u8 \<Rightarrow> lock_queue_node \<Rightarrow> u8 \<Rightarrow> nl_frame list" where
  "broadcast_frames me node action_type =
     map (\<lambda>i. (net_send_lock_server node action_type 0 0)
                \<lparr>udp_dst_port := (if action_type = MEM_DIFF then MEM_DIFF_PORT else LK_PORT), ip_dst_addr := ip_list ! i\<rparr>)
       (filter (\<lambda>i. nl_host_list ! i \<noteq> me) [0..<unat HOST_NUM])"

text \<open>The frames are sent as a batch of \<open>HOST_NUM - 1\<close>; the second list are those left over.\<close>

definition net_broadcast_lock_server :: "u8 \<Rightarrow> lock_queue_node \<Rightarrow> u8 \<Rightarrow> nl_frame list \<times> nl_frame list" where
  "net_broadcast_lock_server me node action_type =
     (let fs = broadcast_frames me node action_type in (take (unat HOST_NUM - 1) fs, drop (unat HOST_NUM - 1) fs))"

section \<open>Queue lengths in the switch (server/main.cc)\<close>

text \<open>The two variables that a line sets; a field that does not match leaves its variable as it was.\<close>

definition scan_length :: "string \<Rightarrow> u32 \<times> int \<Rightarrow> u32 \<times> int" where
  "scan_length line = (\<lambda>(lock_id, len).
     (case scan_nat 10 (dropWhile is_space line) of
        None \<Rightarrow> (lock_id, len)
      | Some (n, s) \<Rightarrow>
          (of_nat (min n (2 ^ 64 - 1)),
           case comma s of None \<Rightarrow> len | Some s \<Rightarrow> (case scan_int s of None \<Rightarrow> len | Some (l, _) \<Rightarrow> l))))"

text \<open>The array has \<open>MAX_LOCK_NUM\<close> elements; the index of a line is not checked.\<close>

fun read_lengths :: "nat \<Rightarrow> string list \<Rightarrow> u32 \<times> int \<Rightarrow> (u32 \<rightharpoonup> int) \<Rightarrow> fl_error + (u32 \<rightharpoonup> int)" where
  "read_lengths max_lock_num [] vs a = Inr a"
| "read_lengths max_lock_num (line # lines) vs a =
     (let (lock_id, len) = scan_length line vs in
      if max_lock_num \<le> unat lock_id then Inl Out_of_bounds
      else read_lengths max_lock_num lines (lock_id, len) (a(lock_id \<mapsto> len)))"

text \<open>With a file, what it does not mention keeps the contents \<open>mem\<close> of the new array.\<close>

definition load_len_in_switch ::
  "nat \<Rightarrow> string list option \<Rightarrow> u32 \<times> int \<Rightarrow> (u32 \<Rightarrow> int) \<Rightarrow> fl_error + (u32 \<rightharpoonup> int)" where
  "load_len_in_switch max_lock_num map_obj vs mem =
     (case map_obj of
        None \<Rightarrow> Inr (init_len_in_switch max_lock_num)
      | Some lines \<Rightarrow>
          read_lengths max_lock_num lines vs (\<lambda>i. if unat i < max_lock_num then Some (mem i) else None))"

section \<open>The broadcast reaches every other host\<close>

text \<open>
  A broadcast of a NetLock host goes to every other host once: the batch has one frame for
  each of them, with its address and the message of the node, none for the sender, and no
  buffer is left over.
\<close>

theorem broadcast_reaches_others:
  assumes "me \<in> set nl_host_list"
  shows "\<exists>fs. net_broadcast_lock_server me node act = (fs, []) \<and>
           map ip_dst_addr fs = map snd (filter (\<lambda>(h, ip). h \<noteq> me) (zip nl_host_list ip_list)) \<and>
           length fs = 7 \<and> distinct (map ip_dst_addr fs) \<and>
           (\<forall>f \<in> set fs. nl_hdr f = nl_hdr (net_send_lock_server node act 0 0) \<and> nl_payload f = nd_payload node \<and>
                        udp_dst_port f = (if act = MEM_DIFF then MEM_DIFF_PORT else LK_PORT))"
proof -
  have u: "[0..<8] = [0, 1, 2, 3, 4, 5, 6, 7 :: nat]" by (simp add: upt_rec)
  have "me \<in> {1, 2, 3, 4, 5, 6, 7, 8}" using assms by (auto simp: nl_host_list_def)
  then show ?thesis
    by (elim insertE emptyE)
      (simp_all add: net_broadcast_lock_server_def broadcast_frames_def u nl_host_list_def ip_list_def HOST_NUM_def
        word32_le_def net_send_lock_server_def Let_def)
qed

definition example_node :: lock_queue_node where
  "example_node =
     \<lparr>nd_op_type = MEM_DIFF, nd_mode = 1, nd_client_id = 3, nd_txn_id = 7, nd_lock_id = 5, nd_ip_src = 0,
      nd_role = 0, nd_payload = []\<rparr>"

theorem broadcast_reaches_others_witness:
  "\<exists>fs. net_broadcast_lock_server 3 example_node MEM_DIFF = (fs, []) \<and> length fs = 7 \<and> distinct (map ip_dst_addr fs)"
  using broadcast_reaches_others [of 3 example_node MEM_DIFF] by (auto simp: nl_host_list_def)

section \<open>The table of lengths is read as it was written\<close>

definition length_line :: "u32 \<times> int \<Rightarrow> string" where
  "length_line = (\<lambda>(i, l). show_nat 10 (unat i) @ CHR '','' # show_int l)"

lemma scan_length_line: "scan_length (length_line e) vs = e"
proof -
  obtain i l where e: "e = (i, l)" by (cases e)
  have "unat i < 2 ^ 32" using unsigned_less [of i] by simp
  then have "(of_nat (min (unat i) (2 ^ 64 - 1)) :: u32) = i" by (simp add: min_absorb1)
  then show ?thesis using scan_int_show [of "[]" l]
    by (simp add: e length_line_def scan_length_def drop_space_show scan_nat_show comma_not_digit split: prod.split)
qed

lemma read_length_lines:
  "\<forall>e \<in> set es. unat (fst e) < max_lock_num \<Longrightarrow>
   read_lengths max_lock_num (map length_line es) vs a = Inr (a ++ map_of (rev es))"
proof (induction es arbitrary: vs a)
  case (Cons e es)
  then show ?case by (cases e) (auto simp: scan_length_line map_add_def fun_eq_iff split: option.split)
qed simp

text \<open>
  The server reads the queue lengths of the switch as its file gives them: the last line
  for a lock counts, and a lock that no line mentions keeps what was in the memory of the
  array. A line for a lock outside the array is written behind its end.
\<close>

theorem queue_lengths_loaded:
  assumes "\<forall>e \<in> set es. unat (fst e) < n"
  shows "load_len_in_switch n (Some (map length_line es)) vs mem =
           Inr ((\<lambda>i. if unat i < n then Some (mem i) else None) ++ map_of (rev es)) \<and>
         (n \<le> unat j \<longrightarrow>
          load_len_in_switch n (Some (map length_line es @ [length_line (j, l)])) vs mem = Inl Out_of_bounds)"
proof -
  have "read_lengths n (map length_line es @ [length_line (j, l)]) vs a = Inl Out_of_bounds" if "n \<le> unat j" for vs a
    using assms by (induction es arbitrary: vs a) (use that in \<open>auto simp: scan_length_line\<close>)
  then show ?thesis using read_length_lines [OF assms] by (simp add: load_len_in_switch_def)
qed

theorem queue_lengths_loaded_witness:
  "load_len_in_switch 4 (Some (map length_line [(2, 7), (0, 10), (2, - 1)])) (0, 0) (\<lambda>_. 99) =
     Inr ((\<lambda>i. if unat i < 4 then Some 99 else None) ++ map_of [(2, - 1), (0, 10), (2, 7)])"
  using queue_lengths_loaded [of "[(2, 7), (0, 10), (2, - 1)]" 4 "(0, 0)" "\<lambda>_. 99"] by simp

end
