(* ===== verification/Net_Switch.thy ===== *)
theory Net_Switch
  imports Net_Queue
begin

text \<open>
  The switch program of NetLock (baseline/NetLock/switch/p4): for each of its locks the switch
  keeps a queue in a section of register arrays that all locks share, used as a ring, and
  two counters of the readers and writers in it. A request that finds the ring full goes to
  the lock server; a release recirculates through the pipeline to grant the requests that
  are next. Packets that warm up the network are left out, and so are parsers and
  deparsers: the model starts from the fields of a parsed lock packet.
\<close>

section \<open>Packets and registers\<close>

record nls_pkt =
  np_recirc_flag :: u8
  np_op :: u8
  np_mode :: u8
  np_client :: u8
  np_tid :: u32
  np_lock :: u32
  np_ts_lo :: u32
  np_ts_hi :: u32
  np_empty_slots :: u32
  np_head :: u32
  np_tail :: u32
  np_ip_src :: u32
  np_ip_dst :: u32
  np_eth_src :: u64
  np_eth_dst :: u64
  np_udp_src :: u16
  np_udp_dst :: u16
  np_dequeued_mode :: u8
  np_cur_head :: u32
  np_cur_tail :: u32

text \<open>
  Registers with an index for the lock, and arrays with an index into the shared memory. Of
  the pair \<open>slots_two_sides\<close>, \<open>lo\<close> is the number of empty slots and \<open>hi\<close> the number of requests
  at the server; of \<open>shared_and_exclusive_count\<close>, \<open>lo\<close> counts writers and \<open>hi\<close> readers.
\<close>

record nls_regs =
  slots_lo :: "u32 \<Rightarrow> u32"
  slots_hi :: "u32 \<Rightarrow> u32"
  excl_cnt :: "u32 \<Rightarrow> u32"
  shared_cnt :: "u32 \<Rightarrow> u32"
  head_register :: "u32 \<Rightarrow> u32"
  tail_register :: "u32 \<Rightarrow> u32"
  left_bound :: "u32 \<Rightarrow> u32"
  right_bound :: "u32 \<Rightarrow> u32"
  queue_size_op :: "u32 \<Rightarrow> u32"
  ip_array :: "u32 \<Rightarrow> u32"
  mode_array :: "u32 \<Rightarrow> u8"
  client_id_array :: "u32 \<Rightarrow> u8"
  tid_array :: "u32 \<Rightarrow> u32"
  ts_hi_array :: "u32 \<Rightarrow> u32"
  ts_lo_array :: "u32 \<Rightarrow> u32"

text \<open>What leaves the switch: a packet sent by its address, or a copy from the mirror.\<close>

datatype nls_out =
    Routed nls_pkt
  | Mirrored nls_pkt

text \<open>The entries of the control plane: the addresses of the hosts, and of the one lock server.\<close>

definition nls_hosts :: "u32 list" where
  "nls_hosts = [0x0a000204, 0x0a000201, 0x0a000202, 0x0a000203, 0x0a000205, 0x0a000206, 0x0a000207, 0x0a000208]"

definition nls_server :: u32 where
  "nls_server = 0x0a000207"

section \<open>Register actions\<close>

definition dec_empty_slots_alu :: "u32 \<Rightarrow> u32 \<times> u32 \<Rightarrow> (u32 \<times> u32) \<times> u32" where
  "dec_empty_slots_alu size_op = (\<lambda>(lo, hi).
     let v = (if 0 < lo \<and> hi + size_op \<le> 0 then (lo - 1, hi) else (lo, hi + 1)) in (v, snd v))"

definition push_back_alu :: "u32 \<times> u32 \<Rightarrow> (u32 \<times> u32) \<times> u32" where
  "push_back_alu = (\<lambda>(lo, hi). ((if 0 < lo then lo - 1 else lo, hi - 1), lo))"

definition inc_empty_slots_alu :: "u32 \<Rightarrow> u32 \<times> u32 \<Rightarrow> (u32 \<times> u32) \<times> u32" where
  "inc_empty_slots_alu size_of_queue = (\<lambda>(lo, hi). ((if lo \<le> size_of_queue then lo + 1 else lo, hi), lo))"

definition acquire_shared_lock_alu :: "u32 \<times> u32 \<Rightarrow> (u32 \<times> u32) \<times> u32" where
  "acquire_shared_lock_alu = (\<lambda>(lo, hi). ((lo, hi + 1), if 0 < lo then hi + 1 else 0))"

definition acquire_exclusive_lock_alu :: "u32 \<times> u32 \<Rightarrow> (u32 \<times> u32) \<times> u32" where
  "acquire_exclusive_lock_alu = (\<lambda>(lo, hi). ((lo + 1, hi), if 0 < lo \<or> 0 < hi then 1 else 0))"

definition update_lock_alu :: "u8 \<Rightarrow> u32 \<times> u32 \<Rightarrow> u32 \<times> u32" where
  "update_lock_alu mode = (\<lambda>(lo, hi).
     if mode = EXCLUSIVE then (lo - 1, hi) else if mode = SHARED then (lo, hi - 1) else (lo, hi))"

text \<open>The next position in the ring, for the registers of head and tail and for the head of a packet.\<close>

definition ring_next :: "u32 \<Rightarrow> u32 \<Rightarrow> u32 \<Rightarrow> u32" where
  "ring_next left right p = (if p = right then left else p + 1)"

definition set_slots :: "u32 \<Rightarrow> u32 \<times> u32 \<Rightarrow> nls_regs \<Rightarrow> nls_regs" where
  "set_slots l v s = s\<lparr>slots_lo := (slots_lo s)(l := fst v), slots_hi := (slots_hi s)(l := snd v)\<rparr>"

definition set_counts :: "u32 \<Rightarrow> u32 \<times> u32 \<Rightarrow> nls_regs \<Rightarrow> nls_regs" where
  "set_counts l v s = s\<lparr>excl_cnt := (excl_cnt s)(l := fst v), shared_cnt := (shared_cnt s)(l := snd v)\<rparr>"

section \<open>Acquire\<close>

text \<open>The entry \<open>acquire_lock_table\<close> has for each of the two modes; another mode finds the lock free.\<close>

definition acquire_lock_table :: "u32 \<Rightarrow> u8 \<Rightarrow> nls_regs \<Rightarrow> nls_regs \<times> u32" where
  "acquire_lock_table l mode s =
     (if mode = SHARED then
        (let (v, locked) = acquire_shared_lock_alu (excl_cnt s l, shared_cnt s l) in (set_counts l v s, locked))
      else if mode = EXCLUSIVE then
        (let (v, locked) = acquire_exclusive_lock_alu (excl_cnt s l, shared_cnt s l) in (set_counts l v s, locked))
      else (s, 0))"

text \<open>The tail moves on and the request is written at its place.\<close>

definition nls_enqueue :: "u32 \<Rightarrow> nls_pkt \<Rightarrow> nls_regs \<Rightarrow> nls_regs" where
  "nls_enqueue l p s =
     (let t = ring_next (left_bound s l) (right_bound s l) (tail_register s l) in
      s\<lparr>tail_register := (tail_register s)(l := t),
        ip_array := (ip_array s)(t := np_ip_src p),
        mode_array := (mode_array s)(t := np_mode p),
        client_id_array := (client_id_array s)(t := np_client p),
        tid_array := (tid_array s)(t := np_tid p),
        ts_hi_array := (ts_hi_array s)(t := np_ts_hi p),
        ts_lo_array := (ts_lo_array s)(t := np_ts_lo p)\<rparr>)"

definition fix_src_port :: "nls_pkt \<Rightarrow> nls_pkt" where
  "fix_src_port p = p\<lparr>np_eth_src := ucast (np_ip_src p), np_udp_src := 9000 + ucast (np_lock p AND 255)\<rparr>"

definition set_tag :: "bool \<Rightarrow> nls_pkt \<Rightarrow> nls_pkt" where
  "set_tag lock_exist p = p\<lparr>np_eth_dst := ucast (if lock_exist then SECONDARY_BACKUP else PRIMARY_BACKUP)\<rparr>"

definition forward_to_server :: "nls_pkt \<Rightarrow> nls_pkt" where
  "forward_to_server p = p\<lparr>np_ip_src := nls_server, np_ip_dst := nls_server\<rparr>"

definition ipv4_route :: "nls_pkt \<Rightarrow> nls_out list" where
  "ipv4_route p = (if np_ip_dst p \<in> set nls_hosts then [Routed p] else [])"

text \<open>
  Acquires and requests that the server pushes back. For the latter the number of requests at
  the server is not looked at, and the operation of a granted packet is not changed.
  Metadata that a packet has not set is 0.
\<close>

definition AcquireLock :: "u32 \<Rightarrow> nls_pkt \<Rightarrow> nls_regs \<Rightarrow> nls_regs \<times> nls_out list" where
  "AcquireLock l p s =
     (let (v, length_in_server, empty_slots) =
            (if np_op p = ACQUIRE_LOCK
             then (let (v, r) = dec_empty_slots_alu (queue_size_op s l) (slots_lo s l, slots_hi s l) in (v, r, 0))
             else (let (v, r) = push_back_alu (slots_lo s l, slots_hi s l) in (v, 0, r)));
          s1 = set_slots l v s
      in if length_in_server \<noteq> 0 then
           (s1, ipv4_route ((forward_to_server (set_tag True (fix_src_port p)))
                  \<lparr>np_empty_slots := empty_slots, np_head := 0, np_tail := 0\<rparr>))
         else
           (let (s2, locked) = acquire_lock_table l (np_mode p) s1;
                s3 = nls_enqueue l p s2
            in if locked = 0 then
                 (s3, ipv4_route (p\<lparr>np_ip_dst := np_ip_src p, np_empty_slots := length_in_server, np_head := 0,
                        np_tail := tail_register s3 l,
                        np_op := (if np_op p = ACQUIRE_LOCK then DIRECT_GRANT_FROM_SWITCH else np_op p)\<rparr>))
               else (s3, [])))"

section \<open>Release\<close>

text \<open>The egress pipeline turns the copy of a release into the grant for a queued request.\<close>

definition nls_egress :: "u32 \<Rightarrow> u32 \<Rightarrow> u32 \<Rightarrow> nls_regs \<Rightarrow> nls_pkt \<Rightarrow> nls_pkt" where
  "nls_egress pos head tail s p =
     p\<lparr>np_recirc_flag := 0, np_op := ACQUIRE_LOCK, np_head := head, np_tail := tail,
       np_tid := tid_array s pos, np_mode := mode_array s pos, np_client := client_id_array s pos,
       np_ip_dst := ip_array s pos, np_ip_src := ip_array s pos, np_udp_dst := LK_PORT,
       np_udp_src := LK_PORT + ucast (tid_array s pos AND 127)\<rparr>"

text \<open>
  The first pass of a release: the head of the queue is removed, whoever it belongs to. If it
  was the last entry the release goes on to the server; otherwise the packet recirculates
  with the mode of the entry and the position of the next one.
\<close>

definition release_first :: "u32 \<Rightarrow> nls_pkt \<Rightarrow> nls_regs \<Rightarrow> nls_regs \<times> nls_out list \<times> nls_pkt option" where
  "release_first l p s =
     (let left = left_bound s l; right = right_bound s l; size_of_queue = right - left;
          (v, before) = inc_empty_slots_alu size_of_queue (slots_lo s l, slots_hi s l);
          s1 = set_slots l v s;
          head = ring_next left right (head_register s l);
          s2 = s1\<lparr>head_register := (head_register s1)(l := head)\<rparr>;
          s3 = set_counts l (update_lock_alu (np_mode p) (excl_cnt s l, shared_cnt s l)) s2
      in if before = size_of_queue then
           (s3, ipv4_route ((forward_to_server (set_tag True (fix_src_port p)))
                  \<lparr>np_empty_slots := before, np_head := head, np_tail := 0\<rparr>), None)
         else
           (let tail = tail_register s l in
            if head \<noteq> tail then
              (s3, [], Some (p\<lparr>np_ip_dst := ip_array s head, np_recirc_flag := 1, np_dequeued_mode := mode_array s head,
                 np_cur_head := ring_next left right head, np_cur_tail := tail\<rparr>))
            else (s3, [], None)))"

text \<open>
  A later pass reads the entry at the position in the packet. It is granted when the entry
  before it was a writer or it is one itself, and in the passes after that as long as there
  are readers.
\<close>

definition release_again :: "u32 \<Rightarrow> nls_pkt \<Rightarrow> nls_regs \<Rightarrow> nls_out list \<times> nls_pkt option" where
  "release_again l p s =
     (let head = np_cur_head p; tail = np_cur_tail p; flag = np_recirc_flag p; mode = mode_array s head;
          granted = (flag = 1 \<and> (np_dequeued_mode p = EXCLUSIVE \<or> mode = EXCLUSIVE) \<or> flag = 2 \<and> mode = SHARED);
          outs = (if granted \<and> ip_array s head \<in> set nls_hosts then [Mirrored (nls_egress head head tail s p)] else [])
      in if granted \<and> head \<noteq> tail \<and> (flag = 1 \<and> mode = SHARED \<or> flag = 2) then
           (outs, Some (p\<lparr>np_ip_dst := ip_array s head, np_recirc_flag := 2,
              np_cur_head := ring_next (left_bound s l) (right_bound s l) head, np_cur_tail := tail\<rparr>))
         else (outs, None))"

definition ReleaseLock :: "u32 \<Rightarrow> nls_pkt \<Rightarrow> nls_regs \<Rightarrow> nls_regs \<times> nls_out list \<times> nls_pkt option" where
  "ReleaseLock l p s =
     (if np_recirc_flag p = 0 then release_first l p s
      else (let (outs, again) = release_again l p s in (s, outs, again)))"

section \<open>The pipeline\<close>

text \<open>
  A lock packet: the registers after it, what leaves the switch, and the packet that
  recirculates. \<open>index\<close> has the locks of the switch with their place in the registers.
\<close>

definition nls_ingress ::
  "(u32 \<Rightarrow> u32 option) \<Rightarrow> nls_pkt \<Rightarrow> nls_regs \<Rightarrow> nls_regs \<times> nls_out list \<times> nls_pkt option" where
  "nls_ingress index p s =
     (if np_op p = ACQUIRE_LOCK \<or> np_op p = PUSH_BACK_LOCK \<or> np_op p = RELEASE_LOCK then
        (case index (np_lock p) of
           None \<Rightarrow> (s, ipv4_route (forward_to_server (set_tag False (fix_src_port p))), None)
         | Some l \<Rightarrow>
             (if np_op p = RELEASE_LOCK then ReleaseLock l p s
              else (let (s1, outs) = AcquireLock l p s in (s1, outs, None))))
      else (s, ipv4_route p, None))"

text \<open>A packet with all its passes.\<close>

partial_function (option) nls_run ::
  "(u32 \<Rightarrow> u32 option) \<Rightarrow> nls_pkt \<Rightarrow> nls_regs \<Rightarrow> (nls_regs \<times> nls_out list) option" where
  "nls_run index p s =
     (case nls_ingress index p s of
        (s1, outs, None) \<Rightarrow> Some (s1, outs)
      | (s1, outs, Some p1) \<Rightarrow>
          Option.bind (nls_run index p1 s1) (\<lambda>(s2, outs2). Some (s2, outs @ outs2)))"

text \<open>
  The registers and the table of locks as the control plane sets them for the micro benchmark
  (switch/control/test.py): locks 1 to \<open>tot\<close>, which share the slots evenly.
\<close>

definition nls_init :: "nat \<Rightarrow> nat \<Rightarrow> nls_regs" where
  "nls_init slot_num tot =
     (let qs = slot_num div tot;
          reg = (\<lambda>f i. if 1 \<le> unat i \<and> unat i \<le> tot then of_nat (f (unat i)) else 0)
      in \<lparr>slots_lo = reg (\<lambda>i. qs), slots_hi = (\<lambda>i. 0), excl_cnt = (\<lambda>i. 0), shared_cnt = (\<lambda>i. 0),
          head_register = reg (\<lambda>i. qs * (i - 1) + 1), tail_register = reg (\<lambda>i. qs * (i - 1) + 1),
          left_bound = reg (\<lambda>i. qs * (i - 1) + 1), right_bound = reg (\<lambda>i. qs * i),
          queue_size_op = (\<lambda>i. 0), ip_array = (\<lambda>_. 0), mode_array = (\<lambda>_. 0), client_id_array = (\<lambda>_. 0),
          tid_array = (\<lambda>_. 0), ts_hi_array = (\<lambda>_. 0), ts_lo_array = (\<lambda>_. 0)\<rparr>)"

definition nls_index :: "nat \<Rightarrow> u32 \<Rightarrow> u32 option" where
  "nls_index tot i = (if 1 \<le> unat i \<and> unat i \<le> tot then Some i else None)"

section \<open>The ring is a queue\<close>

record nls_entry =
  ne_ip :: u32
  ne_mode :: u8
  ne_client :: u8
  ne_tid :: u32

definition entry_at :: "nls_regs \<Rightarrow> u32 \<Rightarrow> nls_entry" where
  "entry_at s p = \<lparr>ne_ip = ip_array s p, ne_mode = mode_array s p, ne_client = client_id_array s p, ne_tid = tid_array s p\<rparr>"

definition entry_of :: "nls_pkt \<Rightarrow> nls_entry" where
  "entry_of p = \<lparr>ne_ip = np_ip_src p, ne_mode = np_mode p, ne_client = np_client p, ne_tid = np_tid p\<rparr>"

text \<open>The positions of a ring of \<open>N\<close> slots that begins at \<open>L\<close>.\<close>

definition ring_at :: "nat \<Rightarrow> nat \<Rightarrow> nat \<Rightarrow> u32" where
  "ring_at L N i = of_nat (L + i mod N)"

definition ring_ok :: "nat \<Rightarrow> nat \<Rightarrow> bool" where
  "ring_ok L N \<longleftrightarrow> 0 < N \<and> L + N \<le> 110000"

lemma ring_ok_less:
  assumes "ring_ok L N"
  shows "L + i mod N < 2 ^ 32"
proof -
  have "i mod N < N" using assms by (simp add: ring_ok_def)
  then have "L + i mod N < 110000" using assms unfolding ring_ok_def by linarith
  then show ?thesis by simp
qed

lemma ring_at_eq_iff: "ring_ok L N \<Longrightarrow> ring_at L N i = ring_at L N j \<longleftrightarrow> i mod N = j mod N"
  using u32_of_nat_inj [of "L + i mod N" "L + j mod N"] ring_ok_less [of L N] by (auto simp: ring_at_def)

lemma ring_at_0: "ring_at L N 0 = of_nat L"
  by (simp add: ring_at_def)

lemma ring_next_at:
  assumes "ring_ok L N"
  shows "ring_next (of_nat L) (of_nat (L + N - 1)) (ring_at L N i) = ring_at L N (Suc i)"
proof -
  have "(L + N - 1 :: nat) = L + (N - 1) mod N" using assms by (simp add: ring_ok_def)
  then have r: "(of_nat (L + N - 1) :: u32) = ring_at L N (N - 1)" unfolding ring_at_def by (rule arg_cong)
  have "ring_at L N i = ring_at L N (N - 1) \<longleftrightarrow> Suc (i mod N) = N"
    using assms by (auto simp: ring_at_eq_iff ring_ok_def)
  then show ?thesis unfolding ring_next_def r by (simp add: ring_at_def mod_Suc)
qed

lemma ring_at_add_eq:
  assumes "ring_ok L N" and "i \<le> j" and "j < i + N"
  shows "ring_at L N i = ring_at L N j \<longleftrightarrow> i = j"
proof -
  have "i mod N = j mod N \<Longrightarrow> i = j"
    using assms mod_eq_dvd_iff_nat [of i j N] by (auto dest!: dvd_imp_le)
  then show ?thesis using assms(1) by (auto simp: ring_at_eq_iff)
qed

definition mode_cnt :: "u8 \<Rightarrow> nls_entry list \<Rightarrow> nat" where
  "mode_cnt m es = length (filter (\<lambda>e. ne_mode e = m) es)"

lemma mode_cnt_simps [simp]:
  "mode_cnt m [] = 0" "mode_cnt m (e # es) = (if ne_mode e = m then Suc (mode_cnt m es) else mode_cnt m es)"
  "mode_cnt m (es @ fs) = mode_cnt m es + mode_cnt m fs"
  by (simp_all add: mode_cnt_def)

lemma mode_cnt_pos: "0 < mode_cnt m es \<longleftrightarrow> (\<exists>e \<in> set es. ne_mode e = m)"
  by (auto simp: mode_cnt_def filter_empty_conv)

lemma mode_cnt_le: "mode_cnt m es \<le> length es"
  by (simp add: mode_cnt_def)

text \<open>A lock whose entries in the ring, from the position after the head on, are a list.\<close>

definition holds_queue :: "nls_regs \<Rightarrow> u32 \<Rightarrow> nat \<Rightarrow> nat \<Rightarrow> nat \<Rightarrow> nls_entry list \<Rightarrow> bool" where
  "holds_queue s l L N h es \<longleftrightarrow>
     ring_ok L N \<and> length es \<le> N \<and>
     left_bound s l = of_nat L \<and> right_bound s l = of_nat (L + N - 1) \<and> queue_size_op s l = 0 \<and>
     slots_hi s l = 0 \<and> slots_lo s l = of_nat (N - length es) \<and>
     excl_cnt s l = of_nat (mode_cnt EXCLUSIVE es) \<and> shared_cnt s l = of_nat (mode_cnt SHARED es) \<and>
     head_register s l = ring_at L N h \<and> tail_register s l = ring_at L N (h + length es) \<and>
     (\<forall>i < length es. entry_at s (ring_at L N (h + 1 + i)) = es ! i) \<and>
     (\<forall>e \<in> set es. ne_mode e \<in> {SHARED, EXCLUSIVE} \<and> ne_ip e \<in> set nls_hosts)"

lemma u32_of_nat_pos: "n < 2 ^ 32 \<Longrightarrow> (0 :: u32) < of_nat n \<longleftrightarrow> 0 < n"
  using u32_of_nat_inj [of n 0] by (cases "n = 0") (auto simp: word_neq_0_conv [symmetric])

lemma u32_of_nat_minus_1: "0 < n \<Longrightarrow> (of_nat n :: u32) - 1 = of_nat (n - 1)"
  by (cases n) simp_all

section \<open>An acquire appends to the queue\<close>

definition nls_grants :: "nls_out list \<Rightarrow> (u8 \<times> u32) list" where
  "nls_grants outs = concat (map (\<lambda>out. case out of
       Routed p \<Rightarrow> if np_op p = DIRECT_GRANT_FROM_SWITCH then [(np_client p, np_tid p)] else []
     | Mirrored p \<Rightarrow> [(np_client p, np_tid p)]) outs)"

definition ne_key :: "nls_entry \<Rightarrow> u8 \<times> u32" where
  "ne_key e = (ne_client e, ne_tid e)"

text \<open>A request has to wait when a writer is in the queue, or when it is a writer and anybody is.\<close>

definition must_wait :: "u8 \<Rightarrow> nls_entry list \<Rightarrow> bool" where
  "must_wait m es \<longleftrightarrow> (if m = SHARED then 0 < mode_cnt EXCLUSIVE es else es \<noteq> [])"

lemma entry_at_enqueue:
  "entry_at (nls_enqueue l p s) q =
     (if q = ring_next (left_bound s l) (right_bound s l) (tail_register s l) then entry_of p else entry_at s q)"
  by (simp add: nls_enqueue_def entry_at_def entry_of_def Let_def)

lemma entry_at_set [simp]:
  "entry_at (set_slots l v s) q = entry_at s q" "entry_at (set_counts l v s) q = entry_at s q"
  "entry_at (s\<lparr>head_register := f\<rparr>) q = entry_at s q"
  by (simp_all add: entry_at_def set_slots_def set_counts_def)

lemma acquire_lock_table_eq:
  assumes "excl_cnt s l = of_nat e" "shared_cnt s l = of_nat c" "e + c < 2 ^ 32 - 1" "m \<in> {SHARED, EXCLUSIVE}"
  shows "fst (acquire_lock_table l m s) =
      set_counts l (of_nat (if m = EXCLUSIVE then Suc e else e), of_nat (if m = SHARED then Suc c else c)) s"
    and "snd (acquire_lock_table l m s) = 0 \<longleftrightarrow> (if m = SHARED then e = 0 else e = 0 \<and> c = 0)"
proof -
  have z: "(of_nat (Suc c) :: u32) \<noteq> 0" using assms(3) u32_of_nat_inj [of "Suc c" 0] by simp
  have p: "(0 :: u32) < of_nat e \<longleftrightarrow> 0 < e" "(0 :: u32) < of_nat c \<longleftrightarrow> 0 < c"
    using assms(3) by (intro u32_of_nat_pos; simp)+
  show "fst (acquire_lock_table l m s) =
      set_counts l (of_nat (if m = EXCLUSIVE then Suc e else e), of_nat (if m = SHARED then Suc c else c)) s"
    using assms(4) by (auto simp: acquire_lock_table_def acquire_shared_lock_alu_def acquire_exclusive_lock_alu_def
        assms(1,2) SHARED_def EXCLUSIVE_def add.commute)
  show "snd (acquire_lock_table l m s) = 0 \<longleftrightarrow> (if m = SHARED then e = 0 else e = 0 \<and> c = 0)"
    using assms(4) z p
    by (auto simp: acquire_lock_table_def acquire_shared_lock_alu_def acquire_exclusive_lock_alu_def
        assms(1,2) SHARED_def EXCLUSIVE_def add.commute)
qed

lemma holds_queue_empty_iff:
  "holds_queue s l L N h es \<Longrightarrow> mode_cnt EXCLUSIVE es = 0 \<and> mode_cnt SHARED es = 0 \<longleftrightarrow> es = []"
  by (cases es) (auto simp: holds_queue_def)

lemma mode_cnt_sum: "mode_cnt EXCLUSIVE es + mode_cnt SHARED es \<le> length es"
  by (induction es) (auto simp: SHARED_def EXCLUSIVE_def)

lemma holds_queue_enqueue:
  assumes q: "holds_queue s l L N h es" and n: "length es < N" and e: "np_mode p \<in> {SHARED, EXCLUSIVE}" "np_ip_src p \<in> set nls_hosts"
    and s2: "s2 = set_counts l (of_nat (mode_cnt EXCLUSIVE (es @ [entry_of p])), of_nat (mode_cnt SHARED (es @ [entry_of p])))
               (set_slots l (of_nat (N - length (es @ [entry_of p])), 0) s)"
  shows "holds_queue (nls_enqueue l p s2) l L N h (es @ [entry_of p])"
proof -
  have ok: "ring_ok L N" using q by (simp add: holds_queue_def)
  let ?t = "ring_at L N (h + 1 + length es)"
  have t: "ring_next (left_bound s2 l) (right_bound s2 l) (tail_register s2 l) = ?t"
    using q ring_next_at [OF ok, of "h + length es"] by (simp add: holds_queue_def s2 set_counts_def set_slots_def)
  have "entry_at (nls_enqueue l p s2) (ring_at L N (h + 1 + i)) = (es @ [entry_of p]) ! i" if "i < length (es @ [entry_of p])" for i
  proof (cases "i = length es")
    case False
    then have "ring_at L N (h + 1 + i) \<noteq> ?t"
      using that n ring_at_add_eq [OF ok, of "h + 1 + i" "h + 1 + length es"] by auto
    then have "entry_at (nls_enqueue l p s2) (ring_at L N (h + 1 + i)) = entry_at s (ring_at L N (h + 1 + i))"
      unfolding entry_at_enqueue t by (simp add: s2)
    then show ?thesis using q False that by (auto simp: holds_queue_def nth_append)
  qed (simp only: entry_at_enqueue t, simp)
  moreover have "tail_register (nls_enqueue l p s2) l = ?t" using t by (simp add: nls_enqueue_def Let_def)
  ultimately show ?thesis
    using q n e by (simp add: holds_queue_def nls_enqueue_def Let_def s2 set_counts_def set_slots_def entry_of_def)
qed

lemma AcquireLock_eq:
  assumes q: "holds_queue s l L N h es" and n: "length es < N"
    and p: "np_op p = ACQUIRE_LOCK" "np_mode p \<in> {SHARED, EXCLUSIVE}" "np_ip_src p \<in> set nls_hosts"
  obtains s1 outs where "AcquireLock l p s = (s1, outs)" "holds_queue s1 l L N h (es @ [entry_of p])"
    "nls_grants outs = (if must_wait (np_mode p) es then [] else [ne_key (entry_of p)])"
proof -
  have b: "ring_ok L N" "N < 2 ^ 32" using q by (auto simp: holds_queue_def ring_ok_def)
  have cnt: "mode_cnt EXCLUSIVE es + mode_cnt SHARED es < 2 ^ 32 - 1"
    using mode_cnt_sum [of es] n q by (simp add: holds_queue_def ring_ok_def)
  have lo: "(0 :: u32) < of_nat (N - length es)" using n b(2) u32_of_nat_pos [of "N - length es"] by simp
  define s1 where "s1 = set_slots l (of_nat (N - length (es @ [entry_of p])), 0) s"
  define s2 where "s2 = set_counts l (of_nat (mode_cnt EXCLUSIVE (es @ [entry_of p])),
      of_nat (mode_cnt SHARED (es @ [entry_of p]))) s1"
  have d: "dec_empty_slots_alu (queue_size_op s l) (slots_lo s l, slots_hi s l) =
      ((of_nat (N - length (es @ [entry_of p])), 0), 0)"
    using q lo n u32_of_nat_minus_1 [of "N - length es"] by (simp add: holds_queue_def dec_empty_slots_alu_def)
  have c: "excl_cnt s1 l = of_nat (mode_cnt EXCLUSIVE es)" "shared_cnt s1 l = of_nat (mode_cnt SHARED es)"
    using q by (simp_all add: holds_queue_def s1_def set_slots_def)
  have a: "fst (acquire_lock_table l (np_mode p) s1) = s2"
    unfolding acquire_lock_table_eq(1) [OF c cnt p(2)] s2_def by (simp add: entry_of_def add.commute)
  have w: "snd (acquire_lock_table l (np_mode p) s1) = 0 \<longleftrightarrow> \<not> must_wait (np_mode p) es"
    unfolding acquire_lock_table_eq(2) [OF c cnt p(2)] using holds_queue_empty_iff [OF q] by (simp add: must_wait_def)
  have "AcquireLock l p s = (nls_enqueue l p s2,
      if must_wait (np_mode p) es then [] else
        ipv4_route (p\<lparr>np_ip_dst := np_ip_src p, np_empty_slots := 0, np_head := 0,
          np_tail := tail_register (nls_enqueue l p s2) l, np_op := DIRECT_GRANT_FROM_SWITCH\<rparr>))"
    using p(1) d a w by (simp add: AcquireLock_def s1_def Let_def split_beta)
  moreover have "holds_queue (nls_enqueue l p s2) l L N h (es @ [entry_of p])"
    by (rule holds_queue_enqueue [OF q n p(2,3)]) (simp add: s1_def s2_def)
  ultimately show thesis using that p(3)
    by (simp add: ipv4_route_def nls_grants_def ne_key_def entry_of_def)
qed

section \<open>A release removes the head and grants what is next\<close>

lemma ring_size: "ring_ok L N \<Longrightarrow> (of_nat (L + N - 1) :: u32) - of_nat L = of_nat (N - 1)"
  by (cases N) (simp_all add: ring_ok_def)

lemma inc_empty_slots_eq:
  assumes "N < 2 ^ 32" and "n < N"
  shows "inc_empty_slots_alu (of_nat (N - 1)) (of_nat (N - Suc n), hi) = ((of_nat (N - n), hi), of_nat (N - Suc n))"
    and "(of_nat (N - Suc n) :: u32) = of_nat (N - 1) \<longleftrightarrow> n = 0"
proof -
  have "unat (of_nat (N - Suc n) :: u32) \<le> unat (of_nat (N - 1) :: u32)"
    using assms unat_of_nat_u32 [of "N - Suc n"] unat_of_nat_u32 [of "N - 1"] by simp
  then have le: "(of_nat (N - Suc n) :: u32) \<le> of_nat (N - 1)" by (simp only: word_le_nat_alt)
  have "Suc (N - Suc n) = N - n" using assms(2) by simp
  then have "(of_nat (N - Suc n) :: u32) + 1 = of_nat (N - n)" by (metis add.commute of_nat_Suc)
  with le show "inc_empty_slots_alu (of_nat (N - 1)) (of_nat (N - Suc n), hi) = ((of_nat (N - n), hi), of_nat (N - Suc n))"
    by (simp add: inc_empty_slots_alu_def)
  show "(of_nat (N - Suc n) :: u32) = of_nat (N - 1) \<longleftrightarrow> n = 0"
    using assms u32_of_nat_inj [of "N - Suc n" "N - 1"] by auto
qed

lemma update_lock_eq:
  assumes "m \<in> {SHARED, EXCLUSIVE}"
  shows "update_lock_alu m (of_nat (if m = EXCLUSIVE then Suc a else a), of_nat (if m = SHARED then Suc b else b)) = (of_nat a, of_nat b)"
  using assms by (auto simp: update_lock_alu_def SHARED_def EXCLUSIVE_def)

text \<open>The registers after a release: the head of the queue is gone.\<close>

lemma release_first_eq:
  assumes q: "holds_queue s l L N h (e # fs)" and p: "np_mode p = ne_mode e" "np_op p = RELEASE_LOCK"
  obtains s1 outs where "release_first l p s = (s1, outs,
      if fs = [] then None
      else Some (p\<lparr>np_ip_dst := ne_ip e, np_recirc_flag := 1, np_dequeued_mode := ne_mode e,
             np_cur_head := ring_at L N (h + 2), np_cur_tail := ring_at L N (h + 1 + length fs)\<rparr>))"
    "holds_queue s1 l L N (h + 1) fs" "nls_grants outs = []"
proof -
  have ok: "ring_ok L N" "N < 2 ^ 32" "length fs < N" using q by (auto simp: holds_queue_def ring_ok_def)
  define s1 where "s1 = set_counts l (of_nat (mode_cnt EXCLUSIVE fs), of_nat (mode_cnt SHARED fs))
     ((set_slots l (of_nat (N - length fs), 0) s)\<lparr>head_register := (head_register s)(l := ring_at L N (h + 1))\<rparr>)"
  have m: "ne_mode e \<in> {SHARED, EXCLUSIVE}" using q by (simp add: holds_queue_def)
  have c: "update_lock_alu (np_mode p) (excl_cnt s l, shared_cnt s l) = (of_nat (mode_cnt EXCLUSIVE fs), of_nat (mode_cnt SHARED fs))"
    using update_lock_eq [OF m, of "mode_cnt EXCLUSIVE fs" "mode_cnt SHARED fs"] q p(1) by (simp add: holds_queue_def)
  have i: "inc_empty_slots_alu (right_bound s l - left_bound s l) (slots_lo s l, slots_hi s l) =
      ((of_nat (N - length fs), 0), of_nat (N - Suc (length fs)))"
    "(of_nat (N - Suc (length fs)) :: u32) = right_bound s l - left_bound s l \<longleftrightarrow> fs = []"
    using inc_empty_slots_eq [OF ok(2,3)] ring_size [OF ok(1)] q by (simp_all add: holds_queue_def)
  have n: "ring_next (left_bound s l) (right_bound s l) (head_register s l) = ring_at L N (h + 1)"
    "ring_next (left_bound s l) (right_bound s l) (ring_at L N (h + 1)) = ring_at L N (h + 2)"
    using ring_next_at [OF ok(1)] q by (simp_all add: holds_queue_def)
  have t: "tail_register s l = ring_at L N (h + 1 + length fs)" using q by (simp add: holds_queue_def)
  have ne: "ring_at L N (h + 1) = ring_at L N (h + 1 + length fs) \<longleftrightarrow> fs = []"
    using ring_at_add_eq [OF ok(1), of "h + 1" "h + 1 + length fs"] ok(3) by auto
  have at: "entry_at s (ring_at L N (h + 1 + i)) = (e # fs) ! i" if "i < Suc (length fs)" for i
    using q that by (simp add: holds_queue_def)
  have e: "ip_array s (ring_at L N (h + 1)) = ne_ip e" "mode_array s (ring_at L N (h + 1)) = ne_mode e"
    using at [of 0] by (auto simp: entry_at_def)
  define outs where "outs = (if fs = [] then ipv4_route ((forward_to_server (set_tag True (fix_src_port p)))
      \<lparr>np_empty_slots := of_nat (N - Suc (length fs)), np_head := ring_at L N (h + 1), np_tail := 0\<rparr>) else [])"
  have "release_first l p s = (s1, outs,
      if fs = [] then None
      else Some (p\<lparr>np_ip_dst := ne_ip e, np_recirc_flag := 1, np_dequeued_mode := ne_mode e,
             np_cur_head := ring_at L N (h + 2), np_cur_tail := ring_at L N (h + 1 + length fs)\<rparr>))"
    using ne e n by (simp add: release_first_def Let_def i t c s1_def outs_def set_slots_def set_counts_def)
  moreover have "holds_queue s1 l L N (h + 1) fs"
    using q ok at [of "Suc _"] by (simp add: holds_queue_def s1_def set_slots_def set_counts_def entry_at_def)
  moreover have "nls_grants outs = []"
    using p(2) by (simp add: outs_def ipv4_route_def nls_grants_def forward_to_server_def set_tag_def fix_src_port_def nl_codes)
  ultimately show thesis by (rule that)
qed

text \<open>A packet that recirculates, and the entries of the queue from its position to the tail it carries.\<close>

definition pending :: "nls_regs \<Rightarrow> u32 \<Rightarrow> nat \<Rightarrow> nat \<Rightarrow> nat \<Rightarrow> nls_entry list \<Rightarrow> nls_pkt \<Rightarrow> bool" where
  "pending s l L N k ys p \<longleftrightarrow>
     ring_ok L N \<and> length ys \<le> N \<and> left_bound s l = of_nat L \<and> right_bound s l = of_nat (L + N - 1) \<and>
     np_op p = RELEASE_LOCK \<and> np_cur_head p = ring_at L N k \<and> np_cur_tail p = ring_at L N (k + length ys - 1) \<and>
     (\<forall>i < length ys. entry_at s (ring_at L N (k + i)) = ys ! i) \<and>
     (\<forall>e \<in> set ys. ne_mode e \<in> {SHARED, EXCLUSIVE} \<and> ne_ip e \<in> set nls_hosts)"

text \<open>One pass: what is granted, and whether the packet recirculates again.\<close>

lemma release_again_eq:
  assumes q: "pending s l L N k (y # ys) p"
  defines "granted \<equiv> np_recirc_flag p = 1 \<and> (np_dequeued_mode p = EXCLUSIVE \<or> ne_mode y = EXCLUSIVE) \<or>
      np_recirc_flag p = 2 \<and> ne_mode y = SHARED"
  obtains outs again where "release_again l p s = (outs, again)"
    "nls_grants outs = (if granted then [ne_key y] else [])"
    "if granted \<and> ne_mode y = SHARED \<and> ys \<noteq> []
     then \<exists>p1. again = Some p1 \<and> pending s l L N (Suc k) ys p1 \<and> np_recirc_flag p1 = 2 \<and> np_lock p1 = np_lock p
     else again = None"
proof -
  have ok: "ring_ok L N" "length ys < N" using q by (auto simp: pending_def)
  have at: "entry_at s (ring_at L N (k + i)) = (y # ys) ! i" if "i < Suc (length ys)" for i
    using q that by (simp add: pending_def)
  have y: "ip_array s (ring_at L N k) = ne_ip y" "mode_array s (ring_at L N k) = ne_mode y"
    "client_id_array s (ring_at L N k) = ne_client y" "tid_array s (ring_at L N k) = ne_tid y"
    using at [of 0] by (auto simp: entry_at_def)
  have m: "ne_mode y \<in> {SHARED, EXCLUSIVE}" "ne_ip y \<in> set nls_hosts" using q by (simp_all add: pending_def)
  have ne: "ring_at L N k = ring_at L N (k + length ys) \<longleftrightarrow> ys = []"
    using ring_at_add_eq [OF ok(1), of k "k + length ys"] ok(2) by auto
  define outs where "outs = (if granted then [Mirrored (nls_egress (np_cur_head p) (np_cur_head p) (np_cur_tail p) s p)] else [])"
  let ?p = "p\<lparr>np_ip_dst := ne_ip y, np_recirc_flag := 2, np_cur_head := ring_at L N (Suc k), np_cur_tail := np_cur_tail p\<rparr>"
  define again where "again = (if granted \<and> ne_mode y = SHARED \<and> ys \<noteq> [] then Some ?p else None)"
  have h: "np_cur_head p = ring_at L N k" "np_cur_tail p = ring_at L N (k + length ys)"
    "ring_next (left_bound s l) (right_bound s l) (ring_at L N k) = ring_at L N (Suc k)"
    using q ring_next_at [OF ok(1), of k] by (simp_all add: pending_def)
  have "release_again l p s = (outs, again)"
    using m ne y h by (auto simp: release_again_def Let_def outs_def again_def granted_def SHARED_def EXCLUSIVE_def)
  moreover have "nls_grants outs = (if granted then [ne_key y] else [])"
    using y h by (simp add: outs_def nls_grants_def nls_egress_def ne_key_def)
  moreover have "pending s l L N (Suc k) ys ?p" if "ys \<noteq> []"
    using q at [of "Suc _"] that by (cases ys) (auto simp: pending_def)
  ultimately show thesis using that [of outs again] by (simp add: again_def)
qed

lemma nls_run_release:
  assumes "index (np_lock p) = Some l" and "np_op p = RELEASE_LOCK" and "np_recirc_flag p \<noteq> 0"
    and "release_again l p s = (outs, again)"
  shows "nls_run index p s =
    (case again of None \<Rightarrow> Some (s, outs)
     | Some p1 \<Rightarrow> Option.bind (nls_run index p1 s) (\<lambda>(s2, outs2). Some (s2, outs @ outs2)))"
  by (subst nls_run.simps) (simp add: nls_ingress_def ReleaseLock_def assms nl_codes split: option.split)

lemma nls_grants_append [simp]: "nls_grants (outs @ outs') = nls_grants outs @ nls_grants outs'"
  by (simp add: nls_grants_def)

text \<open>The passes that grant readers end, at a writer or at the tail.\<close>

lemma run_readers:
  assumes "index lid = Some l"
  shows "pending s l L N k ys p \<Longrightarrow> ys \<noteq> [] \<Longrightarrow> np_recirc_flag p = 2 \<Longrightarrow> np_lock p = lid \<Longrightarrow>
    \<exists>outs. nls_run index p s = Some (s, outs) \<and> nls_grants outs = map ne_key (takeWhile (\<lambda>e. ne_mode e = SHARED) ys)"
proof (induction ys arbitrary: k p)
  case (Cons y ys)
  obtain outs again where r: "release_again l p s = (outs, again)"
    "nls_grants outs = (if ne_mode y = SHARED then [ne_key y] else [])"
    "if ne_mode y = SHARED \<and> ys \<noteq> []
     then \<exists>p1. again = Some p1 \<and> pending s l L N (Suc k) ys p1 \<and> np_recirc_flag p1 = 2 \<and> np_lock p1 = np_lock p
     else again = None"
    using release_again_eq [OF Cons.prems(1)] Cons.prems(3) by (auto simp: SHARED_def EXCLUSIVE_def)
  have run: "nls_run index p s =
    (case again of None \<Rightarrow> Some (s, outs)
     | Some p1 \<Rightarrow> Option.bind (nls_run index p1 s) (\<lambda>(s2, outs2). Some (s2, outs @ outs2)))"
    using Cons.prems assms r(1) by (intro nls_run_release) (auto simp: pending_def)
  show ?case
  proof (cases "ne_mode y = SHARED \<and> ys \<noteq> []")
    case True
    with r(3) obtain p1 where p1: "again = Some p1" "pending s l L N (Suc k) ys p1" "np_recirc_flag p1 = 2" "np_lock p1 = np_lock p"
      by auto
    with Cons.IH [of "Suc k" p1] Cons.prems True show ?thesis using run r(2) by auto
  next
    case False
    then show ?thesis using run r(2,3) by auto
  qed
qed simp

text \<open>What the removal of an entry \<open>e\<close> grants of the entries behind it: a writer, or all readers in front after a writer.\<close>

definition next_grants :: "nls_entry \<Rightarrow> nls_entry list \<Rightarrow> nls_entry list" where
  "next_grants e fs =
     (case fs of [] \<Rightarrow> []
      | y # ys \<Rightarrow>
          if ne_mode y = EXCLUSIVE then [y]
          else if ne_mode e = EXCLUSIVE then takeWhile (\<lambda>e. ne_mode e = SHARED) fs else [])"

lemma run_first_grants:
  assumes ix: "index lid = Some l" and q: "pending s l L N k (y # ys) p"
    and p: "np_recirc_flag p = 1" "np_lock p = lid" "np_dequeued_mode p = ne_mode e"
  shows "\<exists>outs. nls_run index p s = Some (s, outs) \<and> nls_grants outs = map ne_key (next_grants e (y # ys))"
proof -
  have m: "ne_mode y \<in> {SHARED, EXCLUSIVE}" "SHARED \<noteq> EXCLUSIVE" using q by (auto simp: pending_def SHARED_def EXCLUSIVE_def)
  let ?g = "ne_mode e = EXCLUSIVE \<or> ne_mode y = EXCLUSIVE"
  obtain outs again where r: "release_again l p s = (outs, again)" "nls_grants outs = (if ?g then [ne_key y] else [])"
    "if ?g \<and> ne_mode y = SHARED \<and> ys \<noteq> []
     then \<exists>p1. again = Some p1 \<and> pending s l L N (Suc k) ys p1 \<and> np_recirc_flag p1 = 2 \<and> np_lock p1 = np_lock p
     else again = None"
    using release_again_eq [OF q] p by auto
  have run: "nls_run index p s =
    (case again of None \<Rightarrow> Some (s, outs)
     | Some p1 \<Rightarrow> Option.bind (nls_run index p1 s) (\<lambda>(s2, outs2). Some (s2, outs @ outs2)))"
    using q ix p r(1) by (intro nls_run_release) (auto simp: pending_def)
  show ?thesis
  proof (cases "?g \<and> ne_mode y = SHARED \<and> ys \<noteq> []")
    case True
    with r(3) obtain p1 where p1: "again = Some p1" "pending s l L N (Suc k) ys p1" "np_recirc_flag p1 = 2" "np_lock p1 = lid"
      using p(2) by auto
    with run_readers [of index lid l, OF ix p1(2) _ p1(3,4)] True show ?thesis
      using run r(2) m by (auto simp: next_grants_def)
  next
    case False
    then have "again = None" using r(3) by simp
    then show ?thesis using run r(2) m False by (auto simp: next_grants_def)
  qed
qed

lemma run_release:
  assumes ix: "index (np_lock p) = Some l" and q: "holds_queue s l L N h (e # fs)"
    and p: "np_op p = RELEASE_LOCK" "np_recirc_flag p = 0" "np_mode p = ne_mode e"
  obtains s1 outs where "nls_run index p s = Some (s1, outs)" "holds_queue s1 l L N (h + 1) fs"
    "nls_grants outs = map ne_key (next_grants e fs)"
proof -
  let ?p = "p\<lparr>np_ip_dst := ne_ip e, np_recirc_flag := 1, np_dequeued_mode := ne_mode e,
      np_cur_head := ring_at L N (h + 2), np_cur_tail := ring_at L N (h + 1 + length fs)\<rparr>"
  obtain s1 outs where r: "release_first l p s = (s1, outs, if fs = [] then None else Some ?p)"
    "holds_queue s1 l L N (h + 1) fs" "nls_grants outs = []"
    using release_first_eq [OF q p(3,1)] by blast
  have run: "nls_run index p s =
    (if fs = [] then Some (s1, outs) else Option.bind (nls_run index ?p s1) (\<lambda>(s2, outs2). Some (s2, outs @ outs2)))"
    by (subst nls_run.simps) (simp add: nls_ingress_def ReleaseLock_def ix p(1,2) r(1))
  show thesis
  proof (cases fs)
    case Nil
    then show thesis using that run r(2,3) by (simp add: next_grants_def)
  next
    case (Cons y ys)
    have "pending s1 l L N (h + 2) (y # ys) ?p"
      using r(2) p(1) Cons by (simp add: pending_def holds_queue_def)
    then obtain outs2 where "nls_run index ?p s1 = Some (s1, outs2)" "nls_grants outs2 = map ne_key (next_grants e fs)"
      using run_first_grants [of index "np_lock ?p" l s1 L N "h + 2" y ys ?p e] ix Cons by auto
    then show thesis using that run r(2,3) Cons by simp
  qed
qed

lemma run_acquire:
  assumes ix: "index (np_lock p) = Some l" and q: "holds_queue s l L N h es" and n: "length es < N"
    and p: "np_op p = ACQUIRE_LOCK" "np_mode p \<in> {SHARED, EXCLUSIVE}" "np_ip_src p \<in> set nls_hosts"
  obtains s1 outs where "nls_run index p s = Some (s1, outs)" "holds_queue s1 l L N h (es @ [entry_of p])"
    "nls_grants outs = (if must_wait (np_mode p) es then [] else [ne_key (entry_of p)])"
proof -
  obtain s1 outs where a: "AcquireLock l p s = (s1, outs)" "holds_queue s1 l L N h (es @ [entry_of p])"
    "nls_grants outs = (if must_wait (np_mode p) es then [] else [ne_key (entry_of p)])"
    using AcquireLock_eq [OF q n p] by blast
  have "nls_run index p s = Some (s1, outs)"
    by (subst nls_run.simps) (simp add: nls_ingress_def ix p(1) a(1), simp add: nl_codes)
  then show thesis using a that by blast
qed

end
