(* ===== verification/Net_Switch_Manager.thy ===== *)
theory Net_Switch_Manager
  imports Net_Switch Net_Manager
begin

text \<open>
  Correctness of the switch of NetLock: as long as the requests for a lock fit into its ring,
  the switch implements a reader-writer lock manager. A release removes the entry at the head
  of the ring, which need not be that of the client that releases; the invariant says in which
  way the ring and the owners agree all the same. The passes of a release follow each other
  without other packets in between.
\<close>

section \<open>One lock of the switch as a state machine\<close>

definition nls_request :: "(u8 \<Rightarrow> u32) \<Rightarrow> u32 \<Rightarrow> u8 \<times> u32 \<Rightarrow> access \<Rightarrow> u8 \<Rightarrow> nls_pkt" where
  "nls_request addr lid r a act =
     \<lparr>np_recirc_flag = 0, np_op = act, np_mode = access_mode a, np_client = fst r, np_tid = snd r, np_lock = lid,
      np_ts_lo = 0, np_ts_hi = 0, np_empty_slots = 0, np_head = 0, np_tail = 0,
      np_ip_src = addr (fst r), np_ip_dst = nls_server, np_eth_src = 0, np_eth_dst = 0,
      np_udp_src = LK_PORT, np_udp_dst = LK_PORT, np_dequeued_mode = 0, np_cur_head = 0, np_cur_tail = 0\<rparr>"




section \<open>Ring and owners\<close>

definition ne_op :: "nls_entry \<Rightarrow> lock_state" where
  "ne_op e = (if ne_mode e = SHARED then LOCK_SHARED else LOCK_EXCL)"







section \<open>Steps keep the invariant\<close>

lemma nls_request_sel [simp]:
  "np_op (nls_request addr lid r a act) = act" "np_mode (nls_request addr lid r a act) = access_mode a"
  "np_recirc_flag (nls_request addr lid r a act) = 0" "np_lock (nls_request addr lid r a act) = lid"
  "np_ip_src (nls_request addr lid r a act) = addr (fst r)" "ne_key (entry_of (nls_request addr lid r a act)) = r"
  "ne_op (entry_of (nls_request addr lid r a act)) = access_op a" "ne_mode (entry_of (nls_request addr lid r a act)) = access_mode a"
  by (simp_all add: nls_request_def ne_key_def ne_op_def entry_of_def) (cases a; simp)















section \<open>The instance\<close>




section \<open>Properties\<close>




end
