(* ===== verification/Switch_Control.thy ===== *)
theory Switch_Control
  imports Fiss_Types
begin

text \<open>
  The control plane of the switch (switch/control/bfrt.c, bfrt.h, cluster.h): the table of
  connected machines, the entries that \<open>driver_init\<close> adds to the Ethernet table, and the
  multicast groups that \<open>setup_mgrps\<close> creates. The calls of the vendor's runtime library are
  the results: the model lists the table entries and the groups that the program asks for.
\<close>

section \<open>The cluster\<close>

record machine_info =
  hostname :: string
  ip_addr :: u32
  mac_addr :: u64
  port :: u32

definition mk_machine :: "string \<Rightarrow> u32 \<Rightarrow> u64 \<Rightarrow> u32 \<Rightarrow> machine_info" where
  "mk_machine n i m p = \<lparr>hostname = n, ip_addr = i, mac_addr = m, port = p\<rparr>"

definition connected_machines :: "machine_info list" where
  "connected_machines =
     [mk_machine ''pro0-1'' 0x0a000204 0x1070fd0de230 24,
      mk_machine ''pro1-1'' 0x0a000201 0x08c0ebfd52c4 16,
      mk_machine ''pro2-1'' 0x0a000202 0x08c0ebfe8c50 4,
      mk_machine ''pro3-1'' 0x0a000203 0x1070fd0de448 12,
      mk_machine ''pro0-2'' 0x0a000205 0x08c0ebde0156 56,
      mk_machine ''pro1-2'' 0x0a000206 0x08c0ebdcb30a 48,
      mk_machine ''pro2-2'' 0x0a000207 0x08c0ebde011a 40,
      mk_machine ''pro3-2'' 0x0a000208 0x08c0ebdca15a 32]"

definition MID :: "nat \<Rightarrow> nat" where
  "MID i = i + 1"

section \<open>Multicast groups\<close>

text \<open>
  One call of \<open>create_mgrp\<close>: a group with one node. The group identifier is a 16-bit
  integer; the port map is a set of ports.
\<close>

record mgrp =
  mg_gid :: u16
  mg_rid :: u16
  mg_ports :: "u32 list"

definition create_mgrp :: "nat \<Rightarrow> u32 list \<Rightarrow> u16 \<Rightarrow> mgrp" where
  "create_mgrp gid ports rid = \<lparr>mg_gid = of_nat gid, mg_rid = rid, mg_ports = ports\<rparr>"

text \<open>The body of the outer loop: notification group, reply group, everybody else.\<close>

definition machine_mgrps :: "machine_info list \<Rightarrow> nat \<Rightarrow> mgrp list" where
  "machine_mgrps ms i =
     map (\<lambda>op. create_mgrp (MID i + 128 * (op - 1)) [port (ms ! i)] (of_nat op)) [1..<3]
     @ [create_mgrp (MID i + 192) (map (\<lambda>m. port (ms ! m)) (filter (\<lambda>m. m \<noteq> i) [0..<length ms])) 0]"

definition setup_mgrps :: "machine_info list \<Rightarrow> mgrp list" where
  "setup_mgrps ms =
     concat (map (machine_mgrps ms) [0..<length ms]) @ [create_mgrp 255 (map port ms) 0]"

definition eth_entries :: "machine_info list \<Rightarrow> (u64 \<times> u32) list" where
  "eth_entries ms = map (\<lambda>m. (mac_addr m, port m)) ms"

text \<open>What the control plane installs: Ethernet table entries and multicast groups.\<close>

definition driver_init :: "machine_info list \<Rightarrow> (u64 \<times> u32) list \<times> mgrp list" where
  "driver_init ms = (eth_entries ms, setup_mgrps ms)"

text \<open>The node of a group, as the traffic manager looks it up.\<close>

definition mgrp_lookup :: "mgrp list \<Rightarrow> u16 \<Rightarrow> (u16 \<times> u32 list) option" where
  "mgrp_lookup gs g = map_option (\<lambda>x. (mg_rid x, mg_ports x)) (find (\<lambda>x. mg_gid x = g) gs)"

section \<open>Group identifiers\<close>

lemma upt_1_3: "[Suc 0..<3] = [1, 2]"
  by (simp add: upt_rec)

lemma machine_mgrps_unfold:
  "machine_mgrps ms i =
     [create_mgrp (Suc i) [port (ms ! i)] 1, create_mgrp (129 + i) [port (ms ! i)] 2,
      create_mgrp (193 + i) (map (\<lambda>m. port (ms ! m)) (filter (\<lambda>m. m \<noteq> i) [0..<length ms])) 0]"
  by (simp add: machine_mgrps_def MID_def upt_1_3)

lemma of_nat_u16_eq: "m < 65536 \<Longrightarrow> n < 65536 \<Longrightarrow> (of_nat m :: u16) = of_nat n \<longleftrightarrow> m = n"
  using unat_of_nat_u16 [of m] unat_of_nat_u16 [of n] by (simp flip: word_unat_eq_iff) metis

definition mgrp_ids :: "nat \<Rightarrow> nat list" where
  "mgrp_ids n = concat (map (\<lambda>i. [Suc i, 129 + i, 193 + i]) [0..<n]) @ [255]"

lemma map_gid_setup_mgrps:
  "map mg_gid (setup_mgrps ms) = map of_nat (mgrp_ids (length ms))"
  by (simp add: setup_mgrps_def mgrp_ids_def machine_mgrps_unfold create_mgrp_def map_concat comp_def)

lemma mgrp_ids_loop_distinct:
  "n \<le> 63 \<Longrightarrow> distinct (concat (map (\<lambda>i. [Suc i, 129 + i, 193 + i]) [0..<n]))"
  by (induction n) auto

lemma mgrp_ids_distinct: "n \<le> 62 \<Longrightarrow> distinct (mgrp_ids n)"
  using mgrp_ids_loop_distinct [of n] by (auto simp: mgrp_ids_def)

lemma mgrp_ids_small: "n \<le> 62 \<Longrightarrow> g \<in> set (mgrp_ids n) \<Longrightarrow> g < 65536"
  by (auto simp: mgrp_ids_def)

lemma setup_mgrps_distinct:
  "length ms \<le> 62 \<Longrightarrow> distinct (map mg_gid (setup_mgrps ms))"
  unfolding map_gid_setup_mgrps distinct_map
  by (auto simp: mgrp_ids_distinct inj_on_def of_nat_u16_eq mgrp_ids_small)

lemma setup_mgrps_clash:
  assumes "63 \<le> length ms"
  shows "\<not> distinct (map mg_gid (setup_mgrps ms))"
proof -
  have "62 \<in> set [0..<length ms]" using assms by simp
  then have "create_mgrp 255 (map (\<lambda>m. port (ms ! m)) (filter (\<lambda>m. m \<noteq> 62) [0..<length ms])) 0
      \<in> set (concat (map (machine_mgrps ms) [0..<length ms]))"
    by (force simp: machine_mgrps_unfold)
  then have "255 \<in> mg_gid ` set (concat (map (machine_mgrps ms) [0..<length ms]))"
    by (force simp: create_mgrp_def)
  then show ?thesis by (auto simp: setup_mgrps_def create_mgrp_def)
qed

text \<open>
  The multicast groups that the control plane creates have pairwise different
  identifiers exactly as long as at most 62 machines are connected. With 63 machines the
  group \<open>everybody but machine 63\<close> gets the identifier 255 of the broadcast group, and the
  assertion after the creation of a group fails.
\<close>

theorem mgrp_ids_distinct_iff:
  "distinct (map mg_gid (snd (driver_init ms))) \<longleftrightarrow> length ms \<le> 62"
  using setup_mgrps_distinct [of ms] setup_mgrps_clash [of ms]
  by (cases "length ms \<le> 62") (auto simp: driver_init_def)

lemma find_distinct_key:
  "distinct (map f xs) \<Longrightarrow> x \<in> set xs \<Longrightarrow> find (\<lambda>y. f y = f x) xs = Some x"
  by (induction xs) (auto simp: image_iff)

lemma find_no_key: "k \<notin> f ` set xs \<Longrightarrow> find (\<lambda>y. f y = k) xs = None"
  by (induction xs) auto

lemma mgrp_lookup_machine:
  assumes "length ms \<le> 62" "i < length ms"
  shows "mgrp_lookup (setup_mgrps ms) (of_nat (Suc i)) = Some (1, [port (ms ! i)])"
    and "mgrp_lookup (setup_mgrps ms) (of_nat (129 + i)) = Some (2, [port (ms ! i)])"
proof -
  have m: "g \<in> set (machine_mgrps ms i) \<Longrightarrow> mgrp_lookup (setup_mgrps ms) (mg_gid g) = Some (mg_rid g, mg_ports g)"
    for g
  proof -
    assume "g \<in> set (machine_mgrps ms i)"
    with assms(2) have "g \<in> set (setup_mgrps ms)" by (auto simp: setup_mgrps_def)
    from find_distinct_key [OF setup_mgrps_distinct [OF assms(1)] this] show ?thesis
      by (simp add: mgrp_lookup_def)
  qed
  show "mgrp_lookup (setup_mgrps ms) (of_nat (Suc i)) = Some (1, [port (ms ! i)])"
    using m [of "create_mgrp (Suc i) [port (ms ! i)] 1"]
    by (simp add: machine_mgrps_unfold) (simp add: create_mgrp_def)
  show "mgrp_lookup (setup_mgrps ms) (of_nat (129 + i)) = Some (2, [port (ms ! i)])"
    using m [of "create_mgrp (129 + i) [port (ms ! i)] 2"]
    by (simp add: machine_mgrps_unfold) (simp add: create_mgrp_def)
qed

lemma mgrp_lookup_reserved:
  assumes "length ms \<le> 62" "g = 0 \<or> g = 128 \<or> g = 192"
  shows "mgrp_lookup (setup_mgrps ms) (of_nat g) = None"
proof -
  have "g \<notin> set (mgrp_ids (length ms))" using assms by (auto simp: mgrp_ids_def)
  moreover have "g < 65536" using assms(2) by auto
  ultimately have "(of_nat g :: u16) \<notin> set (map mg_gid (setup_mgrps ms))"
    unfolding map_gid_setup_mgrps using assms(1)
    by (auto simp: of_nat_u16_eq mgrp_ids_small)
  then show ?thesis
    using find_no_key [of "of_nat g" mg_gid "setup_mgrps ms"] by (simp add: mgrp_lookup_def)
qed

lemma length_connected_machines [simp]: "length connected_machines = 8"
  by (simp add: connected_machines_def)

text \<open>The machine behind a port, and the host identifier that the hosts use for it.\<close>

definition hosts_at :: "machine_info list \<Rightarrow> u32 \<Rightarrow> host_id list" where
  "hosts_at ms p = map (\<lambda>i. of_nat (MID i)) (filter (\<lambda>i. port (ms ! i) = p) [0..<length ms])"

lemma connected_ports_distinct: "distinct (map port connected_machines)"
  by (simp add: connected_machines_def mk_machine_def)

lemma hosts_at_connected:
  assumes "i < 8"
  shows "hosts_at connected_machines (port (connected_machines ! i)) = [of_nat (Suc i)]"
proof -
  have "filter (\<lambda>j. port (connected_machines ! j) = port (connected_machines ! i)) [0..<8] =
      filter (\<lambda>j. j = i) [0..<8]"
    using connected_ports_distinct assms
    by (intro filter_cong) (auto simp: distinct_conv_nth)
  moreover have "filter (\<lambda>j. j = i) [0..<8] = [i]"
    using assms by (simp add: upt_rec less_Suc_eq numeral_eq_Suc) auto
  ultimately show ?thesis by (simp add: hosts_at_def MID_def)
qed

end
