(* ===== verification/Switch_Pipe.thy ===== *)
theory Switch_Pipe
  imports Switch_Control Fiss_Post
begin

text \<open>
  The data plane of the Tofino switch (switch/p4): the register arrays, the match-action
  tables and the ingress and egress controls, applied to one lock packet. The registers of
  the lock agents and of the notification counters are split into three slices, selected by
  the high bits of the lock identifier. The UDP ports, which choose a receive queue of the
  host, and the other headers are left out.

  The second half of the theory gives the same switch with one record of registers per lock
  and shows that the split register arrays implement it.
\<close>

section \<open>Registers and packet fields\<close>

datatype free_mode = LK_FREE | LK_ACQUIRED
datatype rw_mode = RW_SHARED | RW_EXCL

text \<open>The bits of \<open>lock_hdr_t\<close>: 7 multicasted, 6 granted, 5 transferred, 1 old mode, 0 mode.\<close>

definition pkt_mode :: "lock_post_header \<Rightarrow> rw_mode" where
  "pkt_mode h = (if bit (mode_old_mode h) 0 then RW_EXCL else RW_SHARED)"

definition pkt_old_mode :: "lock_post_header \<Rightarrow> rw_mode" where
  "pkt_old_mode h = (if bit (mode_old_mode h) 1 then RW_EXCL else RW_SHARED)"

definition set_flag :: "nat \<Rightarrow> lock_post_header \<Rightarrow> lock_post_header" where
  "set_flag n h = h\<lparr>mode_old_mode := set_bit n (mode_old_mode h)\<rparr>"

definition clear_flag :: "nat \<Rightarrow> lock_post_header \<Rightarrow> lock_post_header" where
  "clear_flag n h = h\<lparr>mode_old_mode := unset_bit n (mode_old_mode h)\<rparr>"

abbreviation f_multicasted :: nat where "f_multicasted \<equiv> 7"
abbreviation f_granted :: nat where "f_granted \<equiv> 6"
abbreviation f_transferred :: nat where "f_transferred \<equiv> 5"

section \<open>Match-action tables\<close>

datatype counter_action =
  get_notification_cnt | reset_notification_cnt | new_notification | counter_nop

fun counter_table :: "post_t \<Rightarrow> rw_mode \<Rightarrow> rw_mode \<Rightarrow> counter_action" where
  "counter_table POST_LOCK_ACQUIRE RW_SHARED _ = new_notification"
| "counter_table POST_LOCK_TRANSFER RW_SHARED RW_SHARED = get_notification_cnt"
| "counter_table POST_LOCK_TRANSFER RW_SHARED RW_EXCL = reset_notification_cnt"
| "counter_table POST_LOCK_TRANSFER RW_EXCL RW_SHARED = get_notification_cnt"
| "counter_table POST_LOCK_TRANSFER RW_EXCL RW_EXCL = reset_notification_cnt"
| "counter_table POST_LOCK_FREE RW_SHARED RW_SHARED = get_notification_cnt"
| "counter_table POST_LOCK_FREE RW_SHARED RW_EXCL = reset_notification_cnt"
| "counter_table POST_LOCK_FREE RW_EXCL RW_SHARED = get_notification_cnt"
| "counter_table POST_LOCK_FREE RW_EXCL RW_EXCL = reset_notification_cnt"
| "counter_table _ _ _ = counter_nop"

text \<open>The register actions on one counter: the new value and \<open>agent_changed\<close>.\<close>

fun counter_exec :: "counter_action \<Rightarrow> u8 \<Rightarrow> u8 \<Rightarrow> u8 \<times> bool" where
  "counter_exec get_notification_cnt ncnt value = (if value = ncnt then (0, True) else (value, False))"
| "counter_exec reset_notification_cnt ncnt value = (0, False)"
| "counter_exec new_notification ncnt value = (value + 1, False)"
| "counter_exec counter_nop ncnt value = (value, False)"

datatype rw_action = lock_shared | lock_excl | lock_mode_get | rw_nop

fun rw_table :: "post_t \<Rightarrow> free_mode \<Rightarrow> rw_mode \<Rightarrow> rw_action" where
  "rw_table POST_LOCK_TRANSFER LK_ACQUIRED RW_SHARED = lock_shared"
| "rw_table POST_LOCK_TRANSFER LK_ACQUIRED RW_EXCL = lock_excl"
| "rw_table POST_LOCK_FREE LK_ACQUIRED RW_SHARED = lock_shared"
| "rw_table POST_LOCK_FREE LK_ACQUIRED RW_EXCL = lock_excl"
| "rw_table POST_LOCK_ACQUIRE LK_FREE RW_SHARED = lock_shared"
| "rw_table POST_LOCK_ACQUIRE LK_FREE RW_EXCL = lock_excl"
| "rw_table POST_LOCK_ACQUIRE LK_ACQUIRED RW_SHARED = lock_mode_get"
| "rw_table POST_LOCK_ACQUIRE LK_ACQUIRED RW_EXCL = lock_mode_get"
| "rw_table _ _ _ = rw_nop"

text \<open>
  The new value of the mode register and the mode that is read. Without an entry nothing is
  read; the field \<open>lock_rw_mode\<close> is then 0, and no entry of the next table depends on it.
\<close>

fun rw_exec :: "rw_action \<Rightarrow> rw_mode \<Rightarrow> rw_mode \<times> rw_mode" where
  "rw_exec lock_shared value = (RW_SHARED, value)"
| "rw_exec lock_excl value = (RW_EXCL, value)"
| "rw_exec lock_mode_get value = (value, value)"
| "rw_exec rw_nop value = (value, RW_SHARED)"

datatype lock_action =
  new_agent | mcast_to_agent | fwd_to_agent | transfer_agent | reset_agent | lock_nop

fun lock_operation :: "post_t \<Rightarrow> rw_mode \<Rightarrow> free_mode \<Rightarrow> rw_mode \<Rightarrow> lock_action" where
  "lock_operation POST_LOCK_ACQUIRE RW_SHARED LK_FREE _ = new_agent"
| "lock_operation POST_LOCK_ACQUIRE RW_EXCL LK_FREE _ = new_agent"
| "lock_operation POST_LOCK_ACQUIRE RW_SHARED LK_ACQUIRED RW_SHARED = mcast_to_agent"
| "lock_operation POST_LOCK_ACQUIRE RW_SHARED LK_ACQUIRED RW_EXCL = fwd_to_agent"
| "lock_operation POST_LOCK_ACQUIRE RW_EXCL LK_ACQUIRED RW_SHARED = fwd_to_agent"
| "lock_operation POST_LOCK_ACQUIRE RW_EXCL LK_ACQUIRED RW_EXCL = fwd_to_agent"
| "lock_operation POST_LOCK_RELEASE RW_SHARED LK_ACQUIRED _ = fwd_to_agent"
| "lock_operation POST_LOCK_TRANSFER RW_SHARED LK_ACQUIRED _ = transfer_agent"
| "lock_operation POST_LOCK_TRANSFER RW_EXCL LK_ACQUIRED _ = transfer_agent"
| "lock_operation POST_LOCK_FREE RW_SHARED LK_ACQUIRED _ = reset_agent"
| "lock_operation POST_LOCK_FREE RW_EXCL LK_ACQUIRED _ = reset_agent"
| "lock_operation _ _ _ _ = lock_nop"

text \<open>
  The actions on the agent register and the packet; \<open>ig_md.lock_agent\<close> is the machine of
  the packet. The last component is \<open>ig_md.dest2\<close>.
\<close>

fun lock_exec :: "lock_action \<Rightarrow> u8 \<Rightarrow> packet \<Rightarrow> u8 \<times> packet \<times> u16" where
  "lock_exec new_agent value p =
     (machine_id (hdr p),
      p\<lparr>ptype := POST_LOCK_GRANT_WITH_AGENT,
        hdr := clear_flag f_transferred ((hdr p)\<lparr>agent := machine_id (hdr p)\<rparr>)\<rparr>, 0)"
| "lock_exec mcast_to_agent value p =
     (value,
      p\<lparr>ptype := POST_LOCK_GRANT_WO_AGENT,
        hdr := set_flag f_multicasted ((hdr p)\<lparr>agent := value\<rparr>)\<rparr>, ucast (machine_id (hdr p)))"
| "lock_exec fwd_to_agent value p = (value, p\<lparr>hdr := (hdr p)\<lparr>agent := value\<rparr>\<rparr>, 0)"
| "lock_exec transfer_agent value p =
     (machine_id (hdr p),
      p\<lparr>ptype := POST_LOCK_GRANT_WITH_AGENT,
        hdr := set_flag f_transferred ((hdr p)\<lparr>agent := machine_id (hdr p)\<rparr>)\<rparr>, 0)"
| "lock_exec reset_agent value p = (0, p\<lparr>hdr := (hdr p)\<lparr>agent := 0\<rparr>\<rparr>, 0)"
| "lock_exec lock_nop value p = (value, p, 0)"

section \<open>The ingress control\<close>

text \<open>
  The register arrays. \<open>lock_agent_arr\<close> and \<open>notification_cnt_arr\<close> have the slice as their first
  index, for the arrays with the suffixes 1, 2 and 3.
\<close>

record switch_regs =
  lock_free_mode_array :: "u32 \<Rightarrow> free_mode"
  lock_rw_mode_array :: "u32 \<Rightarrow> rw_mode"
  lock_agent_arr :: "u32 \<Rightarrow> u32 \<Rightarrow> u8"
  notification_cnt_arr :: "u32 \<Rightarrow> u32 \<Rightarrow> u8"

definition initial_regs :: switch_regs where
  "initial_regs =
     \<lparr>lock_free_mode_array = (\<lambda>_. LK_FREE), lock_rw_mode_array = (\<lambda>_. RW_SHARED),
      lock_agent_arr = (\<lambda>_ _. 0), notification_cnt_arr = (\<lambda>_ _. 0)\<rparr>"

definition SLICE_SIZE_POW2 :: nat where "SLICE_SIZE_POW2 = 19"

definition lock_slice :: "u32 \<Rightarrow> u32" where
  "lock_slice i = drop_bit SLICE_SIZE_POW2 i"

definition lock_index :: "u32 \<Rightarrow> u32" where
  "lock_index i = take_bit SLICE_SIZE_POW2 i"

definition upd2 :: "('a \<Rightarrow> 'b \<Rightarrow> 'c) \<Rightarrow> 'a \<Rightarrow> 'b \<Rightarrow> 'c \<Rightarrow> 'a \<Rightarrow> 'b \<Rightarrow> 'c" where
  "upd2 f a b v = f(a := (f a)(b := v))"

definition CounterTable :: "u32 \<Rightarrow> packet \<Rightarrow> switch_regs \<Rightarrow> switch_regs \<times> bool" where
  "CounterTable i p r =
     (let h = hdr p;
          (v, ch) = counter_exec (counter_table (ptype p) (pkt_mode h) (pkt_old_mode h)) (hdr_ncnt h)
                      (notification_cnt_arr r (lock_slice i) (lock_index i))
      in (r\<lparr>notification_cnt_arr := upd2 (notification_cnt_arr r) (lock_slice i) (lock_index i) v\<rparr>, ch))"

definition LockOperation ::
  "u32 \<Rightarrow> free_mode \<Rightarrow> rw_mode \<Rightarrow> packet \<Rightarrow> switch_regs \<Rightarrow> switch_regs \<times> packet \<times> u16" where
  "LockOperation i free rw p r =
     (let (v, p', dest2) = lock_exec (lock_operation (ptype p) (pkt_mode (hdr p)) free rw)
                             (lock_agent_arr r (lock_slice i) (lock_index i)) p
      in (r\<lparr>lock_agent_arr := upd2 (lock_agent_arr r) (lock_slice i) (lock_index i) v\<rparr>, p', dest2))"

text \<open>The last branch: the state registers, the mode table and the lock table.\<close>

definition lock_decide :: "u32 \<Rightarrow> packet \<Rightarrow> switch_regs \<Rightarrow> switch_regs \<times> packet \<times> u16" where
  "lock_decide i p r =
     (let free = lock_free_mode_array r i;
          free' = (if ptype p \<noteq> POST_LOCK_FREE then LK_ACQUIRED else LK_FREE);
          (rw', rw) = rw_exec (rw_table (ptype p) free (pkt_mode (hdr p))) (lock_rw_mode_array r i)
      in LockOperation i free rw p
           (r\<lparr>lock_free_mode_array := (lock_free_mode_array r)(i := free'),
              lock_rw_mode_array := (lock_rw_mode_array r)(i := rw')\<rparr>))"

text \<open>
  The result is the register state, the packet and the two multicast groups of the traffic
  manager. The identifier of the lock is in network byte order.
\<close>

definition ingress_pipe :: "switch_regs \<Rightarrow> packet \<Rightarrow> switch_regs \<times> packet \<times> u16 \<times> u16" where
  "ingress_pipe r p0 =
     (let i = ntohl (hdr_lock_id (hdr p0));
          p = p0\<lparr>hdr := clear_flag f_granted (clear_flag f_multicasted (hdr p0))\<rparr>;
          h = hdr p;
          out_of_range = (2 < lock_slice i);
          (r1, agent_changed) = (if out_of_range then (r, False) else CounterTable i p r);
          (r2, p2, dest2) =
            (if out_of_range then (r1, p, 0)
             else if (ptype p = POST_LOCK_TRANSFER \<or> ptype p = POST_LOCK_FREE)
                     \<and> pkt_old_mode h = RW_SHARED \<and> \<not> agent_changed then (r1, p, 0)
             else if ptype p = POST_LOCK_GRANT_WO_AGENT
             then (r1, p\<lparr>hdr := h\<lparr>agent := machine_id h\<rparr>\<rparr>, 0)
             else lock_decide i p r1)
      in (r2, p2, ucast (agent (hdr p2)), dest2 + 128))"

section \<open>Replication and the egress control\<close>

definition egress_pipe :: "u16 \<Rightarrow> packet \<Rightarrow> packet" where
  "egress_pipe rid p =
     (if bit (mode_old_mode (hdr p)) f_multicasted \<and> rid = 2
      then p\<lparr>ptype := POST_LOCK_GRANT_WO_AGENT, hdr := clear_flag f_multicasted (hdr p)\<rparr>
      else if bit (mode_old_mode (hdr p)) f_multicasted \<and> rid = 1
      then p\<lparr>ptype := POST_LOCK_ACQUIRE,
             hdr := set_flag f_granted (clear_flag f_multicasted (hdr p))\<rparr>
      else p)"

text \<open>
  The traffic manager sends one copy of the packet to every port of the node of a group; a
  group that was not created has no copies.
\<close>

definition replicate_to :: "mgrp list \<Rightarrow> packet \<Rightarrow> u16 \<Rightarrow> (u32 \<times> packet) list" where
  "replicate_to gs p g =
     (case mgrp_lookup gs g of
        None \<Rightarrow> []
      | Some (rid, ports) \<Rightarrow> map (\<lambda>pt. (pt, egress_pipe rid p)) ports)"

definition switch_pipe :: "mgrp list \<Rightarrow> switch_regs \<Rightarrow> packet \<Rightarrow> switch_regs \<times> (u32 \<times> packet) list" where
  "switch_pipe gs r p =
     (let (r', p', grp_a, grp_b) = ingress_pipe r p
      in (r', replicate_to gs p' grp_a @ replicate_to gs p' grp_b))"

text \<open>The copies that arrive at the hosts of a cluster.\<close>

definition to_hosts :: "machine_info list \<Rightarrow> (u32 \<times> packet) list \<Rightarrow> (host_id \<times> packet) list" where
  "to_hosts ms xs = concat (map (\<lambda>(pt, p). map (\<lambda>h. (h, p)) (hosts_at ms pt)) xs)"

section \<open>One record of registers per lock\<close>

record slot =
  sl_free :: free_mode
  sl_rw :: rw_mode
  sl_agent :: u8
  sl_ncnt :: u8

definition slot_of :: "switch_regs \<Rightarrow> u32 \<Rightarrow> slot" where
  "slot_of r i =
     \<lparr>sl_free = lock_free_mode_array r i, sl_rw = lock_rw_mode_array r i,
      sl_agent = lock_agent_arr r (lock_slice i) (lock_index i),
      sl_ncnt = notification_cnt_arr r (lock_slice i) (lock_index i)\<rparr>"

definition initial_slot :: slot where
  "initial_slot = \<lparr>sl_free = LK_FREE, sl_rw = RW_SHARED, sl_agent = 0, sl_ncnt = 0\<rparr>"

definition rejected :: "packet \<Rightarrow> bool \<Rightarrow> bool" where
  "rejected p agent_changed \<longleftrightarrow>
     (ptype p = POST_LOCK_TRANSFER \<or> ptype p = POST_LOCK_FREE)
     \<and> pkt_old_mode (hdr p) = RW_SHARED \<and> \<not> agent_changed"

text \<open>The counter table and the three other tables on the registers of one lock.\<close>

definition slot_count :: "slot \<Rightarrow> packet \<Rightarrow> slot \<times> bool" where
  "slot_count s p =
     (let (v, ch) = counter_exec (counter_table (ptype p) (pkt_mode (hdr p)) (pkt_old_mode (hdr p)))
                      (hdr_ncnt (hdr p)) (sl_ncnt s)
      in (s\<lparr>sl_ncnt := v\<rparr>, ch))"

definition slot_operate :: "slot \<Rightarrow> packet \<Rightarrow> slot \<times> packet \<times> u16" where
  "slot_operate s p =
     (let (rw', rw) = rw_exec (rw_table (ptype p) (sl_free s) (pkt_mode (hdr p))) (sl_rw s);
          (v, p', dest2) = lock_exec (lock_operation (ptype p) (pkt_mode (hdr p)) (sl_free s) rw) (sl_agent s) p
      in (s\<lparr>sl_free := (if ptype p \<noteq> POST_LOCK_FREE then LK_ACQUIRED else LK_FREE),
            sl_rw := rw', sl_agent := v\<rparr>, p', dest2))"

definition slot_ingress :: "slot \<Rightarrow> packet \<Rightarrow> slot \<times> packet \<times> u16" where
  "slot_ingress s p0 =
     (let p = p0\<lparr>hdr := clear_flag f_granted (clear_flag f_multicasted (hdr p0))\<rparr>;
          (s1, ch) = slot_count s p
      in if rejected p ch then (s1, p, 0)
         else if ptype p = POST_LOCK_GRANT_WO_AGENT
         then (s1, p\<lparr>hdr := (hdr p)\<lparr>agent := machine_id (hdr p)\<rparr>\<rparr>, 0)
         else slot_operate s1 p)"

definition slot_forward :: "packet \<Rightarrow> u16 \<Rightarrow> (u32 \<times> packet) list" where
  "slot_forward p dest2 =
     replicate_to (setup_mgrps connected_machines) p (ucast (agent (hdr p)))
     @ replicate_to (setup_mgrps connected_machines) p (dest2 + 128)"

text \<open>The whole switch for one lock: the new registers and what arrives at which host.\<close>

definition slot_switch :: "slot \<Rightarrow> packet \<Rightarrow> slot \<times> (host_id \<times> packet) list" where
  "slot_switch s p =
     (let (s', p', dest2) = slot_ingress s p
      in (s', to_hosts connected_machines (slot_forward p' dest2)))"

text \<open>Slice and index together determine the lock.\<close>

lemma slice_index_inject:
  assumes "lock_slice i = lock_slice j" "lock_index i = lock_index j"
  shows "i = j"
proof -
  have "push_bit SLICE_SIZE_POW2 (lock_slice k) + lock_index k = k" for k
    unfolding lock_slice_def lock_index_def by (rule bits_ident)
  with assms show ?thesis by metis
qed

lemma upd2_apply: "upd2 f a b v x y = (if x = a \<and> y = b then v else f x y)"
  by (simp add: upd2_def)

lemma slot_upd:
  "slot_of (r\<lparr>notification_cnt_arr := upd2 (notification_cnt_arr r) (lock_slice i) (lock_index i) v\<rparr>) j
   = (if j = i then (slot_of r i)\<lparr>sl_ncnt := v\<rparr> else slot_of r j)"
  "slot_of (r\<lparr>lock_agent_arr := upd2 (lock_agent_arr r) (lock_slice i) (lock_index i) v\<rparr>) j
   = (if j = i then (slot_of r i)\<lparr>sl_agent := v\<rparr> else slot_of r j)"
  "slot_of (r\<lparr>lock_free_mode_array := (lock_free_mode_array r)(i := f),
             lock_rw_mode_array := (lock_rw_mode_array r)(i := w),
             lock_agent_arr := upd2 (lock_agent_arr r) (lock_slice i) (lock_index i) v\<rparr>) j
   = (if j = i then (slot_of r i)\<lparr>sl_free := f, sl_rw := w, sl_agent := v\<rparr> else slot_of r j)"
  using slice_index_inject [of j i] by (auto simp: slot_of_def upd2_apply)

lemma slot_of_sel:
  "sl_free (slot_of r i) = lock_free_mode_array r i" "sl_rw (slot_of r i) = lock_rw_mode_array r i"
  "sl_agent (slot_of r i) = lock_agent_arr r (lock_slice i) (lock_index i)"
  "sl_ncnt (slot_of r i) = notification_cnt_arr r (lock_slice i) (lock_index i)"
  by (simp_all add: slot_of_def)

lemma slot_CounterTable:
  "slot_of (fst (CounterTable i p r)) j = (if j = i then fst (slot_count (slot_of r i) p) else slot_of r j)"
  "snd (CounterTable i p r) = snd (slot_count (slot_of r i) p)"
  by (simp_all add: CounterTable_def slot_count_def Let_def split_def slot_upd slot_of_sel)

lemma slot_lock_decide:
  "slot_of (fst (lock_decide i p r)) j = (if j = i then fst (slot_operate (slot_of r i) p) else slot_of r j)"
  "snd (lock_decide i p r) = snd (slot_operate (slot_of r i) p)"
  by (simp_all add: lock_decide_def LockOperation_def slot_operate_def Let_def split_def slot_upd slot_of_sel)

lemma ingress_refines_slot:
  assumes "lock_slice i \<le> 2" "i = ntohl (hdr_lock_id (hdr p))"
  shows "slot_of (fst (ingress_pipe r p)) j =
           (if j = i then fst (slot_ingress (slot_of r i) p) else slot_of r j)"
    and "snd (ingress_pipe r p) =
           (let (p', d) = snd (slot_ingress (slot_of r i) p) in (p', ucast (agent (hdr p')), d + 128))"
proof -
  let ?p = "p\<lparr>hdr := clear_flag f_granted (clear_flag f_multicasted (hdr p))\<rparr>"
  have in_range: "\<not> 2 < lock_slice i" and i: "ntohl (hdr_lock_id (hdr p)) = i" using assms by simp_all
  note unf = ingress_pipe_def slot_ingress_def rejected_def Let_def i split_def
  show "slot_of (fst (ingress_pipe r p)) j =
      (if j = i then fst (slot_ingress (slot_of r i) p) else slot_of r j)"
    unfolding unf using in_range
    by (simp add: slot_CounterTable slot_lock_decide) auto
  show "snd (ingress_pipe r p) =
      (let (p', d) = snd (slot_ingress (slot_of r i) p) in (p', ucast (agent (hdr p')), d + 128))"
    unfolding unf using in_range
    by (simp add: slot_CounterTable slot_lock_decide) auto
qed

text \<open>
  C13. The switch keeps the registers of the locks apart: although the agents and counters of
  all locks share three arrays, a packet has on the registers of its lock the effect, and
  yields at the hosts the packets, of a switch that keeps one record of registers for that
  lock, and it leaves the registers of every other lock as they are.
\<close>

theorem switch_refines_slot:
  assumes "lock_slice i \<le> 2" "i = ntohl (hdr_lock_id (hdr p))"
    and "switch_pipe (snd (driver_init connected_machines)) r p = (r', out)"
  shows "slot_switch (slot_of r i) p = (slot_of r' i, to_hosts connected_machines out) \<and>
         (\<forall>j. j \<noteq> i \<longrightarrow> slot_of r' j = slot_of r j)"
proof -
  let ?g = "setup_mgrps connected_machines" and ?o = "slot_ingress (slot_of r i) p"
  have r': "r' = fst (ingress_pipe r p)"
    and out: "out = (let (q, a, b) = snd (ingress_pipe r p) in replicate_to ?g q a @ replicate_to ?g q b)"
    using assms(3) by (simp_all add: switch_pipe_def driver_init_def split_def Let_def)
  have "slot_of r' j = (if j = i then fst ?o else slot_of r j)" for j
    unfolding r' by (rule ingress_refines_slot(1) [OF assms(1,2)])
  moreover have "out = slot_forward (fst (snd ?o)) (snd (snd ?o))"
    unfolding out ingress_refines_slot(2) [OF assms(1,2)]
    by (simp add: slot_forward_def split_def Let_def)
  ultimately show ?thesis by (simp add: slot_switch_def split_def Let_def)
qed

theorem switch_refines_slot_witness:
  "let (r', out) = switch_pipe (snd (driver_init connected_machines)) initial_regs (send_post_acquire 3 3 524293 3 9)
   in slot_switch initial_slot (send_post_acquire 3 3 524293 3 9) =
        (slot_of r' 524293, to_hosts connected_machines out) \<and> slot_of r' 5 = initial_slot"
proof -
  let ?p = "send_post_acquire 3 3 524293 3 9"
  obtain r' out where o: "switch_pipe (snd (driver_init connected_machines)) initial_regs ?p = (r', out)"
    by fastforce
  have s: "lock_slice 524293 \<le> 2" by (simp add: lock_slice_def SLICE_SIZE_POW2_def)
  have i: "524293 = ntohl (hdr_lock_id (hdr ?p))" by (simp add: send_post_acquire_def)
  have z: "slot_of initial_regs j = initial_slot" for j
    by (simp add: slot_of_def initial_regs_def initial_slot_def)
  show ?thesis using switch_refines_slot [OF s i o] by (simp add: o z)
qed

section \<open>The switch on the packets of the hosts\<close>

text \<open>The identifiers of the connected hosts: 1 to 8.\<close>

definition cluster_host :: "host_id \<Rightarrow> bool" where
  "cluster_host h \<longleftrightarrow> 1 \<le> h \<and> h \<le> 8"

lemma cluster_hostE:
  assumes "cluster_host h"
  obtains i where "i < 8" "h = of_nat (Suc i)"
proof
  have "1 \<le> unat h \<and> unat h \<le> 8" using assms by (simp add: cluster_host_def word_le_nat_alt)
  then have "unat h - 1 < 8" "Suc (unat h - 1) = unat h" by linarith+
  then show "unat h - 1 < 8" "h = of_nat (Suc (unat h - 1))" by (simp_all only:) simp
qed

lemma ucast_host: "i < 8 \<Longrightarrow> (ucast (of_nat (Suc i) :: host_id) :: u16) = of_nat (Suc i)"
  by (simp only: word_unat_eq_iff unsigned_ucast_eq unat_of_nat) (simp add: take_bit_nat_eq_self)

lemma to_hosts_replicate:
  assumes "i < 8"
  shows "to_hosts connected_machines (replicate_to (setup_mgrps connected_machines) p (of_nat (Suc i)))
         = [(of_nat (Suc i), egress_pipe 1 p)]"
    and "to_hosts connected_machines (replicate_to (setup_mgrps connected_machines) p (of_nat (129 + i)))
         = [(of_nat (Suc i), egress_pipe 2 p)]"
proof -
  have "i < length connected_machines" "length connected_machines \<le> 62" using assms by simp_all
  note lk = mgrp_lookup_machine [OF this(2,1)]
  show "to_hosts connected_machines (replicate_to (setup_mgrps connected_machines) p (of_nat (Suc i)))
         = [(of_nat (Suc i), egress_pipe 1 p)]"
    unfolding replicate_to_def lk using hosts_at_connected [OF assms] by (simp add: to_hosts_def)
  show "to_hosts connected_machines (replicate_to (setup_mgrps connected_machines) p (of_nat (129 + i)))
         = [(of_nat (Suc i), egress_pipe 2 p)]"
    unfolding replicate_to_def lk using hosts_at_connected [OF assms] by (simp add: to_hosts_def)
qed

lemma replicate_to_reserved:
  "replicate_to (setup_mgrps connected_machines) p 0 = []"
  "replicate_to (setup_mgrps connected_machines) p 128 = []"
  using mgrp_lookup_reserved [of connected_machines 0] mgrp_lookup_reserved [of connected_machines 128]
  by (simp_all add: replicate_to_def)

lemma to_hosts_append: "to_hosts ms (xs @ ys) = to_hosts ms xs @ to_hosts ms ys"
  by (simp add: to_hosts_def)

lemma forward_unicast:
  assumes "cluster_host (agent (hdr p))"
  shows "to_hosts connected_machines (slot_forward p 0) = [(agent (hdr p), egress_pipe 1 p)]"
proof -
  obtain i where i: "i < 8" "agent (hdr p) = of_nat (Suc i)" using cluster_hostE [OF assms] by blast
  show ?thesis
    unfolding slot_forward_def to_hosts_append i(2) ucast_host [OF i(1)]
    by (simp only: to_hosts_replicate [OF i(1)] add_0 replicate_to_reserved) (simp add: to_hosts_def)
qed

lemma forward_nobody:
  assumes "agent (hdr p) = 0"
  shows "to_hosts connected_machines (slot_forward p 0) = []"
  unfolding slot_forward_def assms by (simp add: replicate_to_reserved to_hosts_def)

lemma forward_multicast:
  assumes "cluster_host (agent (hdr p))" "cluster_host h"
  shows "to_hosts connected_machines (slot_forward p (ucast h)) =
    [(agent (hdr p), egress_pipe 1 p), (h, egress_pipe 2 p)]"
proof -
  obtain i where i: "i < 8" "agent (hdr p) = of_nat (Suc i)" using cluster_hostE [OF assms(1)] by blast
  obtain j where j: "j < 8" "h = of_nat (Suc j)" using cluster_hostE [OF assms(2)] by blast
  have "(of_nat (Suc j) :: u16) + 128 = of_nat (129 + j)" by simp
  then show ?thesis
    unfolding slot_forward_def to_hosts_append i(2) j(2) ucast_host [OF i(1)] ucast_host [OF j(1)]
    by (simp only: to_hosts_replicate [OF i(1)] to_hosts_replicate [OF j(1)]) simp
qed

end
