(* ===== verification/Fiss_Cluster.thy ===== *)
theory Fiss_Cluster
  imports Fiss_Lock_Api Switch_Pipe
begin

text \<open>
  The distributed protocol of one lock: the switch, the hosts and the packets between them.
  A step is an application that acquires or releases the lock on a host, the switch that
  processes a packet in flight, or a host that receives a packet; the packets in flight are
  taken in any order, so nothing is assumed about the order of delivery. A host that returns
  a packet from its dispatcher sends it to the switch again (lib/net.cc, \<open>net_poll_packets\<close>).

  The main theorem is about applications that use exclusive mode and release what they were
  granted: however the packets are reordered, no operation fails, and at any moment at most
  one task in the cluster holds the lock.
\<close>

section \<open>The cluster\<close>

record cluster =
  sw :: slot
  nodes :: "host_id \<Rightarrow> innet_lock"
  to_switch :: "packet list"
  to_host :: "(host_id \<times> packet) list"

datatype event =
    Ev_acquire host_id task_id lock_state
  | Ev_release host_id task_id
  | Ev_switch nat
  | Ev_deliver nat

definition initial_cluster :: "lock_id \<Rightarrow> cluster" where
  "initial_cluster i =
     \<lparr>sw = initial_slot, nodes = (\<lambda>_. new_lock 0 i), to_switch = [], to_host = []\<rparr>"

definition remove_nth :: "nat \<Rightarrow> 'a list \<Rightarrow> 'a list" where
  "remove_nth n xs = take n xs @ drop (Suc n) xs"

definition cl_acquire :: "build \<Rightarrow> host_id \<Rightarrow> task_id \<Rightarrow> lock_state \<Rightarrow> cluster \<Rightarrow> fl_error + cluster" where
  "cl_acquire b h t op c =
     (case acquire_on b h True 0 (nodes c h) t op of
        Inl e \<Rightarrow> Inl e
      | Inr (_, l, out) \<Rightarrow> Inr (c\<lparr>nodes := (nodes c)(h := l), to_switch := to_switch c @ out\<rparr>))"

definition cl_release :: "build \<Rightarrow> host_id \<Rightarrow> task_id \<Rightarrow> cluster \<Rightarrow> fl_error + cluster" where
  "cl_release b h t c =
     (case release_on b h (nodes c h) t of
        Inl e \<Rightarrow> Inl e
      | Inr (l, out) \<Rightarrow> Inr (c\<lparr>nodes := (nodes c)(h := l), to_switch := to_switch c @ out\<rparr>))"

definition cl_switch :: "packet \<Rightarrow> cluster \<Rightarrow> cluster" where
  "cl_switch p c =
     (let (s, out) = slot_switch (sw c) p in c\<lparr>sw := s, to_host := to_host c @ out\<rparr>)"

definition cl_deliver :: "build \<Rightarrow> host_id \<Rightarrow> packet \<Rightarrow> cluster \<Rightarrow> fl_error + cluster" where
  "cl_deliver b h p c =
     (case lock_packet_process b None h (nodes c h) p of
        Inl e \<Rightarrow> Inl e
      | Inr (n, p', l, out) \<Rightarrow>
          Inr (c\<lparr>nodes := (nodes c)(h := l),
                 to_switch := to_switch c @ out @ (if n = 0 then [] else [p'])\<rparr>))"

text \<open>An event that names no packet in flight changes nothing.\<close>

fun cl_step :: "build \<Rightarrow> event \<Rightarrow> cluster \<Rightarrow> fl_error + cluster" where
  "cl_step b (Ev_acquire h t op) c = cl_acquire b h t op c"
| "cl_step b (Ev_release h t) c = cl_release b h t c"
| "cl_step b (Ev_switch n) c =
     (if n < length (to_switch c)
      then Inr (cl_switch (to_switch c ! n) (c\<lparr>to_switch := remove_nth n (to_switch c)\<rparr>))
      else Inr c)"
| "cl_step b (Ev_deliver n) c =
     (if n < length (to_host c)
      then (let (h, p) = to_host c ! n in cl_deliver b h p (c\<lparr>to_host := remove_nth n (to_host c)\<rparr>))
      else Inr c)"

fun cl_run :: "build \<Rightarrow> event list \<Rightarrow> cluster \<Rightarrow> fl_error + cluster" where
  "cl_run b [] c = Inr c"
| "cl_run b (e # es) c = (case cl_step b e c of Inl x \<Rightarrow> Inl x | Inr c' \<Rightarrow> cl_run b es c')"

text \<open>The tasks that hold the lock: the hosts know them as notified or as holders.\<close>

definition cl_holders :: "cluster \<Rightarrow> (host_id \<times> task_id) set" where
  "cl_holders c = {(h, t). t \<in> local_holders (nodes c h)}"

section \<open>The exclusive workload\<close>

text \<open>
  Applications on the connected hosts ask for exclusive mode only, and release the lock only
  for a task that was told of its grant. The task number that recovery uses is not a task.
\<close>

fun excl_event :: "cluster \<Rightarrow> event \<Rightarrow> bool" where
  "excl_event c (Ev_acquire h t op) \<longleftrightarrow> cluster_host h \<and> t \<noteq> TASK_FOR_RESTORE \<and> op = LOCK_EXCL"
| "excl_event c (Ev_release h t) \<longleftrightarrow> t \<in> local_holders (nodes c h)"
| "excl_event c _ \<longleftrightarrow> True"

fun excl_run :: "build \<Rightarrow> event list \<Rightarrow> cluster \<Rightarrow> bool" where
  "excl_run b [] c \<longleftrightarrow> True"
| "excl_run b (e # es) c \<longleftrightarrow>
     excl_event c e \<and> (case cl_step b e c of Inl _ \<Rightarrow> True | Inr c' \<Rightarrow> excl_run b es c')"

section \<open>The invariant of the exclusive workload\<close>

text \<open>
  The right to hand out the lock is in exactly one place: with the switch when the lock is
  free, with the host that is the agent, or in a grant, free or transfer packet.
\<close>

definition is_token :: "packet \<Rightarrow> bool" where
  "is_token p \<longleftrightarrow> ptype p \<in> {POST_LOCK_GRANT_WITH_AGENT, POST_LOCK_FREE, POST_LOCK_TRANSFER}"

abbreviation count_tokens :: "packet list \<Rightarrow> nat" where
  "count_tokens ps \<equiv> length (filter is_token ps)"

definition agents :: "(host_id \<Rightarrow> innet_lock) \<Rightarrow> nat" where
  "agents ns = card {h. is_agent (ns h)}"

definition tokens :: "cluster \<Rightarrow> nat" where
  "tokens c = of_bool (sl_free (sw c) = LK_FREE) + agents (nodes c)
     + count_tokens (to_switch c) + count_tokens (map snd (to_host c))"

definition wqe_ok :: "wqe \<Rightarrow> bool" where
  "wqe_ok w \<longleftrightarrow> wq_op w = LOCK_EXCL \<and> cluster_host (wq_host w)"

definition node_ok :: "host_id \<Rightarrow> innet_lock \<Rightarrow> bool" where
  "node_ok h l \<longleftrightarrow>
     \<not> lock_out_of_range l \<and> early_release l = (\<lambda>_. False) \<and> (\<forall>w \<in> set (wqueue l). wqe_ok w) \<and>
     (if is_agent l
      then mode l = LOCK_EXCL \<and> (\<exists>t. holders l = {LOCK_HOLDER h t} \<and> local_holders l = {t})
      else mode l = FREE \<and> holders l = {} \<and> local_holders l = {})"

text \<open>What every packet of the workload satisfies.\<close>

definition pkt_ok :: "packet \<Rightarrow> bool" where
  "pkt_ok p \<longleftrightarrow>
     unat (wq_size (hdr p)) \<le> length (pkt_wq p) \<and> (\<forall>w \<in> set (pkt_wq p). wqe_ok w) \<and>
     (ptype p \<noteq> POST_LOCK_FREE \<longrightarrow>
        pkt_mode (hdr p) = RW_EXCL \<and> cluster_host (machine_id (hdr p)) \<and> hdr_task_id (hdr p) \<noteq> TASK_FOR_RESTORE)"

definition sw_pkt_ok :: "packet \<Rightarrow> bool" where
  "sw_pkt_ok p \<longleftrightarrow> pkt_ok p \<and>
     (ptype p = POST_LOCK_ACQUIRE \<or>
      (ptype p = POST_LOCK_FREE \<or> ptype p = POST_LOCK_TRANSFER) \<and> pkt_old_mode (hdr p) = RW_EXCL)"

definition host_pkt_ok :: "host_id \<Rightarrow> packet \<Rightarrow> bool" where
  "host_pkt_ok h p \<longleftrightarrow> pkt_ok p \<and> \<not> GRANTED (hdr p) \<and>
     (ptype p = POST_LOCK_ACQUIRE \<or> ptype p = POST_LOCK_GRANT_WITH_AGENT \<and> agent (hdr p) = h)"

definition slot_ok :: "slot \<Rightarrow> bool" where
  "slot_ok s \<longleftrightarrow> (sl_free s = LK_ACQUIRED \<longrightarrow> cluster_host (sl_agent s))"

definition excl_inv :: "cluster \<Rightarrow> bool" where
  "excl_inv c \<longleftrightarrow> tokens c = 1 \<and> slot_ok (sw c) \<and> (\<forall>h. node_ok h (nodes c h)) \<and>
     (\<forall>p \<in> set (to_switch c). sw_pkt_ok p) \<and> (\<forall>(h, p) \<in> set (to_host c). host_pkt_ok h p)"

section \<open>Bits of the mode byte\<close>

lemma bit_u8_and_one: "(x AND 1 :: u8) = of_bool (bit x 0)"
  by (simp add: and_one_eq mod_2_eq_odd bit_0)

lemma MODE_bit: "MODE (mode_old_mode h) = (if pkt_mode h = RW_EXCL then LOCK_EXCL else LOCK_SHARED)"
  by (simp add: MODE_def pkt_mode_def bit_u8_and_one lock_state_of_def)

lemma flag_bits:
  "GRANTED h \<longleftrightarrow> bit (mode_old_mode h) 6" "TRANSFERRED h \<longleftrightarrow> bit (mode_old_mode h) 5"
  by (simp_all add: GRANTED_def TRANSFERRED_def bit_u8_and_one bit_drop_bit_eq)

lemma pkt_mode_MODE_OLD_MODE:
  "pkt_mode \<lparr>mode_old_mode = MODE_OLD_MODE m old, hdr_lock_id = i, machine_id = h, hdr_task_id = t, agent = a, wq_size = n, hdr_ncnt = k\<rparr>
     = (if bit m 0 then RW_EXCL else RW_SHARED)"
  "pkt_old_mode \<lparr>mode_old_mode = MODE_OLD_MODE m old, hdr_lock_id = i, machine_id = h, hdr_task_id = t, agent = a, wq_size = n, hdr_ncnt = k\<rparr>
     = (if bit old 0 then RW_EXCL else RW_SHARED)"
  using MODE_OLD_MODE_bits [of m old]
  by (auto simp: pkt_mode_def pkt_old_mode_def bit_u8_and_one bit_drop_bit_eq of_bool_eq_iff)

lemma flag_sel [simp]:
  "machine_id (set_flag n h) = machine_id h" "machine_id (clear_flag n h) = machine_id h"
  "hdr_task_id (set_flag n h) = hdr_task_id h" "hdr_task_id (clear_flag n h) = hdr_task_id h"
  "agent (set_flag n h) = agent h" "agent (clear_flag n h) = agent h"
  "wq_size (set_flag n h) = wq_size h" "wq_size (clear_flag n h) = wq_size h"
  "hdr_ncnt (set_flag n h) = hdr_ncnt h" "hdr_ncnt (clear_flag n h) = hdr_ncnt h"
  by (simp_all add: set_flag_def clear_flag_def)

lemma bit_flag:
  "bit (mode_old_mode (set_flag n h)) m \<longleftrightarrow> m = n \<and> n < 8 \<or> bit (mode_old_mode h) m"
  "bit (mode_old_mode (clear_flag n h)) m \<longleftrightarrow> m \<noteq> n \<and> bit (mode_old_mode h) m"
  by (auto simp: set_flag_def clear_flag_def bit_simps)

lemma pkt_mode_flag [simp]:
  "0 < n \<Longrightarrow> pkt_mode (set_flag n h) = pkt_mode h" "0 < n \<Longrightarrow> pkt_mode (clear_flag n h) = pkt_mode h"
  "1 < n \<Longrightarrow> pkt_old_mode (set_flag n h) = pkt_old_mode h"
  "1 < n \<Longrightarrow> pkt_old_mode (clear_flag n h) = pkt_old_mode h"
  by (auto simp: pkt_mode_def pkt_old_mode_def bit_flag)

lemma pkt_mode_agent [simp]:
  "pkt_mode (h\<lparr>agent := a\<rparr>) = pkt_mode h" "pkt_old_mode (h\<lparr>agent := a\<rparr>) = pkt_old_mode h"
  by (simp_all add: pkt_mode_def pkt_old_mode_def)

section \<open>Every step keeps the invariant\<close>

lemma sent_acquire_ok:
  assumes "cluster_host h" "t \<noteq> TASK_FOR_RESTORE"
  shows "sw_pkt_ok (send_post_acquire h (lock_state_code LOCK_EXCL) i h t)"
    and "\<not> is_token (send_post_acquire h (lock_state_code LOCK_EXCL) i h t)"
  using assms by (simp_all add: sw_pkt_ok_def pkt_ok_def is_token_def send_post_defs pkt_mode_MODE_OLD_MODE)

lemma acquire_on_ok:
  assumes "node_ok h l" "cluster_host h" "t \<noteq> TASK_FOR_RESTORE" "\<not> TPCC_ENB_LOCAL b"
  shows "\<exists>r l' out. acquire_on b h True d l t LOCK_EXCL = Inr (r, l', out) \<and> node_ok h l' \<and>
    is_agent l' = is_agent l \<and> (\<forall>p \<in> set out. sw_pkt_ok p \<and> \<not> is_token p)"
proof -
  have q: "node_ok h (lock_prepare_wait (l\<lparr>wqueue := wqueue l @ [mk_wqe LOCK_EXCL t h]\<rparr>) t)"
    and p: "node_ok h (lock_prepare_wait l t)"
    using assms(1,2) by (auto simp: node_ok_def lock_prepare_wait_def wqe_ok_def lock_out_of_range_def split: option.splits)
  have a: "is_agent (lock_prepare_wait l t) = is_agent l" for l :: innet_lock
    by (simp add: lock_prepare_wait_def split: option.splits)
  have r: "\<not> lock_out_of_range l" using assms(1) by (simp add: node_ok_def)
  show ?thesis
    using assms(4) r p q sent_acquire_ok [OF assms(2,3)]
    by (auto simp: acquire_on_def handle_suspend_acquire_def ASSERT_def lock_append_to_wq_def a)
qed

lemma sent_free_ok:
  "sw_pkt_ok (send_post_free h i n (lock_state_code LOCK_EXCL))"
  "is_token (send_post_free h i n (lock_state_code LOCK_EXCL))"
  by (simp_all add: sw_pkt_ok_def pkt_ok_def is_token_def send_post_defs pkt_mode_MODE_OLD_MODE)

lemma unat_of_nat_le: "unat (of_nat n :: u32) \<le> n"
  by (simp add: unat_of_nat take_bit_nat_def)

lemma sent_transfer_ok:
  assumes "wqe_ok w" "\<forall>w \<in> set ws. wqe_ok w"
  shows "sw_pkt_ok (send_post_transfer h (lock_state_code (wq_op w)) i (wq_host w) (wqe_task w) ws n (lock_state_code LOCK_EXCL))"
    and "is_token (send_post_transfer h (lock_state_code (wq_op w)) i (wq_host w) (wqe_task w) ws n (lock_state_code LOCK_EXCL))"
  using assms
  by (simp_all add: sw_pkt_ok_def pkt_ok_def is_token_def send_post_defs pkt_mode_MODE_OLD_MODE
      wqe_ok_def wqe_task_not_restore unat_of_nat_le)

lemma release_on_ok:
  assumes ok: "node_ok h l" and t: "t \<in> local_holders l" and b: "\<not> TPCC_ENB_LOCAL b" "\<not> FISSLOCK_DEBUG b"
  shows "\<exists>l' out. release_on b h l t = Inr (l', out) \<and> node_ok h l' \<and> is_agent l \<and>
    (\<forall>p \<in> set out. sw_pkt_ok p) \<and> count_tokens out + of_bool (is_agent l') = 1"
proof -
  have a: "is_agent l" using ok t by (auto simp: node_ok_def split: if_splits)
  with ok t have l: "mode l = LOCK_EXCL" "holders l = {LOCK_HOLDER h t}" "local_holders l = {t}"
    "\<not> lock_out_of_range l" "\<forall>w \<in> set (wqueue l). wqe_ok w" "early_release l = (\<lambda>_. False)"
    by (auto simp: node_ok_def)
  let ?l = "l\<lparr>local_holders := {}, holders := {}\<rparr>"
  have rel: "release_on b h l t =
      (if wqueue l = [] then Inr (release_free_local h ?l) else release_transfer_local b h ?l)"
    using a b l by (simp add: release_on_def release_at_agent_def Let_def lock_out_of_range_def
        lock_has_holder_def handle_release_def ASSERT_def lock_remove_holder_def lock_no_holders_def
        lock_no_waiters_def)
  show ?thesis
  proof (cases "wqueue l")
    case Nil
    then show ?thesis unfolding rel
      using a l sent_free_ok by (simp add: release_free_local_def node_ok_def lock_out_of_range_def)
  next
    case (Cons w ws)
    with l have w: "wqe_ok w" "\<forall>w \<in> set ws. wqe_ok w" "wq_op w = LOCK_EXCL" by (auto simp: wqe_ok_def)
    show ?thesis
    proof (cases "FISSLOCK_BMV2 b \<and> wq_host w = h")
      case True
      then show ?thesis unfolding rel
        using a l w Cons by (simp add: release_transfer_local_def lock_local_notify_def lock_add_holder_def
            node_ok_def lock_out_of_range_def)
    next
      case False
      then show ?thesis unfolding rel
        using a b l w Cons sent_transfer_ok [OF w(1,2)]
        by (auto simp: release_transfer_local_def ASSERT_def node_ok_def lock_out_of_range_def)
    qed
  qed
qed

text \<open>An acquire at a host that holds nothing for it: sent back, or queued.\<close>

lemma process_acquire_ok:
  assumes ok: "node_ok h l" and p: "host_pkt_ok h p" "ptype p = POST_LOCK_ACQUIRE"
  shows "\<exists>n l'. process_acquire b l p = Inr (n, p, l', []) \<and> node_ok h l' \<and> is_agent l' = is_agent l"
proof -
  have m: "MODE (mode_old_mode (hdr p)) = LOCK_EXCL" "\<not> GRANTED (hdr p)" "cluster_host (machine_id (hdr p))"
    using p by (simp_all add: host_pkt_ok_def pkt_ok_def MODE_bit)
  have l: "\<not> lock_out_of_range l" "early_release l = (\<lambda>_. False)" using ok by (simp_all add: node_ok_def)
  have q: "node_ok h (l\<lparr>wqueue := wqueue l @ [mk_wqe LOCK_EXCL t (machine_id (hdr p))], fwd_back_cnt := f\<rparr>)"
    "node_ok h (l\<lparr>wqueue := wqueue l @ [mk_wqe LOCK_EXCL t (machine_id (hdr p))]\<rparr>)"
    "node_ok h (l\<lparr>fwd_back_cnt := f\<rparr>)" for f t
    using ok m(3) by (auto simp: node_ok_def wqe_ok_def lock_out_of_range_def)
  show ?thesis
    using m l q
    by (auto simp: process_acquire_def Let_def handle_suspend_acquire_def ASSERT_def lock_append_to_wq_def)
qed

lemma process_grant_ok:
  assumes ok: "node_ok h l" "\<not> is_agent l"
    and p: "host_pkt_ok h p" "ptype p = POST_LOCK_GRANT_WITH_AGENT"
  shows "\<exists>l'. process_grant_with_agent b h l p = Inr (0, p, l', []) \<and> node_ok h l' \<and> is_agent l'"
proof -
  have m: "MODE (mode_old_mode (hdr p)) = LOCK_EXCL" "agent (hdr p) = h" "hdr_task_id (hdr p) \<noteq> TASK_FOR_RESTORE"
    using p by (simp_all add: host_pkt_ok_def pkt_ok_def MODE_bit)
  have q: "packet_queue p = Inr (take (unat (wq_size (hdr p))) (pkt_wq p))"
    "\<forall>w \<in> set (take n (pkt_wq p)). wqe_ok w" for n
    using p by (auto simp: host_pkt_ok_def pkt_ok_def packet_queue_def dest: in_set_takeD)
  show ?thesis
    using m q ok
    by (auto simp: process_grant_with_agent_def Let_def ASSERT_def lock_add_holder_def lock_local_notify_def
        lock_unmarshal_wq_def node_ok_def lock_out_of_range_def)
qed

lemma lock_packet_process_ok:
  assumes ok: "node_ok h l" and p: "host_pkt_ok h p" and tok: "is_token p \<Longrightarrow> \<not> is_agent l"
  shows "\<exists>n p' l'. lock_packet_process b None h l p = Inr (n, p', l', []) \<and> node_ok h l' \<and>
    (n \<noteq> 0 \<longrightarrow> sw_pkt_ok p' \<and> \<not> is_token p') \<and>
    of_bool (is_agent l') = (of_bool (is_token p) + of_bool (is_agent l) :: nat)"
proof (cases "ptype p = POST_LOCK_ACQUIRE")
  case True
  then have "\<not> is_token p" "sw_pkt_ok p" using p by (simp_all add: is_token_def sw_pkt_ok_def host_pkt_ok_def)
  with process_acquire_ok [OF ok p True, of b] True show ?thesis
    by (auto simp: lock_packet_process_def)
next
  case False
  then have g: "ptype p = POST_LOCK_GRANT_WITH_AGENT" using p by (simp add: host_pkt_ok_def)
  then have t: "is_token p" by (simp add: is_token_def)
  from process_grant_ok [OF ok tok [OF t] p g, of b] tok [OF t] t g show ?thesis
    by (auto simp: lock_packet_process_def)
qed

lemma egress_plain: "\<not> bit (mode_old_mode (hdr p)) f_multicasted \<Longrightarrow> egress_pipe r p = p"
  by (simp add: egress_pipe_def)

text \<open>What the switch does with the packets of the workload.\<close>

lemma slot_switch_acquire:
  assumes p: "sw_pkt_ok p" "ptype p = POST_LOCK_ACQUIRE" and s: "slot_ok s"
  shows "\<exists>q h. slot_switch s p = (s\<lparr>sl_free := LK_ACQUIRED, sl_rw := (if sl_free s = LK_FREE then RW_EXCL else sl_rw s),
             sl_agent := h\<rparr>, [(h, q)]) \<and> cluster_host h \<and> host_pkt_ok h q \<and> (is_token q \<longleftrightarrow> sl_free s = LK_FREE)"
proof -
  let ?p = "p\<lparr>hdr := clear_flag f_granted (clear_flag f_multicasted (hdr p))\<rparr>"
  let ?h = "if sl_free s = LK_FREE then machine_id (hdr p) else sl_agent s"
  let ?q = "if sl_free s = LK_FREE
    then ?p\<lparr>ptype := POST_LOCK_GRANT_WITH_AGENT, hdr := clear_flag f_transferred ((hdr ?p)\<lparr>agent := machine_id (hdr p)\<rparr>)\<rparr>
    else ?p\<lparr>hdr := (hdr ?p)\<lparr>agent := sl_agent s\<rparr>\<rparr>"
  have m: "pkt_mode (hdr p) = RW_EXCL" "cluster_host (machine_id (hdr p))"
    using p by (simp_all add: sw_pkt_ok_def pkt_ok_def)
  have i: "slot_ingress s p = (s\<lparr>sl_free := LK_ACQUIRED, sl_rw := (if sl_free s = LK_FREE then RW_EXCL else sl_rw s),
      sl_agent := ?h\<rparr>, ?q, 0)"
    using p(2) m
    by (cases "sl_free s"; cases "sl_rw s") (simp_all add: slot_ingress_def slot_count_def rejected_def slot_operate_def Let_def)
  have h: "cluster_host ?h" using m s by (cases "sl_free s") (auto simp: slot_ok_def)
  have "agent (hdr ?q) = ?h" "\<not> bit (mode_old_mode (hdr ?q)) f_multicasted" "\<not> GRANTED (hdr ?q)"
    by (simp_all add: bit_flag flag_bits)
  with h have "to_hosts connected_machines (slot_forward ?q 0) = [(?h, ?q)]"
    by (subst forward_unicast) (simp_all add: egress_plain)
  moreover have "host_pkt_ok ?h ?q"
    using p m by (simp add: host_pkt_ok_def sw_pkt_ok_def pkt_ok_def bit_flag flag_bits)
  moreover have "is_token ?q \<longleftrightarrow> sl_free s = LK_FREE" using p(2) by (simp add: is_token_def)
  ultimately have "slot_switch s p = (s\<lparr>sl_free := LK_ACQUIRED,
      sl_rw := (if sl_free s = LK_FREE then RW_EXCL else sl_rw s), sl_agent := ?h\<rparr>, [(?h, ?q)]) \<and>
      cluster_host ?h \<and> host_pkt_ok ?h ?q \<and> (is_token ?q \<longleftrightarrow> sl_free s = LK_FREE)"
    using h unfolding slot_switch_def i by simp
  then show ?thesis by blast
qed

lemma slot_switch_free:
  assumes p: "sw_pkt_ok p" "ptype p = POST_LOCK_FREE" and s: "sl_free s = LK_ACQUIRED"
  shows "\<exists>rw. slot_switch s p = (s\<lparr>sl_free := LK_FREE, sl_rw := rw, sl_agent := 0, sl_ncnt := 0\<rparr>, [])"
proof -
  let ?p = "p\<lparr>hdr := clear_flag f_granted (clear_flag f_multicasted (hdr p))\<rparr>"
  have m: "pkt_old_mode (hdr p) = RW_EXCL" using p by (simp add: sw_pkt_ok_def)
  have "slot_ingress s p = (s\<lparr>sl_free := LK_FREE, sl_rw := pkt_mode (hdr p), sl_agent := 0, sl_ncnt := 0\<rparr>,
      ?p\<lparr>hdr := (hdr ?p)\<lparr>agent := 0\<rparr>\<rparr>, 0)"
    using p(2) m s
    by (cases "pkt_mode (hdr p)") (simp_all add: slot_ingress_def slot_count_def rejected_def slot_operate_def Let_def)
  then show ?thesis by (auto simp: slot_switch_def forward_nobody)
qed

lemma slot_switch_transfer:
  assumes p: "sw_pkt_ok p" "ptype p = POST_LOCK_TRANSFER" and s: "sl_free s = LK_ACQUIRED"
  shows "\<exists>q h. slot_switch s p = (s\<lparr>sl_rw := RW_EXCL, sl_agent := h, sl_ncnt := 0\<rparr>, [(h, q)]) \<and>
    cluster_host h \<and> host_pkt_ok h q \<and> is_token q"
proof -
  let ?p = "p\<lparr>hdr := clear_flag f_granted (clear_flag f_multicasted (hdr p))\<rparr>" and ?h = "machine_id (hdr p)"
  let ?q = "?p\<lparr>ptype := POST_LOCK_GRANT_WITH_AGENT, hdr := set_flag f_transferred ((hdr ?p)\<lparr>agent := ?h\<rparr>)\<rparr>"
  have m: "pkt_mode (hdr p) = RW_EXCL" "pkt_old_mode (hdr p) = RW_EXCL" "cluster_host ?h"
    using p by (simp_all add: sw_pkt_ok_def pkt_ok_def)
  have i: "slot_ingress s p = (s\<lparr>sl_rw := RW_EXCL, sl_agent := ?h, sl_ncnt := 0\<rparr>, ?q, 0)"
    using p(2) m s by (cases s) (simp add: slot_ingress_def slot_count_def rejected_def slot_operate_def Let_def)
  have "agent (hdr ?q) = ?h" "\<not> bit (mode_old_mode (hdr ?q)) f_multicasted"
    by (simp_all add: bit_flag)
  with m have "to_hosts connected_machines (slot_forward ?q 0) = [(?h, ?q)]"
    by (subst forward_unicast) (simp_all add: egress_plain)
  moreover have "host_pkt_ok ?h ?q"
    using p m by (simp add: host_pkt_ok_def sw_pkt_ok_def pkt_ok_def bit_flag flag_bits)
  ultimately show ?thesis
    using m unfolding slot_switch_def i by (simp add: is_token_def)
qed

lemma slot_switch_ok:
  assumes p: "sw_pkt_ok p" and s: "slot_ok s" and tok: "is_token p \<Longrightarrow> sl_free s = LK_ACQUIRED"
  shows "\<exists>s' out. slot_switch s p = (s', out) \<and> slot_ok s' \<and> (\<forall>(h, q) \<in> set out. host_pkt_ok h q) \<and>
    count_tokens (map snd out) + of_bool (sl_free s' = LK_FREE) = of_bool (is_token p) + of_bool (sl_free s = LK_FREE)"
proof -
  consider "ptype p = POST_LOCK_ACQUIRE" | "ptype p = POST_LOCK_FREE" | "ptype p = POST_LOCK_TRANSFER"
    using p by (auto simp: sw_pkt_ok_def)
  then show ?thesis
  proof cases
    case 1
    then have "\<not> is_token p" by (simp add: is_token_def)
    with slot_switch_acquire [OF p 1 s] show ?thesis by (fastforce simp: slot_ok_def)
  next
    case 2
    then have "sl_free s = LK_ACQUIRED" using tok by (simp add: is_token_def)
    from slot_switch_free [OF p 2 this] 2 this show ?thesis by (auto simp: slot_ok_def is_token_def)
  next
    case 3
    then have t: "is_token p" by (simp add: is_token_def)
    with slot_switch_transfer [OF p 3 tok [OF t]] tok [OF t] show ?thesis by (fastforce simp: slot_ok_def)
  qed
qed

subsection \<open>Counting\<close>

lemma count_remove_nth:
  assumes "n < length xs"
  shows "length (filter P (remove_nth n xs)) + of_bool (P (xs ! n)) = length (filter P xs)"
proof -
  have "xs = take n xs @ xs ! n # drop (Suc n) xs" using assms by (simp add: id_take_nth_drop)
  then have "filter P xs = filter P (take n xs) @ filter P [xs ! n] @ filter P (drop (Suc n) xs)"
    by (metis append_Cons append_Nil filter_append)
  then show ?thesis by (simp add: remove_nth_def)
qed

lemma set_remove_nth: "set (remove_nth n xs) \<subseteq> set xs"
  by (auto simp: remove_nth_def dest: in_set_takeD in_set_dropD)

lemma map_remove_nth: "map f (remove_nth n xs) = remove_nth n (map f xs)"
  by (simp add: remove_nth_def take_map drop_map)

lemma agents_upd: "agents (ns(h := l)) + of_bool (is_agent (ns h)) = agents ns + of_bool (is_agent l)"
proof -
  let ?A = "{x. x \<noteq> h \<and> is_agent (ns x)}"
  have "{x. is_agent (ns x)} = (if is_agent (ns h) then insert h ?A else ?A)"
    "{x. is_agent ((ns(h := l)) x)} = (if is_agent l then insert h ?A else ?A)"
    by auto
  moreover have "finite ?A" "h \<notin> ?A" by simp_all
  ultimately show ?thesis by (simp add: agents_def)
qed

lemma agents_pos: "is_agent (ns h) \<Longrightarrow> 0 < agents ns"
  by (auto simp: agents_def card_gt_0_iff)

lemma agents_le_one: "agents ns \<le> 1 \<Longrightarrow> is_agent (ns h) \<Longrightarrow> is_agent (ns h') \<Longrightarrow> h = h'"
  by (auto simp: agents_def card_le_Suc0_iff_eq)

subsection \<open>The steps of the cluster\<close>

text \<open>A host changes its record and sends packets; the tokens it had are the tokens it has.\<close>

lemma excl_inv_node:
  assumes inv: "tokens c + k = 1" "slot_ok (sw c)" "\<forall>h. node_ok h (nodes c h)"
      "\<forall>p \<in> set (to_switch c). sw_pkt_ok p" "\<forall>(h, p) \<in> set (to_host c). host_pkt_ok h p"
    and l: "node_ok h l" "\<forall>p \<in> set out. sw_pkt_ok p"
    and tok: "count_tokens out + of_bool (is_agent l) = k + of_bool (is_agent (nodes c h))"
  shows "excl_inv (c\<lparr>nodes := (nodes c)(h := l), to_switch := to_switch c @ out\<rparr>)"
  using inv l tok agents_upd [of "nodes c" h l] by (auto simp: excl_inv_def tokens_def)

lemma excl_inv_acquire:
  assumes "excl_inv c" "excl_event c (Ev_acquire h t op)" "\<not> TPCC_ENB_LOCAL b"
  shows "\<exists>c'. cl_acquire b h t op c = Inr c' \<and> excl_inv c'"
proof -
  have n: "node_ok h (nodes c h)" using assms(1) by (simp add: excl_inv_def)
  obtain r l out where a: "acquire_on b h True 0 (nodes c h) t op = Inr (r, l, out)" and l: "node_ok h l"
    and ag: "is_agent l = is_agent (nodes c h)" and out: "\<forall>p \<in> set out. sw_pkt_ok p \<and> \<not> is_token p"
    using acquire_on_ok [OF n, of t b 0] assms(2,3) by auto
  then have "count_tokens out = 0" by (simp add: filter_empty_conv)
  with assms(1) l ag out have "excl_inv (c\<lparr>nodes := (nodes c)(h := l), to_switch := to_switch c @ out\<rparr>)"
    by (intro excl_inv_node [where k = 0]) (auto simp: excl_inv_def)
  with a show ?thesis by (simp add: cl_acquire_def)
qed

lemma excl_inv_release:
  assumes "excl_inv c" "t \<in> local_holders (nodes c h)" "\<not> TPCC_ENB_LOCAL b" "\<not> FISSLOCK_DEBUG b"
  shows "\<exists>c'. cl_release b h t c = Inr c' \<and> excl_inv c'"
proof -
  have n: "node_ok h (nodes c h)" using assms(1) by (simp add: excl_inv_def)
  obtain l out where r: "release_on b h (nodes c h) t = Inr (l, out)" and l: "node_ok h l" "is_agent (nodes c h)"
    "\<forall>p \<in> set out. sw_pkt_ok p" "count_tokens out + of_bool (is_agent l) = 1"
    using release_on_ok [OF n assms(2-4)] by auto
  with assms(1) have "excl_inv (c\<lparr>nodes := (nodes c)(h := l), to_switch := to_switch c @ out\<rparr>)"
    by (intro excl_inv_node [where k = 0]) (auto simp: excl_inv_def)
  with r show ?thesis by (simp add: cl_release_def)
qed

lemma excl_inv_switch:
  assumes inv: "excl_inv c" and n: "n < length (to_switch c)"
  shows "excl_inv (cl_switch (to_switch c ! n) (c\<lparr>to_switch := remove_nth n (to_switch c)\<rparr>))"
proof -
  let ?p = "to_switch c ! n" and ?r = "remove_nth n (to_switch c)"
  have p: "sw_pkt_ok ?p" "slot_ok (sw c)" using inv n by (simp_all add: excl_inv_def)
  have cnt: "count_tokens ?r + of_bool (is_token ?p) = count_tokens (to_switch c)"
    by (rule count_remove_nth [OF n])
  have t: "tokens c = 1" using inv by (simp add: excl_inv_def)
  have "sl_free (sw c) = LK_ACQUIRED" if "is_token ?p"
    using that t cnt by (cases "sl_free (sw c)") (auto simp: tokens_def)
  from slot_switch_ok [OF p this] obtain s out where s: "slot_switch (sw c) ?p = (s, out)" "slot_ok s"
    "\<forall>(h, q) \<in> set out. host_pkt_ok h q"
    "count_tokens (map snd out) + of_bool (sl_free s = LK_FREE) = of_bool (is_token ?p) + of_bool (sl_free (sw c) = LK_FREE)"
    by blast
  have "\<forall>p \<in> set ?r. sw_pkt_ok p" using inv set_remove_nth [of n "to_switch c"] by (auto simp: excl_inv_def)
  with inv s t cnt show ?thesis
    by (auto simp: excl_inv_def cl_switch_def tokens_def)
qed

lemma excl_inv_deliver:
  assumes inv: "excl_inv c" and n: "n < length (to_host c)" and hp: "to_host c ! n = (h, p)"
  shows "\<exists>c'. cl_deliver b h p (c\<lparr>to_host := remove_nth n (to_host c)\<rparr>) = Inr c' \<and> excl_inv c'"
proof -
  let ?c = "c\<lparr>to_host := remove_nth n (to_host c)\<rparr>"
  have p: "node_ok h (nodes c h)" "host_pkt_ok h p"
    using inv n hp nth_mem [OF n] by (auto simp: excl_inv_def)
  have "count_tokens (map snd (remove_nth n (to_host c))) + of_bool (is_token p) = count_tokens (map snd (to_host c))"
    unfolding map_remove_nth using count_remove_nth [of n "map snd (to_host c)" is_token] n hp by simp
  then have t: "tokens ?c + of_bool (is_token p) = 1" using inv by (simp add: excl_inv_def tokens_def)
  have "\<not> is_agent (nodes c h)" if "is_token p"
    using that t agents_pos [of "nodes c" h] by (auto simp: tokens_def)
  from lock_packet_process_ok [OF p this, of b] obtain m p' l where
    l: "lock_packet_process b None h (nodes c h) p = Inr (m, p', l, [])" "node_ok h l"
    "m \<noteq> 0 \<longrightarrow> sw_pkt_ok p' \<and> \<not> is_token p'"
    "of_bool (is_agent l) = (of_bool (is_token p) + of_bool (is_agent (nodes c h)) :: nat)"
    by blast
  let ?out = "if m = 0 then [] else [p']"
  have "excl_inv (?c\<lparr>nodes := (nodes ?c)(h := l), to_switch := to_switch ?c @ ?out\<rparr>)"
    using inv t l set_remove_nth [of n "to_host c"]
    by (intro excl_inv_node [where k = "of_bool (is_token p)"]) (auto simp: excl_inv_def)
  with l(1) show ?thesis by (simp add: cl_deliver_def)
qed

lemma excl_inv_step:
  assumes "excl_inv c" "excl_event c e" "\<not> TPCC_ENB_LOCAL b" "\<not> FISSLOCK_DEBUG b"
  shows "\<exists>c'. cl_step b e c = Inr c' \<and> excl_inv c'"
proof (cases e)
  case (Ev_acquire h t op)
  with excl_inv_acquire [of c h t op b] assms show ?thesis by simp
next
  case (Ev_release h t)
  with excl_inv_release [of c t h b] assms show ?thesis by simp
next
  case (Ev_switch n)
  with excl_inv_switch [of c n] assms show ?thesis by simp
next
  case (Ev_deliver n)
  with excl_inv_deliver [of c n _ _ b] assms show ?thesis by (auto split: prod.splits)
qed

lemma excl_inv_initial: "i < SWITCH_LOCK_NUM \<Longrightarrow> excl_inv (initial_cluster i)"
  by (auto simp: excl_inv_def initial_cluster_def tokens_def agents_def slot_ok_def node_ok_def new_lock_def
      initial_slot_def lock_out_of_range_def)

lemma excl_inv_run:
  assumes "excl_inv c" "excl_run b es c" "\<not> TPCC_ENB_LOCAL b" "\<not> FISSLOCK_DEBUG b"
  shows "\<exists>c'. cl_run b es c = Inr c' \<and> excl_inv c'"
  using assms(1,2)
proof (induction es arbitrary: c)
  case Nil
  then show ?case by simp
next
  case (Cons e es)
  then obtain c' where "cl_step b e c = Inr c'" "excl_inv c'"
    using excl_inv_step [OF _ _ assms(3,4), of c e] by auto
  with Cons show ?case by simp
qed

section \<open>Mutual exclusion across the cluster\<close>

lemma excl_holder_agent:
  assumes "excl_inv c" "(h, t) \<in> cl_holders c"
  shows "is_agent (nodes c h)" "local_holders (nodes c h) = {t}"
proof -
  have n: "node_ok h (nodes c h)" and t: "t \<in> local_holders (nodes c h)"
    using assms by (simp_all add: excl_inv_def cl_holders_def)
  then show a: "is_agent (nodes c h)" by (auto simp: node_ok_def split: if_splits)
  with n t show "local_holders (nodes c h) = {t}" by (auto simp: node_ok_def)
qed

lemma excl_holder_unique:
  assumes "excl_inv c" "x \<in> cl_holders c" "y \<in> cl_holders c"
  shows "x = y"
proof -
  obtain h t h' t' where xy: "x = (h, t)" "y = (h', t')" by fastforce
  have "agents (nodes c) \<le> 1" using assms(1) by (simp add: excl_inv_def tokens_def)
  then have "h = h'"
    using agents_le_one excl_holder_agent(1) [OF assms(1)] assms(2,3) xy by metis
  moreover have "{t} = {t'}"
    using excl_holder_agent(2) [OF assms(1)] assms(2,3) xy \<open>h = h'\<close> by metis
  ultimately show ?thesis using xy by simp
qed

lemma excl_agent_holds:
  "excl_inv c \<Longrightarrow> is_agent (nodes c h) \<Longrightarrow> \<exists>t. (h, t) \<in> cl_holders c"
proof -
  assume inv: "excl_inv c" and a: "is_agent (nodes c h)"
  then have "node_ok h (nodes c h)" by (simp add: excl_inv_def)
  with a show ?thesis by (auto simp: node_ok_def cl_holders_def)
qed


text \<open>
  C5. The lock is never lost: in the same runs, once no packet is in flight, either the
  switch records the lock as free and nobody holds it, or it records it as acquired and
  exactly one task holds it.
\<close>

theorem cluster_lock_not_lost:
  assumes "i < SWITCH_LOCK_NUM" "\<not> TPCC_ENB_LOCAL b" "\<not> FISSLOCK_DEBUG b"
    and "excl_run b es (initial_cluster i)"
    and "cl_run b es (initial_cluster i) = Inr c" "to_switch c = []" "to_host c = []"
  shows "if sl_free (sw c) = LK_FREE then cl_holders c = {} else \<exists>x. cl_holders c = {x}"
proof -
  have inv: "excl_inv c" using excl_inv_run [OF excl_inv_initial [OF assms(1)] assms(4,2,3)] assms(5) by auto
  then have t: "of_bool (sl_free (sw c) = LK_FREE) + agents (nodes c) = 1"
    using assms(6,7) by (simp add: excl_inv_def tokens_def)
  show ?thesis
  proof (cases "sl_free (sw c) = LK_FREE")
    case True
    with t have "\<not> is_agent (nodes c h)" for h using agents_pos [of "nodes c" h] by auto
    with excl_holder_agent(1) [OF inv] True show ?thesis by auto
  next
    case False
    with t obtain h where "is_agent (nodes c h)" by (auto simp: agents_def card_1_singleton_iff)
    with excl_agent_holds [OF inv] obtain x where "x \<in> cl_holders c" by blast
    with excl_holder_unique [OF inv] have "cl_holders c = {x}" by blast
    with False show ?thesis by auto
  qed
qed

section \<open>The cluster as one atomic lock\<close>

text \<open>
  The abstract lock: nobody or one task holds it. Only the release of the holder takes it
  away, and then nobody or another task of the same host has it; only the receipt of a packet
  gives it to a task, and only when nobody has it.
\<close>

fun atomic_lock :: "event \<Rightarrow> (host_id \<times> task_id) set \<Rightarrow> (host_id \<times> task_id) set \<Rightarrow> bool" where
  "atomic_lock (Ev_acquire h t op) H H' \<longleftrightarrow> H' = H"
| "atomic_lock (Ev_release h t) H H' \<longleftrightarrow> H = {(h, t)} \<and> (H' = {} \<or> (\<exists>t'. H' = {(h, t')}))"
| "atomic_lock (Ev_switch n) H H' \<longleftrightarrow> H' = H"
| "atomic_lock (Ev_deliver n) H H' \<longleftrightarrow> H' = H \<or> H = {} \<and> (\<exists>x. H' = {x})"

lemma excl_no_agent_no_holder:
  "excl_inv c \<Longrightarrow> agents (nodes c) = 0 \<Longrightarrow> cl_holders c = {}"
  using excl_holder_agent(1) [of c] agents_pos [of "nodes c"] by fastforce

lemma cl_holders_upd:
  "nodes c' = (nodes c)(h := l) \<Longrightarrow>
     cl_holders c' = {(h', t). (h', t) \<in> cl_holders c \<and> h' \<noteq> h} \<union> Pair h ` local_holders l"
  by (auto simp: cl_holders_def split: if_splits)

lemma excl_holders_singleton:
  assumes "excl_inv c" "(h, t) \<in> cl_holders c"
  shows "cl_holders c = {(h, t)}"
  using excl_holder_unique [OF assms(1) _ assms(2)] assms(2) by blast

lemma local_holders_acquire_on:
  assumes "acquire_on b h True d l t LOCK_EXCL = Inr (r, l', out)" "\<not> TPCC_ENB_LOCAL b" "\<not> lock_out_of_range l"
  shows "local_holders l' = local_holders l"
  using assms
  by (auto simp: acquire_on_def handle_suspend_acquire_def ASSERT_def lock_append_to_wq_def
      lock_prepare_wait_def handle_granted_acquire_def lock_add_holder_def split: if_splits option.splits)

lemma local_holders_process_acquire:
  assumes "process_acquire b l p = Inr (n, p', l', out)"
  shows "local_holders l' = local_holders l"
  using assms
  by (auto simp: process_acquire_def Let_def handle_acquire_lm_def handle_suspend_acquire_def ASSERT_def
      lock_append_to_wq_def handle_granted_acquire_def lock_add_holder_def split: if_splits)

lemma atomic_release:
  assumes inv: "excl_inv c" "excl_inv c'" and t: "t \<in> local_holders (nodes c h)" and r: "cl_release b h t c = Inr c'"
  shows "atomic_lock (Ev_release h t) (cl_holders c) (cl_holders c')"
proof -
  obtain l where c': "nodes c' = (nodes c)(h := l)"
    using r by (auto simp: cl_release_def split: sum.splits prod.splits)
  have H: "cl_holders c = {(h, t)}"
    using excl_holders_singleton [OF inv(1)] t by (simp add: cl_holders_def)
  have "cl_holders c' = Pair h ` local_holders l" unfolding cl_holders_upd [OF c'] H by auto
  moreover have "\<forall>x \<in> cl_holders c'. cl_holders c' = {x}"
    using excl_holders_singleton [OF inv(2)] by (metis surj_pair)
  ultimately have "cl_holders c' = {} \<or> (\<exists>t'. cl_holders c' = {(h, t')})" by fastforce
  with H show ?thesis by simp
qed

lemma atomic_deliver:
  assumes inv: "excl_inv c" "excl_inv c'" and n: "n < length (to_host c)" "to_host c ! n = (h, p)"
    and d: "cl_deliver b h p (c\<lparr>to_host := remove_nth n (to_host c)\<rparr>) = Inr c'"
  shows "atomic_lock (Ev_deliver n) (cl_holders c) (cl_holders c')"
proof -
  obtain m p' l out where l: "lock_packet_process b None h (nodes c h) p = Inr (m, p', l, out)"
    and n': "nodes c' = (nodes c)(h := l)"
    using d by (auto simp: cl_deliver_def split: sum.splits prod.splits)
  note c' = cl_holders_upd [OF n']
  have p: "host_pkt_ok h p" using inv(1) n nth_mem [OF n(1)] by (auto simp: excl_inv_def)
  show ?thesis
  proof (cases "ptype p = POST_LOCK_ACQUIRE")
    case True
    with l have "local_holders l = local_holders (nodes c h)"
      by (simp add: lock_packet_process_def local_holders_process_acquire)
    with c' show ?thesis by (auto simp: cl_holders_def)
  next
    case False
    then have "is_token p" using p by (simp add: host_pkt_ok_def is_token_def)
    then have "0 < count_tokens (map snd (to_host c))"
      using n nth_mem [OF n(1)] by (force simp: filter_empty_conv)
    moreover have "tokens c = 1" using inv(1) by (simp add: excl_inv_def)
    ultimately have "agents (nodes c) = 0" unfolding tokens_def by linarith
    with excl_no_agent_no_holder [OF inv(1)] have "cl_holders c = {}" by simp
    with excl_holders_singleton [OF inv(2)] show ?thesis by (cases "cl_holders c' = {}") auto
  qed
qed

text \<open>
  C4. The cluster refines one atomic exclusive lock: after any run of the exclusive workload,
  every further step leaves the holder of the lock alone, or is the release of exactly that
  holder, or the receipt of a packet that gives a lock nobody holds to one task. In
  particular the switch and the requests of other tasks never take the lock from a holder.
\<close>

theorem cluster_refines_atomic_lock:
  assumes "i < SWITCH_LOCK_NUM" "\<not> TPCC_ENB_LOCAL b" "\<not> FISSLOCK_DEBUG b"
    and "excl_run b (es @ [e]) (initial_cluster i)"
    and "cl_run b es (initial_cluster i) = Inr c" "cl_step b e c = Inr c'"
  shows "atomic_lock e (cl_holders c) (cl_holders c')"
proof -
  have split: "excl_run b es c0 \<and> excl_event c e"
    if "excl_run b (es @ [e]) c0" "cl_run b es c0 = Inr c" for c0
    using that by (induction es arbitrary: c0) (auto split: sum.splits)
  have "excl_run b es (initial_cluster i)" and ev: "excl_event c e" using split [OF assms(4,5)] by simp_all
  then have inv: "excl_inv c" using excl_inv_run [OF excl_inv_initial [OF assms(1)] _ assms(2,3)] assms(5) by fastforce
  with excl_inv_step [OF inv ev assms(2,3)] assms(6) have inv': "excl_inv c'" by simp
  have r: "\<not> lock_out_of_range (nodes c h)" for h using inv by (simp add: excl_inv_def node_ok_def)
  show ?thesis
  proof (cases e)
    case (Ev_acquire h t op)
    with assms(6) ev local_holders_acquire_on [OF _ assms(2) r] show ?thesis
      by (auto simp: cl_acquire_def cl_holders_def split: sum.splits prod.splits if_splits)
  next
    case (Ev_release h t)
    with atomic_release [OF inv inv'] assms(6) ev show ?thesis by simp
  next
    case (Ev_switch n)
    with assms(6) show ?thesis
      by (auto simp: cl_switch_def cl_holders_def Let_def split: prod.splits if_splits)
  next
    case (Ev_deliver n)
    with atomic_deliver [OF inv inv'] assms(6) show ?thesis
      by (auto split: prod.splits if_splits)
  qed
qed

section \<open>Runs that show limits of the protocol\<close>

text \<open>The events of the runs and what is checked at their end.\<close>

definition ends_with :: "event list \<Rightarrow> (cluster \<Rightarrow> bool) \<Rightarrow> bool" where
  "ends_with es P = (case cl_run default_build es (initial_cluster 5) of Inl _ \<Rightarrow> False | Inr c \<Rightarrow> P c)"

definition quiescent :: "cluster \<Rightarrow> bool" where
  "quiescent c \<longleftrightarrow> to_switch c = [] \<and> to_host c = []"



definition early_release_run :: "event list" where
  "early_release_run =
     [Ev_acquire 1 10 LOCK_SHARED, Ev_switch 0, Ev_deliver 0,
      Ev_acquire 2 20 LOCK_SHARED, Ev_switch 0, Ev_deliver 1,
      Ev_release 2 20, Ev_switch 0, Ev_deliver 1,
      Ev_release 1 10, Ev_switch 0, Ev_deliver 0, Ev_deliver 0,
      Ev_acquire 3 30 LOCK_EXCL, Ev_switch 0, Ev_deliver 0]"

text \<open>
  An early release can block a lock for ever. The release of the second reader overtakes
  the notification of its grant at the agent, host 1; when the agent's own reader releases,
  the switch pushes the free packet back, because of that notification, and host 1 becomes
  agent again although the last reader is gone. Nothing is in flight, no task of the cluster
  holds the lock, and the writer of host 3 is queued at an agent that nobody will release.
\<close>

theorem cluster_early_release_blocks_writer:
  "ends_with early_release_run
     (\<lambda>c. quiescent c \<and> list_all (\<lambda>h. local_holders (nodes c h) = {} \<and> holders (nodes c h) = {}) [1, 2, 3] \<and>
          sl_free (sw c) = LK_ACQUIRED \<and> is_agent (nodes c 1) \<and>
          wqueue (nodes c 1) = [mk_wqe LOCK_EXCL 30 3] \<and> task_granted (nodes c 3) 30 = Some False)"
  by code_simp



definition bounced_request_run :: "event list" where
  "bounced_request_run =
     [Ev_acquire 1 10 LOCK_EXCL, Ev_switch 0, Ev_deliver 0,
      Ev_acquire 2 20 LOCK_EXCL, Ev_switch 0,
      Ev_release 1 10,
      Ev_deliver 0, Ev_switch 1, Ev_deliver 0, Ev_switch 1, Ev_deliver 0, Ev_switch 1, Ev_deliver 0,
      Ev_switch 0]"

text \<open>
  A request can be left behind at a host that is not the agent any more. While the free
  packet of host 1 is on its way, the request of host 2 comes back to host 1 three times and
  is then queued there. Nothing is in flight, the switch records the lock as free, and the
  request waits at a host that has no reason to look at its queue.
\<close>

theorem cluster_request_left_behind:
  "excl_run default_build bounced_request_run (initial_cluster 5) \<and>
   ends_with bounced_request_run
     (\<lambda>c. quiescent c \<and> sl_free (sw c) = LK_FREE \<and> \<not> is_agent (nodes c 1) \<and>
          wqueue (nodes c 1) = [mk_wqe LOCK_EXCL 20 2] \<and> task_granted (nodes c 2) 20 = Some False)"
  by code_simp

text \<open>Witnesses of the theorems on the exclusive workload.\<close>

definition excl_example :: "event list" where
  "excl_example =
     [Ev_acquire 1 10 LOCK_EXCL, Ev_switch 0, Ev_deliver 0,
      Ev_acquire 2 20 LOCK_EXCL, Ev_switch 0, Ev_deliver 0, Ev_release 1 10, Ev_switch 0, Ev_deliver 0]"

lemma excl_example_run: "excl_run default_build (excl_example @ [Ev_release 2 20]) (initial_cluster 5)"
  by code_simp

lemma excl_example_run': "excl_run default_build excl_example (initial_cluster 5)"
  by code_simp

lemma example_build:
  "5 < SWITCH_LOCK_NUM" "\<not> TPCC_ENB_LOCAL default_build" "\<not> FISSLOCK_DEBUG default_build"
  by (simp_all add: SWITCH_LOCK_NUM_def default_build_def)

lemma excl_example_ends: "ends_with excl_example (\<lambda>c. quiescent c \<and> sl_free (sw c) = LK_ACQUIRED)"
  by code_simp


theorem cluster_lock_not_lost_witness:
  "ends_with excl_example (\<lambda>c. \<exists>x. cl_holders c = {x})"
  using excl_example_ends cluster_lock_not_lost [OF example_build excl_example_run']
  by (auto simp: ends_with_def quiescent_def split: sum.splits)

theorem cluster_refines_atomic_lock_witness:
  "ends_with excl_example (\<lambda>c. \<exists>c'. cl_step default_build (Ev_release 2 20) c = Inr c' \<and>
     atomic_lock (Ev_release 2 20) (cl_holders c) (cl_holders c'))"
proof -
  have "ends_with excl_example (\<lambda>c. \<not> isl (cl_step default_build (Ev_release 2 20) c))" by code_simp
  then obtain c where c: "cl_run default_build excl_example (initial_cluster 5) = Inr c"
    and "\<not> isl (cl_step default_build (Ev_release 2 20) c)"
    by (auto simp: ends_with_def split: sum.splits)
  then obtain c' where c': "cl_step default_build (Ev_release 2 20) c = Inr c'"
    by (cases "cl_step default_build (Ev_release 2 20) c") auto
  from cluster_refines_atomic_lock [OF example_build excl_example_run c c'] c c' show ?thesis
    by (auto simp: ends_with_def)
qed

end
