(* ===== verification/Fifo_Protocol.thy ===== *)
theory Fifo_Protocol
  imports Switch_Pipe "HOL-Library.Multiset"
begin

text \<open>
  The protocol of one lock over links that keep the order of packets, with readers and
  writers. This theory is the abstract side: messages instead of packets, numbers instead of
  counters of 8 and 32 bits, and a status for every task. Tasks ask for the lock once and
  release what they were granted. The theory \<open>Fifo_Cluster\<close> shows that the hosts and the switch
  of the sources take exactly these steps.
\<close>

section \<open>Messages, nodes and steps\<close>

datatype key = Key (key_host: host_id) (key_task: task_id)
type_synonym entry = "key \<times> rw_mode"

datatype msg =
    Acq key rw_mode
  | Notif key
  | Grant_agent key rw_mode bool "entry list"
  | Grant key
  | Rel key
  | Free nat rw_mode
  | Transfer key rw_mode "entry list" nat rw_mode

record node =
  n_agent :: bool
  n_mode :: rw_mode
  n_cnt :: nat
  n_holders :: "key set"
  n_queue :: "entry list"
  n_delayed :: bool

record psw =
  s_free :: bool
  s_rw :: rw_mode
  s_agent :: host_id
  s_cnt :: nat

datatype tstat = Idle | Waiting rw_mode | Holding rw_mode | Over

record proto =
  p_sw :: psw
  p_node :: "host_id \<Rightarrow> node"
  p_up :: "host_id \<Rightarrow> msg list"
  p_down :: "host_id \<Rightarrow> msg list"
  p_task :: "key \<Rightarrow> tstat"

definition readers :: "entry list \<Rightarrow> key list" where
  "readers q = map fst (filter (\<lambda>e. snd e = RW_SHARED) q)"

definition writers :: "entry list \<Rightarrow> entry list" where
  "writers q = filter (\<lambda>e. snd e \<noteq> RW_SHARED) q"

text \<open>An agent without holders gives the lock up.\<close>

definition give_up :: "node \<Rightarrow> node \<times> msg list" where
  "give_up n =
     (if n_holders n \<noteq> {} then (n, [])
      else
        (case n_queue n of
           [] \<Rightarrow> (n\<lparr>n_agent := False, n_cnt := 0\<rparr>, [Free (n_cnt n) (n_mode n)])
         | (k, rw) # q \<Rightarrow>
             (n\<lparr>n_agent := False, n_cnt := 0, n_queue := []\<rparr>, [Transfer k rw q (n_cnt n) (n_mode n)])))"

text \<open>
  A host receives a message. The flag says whether a writer that comes to a host without the
  agent role is queued there or sent back.
\<close>

fun receive :: "bool \<Rightarrow> msg \<Rightarrow> node \<Rightarrow> node \<times> msg list" where
  "receive keep (Acq k rw) n =
     (if n_agent n \<or> rw = RW_EXCL \<and> keep then (n\<lparr>n_queue := n_queue n @ [(k, rw)]\<rparr>, []) else (n, [Acq k rw]))"
| "receive keep (Notif k) n = (n\<lparr>n_cnt := n_cnt n + 1, n_holders := insert k (n_holders n)\<rparr>, [])"
| "receive keep (Grant_agent k rw transferred q) n =
     (let n1 = n\<lparr>n_agent := True, n_mode := rw, n_holders := insert k (n_holders n)\<rparr> in
      if transferred then
        (if rw = RW_SHARED
         then (n1\<lparr>n_holders := n_holders n1 \<union> set (readers q), n_queue := n_queue n1 @ writers q\<rparr>,
               map Grant (readers q))
         else (n1\<lparr>n_queue := n_queue n1 @ q\<rparr>, []))
      else (n1\<lparr>n_cnt := (if rw = RW_SHARED then n_cnt n1 + 1 else 0)\<rparr>, []))"
| "receive keep (Grant k) n = (n, [])"
| "receive keep (Rel k) n =
     (if \<not> n_agent n then (n\<lparr>n_holders := n_holders n - {k}, n_delayed := True\<rparr>, [])
      else give_up (n\<lparr>n_holders := n_holders n - {k}\<rparr>))"
| "receive keep (Free c old) n =
     (if n_delayed n \<and> n_holders n = {}
      then (n\<lparr>n_cnt := 0, n_delayed := False\<rparr>, [Free (c + n_cnt n) old])
      else (n\<lparr>n_agent := True, n_mode := old, n_cnt := n_cnt n + c\<rparr>, []))"
| "receive keep (Transfer k rw q c old) n =
     (if n_delayed n \<and> n_holders n = {}
      then (n\<lparr>n_cnt := 0, n_delayed := False\<rparr>, [Transfer k rw q (c + n_cnt n) old])
      else (n\<lparr>n_agent := True, n_mode := old, n_cnt := n_cnt n + c, n_queue := n_queue n @ (k, rw) # q\<rparr>, []))"

text \<open>The switch processes a message of a host.\<close>

fun decide :: "host_id \<Rightarrow> msg \<Rightarrow> psw \<Rightarrow> psw \<times> (host_id \<times> msg) list" where
  "decide h (Acq k rw) s =
     (if s_free s
      then (s\<lparr>s_free := False, s_rw := rw, s_agent := key_host k, s_cnt := (if rw = RW_SHARED then 1 else 0)\<rparr>,
            [(key_host k, Grant_agent k rw False [])])
      else if s_rw s = RW_SHARED \<and> rw = RW_SHARED
      then (s\<lparr>s_cnt := s_cnt s + 1\<rparr>, [(s_agent s, Notif k), (key_host k, Grant k)])
      else (s, [(s_agent s, Acq k rw)]))"
| "decide h (Rel k) s = (s, [(s_agent s, Rel k)])"
| "decide h (Grant k) s = (s, [(key_host k, Grant k)])"
| "decide h (Free c old) s =
     (if old = RW_SHARED \<and> s_cnt s \<noteq> c then (s, [(h, Free c old)])
      else (s\<lparr>s_free := True, s_rw := RW_SHARED, s_agent := 0, s_cnt := 0\<rparr>, []))"
| "decide h (Transfer k rw q c old) s =
     (if old = RW_SHARED \<and> s_cnt s \<noteq> c then (s, [(h, Transfer k rw q c old)])
      else (s\<lparr>s_rw := rw, s_agent := key_host k, s_cnt := 0\<rparr>, [(key_host k, Grant_agent k rw True q)]))"
| "decide h m s = (s, [])"

definition send :: "(host_id \<times> 'm) list \<Rightarrow> (host_id \<Rightarrow> 'm list) \<Rightarrow> host_id \<Rightarrow> 'm list" where
  "send out links = fold (\<lambda>(h, m) l. l(h := l h @ [m])) out links"

text \<open>A task is told of its grant.\<close>

fun told :: "msg \<Rightarrow> (key \<Rightarrow> tstat) \<Rightarrow> key \<Rightarrow> tstat" where
  "told (Grant k) st = (case st k of Waiting rw \<Rightarrow> st(k := Holding rw) | _ \<Rightarrow> st)"
| "told (Grant_agent k _ _ _) st = (case st k of Waiting rw \<Rightarrow> st(k := Holding rw) | _ \<Rightarrow> st)"
| "told m st = st"

inductive pstep :: "proto \<Rightarrow> proto \<Rightarrow> bool" where
  acquire_local: "p_task c (Key h t) = Idle \<Longrightarrow> n_agent (p_node c h) \<Longrightarrow> n_mode (p_node c h) = RW_SHARED \<Longrightarrow>
     pstep c (c\<lparr>p_node := (p_node c)(h := (p_node c h)\<lparr>n_holders := insert (Key h t) (n_holders (p_node c h))\<rparr>),
                p_task := (p_task c)(Key h t := Holding RW_SHARED)\<rparr>)"
| acquire_queue: "p_task c (Key h t) = Idle \<Longrightarrow> n_agent (p_node c h) \<Longrightarrow>
     pstep c (c\<lparr>p_node := (p_node c)(h := (p_node c h)\<lparr>n_queue := n_queue (p_node c h) @ [(Key h t, rw)]\<rparr>),
                p_task := (p_task c)(Key h t := Waiting rw)\<rparr>)"
| acquire_send: "p_task c (Key h t) = Idle \<Longrightarrow>
     pstep c (c\<lparr>p_up := (p_up c)(h := p_up c h @ [Acq (Key h t) rw]),
                p_task := (p_task c)(Key h t := Waiting rw)\<rparr>)"
| release_agent: "p_task c (Key h t) = Holding rw \<Longrightarrow> n_agent (p_node c h) \<Longrightarrow>
     give_up ((p_node c h)\<lparr>n_holders := n_holders (p_node c h) - {(Key h t)}\<rparr>) = (n, out) \<Longrightarrow>
     pstep c (c\<lparr>p_node := (p_node c)(h := n), p_up := (p_up c)(h := p_up c h @ out),
                p_task := (p_task c)(Key h t := Over)\<rparr>)"
| release_send: "p_task c (Key h t) = Holding rw \<Longrightarrow> \<not> n_agent (p_node c h) \<Longrightarrow>
     pstep c (c\<lparr>p_up := (p_up c)(h := p_up c h @ [Rel (Key h t)]), p_task := (p_task c)(Key h t := Over)\<rparr>)"
| switch: "p_up c h = m # ms \<Longrightarrow> decide h m (p_sw c) = (s, out) \<Longrightarrow>
     pstep c (c\<lparr>p_sw := s, p_up := (p_up c)(h := ms), p_down := send out (p_down c)\<rparr>)"
| deliver: "p_down c h = m # ms \<Longrightarrow> receive keep m (p_node c h) = (n, out) \<Longrightarrow>
     pstep c (c\<lparr>p_node := (p_node c)(h := n), p_down := (p_down c)(h := ms), p_up := (p_up c)(h := p_up c h @ out),
                p_task := told m (p_task c)\<rparr>)"

section \<open>The invariant\<close>

text \<open>The tasks that a message stands for; a notification only repeats a grant.\<close>

fun msg_keys :: "msg \<Rightarrow> key multiset" where
  "msg_keys (Acq k rw) = {#k#}"
| "msg_keys (Notif k) = {#}"
| "msg_keys (Grant_agent k rw tr q) = add_mset k (mset (map fst q))"
| "msg_keys (Grant k) = {#k#}"
| "msg_keys (Rel k) = {#k#}"
| "msg_keys (Free c old) = {#}"
| "msg_keys (Transfer k rw q c old) = add_mset k (mset (map fst q))"

definition link_keys :: "msg list \<Rightarrow> key multiset" where
  "link_keys ms = sum_list (map msg_keys ms)"

definition all_keys :: "proto \<Rightarrow> key multiset" where
  "all_keys c =
     (\<Sum>h \<in> UNIV. link_keys (p_up c h)) + (\<Sum>h \<in> UNIV. link_keys (p_down c h))
     + (\<Sum>h \<in> UNIV. mset (map fst (n_queue (p_node c h))))"

fun is_holding :: "tstat \<Rightarrow> bool" where
  "is_holding (Holding rw) = True"
| "is_holding _ = False"

definition keys_inv :: "proto \<Rightarrow> bool" where
  "keys_inv c \<longleftrightarrow> (\<forall>k. count (all_keys c) k + of_bool (is_holding (p_task c k)) \<le> 1 \<and>
                     (p_task c k = Idle \<longrightarrow> count (all_keys c) k = 0))"

text \<open>Messages agree with the status of their tasks and with the switch.\<close>

definition waits :: "proto \<Rightarrow> entry \<Rightarrow> bool" where
  "waits c e \<longleftrightarrow> p_task c (fst e) = Waiting (snd e)"

fun up_ok :: "proto \<Rightarrow> host_id \<Rightarrow> msg \<Rightarrow> bool" where
  "up_ok c h (Acq k rw) \<longleftrightarrow> waits c (k, rw)"
| "up_ok c h (Grant k) \<longleftrightarrow> waits c (k, RW_SHARED)"
| "up_ok c h (Rel k) \<longleftrightarrow> p_task c k = Over"
| "up_ok c h (Free n old) \<longleftrightarrow> old = s_rw (p_sw c)"
| "up_ok c h (Transfer k rw q n old) \<longleftrightarrow> old = s_rw (p_sw c) \<and> waits c (k, rw) \<and> list_all (waits c) q"
| "up_ok c h _ \<longleftrightarrow> False"

fun down_ok :: "proto \<Rightarrow> host_id \<Rightarrow> msg \<Rightarrow> bool" where
  "down_ok c h (Acq k rw) \<longleftrightarrow> waits c (k, rw)"
| "down_ok c h (Notif k) \<longleftrightarrow> True"
| "down_ok c h (Grant k) \<longleftrightarrow> waits c (k, RW_SHARED) \<and> key_host k = h"
| "down_ok c h (Grant_agent k rw tr q) \<longleftrightarrow>
     waits c (k, rw) \<and> key_host k = h \<and> list_all (waits c) q \<and> rw = s_rw (p_sw c) \<and> (\<not> tr \<longrightarrow> q = [])"
| "down_ok c h (Rel k) \<longleftrightarrow> p_task c k = Over"
| "down_ok c h (Free n old) \<longleftrightarrow> old = RW_SHARED \<and> s_rw (p_sw c) = RW_SHARED"
| "down_ok c h (Transfer k rw q n old) \<longleftrightarrow>
     old = RW_SHARED \<and> s_rw (p_sw c) = RW_SHARED \<and> waits c (k, rw) \<and> list_all (waits c) q"

definition typed_inv :: "proto \<Rightarrow> bool" where
  "typed_inv c \<longleftrightarrow> (\<forall>h. list_all (up_ok c h) (p_up c h) \<and> list_all (down_ok c h) (p_down c h) \<and>
                       list_all (waits c) (n_queue (p_node c h)))"

text \<open>The right to hand out the lock: at the switch, with the agent, or in one message.\<close>

fun is_tok :: "msg \<Rightarrow> bool" where
  "is_tok (Grant_agent _ _ _ _) = True"
| "is_tok (Free _ _) = True"
| "is_tok (Transfer _ _ _ _ _) = True"
| "is_tok _ = False"

definition toks :: "msg list \<Rightarrow> nat" where
  "toks ms = length (filter is_tok ms)"

fun is_news :: "msg \<Rightarrow> bool" where
  "is_news (Notif _) = True"
| "is_news (Rel _) = True"
| "is_news _ = False"

text \<open>A host that has nothing to do with the lock, apart from requests that went astray.\<close>

definition bystander :: "proto \<Rightarrow> host_id \<Rightarrow> bool" where
  "bystander c h \<longleftrightarrow> \<not> n_agent (p_node c h) \<and> n_cnt (p_node c h) = 0 \<and> n_holders (p_node c h) = {} \<and>
     toks (p_up c h) = 0 \<and> toks (p_down c h) = 0 \<and> \<not> list_ex is_news (p_down c h)"

definition owner_inv :: "proto \<Rightarrow> bool" where
  "owner_inv c \<longleftrightarrow>
     (\<forall>h. s_free (p_sw c) \<or> h \<noteq> s_agent (p_sw c) \<longrightarrow> bystander c h) \<and>
     (\<not> s_free (p_sw c) \<longrightarrow>
        (let a = s_agent (p_sw c) in
         of_bool (n_agent (p_node c a)) + toks (p_up c a) + toks (p_down c a) = (1 :: nat) \<and>
         (n_agent (p_node c a) \<longrightarrow> n_mode (p_node c a) = s_rw (p_sw c))))"

text \<open>Tasks that hold the lock in shared mode, were granted it, or have just released it.\<close>

definition active :: "proto \<Rightarrow> key \<Rightarrow> bool" where
  "active c k \<longleftrightarrow> (\<exists>h. Grant k \<in> set (p_up c h) \<or> Grant k \<in> set (p_down c h) \<or> Rel k \<in> set (p_up c h)) \<or>
     p_task c k = Holding RW_SHARED"

text \<open>The holders that the agent will know once it has received what is on its way to it.\<close>

fun settle1 :: "msg \<Rightarrow> key set \<Rightarrow> key set" where
  "settle1 (Notif k) H = insert k H"
| "settle1 (Rel k) H = H - {k}"
| "settle1 (Grant_agent k rw tr q) H = insert k H \<union> (if tr then set (readers q) else {})"
| "settle1 _ H = H"

definition settle :: "msg list \<Rightarrow> key set \<Rightarrow> key set" where
  "settle ms H = fold settle1 ms H"

fun settles1 :: "msg \<Rightarrow> key set \<Rightarrow> bool" where
  "settles1 (Rel k) H \<longleftrightarrow> k \<in> H"
| "settles1 (Grant k) H \<longleftrightarrow> k \<in> H"
| "settles1 _ H \<longleftrightarrow> True"

fun settles :: "msg list \<Rightarrow> key set \<Rightarrow> bool" where
  "settles [] H \<longleftrightarrow> True"
| "settles (m # ms) H \<longleftrightarrow> settles1 m H \<and> settles ms (settle1 m H)"

fun is_notif :: "msg \<Rightarrow> bool" where
  "is_notif (Notif _) = True"
| "is_notif _ = False"

definition notifs :: "msg list \<Rightarrow> nat" where
  "notifs ms = length (filter is_notif ms)"

fun is_grant_agent :: "msg \<Rightarrow> bool" where
  "is_grant_agent (Grant_agent _ _ _ _) = True"
| "is_grant_agent _ = False"

text \<open>What a message that carries the right to the lock says of notifications counted.\<close>

fun counted1 :: "msg \<Rightarrow> nat" where
  "counted1 (Free c old) = c"
| "counted1 (Transfer k rw q c old) = c"
| "counted1 (Grant_agent k rw tr q) = (if tr then 0 else 1)"
| "counted1 _ = 0"

definition counted :: "msg list \<Rightarrow> nat" where
  "counted ms = sum_list (map counted1 ms)"

definition shared_inv :: "proto \<Rightarrow> bool" where
  "shared_inv c \<longleftrightarrow>
     (let a = s_agent (p_sw c); n = p_node c a; D = p_down c a in
      settles D (n_holders n) \<and>
      (\<forall>k. active c k \<longrightarrow> k \<in> settle D (n_holders n)) \<and>
      (\<forall>k. p_task c k = Holding RW_SHARED \<and> key_host k = a \<longrightarrow> k \<in> n_holders n) \<and>
      (\<forall>k. p_task c k \<noteq> Holding RW_EXCL) \<and>
      s_cnt (p_sw c) = n_cnt n + notifs D + counted (p_up c a) + counted D \<and>
      (\<not> n_agent n \<and> n_cnt n = 0 \<longrightarrow> n_holders n = {}) \<and>
      (list_ex is_grant_agent D \<longrightarrow> n_cnt n = 0 \<and> \<not> list_ex is_news (takeWhile (\<lambda>m. \<not> is_grant_agent m) D)))"

definition writer_inv :: "proto \<Rightarrow> bool" where
  "writer_inv c \<longleftrightarrow>
     (let a = s_agent (p_sw c); n = p_node c a in
      (\<forall>k. \<not> active c k) \<and> \<not> list_ex is_news (p_down c a) \<and> n_cnt n = 0 \<and>
      (\<forall>k. p_task c k = Holding RW_EXCL \<longrightarrow> n_agent n \<and> n_holders n = {k} \<and> key_host k = a) \<and>
      (if n_agent n then \<exists>k. n_holders n = {k} \<and> p_task c k = Holding RW_EXCL else n_holders n = {}))"

definition free_inv :: "proto \<Rightarrow> bool" where
  "free_inv c \<longleftrightarrow> (\<forall>k. \<not> active c k \<and> p_task c k \<noteq> Holding RW_EXCL) \<and> s_cnt (p_sw c) = 0"

definition mode_inv :: "proto \<Rightarrow> bool" where
  "mode_inv c \<longleftrightarrow>
     (if s_free (p_sw c) then free_inv c else if s_rw (p_sw c) = RW_SHARED then shared_inv c else writer_inv c)"

definition proto_inv :: "proto \<Rightarrow> bool" where
  "proto_inv c \<longleftrightarrow> keys_inv c \<and> typed_inv c \<and> owner_inv c \<and> mode_inv c"


section \<open>Keys\<close>

lemma sum_fun_upd:
  fixes f :: "'b \<Rightarrow> 'c :: cancel_comm_monoid_add" and g :: "'a :: finite \<Rightarrow> 'b"
  shows "(\<Sum>x \<in> UNIV. f ((g(a := b)) x)) + f (g a) = (\<Sum>x \<in> UNIV. f (g x)) + f b"
proof -
  have "(\<Sum>x \<in> UNIV. f (h x)) = f (h a) + (\<Sum>x \<in> UNIV - {a}. f (h x))" for h :: "'a \<Rightarrow> 'b"
    by (rule sum.remove) simp_all
  moreover have "(\<Sum>x \<in> UNIV - {a}. f ((g(a := b)) x)) = (\<Sum>x \<in> UNIV - {a}. f (g x))"
    by (rule sum.cong) auto
  ultimately show ?thesis by (simp add: ac_simps)
qed

lemma link_keys_simps [simp]:
  "link_keys [] = {#}" "link_keys (m # ms) = msg_keys m + link_keys ms"
  "link_keys (xs @ ys) = link_keys xs + link_keys ys"
  by (simp_all add: link_keys_def)

abbreviation queue_keys :: "node \<Rightarrow> key multiset" where
  "queue_keys n \<equiv> mset (map fst (n_queue n))"

lemma all_keys_host:
  assumes "p_up c' = (p_up c)(h := U)" "p_down c' = (p_down c)(h := D)" "p_node c' = (p_node c)(h := n)"
  shows "all_keys c' + (link_keys (p_up c h) + link_keys (p_down c h) + queue_keys (p_node c h)) =
         all_keys c + (link_keys U + link_keys D + queue_keys n)"
proof -
  let ?S = "\<lambda>f. \<Sum>x \<in> UNIV. f x"
  have "all_keys c' + (link_keys (p_up c h) + link_keys (p_down c h) + queue_keys (p_node c h)) =
      (?S (\<lambda>x. link_keys (p_up c' x)) + link_keys (p_up c h)) + (?S (\<lambda>x. link_keys (p_down c' x)) + link_keys (p_down c h))
      + (?S (\<lambda>x. queue_keys (p_node c' x)) + queue_keys (p_node c h))"
    by (simp only: all_keys_def ac_simps)
  also have "\<dots> = (?S (\<lambda>x. link_keys (p_up c x)) + link_keys U) + (?S (\<lambda>x. link_keys (p_down c x)) + link_keys D)
      + (?S (\<lambda>x. queue_keys (p_node c x)) + queue_keys n)"
    unfolding assms sum_fun_upd [of link_keys] sum_fun_upd [of queue_keys] ..
  also have "\<dots> = all_keys c + (link_keys U + link_keys D + queue_keys n)" by (simp only: all_keys_def ac_simps)
  finally show ?thesis .
qed

lemma sum_send: "(\<Sum>h \<in> UNIV. link_keys (send out l h)) = (\<Sum>h \<in> UNIV. link_keys (l h)) + link_keys (map snd out)"
proof (induction out arbitrary: l)
  case Nil
  then show ?case by (simp add: send_def)
next
  case (Cons hm out)
  obtain h m where hm: "hm = (h, m)" by fastforce
  have "(\<Sum>x \<in> UNIV. link_keys ((l(h := l h @ [m])) x)) = (\<Sum>x \<in> UNIV. link_keys (l x)) + msg_keys m"
    using sum_fun_upd [of link_keys l h "l h @ [m]"] by (simp add: ac_simps)
  with Cons [of "l(h := l h @ [m])"] show ?case by (simp add: send_def hm ac_simps del: fun_upd_apply)
qed

lemma all_keys_switch:
  assumes "p_up c' = (p_up c)(h := ms)" "p_down c' = send out (p_down c)" "p_node c' = p_node c" "p_up c h = m # ms"
  shows "all_keys c' + msg_keys m = all_keys c + link_keys (map snd out)"
  using sum_fun_upd [of link_keys "p_up c" h ms]
  unfolding all_keys_def assms sum_send by (simp add: ac_simps)

lemma link_keys_le:
  "link_keys (p_up c h) \<subseteq># all_keys c" "link_keys (p_down c h) \<subseteq># all_keys c" "queue_keys (p_node c h) \<subseteq># all_keys c"
proof -
  have le: "f x \<subseteq># (\<Sum>x \<in> UNIV. f x)" for f :: "host_id \<Rightarrow> key multiset" and x
    by (simp add: sum.remove [of UNIV x])
  show "link_keys (p_up c h) \<subseteq># all_keys c" "link_keys (p_down c h) \<subseteq># all_keys c" "queue_keys (p_node c h) \<subseteq># all_keys c"
    using le [of "\<lambda>h. link_keys (p_up c h)" h] le [of "\<lambda>h. link_keys (p_down c h)" h] le [of "\<lambda>h. queue_keys (p_node c h)" h]
    unfolding all_keys_def by (metis subset_mset.add_increasing subset_mset.add_increasing2 subset_mset.zero_le)+
qed

lemma msg_keys_le: "m \<in> set ms \<Longrightarrow> msg_keys m \<subseteq># link_keys ms"
  by (induction ms) (auto intro: subset_mset.add_increasing)

lemma keys_inv_mono:
  assumes "keys_inv c"
    and "\<And>k. count (all_keys c') k + of_bool (is_holding (p_task c' k)) \<le> count (all_keys c) k + of_bool (is_holding (p_task c k))"
    and "\<And>k. p_task c' k = Idle \<Longrightarrow> p_task c k = Idle"
  shows "keys_inv c'"
  unfolding keys_inv_def
proof (intro allI conjI impI)
  fix k
  have "count (all_keys c) k + of_bool (is_holding (p_task c k)) \<le> 1"
    and 0: "p_task c k = Idle \<Longrightarrow> count (all_keys c) k = 0"
    using assms(1) unfolding keys_inv_def by blast+
  then show "count (all_keys c') k + of_bool (is_holding (p_task c' k)) \<le> 1" using assms(2) [of k] by linarith
  assume "p_task c' k = Idle"
  with assms(2) [of k] assms(3) [of k] 0 show "count (all_keys c') k = 0" by simp
qed

lemma send_eq: "send out l h = l h @ map snd (filter (\<lambda>x. fst x = h) out)"
proof (induction out arbitrary: l)
  case Nil
  then show ?case by (simp add: send_def)
next
  case (Cons x out)
  obtain h' m where "x = (h', m)" by fastforce
  moreover have "send ((h', m) # out) l = send out (l(h' := l h' @ [m]))" by (simp add: send_def)
  ultimately show ?case by (simp add: Cons)
qed

lemma set_send: "set (send out l h) = set (l h) \<union> {m. (h, m) \<in> set out}"
  by (force simp: send_eq)

lemma in_all_keys:
  "m \<in> set (p_up c h) \<Longrightarrow> k \<in># msg_keys m \<Longrightarrow> k \<in># all_keys c"
  "m \<in> set (p_down c h) \<Longrightarrow> k \<in># msg_keys m \<Longrightarrow> k \<in># all_keys c"
  "e \<in> set (n_queue (p_node c h)) \<Longrightarrow> fst e \<in># all_keys c"
  using link_keys_le [of c h] msg_keys_le [of m] by (auto dest!: mset_subset_eqD)

lemma not_mentioned:
  assumes "k \<notin># all_keys c"
  shows "Rel k \<notin> set (p_up c h)" "Rel k \<notin> set (p_down c h)" "Grant k \<notin> set (p_up c h)" "Grant k \<notin> set (p_down c h)"
  using assms in_all_keys(1,2) [of "Rel k" c h k] in_all_keys(1,2) [of "Grant k" c h k] by auto

lemma count_keys_le_1: "keys_inv c \<Longrightarrow> count (all_keys c) k \<le> 1"
  unfolding keys_inv_def by (meson add_leD1)

lemma not_in_keys:
  assumes "keys_inv c" "p_task c k = Idle \<or> is_holding (p_task c k)"
  shows "k \<notin># all_keys c"
proof -
  have "count (all_keys c) k + of_bool (is_holding (p_task c k)) \<le> 1" "p_task c k = Idle \<longrightarrow> count (all_keys c) k = 0"
    using assms(1) unfolding keys_inv_def by blast+
  with assms(2) show ?thesis by (auto simp: not_in_iff)
qed

subsection \<open>Messages keep their meaning\<close>

lemma ok_cong:
  assumes "\<And>k. k \<in># msg_keys m \<Longrightarrow> p_task c' k = p_task c k" "is_tok m \<Longrightarrow> s_rw (p_sw c') = s_rw (p_sw c)"
  shows "up_ok c' h m = up_ok c h m" "down_ok c' h m = down_ok c h m"
proof -
  have "list_all (waits c') q = list_all (waits c) q" if "\<forall>x \<in> set q. fst x \<in># msg_keys m" for q
    using that assms(1) by (auto simp: list_all_iff waits_def)
  moreover have "waits c' e = waits c e" if "fst e \<in># msg_keys m" for e
    using that assms(1) by (simp add: waits_def)
  ultimately show "up_ok c' h m = up_ok c h m" "down_ok c' h m = down_ok c h m"
    using assms by (cases m; simp; blast)+
qed

lemma typed_invD:
  assumes "typed_inv c"
  shows "m \<in> set (p_up c h) \<Longrightarrow> up_ok c h m" "m \<in> set (p_down c h) \<Longrightarrow> down_ok c h m"
    "e \<in> set (n_queue (p_node c h)) \<Longrightarrow> waits c e"
  using assms by (auto simp: typed_inv_def list_all_iff)

definition settled_task :: "proto \<Rightarrow> proto \<Rightarrow> bool" where
  "settled_task c c' \<longleftrightarrow> (\<forall>k. p_task c' k \<noteq> p_task c k \<longrightarrow> k \<notin># all_keys c \<or> k \<notin># all_keys c')"

lemma settled_waits:
  assumes "settled_task c c'" "waits c e" "fst e \<in># all_keys c" "fst e \<in># all_keys c'"
  shows "waits c' e"
  using assms by (metis settled_task_def waits_def)

lemma typed_host:
  assumes t: "typed_inv c" and s: "settled_task c c'" "p_sw c' = p_sw c"
    and u: "p_up c' = (p_up c)(h := p_up c h @ out)" "list_all (up_ok c' h) out"
    and d: "p_down c' = (p_down c)(h := ms)" "set ms \<subseteq> set (p_down c h)"
    and n: "p_node c' = (p_node c)(h := n)" "list_all (waits c') (n_queue n)"
  shows "typed_inv c'"
proof -
  have k: "p_task c' k = p_task c k" if "k \<in># all_keys c" "k \<in># all_keys c'" for k
    using that s(1) by (auto simp: settled_task_def)
  have "up_ok c' x m" if m: "m \<in> set (p_up c' x)" for x m
  proof (cases "m \<in> set (p_up c x)")
    case True
    then have "up_ok c' x m = up_ok c x m"
      using m by (intro ok_cong k) (auto simp: s(2) dest: in_all_keys)
    with True t show ?thesis by (simp add: typed_invD)
  next
    case False
    with m u show ?thesis by (auto simp: list_all_iff split: if_splits)
  qed
  moreover have "down_ok c' x m" if m: "m \<in> set (p_down c' x)" for x m
  proof -
    have m': "m \<in> set (p_down c x)" using m d by (auto split: if_splits)
    then have "down_ok c' x m = down_ok c x m"
      using m by (intro ok_cong k) (auto simp: s(2) dest: in_all_keys)
    with m' t show ?thesis by (simp add: typed_invD)
  qed
  moreover have "waits c' e" if e: "e \<in> set (n_queue (p_node c' x))" for x e
  proof (cases "x = h")
    case True
    with e n show ?thesis by (auto simp: list_all_iff)
  next
    case False
    with e n have "e \<in> set (n_queue (p_node c x))" by simp
    with e t show ?thesis by (intro settled_waits [OF s(1)]) (auto dest: in_all_keys typed_invD)
  qed
  ultimately show ?thesis by (simp add: typed_inv_def list_all_iff)
qed

lemma typed_switch:
  assumes t: "typed_inv c" and c': "p_task c' = p_task c" "p_node c' = p_node c"
    and u: "p_up c h = m # ms" "p_up c' = (p_up c)(h := ms)"
    and d: "p_down c' = send out (p_down c)" "\<And>x y. (x, y) \<in> set out \<Longrightarrow> down_ok c' x y"
    and r: "\<And>x y. y \<in> set (p_up c' x) \<or> y \<in> set (p_down c x) \<Longrightarrow> is_tok y \<Longrightarrow> s_rw (p_sw c') = s_rw (p_sw c)"
  shows "typed_inv c'"
proof -
  have "up_ok c' x y" if y: "y \<in> set (p_up c' x)" for x y
  proof -
    have "y \<in> set (p_up c x)" using y u by (auto split: if_splits)
    with t have "up_ok c x y" by (simp add: typed_invD)
    then show ?thesis using ok_cong(1) [of y c' c] r y c' by auto
  qed
  moreover have "down_ok c' x y" if y: "y \<in> set (p_down c' x)" for x y
  proof (cases "(x, y) \<in> set out")
    case False
    with y d have y': "y \<in> set (p_down c x)" by (simp add: set_send)
    with t have "down_ok c x y" by (simp add: typed_invD)
    then show ?thesis using ok_cong(2) [of y c' c] r y' c' by auto
  qed (use d in simp)
  moreover have "waits c' = waits c" using c' by (simp add: waits_def fun_eq_iff)
  ultimately show ?thesis using t c' by (simp add: typed_inv_def list_all_iff)
qed

subsection \<open>The owner of the lock\<close>

lemma toks_simps [simp]:
  "toks [] = 0" "toks (m # ms) = of_bool (is_tok m) + toks ms" "toks (xs @ ys) = toks xs + toks ys"
  by (simp_all add: toks_def)

lemma counted_simps [simp]:
  "counted [] = 0" "counted (m # ms) = counted1 m + counted ms" "counted (xs @ ys) = counted xs + counted ys"
  by (simp_all add: counted_def)

lemma notifs_simps [simp]:
  "notifs [] = 0" "notifs (m # ms) = of_bool (is_notif m) + notifs ms" "notifs (xs @ ys) = notifs xs + notifs ys"
  by (simp_all add: notifs_def)

lemma settle_simps [simp]:
  "settle [] H = H" "settle (m # ms) H = settle ms (settle1 m H)" "settle (xs @ ys) H = settle ys (settle xs H)"
  by (simp_all add: settle_def)

lemma settles_append [simp]: "settles (xs @ ys) H \<longleftrightarrow> settles xs H \<and> settles ys (settle xs H)"
  by (induction xs arbitrary: H) auto

lemma toks_0: "toks ms = 0 \<longleftrightarrow> (\<forall>m \<in> set ms. \<not> is_tok m)"
  by (simp add: toks_def filter_empty_conv)

lemma counted_0: "toks ms = 0 \<Longrightarrow> counted ms = 0"
proof (induction ms)
  case (Cons m ms)
  then show ?case by (cases m) auto
qed simp

lemma owner_bystander: "owner_inv c \<Longrightarrow> s_free (p_sw c) \<or> h \<noteq> s_agent (p_sw c) \<Longrightarrow> bystander c h"
  unfolding owner_inv_def by blast

lemma owner_here:
  assumes "owner_inv c" "\<not> bystander c h"
  shows "\<not> s_free (p_sw c)" "h = s_agent (p_sw c)"
  using owner_bystander [OF assms(1)] assms(2) by blast+

lemma owner_host:
  assumes o: "owner_inv c" and c': "p_sw c' = p_sw c" "p_node c' = (p_node c)(h := n)"
      "p_up c' = (p_up c)(h := U)" "p_down c' = (p_down c)(h := D)"
    and t: "of_bool (n_agent n) + toks U + toks D =
        (of_bool (n_agent (p_node c h)) + toks (p_up c h) + toks (p_down c h) :: nat)"
    and m: "n_agent n \<Longrightarrow> n_mode n = s_rw (p_sw c)"
    and b: "s_free (p_sw c) \<or> h \<noteq> s_agent (p_sw c) \<Longrightarrow> n_cnt n = 0 \<and> n_holders n = {} \<and> \<not> list_ex is_news D"
  shows "owner_inv c'"
proof -
  have "bystander c' x" if x: "s_free (p_sw c) \<or> x \<noteq> s_agent (p_sw c)" for x
  proof -
    have "bystander c x" by (rule owner_bystander [OF o x])
    with t b x c' show ?thesis by (cases "x = h") (auto simp: bystander_def)
  qed
  with o t m c' show ?thesis by (auto simp: owner_inv_def Let_def)
qed

text \<open>A host that keeps its role and its holders.\<close>

lemma owner_same:
  assumes o: "owner_inv c" and c': "p_sw c' = p_sw c" "p_node c' = (p_node c)(h := n)"
      "p_up c' = (p_up c)(h := U)" "p_down c' = (p_down c)(h := D)"
    and n: "n_agent n = n_agent (p_node c h)" "n_mode n = n_mode (p_node c h)" "n_cnt n = n_cnt (p_node c h)"
      "n_holders n = n_holders (p_node c h)" "toks U = toks (p_up c h)" "toks D = toks (p_down c h)"
      "list_ex is_news D \<Longrightarrow> list_ex is_news (p_down c h)"
  shows "owner_inv c'"
proof (rule owner_host [OF o c'])
  show "n_mode n = s_rw (p_sw c)" if "n_agent n"
    using that n owner_here [OF o, of h] o by (auto simp: bystander_def owner_inv_def Let_def)
  show "n_cnt n = 0 \<and> n_holders n = {} \<and> \<not> list_ex is_news D" if "s_free (p_sw c) \<or> h \<noteq> s_agent (p_sw c)"
    using owner_bystander [OF o that] n by (auto simp: bystander_def)
qed (use n in simp)

lemma owner_agent:
  assumes "owner_inv c" "n_agent (p_node c h)"
  shows "\<not> s_free (p_sw c)" "h = s_agent (p_sw c)" "n_mode (p_node c h) = s_rw (p_sw c)"
    "toks (p_up c h) = 0" "toks (p_down c h) = 0"
proof -
  show f: "\<not> s_free (p_sw c)" and h: "h = s_agent (p_sw c)"
    using owner_here [OF assms(1), of h] assms(2) by (auto simp: bystander_def)
  with assms show "n_mode (p_node c h) = s_rw (p_sw c)" "toks (p_up c h) = 0" "toks (p_down c h) = 0"
    by (auto simp: owner_inv_def Let_def)
qed

lemma owner_tok:
  assumes "owner_inv c" "0 < toks (p_up c h) + toks (p_down c h)"
  shows "\<not> s_free (p_sw c)" "h = s_agent (p_sw c)" "\<not> n_agent (p_node c h)" "toks (p_up c h) + toks (p_down c h) = 1"
proof -
  show f: "\<not> s_free (p_sw c)" and h: "h = s_agent (p_sw c)"
    using owner_here [OF assms(1), of h] assms(2) by (auto simp: bystander_def)
  then show "\<not> n_agent (p_node c h)" "toks (p_up c h) + toks (p_down c h) = 1"
    using assms by (auto simp: owner_inv_def Let_def)
qed

lemma owner_news:
  assumes "owner_inv c" "m \<in> set (p_down c h)" "is_news m"
  shows "\<not> s_free (p_sw c)" "h = s_agent (p_sw c)"
  using owner_here [OF assms(1), of h] assms(2,3) by (auto simp: bystander_def list_ex_iff)

subsection \<open>Holders on their way\<close>

lemma settle1_mono: "H \<subseteq> H' \<Longrightarrow> settle1 m H \<subseteq> settle1 m H'"
  by (cases m) auto

lemma settle_mono: "H \<subseteq> H' \<Longrightarrow> settle ms H \<subseteq> settle ms H'"
  by (induction ms arbitrary: H H') (simp_all add: settle1_mono)

lemma settles_mono: "settles ms H \<Longrightarrow> H \<subseteq> H' \<Longrightarrow> settles ms H'"
proof (induction ms arbitrary: H H')
  case (Cons m ms)
  have "settles1 m H'" using Cons.prems by (cases m) auto
  moreover have "settles ms (settle1 m H')"
    by (rule Cons.IH [OF _ settle1_mono [OF Cons.prems(2)]]) (use Cons.prems in simp)
  ultimately show ?case by simp
qed simp

text \<open>A holder that no message concerns can be left out.\<close>

lemma settle_remove:
  assumes "\<forall>m \<in> set ms. m \<noteq> Rel k \<and> m \<noteq> Grant k" "H \<subseteq> insert k H'" "settles ms H"
  shows "settles ms H' \<and> settle ms H \<subseteq> insert k (settle ms H')"
  using assms
proof (induction ms arbitrary: H H')
  case (Cons m ms)
  have "settle1 m H \<subseteq> insert k (settle1 m H')" "settles1 m H'"
    using Cons.prems by (cases m; auto)+
  with Cons.prems Cons.IH [of "settle1 m H" "settle1 m H'"] show ?case by auto
qed simp

lemma settle_keep:
  assumes "k \<in> H" "Rel k \<notin> set ms"
  shows "k \<in> settle ms H"
  using assms
proof (induction ms arbitrary: H)
  case (Cons m ms)
  then show ?case by (cases m) auto
qed simp

lemma settle_quiet:
  assumes "\<not> list_ex is_news ms" "toks ms = 0"
  shows "settle ms H = H"
  using assms
proof (induction ms arbitrary: H)
  case (Cons m ms)
  then show ?case by (cases m) auto
qed simp

lemma settles_quiet:
  assumes "\<And>k. Grant k \<notin> set ms" "\<not> list_ex is_news ms"
  shows "settles ms H"
  using assms
proof (induction ms arbitrary: H)
  case (Cons m ms)
  then show ?case by (cases m) auto
qed simp

section \<open>The steps of the applications\<close>

lemma keys_inv_new:
  assumes k: "keys_inv c" "p_task c k = Idle \<or> is_holding (p_task c k)"
    and c': "p_task c' = (p_task c)(k := st)" "st \<noteq> Idle"
    and le: "all_keys c' \<subseteq># all_keys c + (if is_holding st then {#} else {#k#})"
  shows "keys_inv c'" "settled_task c c'"
proof -
  have 0: "count (all_keys c) k = 0" using not_in_keys [OF k] by (simp add: not_in_iff)
  show "settled_task c c'" using not_in_keys [OF k] by (simp add: settled_task_def c')
  show "keys_inv c'"
    unfolding keys_inv_def
  proof (intro allI conjI impI)
    fix x
    have x: "count (all_keys c') x \<le> count (all_keys c) x + of_bool (x = k \<and> \<not> is_holding st)"
      using mset_subset_eq_count [OF le, of x] by (auto split: if_splits)
    have kx: "count (all_keys c) x + of_bool (is_holding (p_task c x)) \<le> 1" "p_task c x = Idle \<longrightarrow> count (all_keys c) x = 0"
      using k(1) unfolding keys_inv_def by blast+
    show "count (all_keys c') x + of_bool (is_holding (p_task c' x)) \<le> 1"
      using x kx 0 c' by (cases "x = k") auto
    assume "p_task c' x = Idle"
    then show "count (all_keys c') x = 0" using x kx c' by (cases "x = k") auto
  qed
qed

lemma all_keys_send_up:
  assumes "p_up c' = (p_up c)(h := p_up c h @ out)" "p_down c' = p_down c" "p_node c' = (p_node c)(h := n)"
  shows "all_keys c' + queue_keys (p_node c h) = all_keys c + (link_keys out + queue_keys n)"
  using all_keys_host [of c' c h "p_up c h @ out" "p_down c h" n] assms by (simp add: ac_simps)

lemma all_keys_cong:
  assumes "p_up c' = p_up c" "p_down c' = p_down c" "\<And>h. n_queue (p_node c' h) = n_queue (p_node c h)"
  shows "all_keys c' = all_keys c"
  using assms by (simp add: all_keys_def)

lemma typed_new:
  assumes "typed_inv c" "settled_task c c'" "p_sw c' = p_sw c"
    and "p_up c' = (p_up c)(h := p_up c h @ out)" "list_all (up_ok c' h) out"
    and "p_down c' = p_down c" "p_node c' = (p_node c)(h := n)" "list_all (waits c') (n_queue n)"
  shows "typed_inv c'"
  by (rule typed_host [where h = h and ms = "p_down c h"]) (use assms in simp_all)

lemma queue_waits:
  assumes "typed_inv c" "settled_task c c'" "set q \<subseteq> set (n_queue (p_node c h))" "\<forall>e \<in> set q. fst e \<in># all_keys c'"
  shows "list_all (waits c') q"
  using assms by (auto simp: list_all_iff dest: typed_invD in_all_keys intro: settled_waits)

lemma proto_invD:
  assumes "proto_inv c"
  shows "keys_inv c" "typed_inv c" "owner_inv c" "mode_inv c"
  using assms by (simp_all add: proto_inv_def)

lemma mode_inv_cases:
  assumes "mode_inv c"
  obtains "s_free (p_sw c)" "free_inv c" | "\<not> s_free (p_sw c)" "s_rw (p_sw c) = RW_SHARED" "shared_inv c"
  | "\<not> s_free (p_sw c)" "s_rw (p_sw c) = RW_EXCL" "writer_inv c"
  using assms by (cases "s_rw (p_sw c)") (auto simp: mode_inv_def split: if_splits)

lemma shared_invI:
  assumes "a = s_agent (p_sw c)" "settles (p_down c a) (n_holders (p_node c a))"
    and "\<And>k. active c k \<Longrightarrow> k \<in> settle (p_down c a) (n_holders (p_node c a))"
    and "\<And>k. p_task c k = Holding RW_SHARED \<Longrightarrow> key_host k = a \<Longrightarrow> k \<in> n_holders (p_node c a)"
    and "\<And>k. p_task c k \<noteq> Holding RW_EXCL"
    and "s_cnt (p_sw c) = n_cnt (p_node c a) + notifs (p_down c a) + counted (p_up c a) + counted (p_down c a)"
    and "\<not> n_agent (p_node c a) \<Longrightarrow> n_cnt (p_node c a) = 0 \<Longrightarrow> n_holders (p_node c a) = {}"
    and "list_ex is_grant_agent (p_down c a) \<Longrightarrow>
           n_cnt (p_node c a) = 0 \<and> \<not> list_ex is_news (takeWhile (\<lambda>m. \<not> is_grant_agent m) (p_down c a))"
  shows "shared_inv c"
  using assms by (simp add: shared_inv_def)

lemma shared_invD:
  assumes "shared_inv c" "a = s_agent (p_sw c)"
  shows "settles (p_down c a) (n_holders (p_node c a))"
    and "active c k \<Longrightarrow> k \<in> settle (p_down c a) (n_holders (p_node c a))"
    and "p_task c k = Holding RW_SHARED \<Longrightarrow> key_host k = a \<Longrightarrow> k \<in> n_holders (p_node c a)"
    and "p_task c k \<noteq> Holding RW_EXCL"
    and "s_cnt (p_sw c) = n_cnt (p_node c a) + notifs (p_down c a) + counted (p_up c a) + counted (p_down c a)"
    and "\<not> n_agent (p_node c a) \<Longrightarrow> n_cnt (p_node c a) = 0 \<Longrightarrow> n_holders (p_node c a) = {}"
    and "list_ex is_grant_agent (p_down c a) \<Longrightarrow>
           n_cnt (p_node c a) = 0 \<and> \<not> list_ex is_news (takeWhile (\<lambda>m. \<not> is_grant_agent m) (p_down c a))"
  using assms by (simp_all add: shared_inv_def Let_def)

lemma writer_invI:
  assumes "a = s_agent (p_sw c)" "\<And>k. \<not> active c k" "\<not> list_ex is_news (p_down c a)" "n_cnt (p_node c a) = 0"
    and "\<And>k. p_task c k = Holding RW_EXCL \<Longrightarrow> n_agent (p_node c a) \<and> n_holders (p_node c a) = {k} \<and> key_host k = a"
    and "n_agent (p_node c a) \<Longrightarrow> \<exists>k. n_holders (p_node c a) = {k} \<and> p_task c k = Holding RW_EXCL"
    and "\<not> n_agent (p_node c a) \<Longrightarrow> n_holders (p_node c a) = {}"
  shows "writer_inv c"
  using assms by (simp add: writer_inv_def)

lemma writer_invD:
  assumes "writer_inv c" "a = s_agent (p_sw c)"
  shows "\<not> active c k" "\<not> list_ex is_news (p_down c a)" "n_cnt (p_node c a) = 0"
    and "p_task c k = Holding RW_EXCL \<Longrightarrow> n_agent (p_node c a) \<and> n_holders (p_node c a) = {k} \<and> key_host k = a"
    and "n_agent (p_node c a) \<Longrightarrow> \<exists>k. n_holders (p_node c a) = {k} \<and> p_task c k = Holding RW_EXCL"
    and "\<not> n_agent (p_node c a) \<Longrightarrow> n_holders (p_node c a) = {}"
  using assms by (auto simp: writer_inv_def Let_def)

lemma inv_acquire_local:
  assumes inv: "proto_inv c" and t: "p_task c (Key h t) = Idle" and n: "n_agent (p_node c h)" "n_mode (p_node c h) = RW_SHARED"
    and c': "c' = c\<lparr>p_node := (p_node c)(h := (p_node c h)\<lparr>n_holders := insert (Key h t) (n_holders (p_node c h))\<rparr>),
                p_task := (p_task c)(Key h t := Holding RW_SHARED)\<rparr>"
  shows "proto_inv c'"
proof -
  note i = proto_invD [OF inv] and a = owner_agent [OF proto_invD(3) [OF inv] n(1)]
  let ?n = "(p_node c h)\<lparr>n_holders := insert (Key h t) (n_holders (p_node c h))\<rparr>"
  have k': "all_keys c' = all_keys c" by (rule all_keys_cong) (simp_all add: c')
  have k: "keys_inv c'" "settled_task c c'"
    using keys_inv_new [OF i(1), of "Key h t" c' "Holding RW_SHARED"] t k' by (simp_all add: c')
  have "typed_inv c'"
    by (rule typed_new [OF i(2) k(2), where h = h and out = "[]"], simp_all add: c' list_all_iff)
      (use typed_invD(3) [OF i(2)] t in \<open>fastforce simp: waits_def\<close>)
  moreover have "owner_inv c'"
    by (rule owner_host [OF i(3), where h = h and n = ?n and U = "p_up c h" and D = "p_down c h"])
      (use a n in \<open>simp_all add: c'\<close>)
  moreover have "mode_inv c'"
  proof -
    have s: "shared_inv c" using i(4) a n by (auto simp: mode_inv_def)
    let ?H = "n_holders (p_node c h)" and ?D = "p_down c h"
    have "settles ?D (insert (Key h t) ?H)" using s a(2) by (auto simp: shared_inv_def Let_def intro: settles_mono)
    moreover have "active c' x \<Longrightarrow> x = (Key h t) \<or> active c x" for x by (auto simp: active_def c' split: if_splits)
    moreover have "settle ?D ?H \<subseteq> settle ?D (insert (Key h t) ?H)" by (rule settle_mono) auto
    moreover have "(Key h t) \<in> settle ?D (insert (Key h t) ?H)"
      using not_in_keys [OF i(1), of "Key h t"] t by (intro settle_keep) (auto dest: not_mentioned)
    ultimately have "shared_inv c'" using s a n unfolding shared_inv_def Let_def by (auto simp: c')
    then show ?thesis using a n by (simp add: mode_inv_def c')
  qed
  ultimately show ?thesis using k by (simp add: proto_inv_def)
qed

text \<open>A request that does not change who holds the lock.\<close>

lemma mode_inv_request:
  assumes "mode_inv c" "p_sw c' = p_sw c" "p_down c' = p_down c" "\<And>h. counted (p_up c' h) = counted (p_up c h)"
    and "\<And>h. n_agent (p_node c' h) = n_agent (p_node c h) \<and> n_cnt (p_node c' h) = n_cnt (p_node c h) \<and>
           n_holders (p_node c' h) = n_holders (p_node c h)"
    and "\<And>k. active c' k = active c k" "\<And>k rw. p_task c' k = Holding rw \<longleftrightarrow> p_task c k = Holding rw"
  shows "mode_inv c'"
  using assms unfolding mode_inv_def free_inv_def shared_inv_def writer_inv_def Let_def by simp

lemma inv_acquire_queue:
  assumes inv: "proto_inv c" and t: "p_task c (Key h t) = Idle" and n: "n_agent (p_node c h)"
    and c': "c' = c\<lparr>p_node := (p_node c)(h := (p_node c h)\<lparr>n_queue := n_queue (p_node c h) @ [(Key h t, rw)]\<rparr>),
                p_task := (p_task c)(Key h t := Waiting rw)\<rparr>"
  shows "proto_inv c'"
proof -
  note i = proto_invD [OF inv]
  let ?n = "(p_node c h)\<lparr>n_queue := n_queue (p_node c h) @ [(Key h t, rw)]\<rparr>"
  have k': "all_keys c' = add_mset (Key h t) (all_keys c)"
    using all_keys_send_up [of c' c h "[]" ?n] by (simp add: c')
  have k: "keys_inv c'" "settled_task c c'"
    using keys_inv_new [OF i(1), of "Key h t" c' "Waiting rw"] t k' by (simp_all add: c')
  have "list_all (waits c') (n_queue (p_node c h))"
    by (rule queue_waits [OF i(2) k(2)]) (auto simp: k' dest: in_all_keys)
  then have "typed_inv c'"
    by (intro typed_new [OF i(2) k(2), where h = h and out = "[]" and n = ?n]) (simp_all add: c' waits_def)
  moreover have "owner_inv c'"
    by (rule owner_same [OF i(3), where h = h and n = ?n and U = "p_up c h" and D = "p_down c h"]) (simp_all add: c')
  moreover have "mode_inv c'"
    by (rule mode_inv_request [OF i(4)]) (use t in \<open>auto simp: c' active_def\<close>)
  ultimately show ?thesis using k by (simp add: proto_inv_def)
qed

lemma inv_acquire_send:
  assumes inv: "proto_inv c" and t: "p_task c (Key h t) = Idle"
    and c': "c' = c\<lparr>p_up := (p_up c)(h := p_up c h @ [Acq (Key h t) rw]), p_task := (p_task c)(Key h t := Waiting rw)\<rparr>"
  shows "proto_inv c'"
proof -
  note i = proto_invD [OF inv]
  have k': "all_keys c' = add_mset (Key h t) (all_keys c)"
    using all_keys_send_up [of c' c h "[Acq (Key h t) rw]" "p_node c h"] by (simp add: c')
  have k: "keys_inv c'" "settled_task c c'"
    using keys_inv_new [OF i(1), of "Key h t" c' "Waiting rw"] t k' by (simp_all add: c')
  have "list_all (waits c') (n_queue (p_node c h))"
    by (rule queue_waits [OF i(2) k(2)]) (auto simp: k' dest: in_all_keys)
  then have "typed_inv c'"
    by (intro typed_new [OF i(2) k(2), where h = h and out = "[Acq (Key h t) rw]" and n = "p_node c h"]) (simp_all add: c' waits_def)
  moreover have "owner_inv c'"
    by (rule owner_same [OF i(3), where h = h and n = "p_node c h" and U = "p_up c h @ [Acq (Key h t) rw]" and D = "p_down c h"]) (simp_all add: c')
  moreover have "mode_inv c'"
  proof (rule mode_inv_request [OF i(4)])
    have "p_task c' k = Holding rw \<longleftrightarrow> p_task c k = Holding rw" for k rw using t by (auto simp: c')
    moreover have "Grant k \<in> set (p_up c' x) \<longleftrightarrow> Grant k \<in> set (p_up c x)" "Rel k \<in> set (p_up c' x) \<longleftrightarrow> Rel k \<in> set (p_up c x)" for x k
      by (auto simp: c')
    ultimately show "active c' k = active c k" "p_task c' k = Holding rw \<longleftrightarrow> p_task c k = Holding rw" for k rw
      by (simp_all add: active_def) (simp add: c')
  qed (simp_all add: c')
  ultimately show ?thesis using k by (simp add: proto_inv_def)
qed

lemma remote_holder:
  assumes m: "mode_inv c" and t: "p_task c (Key h t) = Holding rw" and n: "\<not> n_agent (p_node c h)"
  shows "\<not> s_free (p_sw c)" "s_rw (p_sw c) = RW_SHARED" "shared_inv c" "rw = RW_SHARED"
proof -
  have rw: "rw = RW_SHARED \<Longrightarrow> active c (Key h t)" using t by (simp add: active_def)
  have "\<not> s_free (p_sw c) \<and> s_rw (p_sw c) = RW_SHARED \<and> shared_inv c \<and> rw = RW_SHARED"
    using m
  proof (cases rule: mode_inv_cases)
    case 1
    with t rw show ?thesis by (cases rw) (auto simp: free_inv_def)
  next
    case 2
    with t show ?thesis by (cases rw) (auto simp: shared_inv_def Let_def)
  next
    case 3
    with t rw n show ?thesis by (cases rw) (auto simp: writer_inv_def Let_def)
  qed
  then show "\<not> s_free (p_sw c)" "s_rw (p_sw c) = RW_SHARED" "shared_inv c" "rw = RW_SHARED" by simp_all
qed

lemma inv_release_send:
  assumes inv: "proto_inv c" and t: "p_task c (Key h t) = Holding rw" and n: "\<not> n_agent (p_node c h)"
    and c': "c' = c\<lparr>p_up := (p_up c)(h := p_up c h @ [Rel (Key h t)]), p_task := (p_task c)(Key h t := Over)\<rparr>"
  shows "proto_inv c'"
proof -
  note i = proto_invD [OF inv]
  have k': "all_keys c' = add_mset (Key h t) (all_keys c)"
    using all_keys_send_up [of c' c h "[Rel (Key h t)]" "p_node c h"] by (simp add: c')
  have k: "keys_inv c'" "settled_task c c'"
    using keys_inv_new [OF i(1), of "Key h t" c' Over] t k' by (simp_all add: c')
  have "list_all (waits c') (n_queue (p_node c h))"
    by (rule queue_waits [OF i(2) k(2)]) (auto simp: k' dest: in_all_keys)
  then have "typed_inv c'"
    by (intro typed_new [OF i(2) k(2), where h = h and out = "[Rel (Key h t)]" and n = "p_node c h"]) (simp_all add: c')
  moreover have "owner_inv c'"
    by (rule owner_same [OF i(3), where h = h and n = "p_node c h" and U = "p_up c h @ [Rel (Key h t)]" and D = "p_down c h"]) (simp_all add: c')
  moreover have "mode_inv c'"
  proof -
    note s = remote_holder [OF i(4) t n]
    have "active c' x \<Longrightarrow> active c x" for x using t s by (auto simp: active_def c' split: if_splits)
    with s have "shared_inv c'" unfolding shared_inv_def Let_def by (auto simp: c')
    then show ?thesis using s by (simp add: mode_inv_def c')
  qed
  ultimately show ?thesis using k by (simp add: proto_inv_def)
qed

lemma give_up_props:
  assumes "give_up n0 = (n, out)" "n_agent n0"
  shows "of_bool (n_agent n) + toks out = (1 :: nat)" "n_cnt n + counted out = n_cnt n0" "n_holders n = n_holders n0"
    "n_mode n = n_mode n0" "\<not> n_agent n \<Longrightarrow> n_cnt n = 0 \<and> n_holders n = {}" "n_holders n0 = {} \<Longrightarrow> \<not> n_agent n"
    "Grant k \<notin> set out" "Rel k \<notin> set out"
  using assms by (auto simp: give_up_def split: if_splits list.splits)

lemma give_up_keys: "give_up n0 = (n, out) \<Longrightarrow> link_keys out + queue_keys n = queue_keys n0"
  by (auto simp: give_up_def split: if_splits list.splits)

lemma give_up_ok:
  assumes "give_up n0 = (n, out)" "list_all (waits c) (n_queue n0)" "n_mode n0 = s_rw (p_sw c)"
  shows "list_all (up_ok c h) out" "list_all (waits c) (n_queue n)"
  using assms by (auto simp: give_up_def split: if_splits list.splits)

lemma no_grant_agent: "toks ms = 0 \<Longrightarrow> \<not> list_ex is_grant_agent ms"
proof (induction ms)
  case (Cons m ms)
  then show ?case by (cases m) auto
qed simp

lemma active_up:
  assumes "active c' x" "p_up c' = (p_up c)(h := U)" "p_down c' = (p_down c)(h := D)"
    and "\<And>m. m \<in> set U \<Longrightarrow> m = Grant x \<or> m = Rel x \<Longrightarrow> m \<in> set (p_up c h)" "Grant x \<in> set D \<Longrightarrow> Grant x \<in> set (p_down c h)"
    and "p_task c' x = Holding RW_SHARED \<Longrightarrow> p_task c x = Holding RW_SHARED"
  shows "active c x"
  using assms by (fastforce simp: active_def split: if_splits)

text \<open>The agent strikes a holder off that no message concerns, and gives the lock up if it was the last one.\<close>

lemma mode_drop_holder:
  assumes m: "mode_inv c" "owner_inv c" and n: "n_agent (p_node c h)" and t: "p_task c k = Holding rw"
    and k0: "k \<notin># all_keys c" and g: "give_up ((p_node c h)\<lparr>n_holders := n_holders (p_node c h) - {k}\<rparr>) = (n, out)"
    and sel: "p_sw c' = p_sw c" "p_node c' = (p_node c)(h := n)" "p_up c' = (p_up c)(h := p_up c h @ out)"
      "p_down c' = p_down c" "p_task c' = (p_task c)(k := Over)"
  shows "mode_inv c'"
proof -
  let ?H = "n_holders (p_node c h)" and ?D = "p_down c h"
  note a = owner_agent [OF m(2) n]
  note gp = give_up_props [OF g, simplified, OF n]
  have act: "active c x \<and> x \<noteq> k" if x: "active c' x" for x
  proof
    show "active c x"
      by (rule active_up [OF x, of _ h "p_up c h @ out" ?D]) (use gp(7,8) [of x] in \<open>auto simp: sel split: if_splits\<close>)
    show "x \<noteq> k" using x not_mentioned [OF k0] gp(7,8) by (auto simp: sel active_def split: if_splits)
  qed
  show ?thesis
  proof (cases "s_rw (p_sw c)")
    case RW_SHARED
    with m a have s: "shared_inv c" by (simp add: mode_inv_def)
    have r: "settles ?D (?H - {k}) \<and> settle ?D ?H \<subseteq> insert k (settle ?D (?H - {k}))"
      using shared_invD(1) [OF s a(2)] not_mentioned [OF k0] by (intro settle_remove) auto
    have "x \<in> settle ?D (?H - {k})" if "active c' x" for x
      using act [OF that] shared_invD(2) [OF s a(2)] r by auto
    then have "shared_inv c'"
      using shared_invD [OF s a(2)] a gp no_grant_agent [OF a(5)] r
      by (intro shared_invI [of h]) (auto simp: sel split: if_splits)
    with RW_SHARED a show ?thesis by (simp add: mode_inv_def sel)
  next
    case RW_EXCL
    with m a have w: "writer_inv c" by (simp add: mode_inv_def)
    have "rw = RW_EXCL" using writer_invD(1) [OF w a(2)] t by (cases rw) (auto simp: active_def)
    then have H: "?H = {k}" using writer_invD(4) [OF w a(2)] t by blast
    have u: "x = k" if "p_task c x = Holding RW_EXCL" for x using writer_invD(4) [OF w a(2) that] H by simp
    have "writer_inv c'"
      using writer_invD(1-3) [OF w a(2)] act a gp H u by (intro writer_invI [of h]) (auto simp: sel split: if_splits)
    with RW_EXCL a show ?thesis by (simp add: mode_inv_def sel)
  qed
qed

lemma inv_release_agent:
  assumes inv: "proto_inv c" and t: "p_task c (Key h t) = Holding rw" and n: "n_agent (p_node c h)"
    and g: "give_up ((p_node c h)\<lparr>n_holders := n_holders (p_node c h) - {Key h t}\<rparr>) = (n, out)"
    and c': "c' = c\<lparr>p_node := (p_node c)(h := n), p_up := (p_up c)(h := p_up c h @ out),
                p_task := (p_task c)(Key h t := Over)\<rparr>"
  shows "proto_inv c'"
proof -
  note i = proto_invD [OF inv] and a = owner_agent [OF proto_invD(3) [OF inv] n]
  let ?k = "Key h t"
  have sel: "p_sw c' = p_sw c" "p_node c' = (p_node c)(h := n)" "p_up c' = (p_up c)(h := p_up c h @ out)"
    "p_down c' = p_down c" "p_task c' = (p_task c)(?k := Over)"
    by (simp_all add: c')
  note gp = give_up_props [OF g, simplified, OF n]
  have k': "all_keys c' = all_keys c"
    using all_keys_send_up [of c' c h out n] give_up_keys [OF g] by (simp add: sel)
  have k: "keys_inv c'" "settled_task c c'"
    using keys_inv_new [OF i(1), of ?k c' Over] t k' by (simp_all add: sel)
  have k0: "?k \<notin># all_keys c" using not_in_keys [OF i(1), of ?k] t by simp
  have "list_all (waits c') (n_queue (p_node c h))"
    by (rule queue_waits [OF i(2) k(2)]) (auto simp: k' dest: in_all_keys)
  then have "list_all (up_ok c' h) out" "list_all (waits c') (n_queue n)"
    using give_up_ok(1) [OF g, of c' h] give_up_ok(2) [OF g, of c'] a by (simp_all add: sel)
  then have "typed_inv c'"
    by (intro typed_new [OF i(2) k(2), where h = h and out = out and n = n]) (simp_all add: sel)
  moreover have "owner_inv c'"
    by (rule owner_host [OF i(3), where h = h and n = n and U = "p_up c h @ out" and D = "p_down c h"])
      (use a n gp in \<open>simp_all add: sel\<close>)
  moreover have "mode_inv c'" by (rule mode_drop_holder [OF i(4,3) n t k0 g sel])
  ultimately show ?thesis using k by (simp add: proto_inv_def)
qed

section \<open>The steps of the switch\<close>

lemma decide_keys: "up_ok c h m \<Longrightarrow> decide h m s = (s', out) \<Longrightarrow> link_keys (map snd out) = msg_keys m"
  by (cases m) (auto split: if_splits)

lemma switch_keys:
  assumes "keys_inv c" "up_ok c h m" "p_up c h = m # ms" "decide h m (p_sw c) = (s, out)"
    and "p_up c' = (p_up c)(h := ms)" "p_down c' = send out (p_down c)" "p_node c' = p_node c" "p_task c' = p_task c"
  shows "keys_inv c'"
proof -
  have "all_keys c' = all_keys c"
    using all_keys_switch [OF assms(5-7,3)] decide_keys [OF assms(2,4)] by simp
  with assms(1,8) show ?thesis by (simp add: keys_inv_def)
qed

lemma at_most_once: "x + y = (z :: nat) \<Longrightarrow> 1 \<le> y \<Longrightarrow> z + of_bool b \<le> 1 \<Longrightarrow> x = 0 \<and> \<not> b"
  by (cases b) auto

lemma popped_up:
  assumes "keys_inv c" "p_up c h = m # ms" "k \<in># msg_keys m"
  shows "k \<notin># all_keys (c\<lparr>p_up := (p_up c)(h := ms)\<rparr>)" "\<not> is_holding (p_task c k)"
proof -
  have "all_keys (c\<lparr>p_up := (p_up c)(h := ms)\<rparr>) + msg_keys m = all_keys c"
    using all_keys_switch [of "c\<lparr>p_up := (p_up c)(h := ms)\<rparr>" c h ms "[]" m] assms(2) by (simp add: send_def)
  then have "count (all_keys (c\<lparr>p_up := (p_up c)(h := ms)\<rparr>)) k + count (msg_keys m) k = count (all_keys c) k"
    by (metis count_union)
  moreover have "1 \<le> count (msg_keys m) k" using assms(3) by (simp add: Suc_le_eq)
  moreover have "count (all_keys c) k + of_bool (is_holding (p_task c k)) \<le> 1"
    using assms(1) unfolding keys_inv_def by blast
  ultimately have "count (all_keys (c\<lparr>p_up := (p_up c)(h := ms)\<rparr>)) k = 0 \<and> \<not> is_holding (p_task c k)"
    by (rule at_most_once)
  then show "k \<notin># all_keys (c\<lparr>p_up := (p_up c)(h := ms)\<rparr>)" "\<not> is_holding (p_task c k)"
    by (simp_all add: not_in_iff)
qed

lemma active_switch:
  assumes "active c' x" "p_task c' = p_task c" "p_up c' = (p_up c)(h := ms)" "p_up c h = m # ms" "p_down c' = send out (p_down c)"
  shows "active c x \<or> (\<exists>y. (y, Grant x) \<in> set out)"
proof -
  have "set (p_up c' y) \<subseteq> set (p_up c y)" for y using assms(3,4) by auto
  then show ?thesis using assms(1) unfolding active_def assms(2,5) set_send by blast
qed

lemma toks_send: "toks (send out l x) = toks (l x) + toks (map snd (filter (\<lambda>y. fst y = x) out))"
  by (simp add: send_eq)

lemma owner_plain:
  assumes o: "owner_inv c" and s: "s_free (p_sw c') = s_free (p_sw c)" "s_agent (p_sw c') = s_agent (p_sw c)" "s_rw (p_sw c') = s_rw (p_sw c)"
    and c': "p_node c' = p_node c" "p_up c' = (p_up c)(h := ms)" "p_up c h = m # ms" "p_down c' = send out (p_down c)"
    and m: "\<not> is_tok m" "\<And>x y. (x, y) \<in> set out \<Longrightarrow> \<not> is_tok y \<and> (is_news y \<longrightarrow> \<not> s_free (p_sw c) \<and> x = s_agent (p_sw c))"
  shows "owner_inv c'"
proof -
  have "toks (map snd (filter (\<lambda>y. fst y = x) out)) = 0" for x using m(2) by (auto simp: toks_0)
  then have d: "toks (p_down c' x) = toks (p_down c x)" for x by (simp add: c' toks_send)
  have u: "toks (p_up c' x) = toks (p_up c x)" for x using c'(2,3) m(1) by simp
  have "bystander c' x" if x: "s_free (p_sw c) \<or> x \<noteq> s_agent (p_sw c)" for x
  proof -
    have b: "bystander c x" by (rule owner_bystander [OF o x])
    then have "\<not> list_ex is_news (p_down c' x)"
      using m(2) x by (auto simp: bystander_def c'(4) list_ex_iff set_send)
    with b show ?thesis by (simp add: bystander_def c'(1) u d)
  qed
  with o show ?thesis by (simp add: owner_inv_def s c'(1) u d)
qed

lemma send_one: "send [(x, y)] l = l(x := l x @ [y])"
  by (simp add: send_def)

lemma shared_by_active: "mode_inv c \<Longrightarrow> active c k \<Longrightarrow> \<not> s_free (p_sw c) \<and> s_rw (p_sw c) = RW_SHARED \<and> shared_inv c"
  by (cases rule: mode_inv_cases) (auto simp: free_inv_def writer_inv_def Let_def)

text \<open>What the switch does not touch.\<close>

lemma switch_frame:
  assumes inv: "proto_inv c" and u: "p_up c h = m # ms" and d: "decide h m (p_sw c) = (s, out)"
    and c': "c' = c\<lparr>p_sw := s, p_up := (p_up c)(h := ms), p_down := send out (p_down c)\<rparr>"
    and ok: "\<And>x y. (x, y) \<in> set out \<Longrightarrow> down_ok c' x y"
    and rw: "s_rw s = s_rw (p_sw c) \<or> (\<forall>x. toks (p_up c' x) = 0 \<and> toks (p_down c x) = 0)"
    and om: "owner_inv c'" "mode_inv c'"
  shows "proto_inv c'"
proof -
  note i = proto_invD [OF inv]
  have sel: "p_sw c' = s" "p_node c' = p_node c" "p_up c' = (p_up c)(h := ms)"
    "p_down c' = send out (p_down c)" "p_task c' = p_task c"
    by (simp_all add: c')
  have "up_ok c h m" using typed_invD(1) [OF i(2), of m h] u by simp
  then have "keys_inv c'" using switch_keys [OF i(1) _ u d] sel by simp
  moreover have "typed_inv c'"
    by (rule typed_switch [OF i(2) sel(5,2) u sel(3,4) ok]) (use rw sel in \<open>auto simp: toks_0\<close>)
  ultimately show ?thesis using om by (simp add: proto_inv_def)
qed

lemma take_grant_agent:
  "list_ex is_grant_agent ms \<Longrightarrow> takeWhile (\<lambda>m. \<not> is_grant_agent m) (ms @ xs) = takeWhile (\<lambda>m. \<not> is_grant_agent m) ms"
  by (auto simp: list_ex_iff)

lemma inv_switch_forward:
  assumes inv: "proto_inv c" and u: "p_up c h = Acq k rw # ms"
    and f: "\<not> s_free (p_sw c)" "\<not> (s_rw (p_sw c) = RW_SHARED \<and> rw = RW_SHARED)"
    and c': "c' = c\<lparr>p_sw := p_sw c, p_up := (p_up c)(h := ms), p_down := send [(s_agent (p_sw c), Acq k rw)] (p_down c)\<rparr>"
  shows "proto_inv c'"
proof (rule switch_frame [OF inv u _ c'])
  note i = proto_invD [OF inv]
  let ?a = "s_agent (p_sw c)" let ?out = "[(?a, Acq k rw)]"
  have sel: "p_sw c' = p_sw c" "p_node c' = p_node c" "p_up c' = (p_up c)(h := ms)"
    "p_down c' = send ?out (p_down c)" "p_task c' = p_task c"
    by (simp_all add: c')
  have ok: "up_ok c h (Acq k rw)" using typed_invD(1) [OF i(2), of "Acq k rw" h] u by simp
  then show "down_ok c' x y" if "(x, y) \<in> set ?out" for x y using that by (auto simp: sel waits_def)
  show "owner_inv c'"
    by (rule owner_plain [OF i(3), where h = h and out = ?out]) (use u in \<open>auto simp: sel\<close>)
  show "mode_inv c'"
  proof -
    have act: "active c' x \<Longrightarrow> active c x" for x using active_switch [OF _ sel(5,3) u sel(4)] by auto
    have cu: "counted (p_up c' ?a) = counted (p_up c ?a)" using u by (simp add: sel)
    show ?thesis
      using i(4)
    proof (cases rule: mode_inv_cases)
      case 2
      then have "shared_inv c'"
        using shared_invD [OF 2(3) refl] act cu
        by (intro shared_invI [of ?a]) (auto simp: sel(1,2,4,5) send_one take_grant_agent)
      with 2 show ?thesis by (simp add: mode_inv_def sel)
    next
      case 3
      then have "writer_inv c'"
        using writer_invD [OF 3(3) refl] act by (intro writer_invI [of ?a]) (auto simp: sel(1,2,4,5) send_one)
      with 3 show ?thesis by (simp add: mode_inv_def sel)
    qed (use f in simp)
  qed
qed (use f in auto)

lemma inv_switch_grant:
  assumes inv: "proto_inv c" and u: "p_up c h = Grant k # ms"
    and c': "c' = c\<lparr>p_sw := p_sw c, p_up := (p_up c)(h := ms), p_down := send [(key_host k, Grant k)] (p_down c)\<rparr>"
  shows "proto_inv c'"
proof (rule switch_frame [OF inv u _ c'])
  note i = proto_invD [OF inv]
  let ?a = "s_agent (p_sw c)" let ?out = "[(key_host k, Grant k)]"
  have sel: "p_sw c' = p_sw c" "p_node c' = p_node c" "p_up c' = (p_up c)(h := ms)"
    "p_down c' = send ?out (p_down c)" "p_task c' = p_task c"
    by (simp_all add: c')
  have ok: "up_ok c h (Grant k)" using typed_invD(1) [OF i(2), of "Grant k" h] u by simp
  then show "down_ok c' x y" if "(x, y) \<in> set ?out" for x y using that by (auto simp: sel waits_def)
  show "owner_inv c'"
    by (rule owner_plain [OF i(3), where h = h and out = ?out]) (use u in \<open>auto simp: sel\<close>)
  have k: "active c k" using u unfolding active_def by (metis list.set_intros(1))
  note s = shared_by_active [OF i(4) k]
  have act: "active c' x \<Longrightarrow> active c x" for x using active_switch [OF _ sel(5,3) u sel(4)] k by auto
  have cu: "counted (p_up c' ?a) = counted (p_up c ?a)" using u by (simp add: sel)
  have "shared_inv c'"
    using shared_invD [OF conjunct2 [OF conjunct2 [OF s]] refl] act cu k
    by (intro shared_invI [of ?a]) (auto simp: sel(1,2,4,5) send_one take_grant_agent)
  with s show "mode_inv c'" by (simp add: mode_inv_def sel)
qed auto

lemma inv_switch_release:
  assumes inv: "proto_inv c" and u: "p_up c h = Rel k # ms"
    and c': "c' = c\<lparr>p_sw := p_sw c, p_up := (p_up c)(h := ms), p_down := send [(s_agent (p_sw c), Rel k)] (p_down c)\<rparr>"
  shows "proto_inv c'"
proof (rule switch_frame [OF inv u _ c'])
  note i = proto_invD [OF inv]
  let ?a = "s_agent (p_sw c)" let ?out = "[(?a, Rel k)]"
  have sel: "p_sw c' = p_sw c" "p_node c' = p_node c" "p_up c' = (p_up c)(h := ms)"
    "p_down c' = send ?out (p_down c)" "p_task c' = p_task c"
    by (simp_all add: c')
  have ok: "up_ok c h (Rel k)" using typed_invD(1) [OF i(2), of "Rel k" h] u by simp
  then show "down_ok c' x y" if "(x, y) \<in> set ?out" for x y using that by (auto simp: sel)
  have k: "active c k" using u unfolding active_def by (metis list.set_intros(1))
  note s = shared_by_active [OF i(4) k]
  show "owner_inv c'"
    by (rule owner_plain [OF i(3), where h = h and out = ?out]) (use u s in \<open>auto simp: sel\<close>)
  let ?c0 = "c\<lparr>p_up := (p_up c)(h := ms)\<rparr>"
  have k0: "k \<notin># all_keys ?c0" "\<not> is_holding (p_task c k)" using popped_up [OF i(1) u, of k] by simp_all
  have "\<not> active c' k"
    using not_mentioned [OF k0(1)] k0(2) by (auto simp: active_def sel set_send)
  then have act: "active c' x \<Longrightarrow> active c x \<and> x \<noteq> k" for x using active_switch [OF _ sel(5,3) u sel(4)] by auto
  have cu: "counted (p_up c' ?a) = counted (p_up c ?a)" using u by (simp add: sel)
  have "shared_inv c'"
    using shared_invD [OF conjunct2 [OF conjunct2 [OF s]] refl] act cu k
    by (intro shared_invI [of ?a]) (auto simp: sel(1,2,4,5) send_one take_grant_agent)
  with s show "mode_inv c'" by (simp add: mode_inv_def sel)
qed auto

lemma inv_switch_share:
  assumes inv: "proto_inv c" and u: "p_up c h = Acq k RW_SHARED # ms"
    and f: "\<not> s_free (p_sw c)" "s_rw (p_sw c) = RW_SHARED"
    and c': "c' = c\<lparr>p_sw := (p_sw c)\<lparr>s_cnt := s_cnt (p_sw c) + 1\<rparr>, p_up := (p_up c)(h := ms),
               p_down := send [(s_agent (p_sw c), Notif k), (key_host k, Grant k)] (p_down c)\<rparr>"
  shows "proto_inv c'"
proof (rule switch_frame [OF inv u _ c'])
  note i = proto_invD [OF inv]
  let ?a = "s_agent (p_sw c)" let ?out = "[(?a, Notif k), (key_host k, Grant k)]"
  have sel: "p_sw c' = (p_sw c)\<lparr>s_cnt := s_cnt (p_sw c) + 1\<rparr>" "p_node c' = p_node c" "p_up c' = (p_up c)(h := ms)"
    "p_down c' = send ?out (p_down c)" "p_task c' = p_task c"
    by (simp_all add: c')
  have ok: "up_ok c h (Acq k RW_SHARED)" using typed_invD(1) [OF i(2), of "Acq k RW_SHARED" h] u by simp
  then show "down_ok c' x y" if "(x, y) \<in> set ?out" for x y using that by (auto simp: sel waits_def)
  show "owner_inv c'"
    by (rule owner_plain [OF i(3), where h = h and out = ?out]) (use u f in \<open>auto simp: sel\<close>)
  have s: "shared_inv c" using i(4) f by (simp add: mode_inv_def)
  have act: "x \<in> insert k (settle (p_down c ?a) (n_holders (p_node c ?a)))" if "active c' x" for x
    using active_switch [OF that sel(5,3) u sel(4)] shared_invD(2) [OF s refl] by auto
  have cu: "counted (p_up c' ?a) = counted (p_up c ?a)" using u by (simp add: sel)
  have "shared_inv c'"
    using shared_invD [OF s refl] act cu
    by (intro shared_invI [of ?a]) (auto simp: sel(1,2,4,5) send_eq take_grant_agent)
  with f show "mode_inv c'" by (simp add: mode_inv_def sel)
qed (use f in auto)

lemma inv_switch_reject:
  assumes inv: "proto_inv c" and u: "p_up c h = m # ms" and m: "is_tok m" "\<not> is_grant_agent m"
    and d: "decide h m (p_sw c) = (p_sw c, [(h, m)])" and rw: "s_rw (p_sw c) = RW_SHARED" and ok: "down_ok c h m"
    and c': "c' = c\<lparr>p_sw := p_sw c, p_up := (p_up c)(h := ms), p_down := send [(h, m)] (p_down c)\<rparr>"
  shows "proto_inv c'"
proof (rule switch_frame [OF inv u d c'])
  note i = proto_invD [OF inv]
  have sel: "p_sw c' = p_sw c" "p_node c' = p_node c" "p_up c' = (p_up c)(h := ms)"
    "p_down c' = (p_down c)(h := p_down c h @ [m])" "p_task c' = p_task c"
    by (simp_all add: c' send_one)
  have n: "\<not> is_news m" "\<not> is_notif m" "settles1 m H" "settle1 m H = H" "m \<noteq> Grant k" for H k
    using m by (cases m; simp)+
  have o: "\<not> s_free (p_sw c)" "h = s_agent (p_sw c)" "\<not> n_agent (p_node c h)" "toks (p_down c h) = 0"
    using owner_tok [OF i(3), of h] u m by auto
  show "down_ok c' x y" if "(x, y) \<in> set [(h, m)]" for x y
    using that ok ok_cong(2) [of y c' c x] by (auto simp: sel)
  show "owner_inv c'"
    by (rule owner_host [OF i(3) sel(1), where h = h and n = "p_node c h" and U = ms and D = "p_down c h @ [m]"])
      (use o u m in \<open>auto simp: sel\<close>)
  have s: "shared_inv c" using i(4) o rw by (simp add: mode_inv_def)
  have act: "active c' x \<Longrightarrow> active c x" for x
    by (erule active_up [OF _ sel(3,4)]) (use u n in \<open>auto simp: sel\<close>)
  have "shared_inv c'"
    using shared_invD [OF s o(2)] act n m u o no_grant_agent [OF o(4)]
    by (intro shared_invI [of h]) (auto simp: sel)
  with o rw show "mode_inv c'" by (simp add: mode_inv_def sel)
qed (use rw in auto)

text \<open>
  A switch that accepts that the lock is given up finds the whole cluster at rest: the counts
  agree, so the former agent has heard of every reader, and all of them are gone.
\<close>

definition at_rest :: "proto \<Rightarrow> bool" where
  "at_rest c \<longleftrightarrow> (\<forall>x. bystander c x) \<and> (\<forall>k. \<not> active c k \<and> p_task c k \<noteq> Holding RW_EXCL)"

lemma settle_empty:
  assumes "notifs ms = 0" "toks ms = 0" "settles ms {}"
  shows "settle ms {} = {} \<and> \<not> list_ex is_news ms"
  using assms
proof (induction ms)
  case (Cons m ms)
  then show ?case by (cases m) auto
qed simp

lemma accepted_at_rest:
  assumes inv: "proto_inv c" and u: "p_up c h = m # ms" and m: "is_tok m" "\<not> is_grant_agent m"
    and cnt: "s_rw (p_sw c) = RW_SHARED \<Longrightarrow> s_cnt (p_sw c) = counted1 m"
  shows "at_rest (c\<lparr>p_up := (p_up c)(h := ms)\<rparr>)"
proof -
  note i = proto_invD [OF inv]
  let ?D = "p_down c h" and ?n = "p_node c h"
  have o: "\<not> s_free (p_sw c)" "h = s_agent (p_sw c)" "\<not> n_agent ?n" "toks ?D = 0" "toks ms = 0"
    using owner_tok [OF i(3), of h] u m by auto
  have "n_cnt ?n = 0 \<and> n_holders ?n = {} \<and> \<not> list_ex is_news ?D \<and> (\<forall>k. \<not> active c k \<and> p_task c k \<noteq> Holding RW_EXCL)"
  proof (cases "s_rw (p_sw c)")
    case RW_SHARED
    with o i(4) have "shared_inv c" by (simp add: mode_inv_def)
    note s = shared_invD [OF this o(2)]
    have z: "n_cnt ?n = 0" "notifs ?D = 0" using s(5) cnt [OF RW_SHARED] u by auto
    then have "n_holders ?n = {}" using s(6) o by simp
    with s(1) have "settle ?D {} = {} \<and> \<not> list_ex is_news ?D" using settle_empty [OF z(2) o(4)] by simp
    with z s(2,4) \<open>n_holders ?n = {}\<close> show ?thesis by auto
  next
    case RW_EXCL
    with o i(4) have "writer_inv c" by (simp add: mode_inv_def)
    note w = writer_invD [OF this o(2)]
    show ?thesis using w o by blast
  qed
  moreover have "bystander c x" if "x \<noteq> h" for x using owner_bystander [OF i(3), of x] that o by simp
  moreover have "active c k" if "active (c\<lparr>p_up := (p_up c)(h := ms)\<rparr>) k" for k
    by (rule active_up [OF that, of _ h ms "p_down c h"]) (use u in auto)
  ultimately show ?thesis using o u m by (auto simp: at_rest_def bystander_def)
qed

lemma notifs_0: "\<not> list_ex is_news ms \<Longrightarrow> notifs ms = 0"
proof (induction ms)
  case (Cons m ms)
  then show ?case by (cases m) auto
qed simp

text \<open>A cluster at rest gets a new agent.\<close>

lemma hand_over:
  assumes r: "at_rest c" and a: "a = key_host k"
    and s: "\<not> s_free (p_sw c')" "s_rw (p_sw c') = rw" "s_agent (p_sw c') = a"
      "rw = RW_SHARED \<Longrightarrow> s_cnt (p_sw c') = (if tr then 0 else 1)"
    and c': "p_node c' = p_node c" "p_up c' = p_up c" "p_down c' = send [(a, Grant_agent k rw tr q)] (p_down c)"
      "p_task c' = p_task c"
  shows "owner_inv c'" "mode_inv c'"
proof -
  have b: "bystander c x" and act: "\<not> active c y" "p_task c y \<noteq> Holding RW_EXCL" for x y
    using r by (simp_all add: at_rest_def)
  let ?D = "p_down c a"
  have D: "p_down c' a = ?D @ [Grant_agent k rw tr q]" by (simp add: c' send_one)
  note q = b [of a, unfolded bystander_def]
  have "bystander c' x" if "x \<noteq> a" for x using b [of x] that by (simp add: bystander_def c' send_one)
  then show "owner_inv c'" using q s D by (auto simp: owner_inv_def Let_def c'(1,2))
  have act': "\<not> active c' x" for x using act(1) [of x] by (auto simp: active_def c' set_send)
  show "mode_inv c'"
  proof (cases rw)
    case RW_SHARED
    have "Grant x \<notin> set ?D" for x using act(1) [of x] by (auto simp: active_def)
    then have "settles ?D {}" "settle ?D {} = {}" using q settles_quiet [of ?D] settle_quiet [of ?D] by simp_all
    then have "shared_inv c'"
      using act act' s q RW_SHARED D notifs_0 [of ?D] counted_0 [of ?D] counted_0 [of "p_up c a"]
      by (intro shared_invI [of a]) (auto simp: c'(1,2,4) list_ex_iff active_def dest!: set_takeWhileD)
    with RW_SHARED s show ?thesis by (simp add: mode_inv_def)
  next
    case RW_EXCL
    have "writer_inv c'" using act act' s q D by (intro writer_invI [of a]) (auto simp: c'(1,2,4))
    with RW_EXCL s show ?thesis by (simp add: mode_inv_def)
  qed
qed

lemma inv_switch_new_agent:
  assumes inv: "proto_inv c" and u: "p_up c h = Acq k rw # ms" and f: "s_free (p_sw c)"
    and s: "s = (p_sw c)\<lparr>s_free := False, s_rw := rw, s_agent := key_host k, s_cnt := (if rw = RW_SHARED then 1 else 0)\<rparr>"
    and c': "c' = c\<lparr>p_sw := s, p_up := (p_up c)(h := ms), p_down := send [(key_host k, Grant_agent k rw False [])] (p_down c)\<rparr>"
  shows "proto_inv c'"
proof (rule switch_frame [OF inv u _ c'])
  note i = proto_invD [OF inv]
  let ?c = "c\<lparr>p_up := (p_up c)(h := ms)\<rparr>"
  have b: "bystander c x" for x using owner_bystander [OF i(3)] f by simp
  have "active c x" if "active ?c x" for x
    by (rule active_up [OF that, of _ h ms "p_down c h"]) (use u in auto)
  moreover have "toks ms = 0" using b [of h] u by (simp add: bystander_def)
  ultimately have r: "at_rest ?c"
    using i(4) f b u by (auto simp: at_rest_def mode_inv_def free_inv_def bystander_def)
  show "owner_inv c'" "mode_inv c'"
    by (rule hand_over [OF r refl, where k = k and rw = rw and tr = False and q = "[]"]; simp add: c' s)+
  show "s_rw s = s_rw (p_sw c) \<or> (\<forall>x. toks (p_up c' x) = 0 \<and> toks (p_down c x) = 0)"
    using r by (auto simp: at_rest_def bystander_def c')
  show "down_ok c' x y" if "(x, y) \<in> set [(key_host k, Grant_agent k rw False [])]" for x y
    using that typed_invD(1) [OF i(2), of "Acq k rw" h] u by (auto simp: c' s waits_def)
qed (use f s in auto)

lemma inv_switch_free:
  assumes inv: "proto_inv c" and u: "p_up c h = Free n old # ms" and f: "\<not> (old = RW_SHARED \<and> s_cnt (p_sw c) \<noteq> n)"
    and s: "s = (p_sw c)\<lparr>s_free := True, s_rw := RW_SHARED, s_agent := 0, s_cnt := 0\<rparr>"
    and c': "c' = c\<lparr>p_sw := s, p_up := (p_up c)(h := ms), p_down := send [] (p_down c)\<rparr>"
  shows "proto_inv c'"
proof (rule switch_frame [OF inv u _ c'])
  note i = proto_invD [OF inv]
  let ?c = "c\<lparr>p_up := (p_up c)(h := ms)\<rparr>"
  have old: "old = s_rw (p_sw c)" using typed_invD(1) [OF i(2), of "Free n old" h] u by simp
  have r: "at_rest ?c" by (rule accepted_at_rest [OF inv u]) (use f old in auto)
  have "bystander c' x \<longleftrightarrow> bystander ?c x" "active c' k \<longleftrightarrow> active ?c k" for x k
    by (simp_all add: bystander_def active_def c' send_def)
  with r show "owner_inv c'" "mode_inv c'"
    by (simp_all add: at_rest_def owner_inv_def mode_inv_def free_inv_def c' s)
  show "s_rw s = s_rw (p_sw c) \<or> (\<forall>x. toks (p_up c' x) = 0 \<and> toks (p_down c x) = 0)"
    using r by (auto simp: at_rest_def bystander_def c')
qed (use f s in auto)

lemma inv_switch_transfer:
  assumes inv: "proto_inv c" and u: "p_up c h = Transfer k rw q n old # ms" and f: "\<not> (old = RW_SHARED \<and> s_cnt (p_sw c) \<noteq> n)"
    and s: "s = (p_sw c)\<lparr>s_rw := rw, s_agent := key_host k, s_cnt := 0\<rparr>"
    and c': "c' = c\<lparr>p_sw := s, p_up := (p_up c)(h := ms), p_down := send [(key_host k, Grant_agent k rw True q)] (p_down c)\<rparr>"
  shows "proto_inv c'"
proof (rule switch_frame [OF inv u _ c'])
  note i = proto_invD [OF inv]
  let ?c = "c\<lparr>p_up := (p_up c)(h := ms)\<rparr>"
  have ok: "up_ok c h (Transfer k rw q n old)" using typed_invD(1) [OF i(2), of "Transfer k rw q n old" h] u by simp
  have r: "at_rest ?c" by (rule accepted_at_rest [OF inv u]) (use f ok in auto)
  have fr: "\<not> s_free (p_sw c)" using owner_tok(1) [OF i(3), of h] u by simp
  show "owner_inv c'" "mode_inv c'"
    by (rule hand_over [OF r refl, where k = k and rw = rw and tr = True and q = q]; simp add: c' s fr)+
  show "s_rw s = s_rw (p_sw c) \<or> (\<forall>x. toks (p_up c' x) = 0 \<and> toks (p_down c x) = 0)"
    using r by (auto simp: at_rest_def bystander_def c')
  have "waits c' = waits c" by (simp add: waits_def fun_eq_iff c')
  then show "down_ok c' x y" if "(x, y) \<in> set [(key_host k, Grant_agent k rw True q)]" for x y
    using that ok by (auto simp: c' s)
qed (use f s in auto)

lemma inv_switch:
  assumes inv: "proto_inv c" and u: "p_up c h = m # ms" and d: "decide h m (p_sw c) = (s, out)"
    and c': "c' = c\<lparr>p_sw := s, p_up := (p_up c)(h := ms), p_down := send out (p_down c)\<rparr>"
  shows "proto_inv c'"
proof -
  have ok: "up_ok c h m" using typed_invD(1) [OF proto_invD(2) [OF inv], of m h] u by simp
  show ?thesis
  proof (cases m)
    case (Acq k rw)
    note u = u [unfolded Acq] and d = d [unfolded Acq]
    consider "s_free (p_sw c)" | "\<not> s_free (p_sw c)" "s_rw (p_sw c) = RW_SHARED" "rw = RW_SHARED"
      | "\<not> s_free (p_sw c)" "\<not> (s_rw (p_sw c) = RW_SHARED \<and> rw = RW_SHARED)" by blast
    then show ?thesis
      by cases (use d c' u inv_switch_new_agent [OF inv u] inv_switch_share [OF inv, of h k ms c']
          inv_switch_forward [OF inv u, of c'] in auto)
  next
    case (Rel k)
    with d have "s = p_sw c" "out = [(s_agent (p_sw c), Rel k)]" by auto
    with inv_switch_release [OF inv, of h k ms c'] u c' Rel show ?thesis by simp
  next
    case (Grant k)
    with d have "s = p_sw c" "out = [(key_host k, Grant k)]" by auto
    with inv_switch_grant [OF inv, of h k ms c'] u c' Grant show ?thesis by simp
  next
    case (Free n old)
    show ?thesis
    proof (cases "old = RW_SHARED \<and> s_cnt (p_sw c) \<noteq> n")
      case True
      with Free d have "s = p_sw c" "out = [(h, m)]" by auto
      with inv_switch_reject [OF inv u, of c'] True Free d c' ok show ?thesis by simp
    next
      case False
      with inv_switch_free [OF inv u [unfolded Free] False] Free d c' show ?thesis by (auto split: if_splits)
    qed
  next
    case (Transfer k rw q n old)
    show ?thesis
    proof (cases "old = RW_SHARED \<and> s_cnt (p_sw c) \<noteq> n")
      case True
      with Transfer d have "s = p_sw c" "out = [(h, m)]" by auto
      with inv_switch_reject [OF inv u, of c'] True Transfer d c' ok show ?thesis by simp
    next
      case False
      with inv_switch_transfer [OF inv u [unfolded Transfer] False] Transfer d c' show ?thesis by (auto split: if_splits)
    qed
  qed (use ok in simp_all)
qed

section \<open>The steps of the hosts\<close>

text \<open>The task that a message is about when it arrives.\<close>

fun told_key :: "msg \<Rightarrow> key multiset" where
  "told_key (Grant k) = {#k#}"
| "told_key (Grant_agent k _ _ _) = {#k#}"
| "told_key (Rel k) = {#k#}"
| "told_key m = {#}"

lemma readers_writers: "mset (readers q) + mset (map fst (writers q)) = mset (map fst q)"
  by (induction q) (auto simp: readers_def writers_def)

lemma link_keys_grants [simp]: "link_keys (map Grant ks) = mset ks"
  by (induction ks) auto

lemma receive_keys:
  assumes "receive keep m n0 = (n, out)" "down_ok c h m"
  shows "link_keys out + queue_keys n + told_key m = msg_keys m + queue_keys n0"
proof (cases m)
  case (Grant_agent k rw tr q)
  have "link_keys out + queue_keys n + {#k#} = add_mset k (mset (map fst q)) + queue_keys n0"
    using assms Grant_agent readers_writers [of q]
    by (auto simp: Let_def ac_simps split: if_splits)
  with Grant_agent show ?thesis by simp
next
  case (Rel k)
  show ?thesis
  proof (cases "n_agent n0")
    case True
    with assms Rel give_up_keys [of "n0\<lparr>n_holders := n_holders n0 - {k}\<rparr>" n out] show ?thesis by simp
  qed (use assms Rel in auto)
qed (use assms in \<open>auto split: if_splits\<close>)

lemma queue_ok:
  assumes "list_all (waits c) q"
  shows "list_all (up_ok c h) (map Grant (readers q))" "list_all (waits c) (writers q)"
  using assms by (auto simp: list_all_iff readers_def writers_def waits_def)

lemma receive_ok:
  assumes r: "receive keep m n0 = (n, out)" and m: "down_ok c h m" "list_all (waits c) (n_queue n0)"
    and a: "n_agent n0 \<Longrightarrow> n_mode n0 = s_rw (p_sw c)"
  shows "list_all (up_ok c h) out \<and> list_all (waits c) (n_queue n)"
proof (cases m)
  case (Rel k)
  show ?thesis
  proof (cases "n_agent n0")
    case True
    then show ?thesis
      using give_up_ok(1) [of "n0\<lparr>n_holders := n_holders n0 - {k}\<rparr>" n out c h]
        give_up_ok(2) [of "n0\<lparr>n_holders := n_holders n0 - {k}\<rparr>" n out c] r m a Rel by simp
  qed (use r m Rel in auto)
qed (use r m queue_ok in \<open>auto simp: Let_def split: if_splits\<close>)

lemma cancel_keys:
  fixes A A' :: "'a multiset"
  assumes "A' + (U + (M + L) + Q) = A + (U + O' + L + N)" "O' + N + T = M + Q"
  shows "A' + T = A"
proof -
  have "A' + T + (U + (M + L) + Q) = (A' + (U + (M + L) + Q)) + T" by (simp only: ac_simps)
  also have "\<dots> = (A + (U + O' + L + N)) + T" unfolding assms(1) ..
  also have "\<dots> = A + (U + L) + (O' + N + T)" by (simp only: ac_simps)
  also have "\<dots> = A + (U + (M + L) + Q)" unfolding assms(2) by (simp only: ac_simps)
  finally show ?thesis by simp
qed

text \<open>What the delivery of a message does not touch.\<close>

lemma told_or_same: "told m st x = st x \<or> x \<in># told_key m \<and> is_holding (told m st x) \<and> \<not> is_holding (st x)"
  by (cases m) (auto split: tstat.splits)

lemma told_keys:
  assumes k: "keys_inv c" and kk: "all_keys c' + told_key m = all_keys c" and t: "p_task c' = told m (p_task c)"
  shows "keys_inv c'" "settled_task c c'"
proof -
  show ki: "keys_inv c'"
  proof (rule keys_inv_mono [OF k])
    fix x
    have "count (all_keys c') x + count (told_key m) x = count (all_keys c) x" using kk by (metis count_union)
    then show "count (all_keys c') x + of_bool (is_holding (p_task c' x)) \<le> count (all_keys c) x + of_bool (is_holding (p_task c x))"
      using told_or_same [of m "p_task c" x] unfolding t by (cases "x \<in># told_key m") (auto simp flip: count_greater_zero_iff)
    show "p_task c x = Idle" if "p_task c' x = Idle" using that told_or_same [of m "p_task c" x] unfolding t by auto
  qed
  show "settled_task c c'"
    unfolding settled_task_def
  proof (intro allI impI)
    fix x assume "p_task c' x \<noteq> p_task c x"
    then have "is_holding (p_task c' x)" using told_or_same [of m "p_task c" x] t by simp
    then show "x \<notin># all_keys c \<or> x \<notin># all_keys c'" using not_in_keys [OF ki] by blast
  qed
qed

lemma deliver_frame:
  assumes inv: "proto_inv c" and d: "p_down c h = m # ms" and r: "receive keep m (p_node c h) = (n, out)"
    and c': "c' = c\<lparr>p_node := (p_node c)(h := n), p_down := (p_down c)(h := ms), p_up := (p_up c)(h := p_up c h @ out),
                p_task := told m (p_task c)\<rparr>"
    and om: "owner_inv c'" "mode_inv c'"
  shows "proto_inv c'"
proof -
  note i = proto_invD [OF inv]
  have sel: "p_sw c' = p_sw c" "p_node c' = (p_node c)(h := n)" "p_up c' = (p_up c)(h := p_up c h @ out)"
    "p_down c' = (p_down c)(h := ms)" "p_task c' = told m (p_task c)"
    by (simp_all add: c')
  have ok: "down_ok c h m" using typed_invD(2) [OF i(2), of m h] d by simp
  have kk: "all_keys c' + told_key m = all_keys c"
    using cancel_keys [OF _ receive_keys [OF r ok]] all_keys_host [OF sel(3,4,2)] d by simp
  note ki = told_keys [OF i(1) kk sel(5)]
  have sub: "x \<in># all_keys c' \<Longrightarrow> x \<in># all_keys c" for x using kk by (metis union_iff)
  have rk: "list_all (up_ok c h) out \<and> list_all (waits c) (n_queue n)"
    by (rule receive_ok [OF r ok]) (use typed_invD(3) [OF i(2)] owner_agent(3) [OF i(3)] in \<open>auto simp: list_all_iff\<close>)
  have keep: "p_task c' x = p_task c x" if "x \<in># all_keys c'" for x
    using ki(2) that sub [OF that] by (auto simp: settled_task_def)
  have "list_all (up_ok c' h) out"
    unfolding list_all_iff
  proof
    fix y assume y: "y \<in> set out"
    then have "x \<in># all_keys c'" if "x \<in># msg_keys y" for x using in_all_keys(1) [of y c' h x] that by (simp add: sel)
    then have "up_ok c' h y = up_ok c h y" by (intro ok_cong(1) keep) (simp_all add: sel(1))
    with rk y show "up_ok c' h y" by (simp add: list_all_iff)
  qed
  moreover have "list_all (waits c') (n_queue n)"
    using rk keep in_all_keys(3) [of _ c' h] by (auto simp: list_all_iff waits_def sel(2))
  ultimately have "typed_inv c'"
    by (intro typed_host [OF i(2) ki(2) sel(1,3) _ sel(4) _ sel(2)]) (use d in auto)
  with om ki(1) show ?thesis by (simp add: proto_inv_def)
qed

lemma popped_down:
  assumes "keys_inv c" "p_down c h = m # ms" "k \<in># msg_keys m"
  shows "k \<notin># all_keys (c\<lparr>p_down := (p_down c)(h := ms)\<rparr>)" "\<not> is_holding (p_task c k)"
proof -
  let ?c = "c\<lparr>p_down := (p_down c)(h := ms)\<rparr>"
  have "all_keys ?c + msg_keys m = all_keys c"
    using all_keys_host [of ?c c h "p_up c h" ms "p_node c h"] assms(2) by (simp add: ac_simps)
  then have "count (all_keys ?c) k + count (msg_keys m) k = count (all_keys c) k"
    by (metis count_union)
  moreover have "1 \<le> count (msg_keys m) k" using assms(3) by (simp add: Suc_le_eq)
  moreover have "count (all_keys c) k + of_bool (is_holding (p_task c k)) \<le> 1"
    using assms(1) unfolding keys_inv_def by blast
  ultimately have "count (all_keys ?c) k = 0 \<and> \<not> is_holding (p_task c k)"
    by (rule at_most_once)
  then show "k \<notin># all_keys ?c" "\<not> is_holding (p_task c k)"
    by (simp_all add: not_in_iff)
qed

text \<open>A request or a grant arrives, which changes neither the role nor the known holders of the host.\<close>

lemma mode_inv_pop:
  assumes m: "mode_inv c" "p_sw c' = p_sw c" and d: "p_down c h = m # ms" "p_down c' = (p_down c)(h := ms)"
    and n: "\<not> is_tok m" "\<not> is_news m" "\<And>x. n_agent (p_node c' x) = n_agent (p_node c x)"
      "\<And>x. n_cnt (p_node c' x) = n_cnt (p_node c x)" "\<And>x. n_holders (p_node c' x) = n_holders (p_node c x)"
    and u: "\<And>x. counted (p_up c' x) = counted (p_up c x)" and act: "\<And>k. active c' k \<Longrightarrow> active c k"
    and t: "\<And>k. p_task c' k = Holding RW_EXCL \<longleftrightarrow> p_task c k = Holding RW_EXCL"
      "\<And>k. shared_inv c \<Longrightarrow> p_task c' k = Holding RW_SHARED \<Longrightarrow> key_host k = s_agent (p_sw c) \<Longrightarrow>
             k \<in> n_holders (p_node c (s_agent (p_sw c)))"
  shows "mode_inv c'"
proof -
  let ?a = "s_agent (p_sw c)"
  have m1: "settle1 m H = H" "counted1 m = 0" "\<not> is_notif m" "\<not> is_grant_agent m" for H using n(1,2) by (cases m; simp)+
  have D: "settles (p_down c ?a) H \<Longrightarrow> settles (p_down c' ?a) H" "settle (p_down c' ?a) H = settle (p_down c ?a) H"
    "notifs (p_down c' ?a) = notifs (p_down c ?a)" "counted (p_down c' ?a) = counted (p_down c ?a)"
    "list_ex is_grant_agent (p_down c' ?a) = list_ex is_grant_agent (p_down c ?a)"
    "list_ex is_news (p_down c' ?a) = list_ex is_news (p_down c ?a)"
    "list_ex is_news (takeWhile (\<lambda>m. \<not> is_grant_agent m) (p_down c' ?a)) = list_ex is_news (takeWhile (\<lambda>m. \<not> is_grant_agent m) (p_down c ?a))"
    for H
    using d m1 n(2) by auto
  show ?thesis
    using m(1)
  proof (cases rule: mode_inv_cases)
    case 1
    with act t m(2) show ?thesis by (auto simp: mode_inv_def free_inv_def)
  next
    case 2
    then have "shared_inv c'"
      using shared_invD [OF 2(3) refl] act t n(3-5) u D m(2) by (intro shared_invI [of ?a]) auto
    with 2 m(2) show ?thesis by (simp add: mode_inv_def)
  next
    case 3
    then have "writer_inv c'"
      using writer_invD [OF 3(3) refl] act t n(3-5) D m(2) by (intro writer_invI [of ?a]) auto
    with 3 m(2) show ?thesis by (simp add: mode_inv_def)
  qed
qed

lemma inv_deliver_acquire:
  assumes inv: "proto_inv c" and d: "p_down c h = Acq k rw # ms" and r: "receive keep (Acq k rw) (p_node c h) = (n, out)"
    and c': "c' = c\<lparr>p_node := (p_node c)(h := n), p_down := (p_down c)(h := ms), p_up := (p_up c)(h := p_up c h @ out),
                p_task := told (Acq k rw) (p_task c)\<rparr>"
  shows "proto_inv c'"
proof (rule deliver_frame [OF inv d r c'])
  note i = proto_invD [OF inv]
  have sel: "p_sw c' = p_sw c" "p_node c' = (p_node c)(h := n)" "p_up c' = (p_up c)(h := p_up c h @ out)"
    "p_down c' = (p_down c)(h := ms)" "p_task c' = p_task c"
    by (simp_all add: c')
  have n: "n_agent n = n_agent (p_node c h)" "n_mode n = n_mode (p_node c h)" "n_cnt n = n_cnt (p_node c h)"
    "n_holders n = n_holders (p_node c h)" "toks out = 0" "counted out = 0" "Grant x \<notin> set out" "Rel x \<notin> set out" for x
    using r by (auto split: if_splits)
  show "owner_inv c'" by (rule owner_same [OF i(3) sel(1-4)]) (use n d in auto)
  have "active c x" if "active c' x" for x
    by (rule active_up [OF that sel(3,4)]) (use n d in \<open>auto simp: sel\<close>)
  then show "mode_inv c'"
    by (intro mode_inv_pop [OF i(4) sel(1) d sel(4)]) (use n shared_invD(3) [OF _ refl, of c] in \<open>auto simp: sel\<close>)
qed

lemma inv_deliver_grant:
  assumes inv: "proto_inv c" and d: "p_down c h = Grant k # ms"
    and c': "c' = c\<lparr>p_node := (p_node c)(h := p_node c h), p_down := (p_down c)(h := ms), p_up := (p_up c)(h := p_up c h @ []),
                p_task := told (Grant k) (p_task c)\<rparr>"
  shows "proto_inv c'"
proof (rule deliver_frame [OF inv d _ c'])
  note i = proto_invD [OF inv]
  have ok: "p_task c k = Waiting RW_SHARED" "key_host k = h"
    using typed_invD(2) [OF i(2), of "Grant k" h] d by (simp_all add: waits_def)
  have sel: "p_sw c' = p_sw c" "p_node c' = p_node c" "p_up c' = p_up c"
    "p_down c' = (p_down c)(h := ms)" "p_task c' = (p_task c)(k := Holding RW_SHARED)"
    by (simp_all add: c' ok)
  show "owner_inv c'"
    by (rule owner_same [OF i(3) sel(1), where h = h and n = "p_node c h" and U = "p_up c h" and D = ms]) (use d sel in auto)
  have k: "active c k" using d unfolding active_def by (metis list.set_intros(1))
  have act: "active c x" if "active c' x" for x
  proof (cases "x = k")
    case False
    show ?thesis
      by (rule active_up [OF that, of c h "p_up c h" ms]) (use False d in \<open>auto simp: sel\<close>)
  qed (use k in simp)
  have "k \<in> n_holders (p_node c h)" if "shared_inv c" "h = s_agent (p_sw c)"
    using shared_invD(1) [OF that] d by simp
  then show "mode_inv c'"
    by (intro mode_inv_pop [OF i(4) sel(1) d sel(4)])
      (use act shared_invD(3) [OF _ refl, of c] ok in \<open>auto simp: sel split: if_splits\<close>)
qed auto

lemma news_shared:
  assumes "proto_inv c" "m \<in> set (p_down c h)" "is_news m"
  shows "\<not> s_free (p_sw c)" "h = s_agent (p_sw c)" "s_rw (p_sw c) = RW_SHARED" "shared_inv c"
proof -
  note i = proto_invD [OF assms(1)] and o = owner_news [OF proto_invD(3) [OF assms(1)] assms(2,3)]
  show "\<not> s_free (p_sw c)" "h = s_agent (p_sw c)" by (fact o)+
  have "s_rw (p_sw c) = RW_SHARED \<and> shared_inv c"
    using i(4)
  proof (cases rule: mode_inv_cases)
    case 3
    with writer_invD(2) [OF 3(3) o(2)] assms(2,3) show ?thesis by (auto simp: list_ex_iff)
  qed (use o in simp_all)
  then show "s_rw (p_sw c) = RW_SHARED" "shared_inv c" by simp_all
qed

lemma news_no_grant_agent:
  assumes "shared_inv c" "h = s_agent (p_sw c)" "p_down c h = m # ms" "is_news m"
  shows "\<not> list_ex is_grant_agent ms"
proof -
  have "\<not> is_grant_agent m" using assms(4) by (cases m) auto
  with shared_invD(7) [OF assms(1,2)] assms(3,4) show ?thesis by auto
qed

lemma inv_deliver_notif:
  assumes inv: "proto_inv c" and d: "p_down c h = Notif k # ms" and r: "receive keep (Notif k) (p_node c h) = (n, out)"
    and c': "c' = c\<lparr>p_node := (p_node c)(h := n), p_down := (p_down c)(h := ms), p_up := (p_up c)(h := p_up c h @ out),
                p_task := told (Notif k) (p_task c)\<rparr>"
  shows "proto_inv c'"
proof (rule deliver_frame [OF inv d r c'])
  note i = proto_invD [OF inv] and s = news_shared [OF inv, of "Notif k" h, unfolded d, simplified]
  have sel: "p_sw c' = p_sw c" "p_node c' = (p_node c)(h := n)" "p_up c' = p_up c"
    "p_down c' = (p_down c)(h := ms)" "p_task c' = p_task c"
    using r by (simp_all add: c')
  have n: "n_agent n = n_agent (p_node c h)" "n_mode n = n_mode (p_node c h)" "n_cnt n = n_cnt (p_node c h) + 1"
    "n_holders n = insert k (n_holders (p_node c h))"
    using r by auto
  show "owner_inv c'"
    by (rule owner_host [OF i(3) sel(1,2) _ sel(4), where U = "p_up c h"])
      (use n d s owner_agent(3) [OF i(3), of h] in \<open>auto simp: sel\<close>)
  have act: "active c x" if "active c' x" for x
    by (rule active_up [OF that _ sel(4), of "p_up c h"]) (use d in \<open>auto simp: sel\<close>)
  have "shared_inv c'"
    using shared_invD [OF s(4,2)] act n d s(2) news_no_grant_agent [OF s(4,2) d]
    by (intro shared_invI [of h]) (auto simp: sel)
  with s show "mode_inv c'" by (simp add: mode_inv_def sel)
qed

lemma receive_release:
  assumes r: "receive keep (Rel k) n0 = (n, out)" and z: "\<not> n_agent n0 \<Longrightarrow> n_cnt n0 = 0 \<Longrightarrow> n_holders n0 = {}"
  shows "of_bool (n_agent n) + toks out = (of_bool (n_agent n0) :: nat) \<and> n_mode n = n_mode n0 \<and>
    n_cnt n + counted out = n_cnt n0 \<and> n_holders n = n_holders n0 - {k} \<and>
    (\<not> n_agent n \<longrightarrow> n_cnt n = 0 \<longrightarrow> n_holders n = {}) \<and> Grant x \<notin> set out \<and> Rel x \<notin> set out"
proof (cases "n_agent n0")
  case True
  with r have "give_up (n0\<lparr>n_holders := n_holders n0 - {k}\<rparr>) = (n, out)" by simp
  from give_up_props [OF this] True show ?thesis by simp
next
  case False
  with r z show ?thesis by auto
qed

lemma inv_deliver_release:
  assumes inv: "proto_inv c" and d: "p_down c h = Rel k # ms" and r: "receive keep (Rel k) (p_node c h) = (n, out)"
    and c': "c' = c\<lparr>p_node := (p_node c)(h := n), p_down := (p_down c)(h := ms), p_up := (p_up c)(h := p_up c h @ out),
                p_task := told (Rel k) (p_task c)\<rparr>"
  shows "proto_inv c'"
proof (rule deliver_frame [OF inv d r c'])
  note i = proto_invD [OF inv] and s = news_shared [OF inv, of "Rel k" h, unfolded d, simplified]
  have sel: "p_sw c' = p_sw c" "p_node c' = (p_node c)(h := n)" "p_up c' = (p_up c)(h := p_up c h @ out)"
    "p_down c' = (p_down c)(h := ms)" "p_task c' = p_task c"
    by (simp_all add: c')
  have n: "of_bool (n_agent n) + toks out = (of_bool (n_agent (p_node c h)) :: nat)" "n_mode n = n_mode (p_node c h)"
    "n_cnt n + counted out = n_cnt (p_node c h)" "n_holders n = n_holders (p_node c h) - {k}"
    "\<not> n_agent n \<Longrightarrow> n_cnt n = 0 \<Longrightarrow> n_holders n = {}" "Grant x \<notin> set out" "Rel x \<notin> set out" for x
    using receive_release [OF r shared_invD(6) [OF s(4,2)]] by blast+
  have "n_agent n \<Longrightarrow> n_agent (p_node c h)" using n(1) by (cases "n_agent (p_node c h)") auto
  then show "owner_inv c'"
    by (intro owner_host [OF i(3) sel(1-4)])
      (use n d s owner_agent(3) [OF i(3), of h] in \<open>auto split: if_splits\<close>)
  have act: "active c x" if "active c' x" for x
    by (rule active_up [OF that sel(3,4)]) (use d n in \<open>auto simp: sel\<close>)
  have "\<not> is_holding (p_task c k)" using popped_down(2) [OF i(1) d, of k] by simp
  then have "shared_inv c'"
    using shared_invD [OF s(4,2)] act n d s(2) news_no_grant_agent [OF s(4,2) d]
    by (intro shared_invI [of h]) (auto simp: sel)
  with s show "mode_inv c'" by (simp add: mode_inv_def sel)
qed

text \<open>The switch sends the right to the lock back: the host becomes the agent again, or gives up at once.\<close>

lemma inv_deliver_back:
  assumes inv: "proto_inv c" and d: "p_down c h = m # ms" and r: "receive keep m (p_node c h) = (n, out)"
    and m: "is_tok m" "\<not> is_grant_agent m"
    and c': "c' = c\<lparr>p_node := (p_node c)(h := n), p_down := (p_down c)(h := ms), p_up := (p_up c)(h := p_up c h @ out),
                p_task := told m (p_task c)\<rparr>"
  shows "proto_inv c'"
proof (rule deliver_frame [OF inv d r c'])
  note i = proto_invD [OF inv]
  have sel: "p_sw c' = p_sw c" "p_node c' = (p_node c)(h := n)" "p_up c' = (p_up c)(h := p_up c h @ out)"
    "p_down c' = (p_down c)(h := ms)" "p_task c' = p_task c"
    using m by (cases m; simp add: c')+
  have ok: "down_ok c h m" using typed_invD(2) [OF i(2), of m h] d by simp
  have o: "\<not> s_free (p_sw c)" "h = s_agent (p_sw c)" "\<not> n_agent (p_node c h)" "toks ms = 0"
    using owner_tok [OF i(3), of h] d m by auto
  have rw: "s_rw (p_sw c) = RW_SHARED" using ok m by (cases m) auto
  have n: "of_bool (n_agent n) + toks out = (1 :: nat)" "n_agent n \<Longrightarrow> n_mode n = RW_SHARED"
    "n_cnt n + counted out = n_cnt (p_node c h) + counted1 m" "n_holders n = n_holders (p_node c h)"
    "\<not> n_agent n \<Longrightarrow> n_holders n = {}" "Grant x \<notin> set out" "Rel x \<notin> set out" for x
    using r m ok o(3) by (cases m; auto split: if_splits)+
  have m1: "settle1 m H = H" "\<not> is_notif m" "Grant x \<noteq> m" for H x using m by (cases m; simp)+
  show "owner_inv c'"
    by (rule owner_host [OF i(3) sel(1-4)])
      (use n d o rw m owner_tok(4) [OF i(3), of h] in \<open>auto split: if_splits\<close>)
  have act: "active c x" if "active c' x" for x
    by (rule active_up [OF that sel(3,4)]) (use d n in \<open>auto simp: sel\<close>)
  have s: "shared_inv c" using i(4) o rw by (simp add: mode_inv_def)
  have "shared_inv c'"
    using shared_invD [OF s o(2)] act n d m1 o(2) no_grant_agent [OF o(4)]
    by (intro shared_invI [of h]) (auto simp: sel)
  with o rw show "mode_inv c'" by (simp add: mode_inv_def sel)
qed

text \<open>The tasks that a new agent knows to hold the lock.\<close>

definition taken_over :: "rw_mode \<Rightarrow> bool \<Rightarrow> entry list \<Rightarrow> key set" where
  "taken_over rw tr q = (if tr \<and> rw = RW_SHARED then set (readers q) else {})"

lemma receive_agent:
  assumes "receive keep (Grant_agent k rw tr q) n0 = (n, out)"
  shows "n_agent n" "n_mode n = rw" "toks out = 0" "counted out = 0" "n_holders n = insert k (n_holders n0) \<union> taken_over rw tr q"
    "Grant x \<in> set out \<Longrightarrow> x \<in> taken_over rw tr q" "Rel x \<notin> set out" "tr \<Longrightarrow> n_cnt n = n_cnt n0"
    "\<not> tr \<Longrightarrow> n_cnt n = (if rw = RW_SHARED then n_cnt n0 + 1 else 0)"
  using assms by (auto simp: Let_def toks_0 counted_def taken_over_def split: if_splits)

lemma mode_deliver_agent:
  assumes inv: "proto_inv c" and d: "p_down c h = Grant_agent k rw tr q # ms" and ok: "key_host k = h" "rw = s_rw (p_sw c)"
    and r: "receive keep (Grant_agent k rw tr q) (p_node c h) = (n, out)"
    and sel: "p_sw c' = p_sw c" "p_node c' = (p_node c)(h := n)" "p_up c' = (p_up c)(h := p_up c h @ out)"
      "p_down c' = (p_down c)(h := ms)" "p_task c' = (p_task c)(k := Holding rw)"
  shows "mode_inv c'"
proof -
  note i = proto_invD [OF inv] and n = receive_agent [OF r]
  have o: "\<not> s_free (p_sw c)" "h = s_agent (p_sw c)" "\<not> n_agent (p_node c h)" "toks ms = 0"
    using owner_tok [OF i(3), of h] d by auto
  have act: "active c x \<or> x = k \<and> rw = RW_SHARED \<or> x \<in> taken_over rw tr q" if "active c' x" for x
  proof (cases "x = k \<and> rw = RW_SHARED \<or> x \<in> taken_over rw tr q")
    case False
    have "active c x" by (rule active_up [OF that sel(3,4)]) (use d n(6,7) [of x] False in \<open>auto simp: sel split: if_splits\<close>)
    then show ?thesis ..
  qed simp
  have rel: "Rel x \<notin> set ms" if "x = k \<or> x \<in> taken_over rw tr q" for x
  proof -
    have "x \<in># msg_keys (Grant_agent k rw tr q)" using that by (auto simp: readers_def taken_over_def split: if_splits)
    from not_mentioned(2) [OF popped_down(1) [OF i(1) d this], of h] show ?thesis by simp
  qed
  show ?thesis
  proof (cases rw)
    case RW_SHARED
    then have s: "shared_inv c" using i(4) o ok by (simp add: mode_inv_def)
    note s' = shared_invD [OF s o(2)]
    have z: "n_cnt (p_node c h) = 0" "n_holders (p_node c h) = {}" using s'(6,7) o d by auto
    have "settle1 (Grant_agent k rw tr q) {} = n_holders n" using n(5) z RW_SHARED by (auto simp: taken_over_def)
    moreover have "x \<in> settle ms (n_holders n)" if "active c' x" for x
      using act [OF that] s'(2) [of x] rel [of x] d z n(5) calculation by (auto intro: settle_keep)
    ultimately have "shared_inv c'"
      using s' n(1,4,5,8,9) d z o(2) no_grant_agent [OF o(4)] RW_SHARED
      by (intro shared_invI [of h]) (auto simp: sel split: if_splits)
    with o ok RW_SHARED show ?thesis by (simp add: mode_inv_def sel)
  next
    case RW_EXCL
    then have w: "writer_inv c" using i(4) o ok by (simp add: mode_inv_def)
    have "writer_inv c'"
      using writer_invD [OF w o(2)] n(1,5,8,9) d o act RW_EXCL ok(1)
      by (intro writer_invI [of h]) (auto simp: sel taken_over_def split: if_splits)
    with o ok RW_EXCL show ?thesis by (simp add: mode_inv_def sel)
  qed
qed

lemma inv_deliver_agent:
  assumes inv: "proto_inv c" and d: "p_down c h = Grant_agent k rw tr q # ms"
    and r: "receive keep (Grant_agent k rw tr q) (p_node c h) = (n, out)"
    and c': "c' = c\<lparr>p_node := (p_node c)(h := n), p_down := (p_down c)(h := ms), p_up := (p_up c)(h := p_up c h @ out),
                p_task := told (Grant_agent k rw tr q) (p_task c)\<rparr>"
  shows "proto_inv c'"
proof (rule deliver_frame [OF inv d r c'])
  note i = proto_invD [OF inv]
  have ok: "p_task c k = Waiting rw" "key_host k = h" "rw = s_rw (p_sw c)"
    using typed_invD(2) [OF i(2), of "Grant_agent k rw tr q" h] d by (simp_all add: waits_def)
  have sel: "p_sw c' = p_sw c" "p_node c' = (p_node c)(h := n)" "p_up c' = (p_up c)(h := p_up c h @ out)"
    "p_down c' = (p_down c)(h := ms)" "p_task c' = (p_task c)(k := Holding rw)"
    by (simp_all add: c' ok(1))
  show "owner_inv c'"
    by (rule owner_host [OF i(3) sel(1-4)]) (use receive_agent(1-3) [OF r] owner_tok [OF i(3), of h] d ok in auto)
  show "mode_inv c'" by (rule mode_deliver_agent [OF inv d ok(2,3) r sel])
qed

lemma inv_deliver:
  assumes inv: "proto_inv c" and d: "p_down c h = m # ms" and r: "receive keep m (p_node c h) = (n, out)"
    and c': "c' = c\<lparr>p_node := (p_node c)(h := n), p_down := (p_down c)(h := ms), p_up := (p_up c)(h := p_up c h @ out),
                p_task := told m (p_task c)\<rparr>"
  shows "proto_inv c'"
proof (cases m)
  case (Acq k rw)
  show ?thesis by (rule inv_deliver_acquire [OF inv d [unfolded Acq] r [unfolded Acq] c' [unfolded Acq]])
next
  case (Notif k)
  show ?thesis by (rule inv_deliver_notif [OF inv d [unfolded Notif] r [unfolded Notif] c' [unfolded Notif]])
next
  case (Grant_agent k rw tr q)
  show ?thesis
    by (rule inv_deliver_agent [OF inv d [unfolded Grant_agent] r [unfolded Grant_agent] c' [unfolded Grant_agent]])
next
  case (Grant k)
  show ?thesis by (rule inv_deliver_grant [OF inv d [unfolded Grant]]) (use r Grant in \<open>simp add: c'\<close>)
next
  case (Rel k)
  show ?thesis by (rule inv_deliver_release [OF inv d [unfolded Rel] r [unfolded Rel] c' [unfolded Rel]])
next
  case (Free n old)
  show ?thesis by (rule inv_deliver_back [OF inv d r _ _ c']) (simp_all add: Free)
next
  case (Transfer k rw q n old)
  show ?thesis by (rule inv_deliver_back [OF inv d r _ _ c']) (simp_all add: Transfer)
qed

section \<open>Safety of the protocol\<close>

lemma proto_inv_step: "pstep c c' \<Longrightarrow> proto_inv c \<Longrightarrow> proto_inv c'"
proof (induction rule: pstep.induct)
  case (acquire_local c h t)
  show ?case by (rule inv_acquire_local [OF acquire_local(4,1,2,3) refl])
next
  case (acquire_queue c h t rw)
  show ?case by (rule inv_acquire_queue [OF acquire_queue(3,1,2) refl])
next
  case (acquire_send c h t rw)
  show ?case by (rule inv_acquire_send [OF acquire_send(2,1) refl])
next
  case (release_agent c h t rw n out)
  show ?case by (rule inv_release_agent [OF release_agent(4,1,2,3) refl])
next
  case (release_send c h t rw)
  show ?case by (rule inv_release_send [OF release_send(3,1,2) refl])
next
  case (switch c h m ms s out)
  show ?case by (rule inv_switch [OF switch(3,1,2) refl])
next
  case (deliver c h m ms keep n out)
  show ?case by (rule inv_deliver [OF deliver(3,1,2) refl])
qed

definition idle_node :: node where
  "idle_node = \<lparr>n_agent = False, n_mode = RW_SHARED, n_cnt = 0, n_holders = {}, n_queue = [], n_delayed = False\<rparr>"

definition initial_proto :: proto where
  "initial_proto =
     \<lparr>p_sw = \<lparr>s_free = True, s_rw = RW_SHARED, s_agent = 0, s_cnt = 0\<rparr>, p_node = (\<lambda>_. idle_node),
      p_up = (\<lambda>_. []), p_down = (\<lambda>_. []), p_task = (\<lambda>_. Idle)\<rparr>"

lemma proto_inv_initial: "proto_inv initial_proto"
  by (simp add: proto_inv_def keys_inv_def all_keys_def typed_inv_def owner_inv_def bystander_def mode_inv_def
      free_inv_def active_def initial_proto_def idle_node_def)

lemma proto_inv_exclusive:
  assumes "proto_inv c" "p_task c k = Holding RW_EXCL" "p_task c k' = Holding rw"
  shows "k' = k"
  using proto_invD(4) [OF assms(1)]
proof (cases rule: mode_inv_cases)
  case 1
  with assms show ?thesis by (simp add: free_inv_def)
next
  case 2
  with assms shared_invD(4) [OF 2(3) refl] show ?thesis by simp
next
  case 3
  note w = writer_invD [OF 3(3) refl]
  have "rw = RW_EXCL" using w(1) [of k'] assms(3) by (cases rw) (auto simp: active_def)
  with w(4) assms(2,3) have "n_holders (p_node c (s_agent (p_sw c))) = {k}" "n_holders (p_node c (s_agent (p_sw c))) = {k'}"
    by blast+
  then show ?thesis by simp
qed

end
