(* ===== verification/Fifo_Cluster.thy ===== *)
theory Fifo_Cluster
  imports Fiss_Cluster Fifo_Protocol
begin

text \<open>
  The cluster of \<open>Fiss_Cluster\<close> with readers and writers, over links that keep the order of
  packets: one link from every host to the switch and one back. The state of a host, the
  packets and the registers of the switch are those of the sources; a ghost map records the
  status of every task, as the application sees it.

  The hosts and the switch are shown to take the steps of \<open>Fifo_Protocol\<close>: packets are related
  to messages, metadata records to nodes and registers to the state of the abstract switch,
  and every event is a step of the protocol or changes nothing. Mutual exclusion and the
  refinement of a reader-writer lock follow. Two more theorems show that the hypotheses are
  needed: the eight bits of the notification counter, and the build for BMv2.
\<close>

section \<open>The cluster with ordered links\<close>

record fifo =
  f_sw :: slot
  f_node :: "host_id \<Rightarrow> innet_lock"
  f_up :: "host_id \<Rightarrow> packet list"
  f_down :: "host_id \<Rightarrow> packet list"
  f_task :: "key \<Rightarrow> tstat"

datatype fifo_event =
    Fifo_acquire host_id task_id lock_state
  | Fifo_release host_id task_id
  | Fifo_switch host_id
  | Fifo_deliver host_id

definition initial_fifo :: "lock_id \<Rightarrow> fifo" where
  "initial_fifo i =
     \<lparr>f_sw = initial_slot, f_node = (\<lambda>_. new_lock 0 i), f_up = (\<lambda>_. []), f_down = (\<lambda>_. []), f_task = (\<lambda>_. Idle)\<rparr>"

definition rw_of :: "lock_state \<Rightarrow> rw_mode" where
  "rw_of op = (if op = LOCK_EXCL then RW_EXCL else RW_SHARED)"

text \<open>A waiting task polls its flag (\<open>lock_req_granted\<close>).\<close>

definition observe :: "host_id \<Rightarrow> innet_lock \<Rightarrow> (key \<Rightarrow> tstat) \<Rightarrow> key \<Rightarrow> tstat" where
  "observe h l st k =
     (case st k of
        Waiting rw \<Rightarrow> if key_host k = h \<and> task_granted l (key_task k) = Some True then Holding rw else Waiting rw
      | s \<Rightarrow> s)"

text \<open>A host changed its record and sent packets.\<close>

definition f_host :: "host_id \<Rightarrow> innet_lock \<Rightarrow> packet list \<Rightarrow> (key \<Rightarrow> tstat) \<Rightarrow> fifo \<Rightarrow> fifo" where
  "f_host h l out st c =
     c\<lparr>f_node := (f_node c)(h := l), f_up := (f_up c)(h := f_up c h @ out), f_task := observe h l st\<rparr>"

fun fifo_step :: "build \<Rightarrow> fifo_event \<Rightarrow> fifo \<Rightarrow> fl_error + fifo" where
  "fifo_step b (Fifo_acquire h t op) c =
     (case acquire_on b h True 0 (f_node c h) t op of
        Inl e \<Rightarrow> Inl e
      | Inr (r, l, out) \<Rightarrow>
          Inr (f_host h l out
                 ((f_task c)(Key h t := (if r = Req_granted then Holding (rw_of op) else Waiting (rw_of op)))) c))"
| "fifo_step b (Fifo_release h t) c =
     (case release_on b h (f_node c h) t of
        Inl e \<Rightarrow> Inl e
      | Inr (l, out) \<Rightarrow> Inr (f_host h l out ((f_task c)(Key h t := Over)) c))"
| "fifo_step b (Fifo_switch h) c =
     (case f_up c h of
        [] \<Rightarrow> Inr c
      | p # ps \<Rightarrow>
          (let (s, out) = slot_switch (f_sw c) p
           in Inr (c\<lparr>f_sw := s, f_up := (f_up c)(h := ps), f_down := send out (f_down c)\<rparr>)))"
| "fifo_step b (Fifo_deliver h) c =
     (case f_down c h of
        [] \<Rightarrow> Inr c
      | p # ps \<Rightarrow>
          (case lock_packet_process b None h (f_node c h) p of
             Inl e \<Rightarrow> Inl e
           | Inr (n, p', l, out) \<Rightarrow>
               Inr (f_host h l (out @ (if n = 0 then [] else [p'])) (f_task c)
                      (c\<lparr>f_down := (f_down c)(h := ps)\<rparr>))))"

fun fifo_exec :: "build \<Rightarrow> fifo_event list \<Rightarrow> fifo \<Rightarrow> fl_error + fifo" where
  "fifo_exec b [] c = Inr c"
| "fifo_exec b (e # es) c = (case fifo_step b e c of Inl x \<Rightarrow> Inl x | Inr c' \<Rightarrow> fifo_exec b es c')"

text \<open>
  The workload: a task asks for the lock once, in either mode, and releases it when it was
  told of the grant. A wait queue entry has 30 bits for the task.
\<close>

fun fifo_ok :: "fifo \<Rightarrow> fifo_event \<Rightarrow> bool" where
  "fifo_ok c (Fifo_acquire h t op) \<longleftrightarrow>
     cluster_host h \<and> t < 0x40000000 \<and> (op = LOCK_SHARED \<or> op = LOCK_EXCL) \<and> f_task c (Key h t) = Idle"
| "fifo_ok c (Fifo_release h t) \<longleftrightarrow> is_holding (f_task c (Key h t))"
| "fifo_ok c _ \<longleftrightarrow> True"

text \<open>
  The limits of the machine: the wait queue of a host fits one burst of packets, and a host
  that gave the lock up has fewer than 256 notifications to hear of, so that the eight bits
  of the counters tell them apart.
\<close>

definition notification :: "packet \<Rightarrow> bool" where
  "notification p \<longleftrightarrow> ptype p = POST_LOCK_ACQUIRE \<and> GRANTED (hdr p)"

definition within_limits :: "fifo \<Rightarrow> bool" where
  "within_limits c \<longleftrightarrow>
     (\<forall>h \<in> {1, 2, 3, 4, 5, 6, 7, 8}. length (wqueue (f_node c h)) \<le> DPDK_TX_BURST_SIZE \<and>
        (\<not> is_agent (f_node c h) \<longrightarrow>
           unat (ncnt (f_node c h)) + length (filter notification (f_down c h)) < 256))"

fun fifo_run :: "build \<Rightarrow> fifo_event list \<Rightarrow> fifo \<Rightarrow> bool" where
  "fifo_run b [] c \<longleftrightarrow> True"
| "fifo_run b (e # es) c \<longleftrightarrow> within_limits c \<and> fifo_ok c e \<and>
     (case fifo_step b e c of Inl _ \<Rightarrow> True | Inr c' \<Rightarrow> fifo_run b es c')"

section \<open>Packets and records as messages and nodes\<close>

definition entry_of :: "wqe \<Rightarrow> entry" where
  "entry_of w = (Key (wq_host w) (wqe_task w), rw_of (wq_op w))"

definition queue_is :: "wqe list \<Rightarrow> entry list \<Rightarrow> bool" where
  "queue_is ws q \<longleftrightarrow> map entry_of ws = q \<and>
     (\<forall>w \<in> set ws. (wq_op w = LOCK_SHARED \<or> wq_op w = LOCK_EXCL) \<and> cluster_host (wq_host w))"

definition key_is :: "packet \<Rightarrow> key \<Rightarrow> bool" where
  "key_is p k \<longleftrightarrow> k = Key (machine_id (hdr p)) (hdr_task_id (hdr p)) \<and> cluster_host (machine_id (hdr p)) \<and>
     unat (hdr_task_id (hdr p)) < 2 ^ 30"

definition carries :: "packet \<Rightarrow> entry list \<Rightarrow> bool" where
  "carries p q \<longleftrightarrow> unat (wq_size (hdr p)) \<le> length (pkt_wq p) \<and> queue_is (take (unat (wq_size (hdr p))) (pkt_wq p)) q \<and>
     length q \<le> DPDK_TX_BURST_SIZE"

fun pkt_is :: "host_id \<Rightarrow> packet \<Rightarrow> msg \<Rightarrow> bool" where
  "pkt_is h p (Acq k rw) \<longleftrightarrow> ptype p = POST_LOCK_ACQUIRE \<and> \<not> GRANTED (hdr p) \<and> pkt_mode (hdr p) = rw \<and>
     key_is p k \<and> carries p []"
| "pkt_is h p (Notif k) \<longleftrightarrow> ptype p = POST_LOCK_ACQUIRE \<and> GRANTED (hdr p) \<and> pkt_mode (hdr p) = RW_SHARED \<and> key_is p k"
| "pkt_is h p (Grant_agent k rw tr q) \<longleftrightarrow> ptype p = POST_LOCK_GRANT_WITH_AGENT \<and> TRANSFERRED (hdr p) = tr \<and>
     pkt_mode (hdr p) = rw \<and> key_is p k \<and> carries p q"
| "pkt_is h p (Grant k) \<longleftrightarrow> ptype p = POST_LOCK_GRANT_WO_AGENT \<and> key_is p k"
| "pkt_is h p (Rel k) \<longleftrightarrow> ptype p = POST_LOCK_RELEASE \<and> pkt_mode (hdr p) = RW_SHARED \<and> key_is p k"
| "pkt_is h p (Free n old) \<longleftrightarrow> ptype p = POST_LOCK_FREE \<and> pkt_mode (hdr p) = RW_SHARED \<and> pkt_old_mode (hdr p) = old \<and>
     hdr_ncnt (hdr p) = of_nat n \<and> agent (hdr p) = h \<and> cluster_host h"
| "pkt_is h p (Transfer k rw q n old) \<longleftrightarrow> ptype p = POST_LOCK_TRANSFER \<and> pkt_mode (hdr p) = rw \<and>
     pkt_old_mode (hdr p) = old \<and> hdr_ncnt (hdr p) = of_nat n \<and> agent (hdr p) = h \<and> cluster_host h \<and>
     key_is p k \<and> carries p q"

definition slot_is :: "slot \<Rightarrow> psw \<Rightarrow> bool" where
  "slot_is s ps \<longleftrightarrow> (sl_free s = LK_FREE \<longleftrightarrow> s_free ps) \<and>
     (\<not> s_free ps \<longrightarrow> sl_rw s = s_rw ps \<and> sl_agent s = s_agent ps \<and> cluster_host (s_agent ps)) \<and>
     (s_free ps \<or> s_rw ps = RW_SHARED \<longrightarrow> sl_ncnt s = of_nat (s_cnt ps))"

section \<open>The switch\<close>

abbreviation sent_is :: "(host_id \<times> packet) list \<Rightarrow> (host_id \<times> msg) list \<Rightarrow> bool" where
  "sent_is \<equiv> list_all2 (\<lambda>(x, p) (y, m). x = y \<and> pkt_is x p m)"

abbreviation cleared :: "packet \<Rightarrow> packet" where
  "cleared p \<equiv> p\<lparr>hdr := clear_flag f_granted (clear_flag f_multicasted (hdr p))\<rparr>"

lemma fields_flag [simp]:
  "key_is (p\<lparr>hdr := set_flag n h\<rparr>) k = key_is (p\<lparr>hdr := h\<rparr>) k" "key_is (p\<lparr>hdr := clear_flag n h\<rparr>) k = key_is (p\<lparr>hdr := h\<rparr>) k"
  "key_is (p\<lparr>hdr := h\<lparr>agent := a\<rparr>\<rparr>) k = key_is (p\<lparr>hdr := h\<rparr>) k" "key_is (p\<lparr>ptype := t\<rparr>) k = key_is p k"
  "carries (p\<lparr>hdr := set_flag n h\<rparr>) q = carries (p\<lparr>hdr := h\<rparr>) q" "carries (p\<lparr>hdr := clear_flag n h\<rparr>) q = carries (p\<lparr>hdr := h\<rparr>) q"
  "carries (p\<lparr>hdr := h\<lparr>agent := a\<rparr>\<rparr>) q = carries (p\<lparr>hdr := h\<rparr>) q" "carries (p\<lparr>ptype := t\<rparr>) q = carries p q"
  "key_is (p\<lparr>ptype := t, hdr := h\<rparr>) k = key_is (p\<lparr>hdr := h\<rparr>) k" "carries (p\<lparr>ptype := t, hdr := h\<rparr>) q = carries (p\<lparr>hdr := h\<rparr>) q"
  by (simp_all add: key_is_def carries_def)

lemma hdr_same [simp]: "p\<lparr>hdr := hdr p\<rparr> = p"
  by simp

lemma acquire_fields:
  assumes "pkt_is h p (Acq k rw)"
  shows "ptype p = POST_LOCK_ACQUIRE" "\<not> GRANTED (hdr p)" "pkt_mode (hdr p) = rw" "key_is p k" "carries p []"
    "cluster_host (machine_id (hdr p))" "key_host k = machine_id (hdr p)"
  using assms by (auto simp: key_is_def)

lemmas slot_defs = slot_ingress_def slot_count_def rejected_def slot_operate_def Let_def

lemma switch_acquire_free:
  assumes p: "pkt_is h p (Acq k rw)" and s: "slot_is s ps" "s_cnt ps = 0" "s_free ps" and d: "decide h (Acq k rw) ps = (ps', mout)"
  shows "\<exists>s' out. slot_switch s p = (s', out) \<and> slot_is s' ps' \<and> sent_is out mout"
proof -
  note m = acquire_fields [OF p]
  let ?q = "(cleared p)\<lparr>ptype := POST_LOCK_GRANT_WITH_AGENT,
    hdr := clear_flag f_transferred ((hdr (cleared p))\<lparr>agent := machine_id (hdr p)\<rparr>)\<rparr>"
  have i: "\<exists>s'. slot_ingress s p = (s', ?q, 0) \<and> slot_is s' ps'"
    using s m(1,3,6) d m(7) by (cases rw) (auto simp: slot_defs slot_is_def)
  have "to_hosts connected_machines (slot_forward ?q 0) = [(machine_id (hdr p), ?q)]"
    by (subst forward_unicast) (simp_all add: m egress_plain bit_flag)
  moreover have "sent_is [(machine_id (hdr p), ?q)] mout" using s(3) d m by (auto simp: flag_bits bit_flag)
  ultimately show ?thesis using i by (auto simp: slot_switch_def)
qed

lemma switch_acquire_share:
  assumes p: "pkt_is h p (Acq k RW_SHARED)" and s: "slot_is s ps" "\<not> s_free ps" "s_rw ps = RW_SHARED"
    and d: "decide h (Acq k RW_SHARED) ps = (ps', mout)"
  shows "\<exists>s' out. slot_switch s p = (s', out) \<and> slot_is s' ps' \<and> sent_is out mout"
proof -
  note m = acquire_fields [OF p]
  let ?q = "(cleared p)\<lparr>ptype := POST_LOCK_GRANT_WO_AGENT,
    hdr := set_flag f_multicasted ((hdr (cleared p))\<lparr>agent := sl_agent s\<rparr>)\<rparr>"
  have i: "\<exists>s'. slot_ingress s p = (s', ?q, ucast (machine_id (hdr p))) \<and> slot_is s' ps'"
    using s m(1,3,6) d m(7) by (cases "sl_free s") (auto simp: slot_defs slot_is_def)
  have a: "sl_agent s = s_agent ps" "cluster_host (s_agent ps)" using s by (auto simp: slot_is_def)
  have "to_hosts connected_machines (slot_forward ?q (ucast (machine_id (hdr p)))) =
    [(sl_agent s, egress_pipe 1 ?q), (machine_id (hdr p), egress_pipe 2 ?q)]"
    by (subst forward_multicast) (simp_all add: m a)
  moreover have "sent_is [(sl_agent s, egress_pipe 1 ?q), (machine_id (hdr p), egress_pipe 2 ?q)] mout"
    using s(2,3) d m a by (auto simp: flag_bits bit_flag egress_pipe_def)
  ultimately show ?thesis using i by (auto simp: slot_switch_def)
qed

lemma switch_acquire_forward:
  assumes p: "pkt_is h p (Acq k rw)" and s: "slot_is s ps" "\<not> s_free ps" "\<not> (s_rw ps = RW_SHARED \<and> rw = RW_SHARED)"
    and d: "decide h (Acq k rw) ps = (ps', mout)"
  shows "\<exists>s' out. slot_switch s p = (s', out) \<and> slot_is s' ps' \<and> sent_is out mout"
proof -
  note m = acquire_fields [OF p]
  let ?q = "(cleared p)\<lparr>hdr := (hdr (cleared p))\<lparr>agent := sl_agent s\<rparr>\<rparr>"
  have i: "\<exists>s'. slot_ingress s p = (s', ?q, 0) \<and> slot_is s' ps'"
    using s m(1,3,6) d m(7) by (cases "sl_free s"; cases rw; cases "s_rw ps") (auto simp: slot_defs slot_is_def)
  have a: "sl_agent s = s_agent ps" "cluster_host (s_agent ps)" using s by (auto simp: slot_is_def)
  have "to_hosts connected_machines (slot_forward ?q 0) = [(sl_agent s, ?q)]"
    by (subst forward_unicast) (simp_all add: m a egress_plain bit_flag)
  moreover have "sent_is [(sl_agent s, ?q)] mout" using s(2,3) d m a by (auto simp: flag_bits bit_flag)
  ultimately show ?thesis using i by (auto simp: slot_switch_def)
qed

lemma switch_acquire:
  assumes p: "pkt_is h p (Acq k rw)" and s: "slot_is s ps" "s_free ps \<Longrightarrow> s_cnt ps = 0" and d: "decide h (Acq k rw) ps = (ps', mout)"
  shows "\<exists>s' out. slot_switch s p = (s', out) \<and> slot_is s' ps' \<and> sent_is out mout"
proof -
  consider "s_free ps" | "\<not> s_free ps" "s_rw ps = RW_SHARED" "rw = RW_SHARED"
    | "\<not> s_free ps" "\<not> (s_rw ps = RW_SHARED \<and> rw = RW_SHARED)" by blast
  then show ?thesis
  proof cases
    case 1
    with switch_acquire_free [OF p s(1) _ _ d] s(2) show ?thesis by simp
  next
    case 2
    show ?thesis by (rule switch_acquire_share [OF p [unfolded 2(3)] s(1) 2(1,2) d [unfolded 2(3)]])
  next
    case 3
    show ?thesis by (rule switch_acquire_forward [OF p s(1) 3 d])
  qed
qed

lemma switch_release:
  assumes p: "pkt_is h p (Rel k)" and s: "slot_is s ps" "\<not> s_free ps" and d: "decide h (Rel k) ps = (ps', mout)"
  shows "\<exists>s' out. slot_switch s p = (s', out) \<and> slot_is s' ps' \<and> sent_is out mout"
proof -
  have m: "ptype p = POST_LOCK_RELEASE" "pkt_mode (hdr p) = RW_SHARED" "key_is p k" using p by auto
  have a: "sl_agent s = s_agent ps" "cluster_host (s_agent ps)" "sl_free s = LK_ACQUIRED"
    using s by (cases "sl_free s"; auto simp: slot_is_def)+
  let ?q = "(cleared p)\<lparr>hdr := (hdr (cleared p))\<lparr>agent := sl_agent s\<rparr>\<rparr>"
  have i: "slot_ingress s p = (s, ?q, 0)"
    using m(1,2) a(3) by (cases s) (simp add: slot_defs)
  have "to_hosts connected_machines (slot_forward ?q 0) = [(sl_agent s, ?q)]"
    by (subst forward_unicast) (simp_all add: m a egress_plain bit_flag)
  moreover have "sent_is [(sl_agent s, ?q)] mout" using d m a by auto
  moreover have "ps' = ps" using d by simp
  ultimately show ?thesis using i s by (simp add: slot_switch_def)
qed

lemma switch_grant:
  assumes p: "pkt_is h p (Grant k)" and s: "slot_is s ps" and d: "decide h (Grant k) ps = (ps', mout)"
  shows "\<exists>s' out. slot_switch s p = (s', out) \<and> slot_is s' ps' \<and> sent_is out mout"
proof -
  have m: "ptype p = POST_LOCK_GRANT_WO_AGENT" "key_is p k" "key_host k = machine_id (hdr p)" "cluster_host (machine_id (hdr p))"
    using p by (auto simp: key_is_def)
  let ?q = "(cleared p)\<lparr>hdr := (hdr (cleared p))\<lparr>agent := machine_id (hdr p)\<rparr>\<rparr>"
  have i: "slot_ingress s p = (s, ?q, 0)"
    using m(1) by (cases s) (simp add: slot_ingress_def slot_count_def rejected_def Let_def)
  have "to_hosts connected_machines (slot_forward ?q 0) = [(machine_id (hdr p), ?q)]"
    by (subst forward_unicast) (simp_all add: m egress_plain bit_flag)
  moreover have "sent_is [(machine_id (hdr p), ?q)] mout" using d m by auto
  moreover have "ps' = ps" using d by simp
  ultimately show ?thesis using i s by (simp add: slot_switch_def)
qed

text \<open>The eight bits of the counters are enough for a difference below 256.\<close>

lemma of_nat_u8_eq:
  assumes "b \<le> a" "a < b + 256"
  shows "(of_nat a :: u8) = of_nat b \<longleftrightarrow> a = b"
proof -
  have "(of_nat a :: u8) = of_nat b \<longleftrightarrow> a mod 256 = b mod 256" by (simp add: word_of_nat_eq_iff take_bit_eq_mod)
  also have "\<dots> \<longleftrightarrow> 256 dvd a - b" using assms(1) by (rule mod_eq_dvd_iff_nat)
  also have "\<dots> \<longleftrightarrow> a - b = 0" using assms by (auto dest: dvd_imp_le)
  finally show ?thesis using assms(1) by auto
qed

lemma switch_push_back:
  assumes t: "ptype p = POST_LOCK_FREE \<or> ptype p = POST_LOCK_TRANSFER" and o: "pkt_old_mode (hdr p) = RW_SHARED"
    and n: "sl_ncnt s \<noteq> hdr_ncnt (hdr p)" and a: "agent (hdr p) = h" "cluster_host h"
  shows "slot_switch s p = (s, [(h, cleared p)])"
proof -
  have "slot_ingress s p = (s, cleared p, 0)"
    using t o n by (cases s; cases "pkt_mode (hdr p)") (auto simp: slot_ingress_def slot_count_def rejected_def Let_def)
  moreover have "to_hosts connected_machines (slot_forward (cleared p) 0) = [(h, cleared p)]"
    by (subst forward_unicast) (simp_all add: a egress_plain bit_flag)
  ultimately show ?thesis by (simp add: slot_switch_def)
qed

lemma switch_free:
  assumes p: "pkt_is h p (Free n old)" and s: "slot_is s ps" "\<not> s_free ps" "old = s_rw ps"
    and n: "old = RW_SHARED \<Longrightarrow> n \<le> s_cnt ps \<and> s_cnt ps < n + 256" and d: "decide h (Free n old) ps = (ps', mout)"
  shows "\<exists>s' out. slot_switch s p = (s', out) \<and> slot_is s' ps' \<and> sent_is out mout"
proof -
  have m: "ptype p = POST_LOCK_FREE" "pkt_mode (hdr p) = RW_SHARED" "pkt_old_mode (hdr p) = old"
    "hdr_ncnt (hdr p) = of_nat n" "agent (hdr p) = h" "cluster_host h"
    using p by auto
  have f: "sl_free s = LK_ACQUIRED" using s by (cases "sl_free s") (auto simp: slot_is_def)
  have c: "sl_ncnt s = of_nat n \<longleftrightarrow> s_cnt ps = n" if "old = RW_SHARED"
    using that s of_nat_u8_eq n by (auto simp: slot_is_def)
  show ?thesis
  proof (cases "old = RW_SHARED \<and> s_cnt ps \<noteq> n")
    case True
    then have "slot_switch s p = (s, [(h, cleared p)])" using switch_push_back [of p s h] m c by auto
    moreover have "sent_is [(h, cleared p)] mout" "ps' = ps" using True d m by auto
    ultimately show ?thesis using s by simp
  next
    case False
    let ?q = "(cleared p)\<lparr>hdr := (hdr (cleared p))\<lparr>agent := 0\<rparr>\<rparr>"
    have "slot_ingress s p = (s\<lparr>sl_free := LK_FREE, sl_rw := RW_SHARED, sl_agent := 0, sl_ncnt := 0\<rparr>, ?q, 0)"
      using False m(1-4) f c by (cases old) (auto simp: slot_defs)
    moreover have "to_hosts connected_machines (slot_forward ?q 0) = []" by (rule forward_nobody) simp
    moreover have "mout = []" "slot_is (s\<lparr>sl_free := LK_FREE, sl_rw := RW_SHARED, sl_agent := 0, sl_ncnt := 0\<rparr>) ps'"
      using False d by (auto simp: slot_is_def)
    ultimately show ?thesis by (simp add: slot_switch_def)
  qed
qed

lemma switch_transfer:
  assumes p: "pkt_is h p (Transfer k rw q n old)" and s: "slot_is s ps" "\<not> s_free ps" "old = s_rw ps"
    and n: "old = RW_SHARED \<Longrightarrow> n \<le> s_cnt ps \<and> s_cnt ps < n + 256" and d: "decide h (Transfer k rw q n old) ps = (ps', mout)"
  shows "\<exists>s' out. slot_switch s p = (s', out) \<and> slot_is s' ps' \<and> sent_is out mout"
proof -
  have m: "ptype p = POST_LOCK_TRANSFER" "pkt_mode (hdr p) = rw" "pkt_old_mode (hdr p) = old"
    "hdr_ncnt (hdr p) = of_nat n" "agent (hdr p) = h" "cluster_host h" "key_is p k" "carries p q"
    "key_host k = machine_id (hdr p)" "cluster_host (machine_id (hdr p))"
    using p by (auto simp: key_is_def)
  have f: "sl_free s = LK_ACQUIRED" using s by (cases "sl_free s") (auto simp: slot_is_def)
  have c: "sl_ncnt s = of_nat n \<longleftrightarrow> s_cnt ps = n" if "old = RW_SHARED"
    using that s of_nat_u8_eq n by (auto simp: slot_is_def)
  show ?thesis
  proof (cases "old = RW_SHARED \<and> s_cnt ps \<noteq> n")
    case True
    then have "slot_switch s p = (s, [(h, cleared p)])" using switch_push_back [of p s h] m c by auto
    moreover have "sent_is [(h, cleared p)] mout" "ps' = ps" using True d m by auto
    ultimately show ?thesis using s by simp
  next
    case False
    let ?q = "(cleared p)\<lparr>ptype := POST_LOCK_GRANT_WITH_AGENT,
      hdr := set_flag f_transferred ((hdr (cleared p))\<lparr>agent := machine_id (hdr p)\<rparr>)\<rparr>"
    let ?s = "s\<lparr>sl_rw := rw, sl_agent := machine_id (hdr p), sl_ncnt := 0\<rparr>"
    have "slot_ingress s p = (?s, ?q, 0)"
      using False m(1-4) f c
      by (cases s; cases old; cases rw) (auto simp: slot_defs)
    moreover have "to_hosts connected_machines (slot_forward ?q 0) = [(machine_id (hdr p), ?q)]"
      by (subst forward_unicast) (simp_all add: m egress_plain bit_flag)
    moreover have "sent_is [(machine_id (hdr p), ?q)] mout" using False d m by (auto simp: flag_bits bit_flag)
    moreover have "slot_is ?s ps'" using False d m s by (auto simp: slot_is_def)
    ultimately show ?thesis by (simp add: slot_switch_def)
  qed
qed

section \<open>The hosts\<close>

definition holder_of :: "key \<Rightarrow> lock_holder" where
  "holder_of k = LOCK_HOLDER (key_host k) (key_task k)"

fun state_of :: "rw_mode \<Rightarrow> lock_state" where
  "state_of RW_SHARED = LOCK_SHARED"
| "state_of RW_EXCL = LOCK_EXCL"

definition node_is :: "innet_lock \<Rightarrow> node \<Rightarrow> bool" where
  "node_is l n \<longleftrightarrow> \<not> lock_out_of_range l \<and> early_release l = (\<lambda>_. False) \<and> is_agent l = n_agent n \<and>
     mode l = (if n_agent n then state_of (n_mode n) else FREE) \<and>
     (if n_agent n then (ucast (ncnt l) :: u8) = of_nat (n_cnt n) else unat (ncnt l) = n_cnt n) \<and>
     holders l = holder_of ` n_holders n \<and> queue_is (wqueue l) (n_queue n) \<and> delayed_free l = n_delayed n"

definition flags_ok :: "host_id \<Rightarrow> innet_lock \<Rightarrow> (key \<Rightarrow> tstat) \<Rightarrow> bool" where
  "flags_ok h l st \<longleftrightarrow>
     (\<forall>t. task_granted l t = Some True \<longrightarrow> st (Key h t) \<noteq> Idle \<and> (\<forall>rw. st (Key h t) \<noteq> Waiting rw))"

lemma holder_of_inject [simp]: "holder_of k = holder_of k' \<longleftrightarrow> k = k'"
  by (cases k; cases k') (simp add: holder_of_def)

lemma holder_of_Key [simp]: "holder_of (Key h t) = LOCK_HOLDER h t"
  by (simp add: holder_of_def)

lemma holders_remove: "holder_of ` H - {holder_of k} = holder_of ` (H - {k})"
  by auto

lemma key_is_holder: "key_is p k \<Longrightarrow> LOCK_HOLDER (machine_id (hdr p)) (hdr_task_id (hdr p)) = holder_of k"
  by (auto simp: key_is_def)

lemma state_of_MODE: "MODE (mode_old_mode h) = state_of (pkt_mode h)"
  by (cases "pkt_mode h") (simp_all add: MODE_bit)

lemma bit_u8_shift_and_one: "(drop_bit n x AND 1 :: u8) = of_bool (bit x n)"
  by (simp add: and_one_eq mod_2_eq_odd bit_drop_bit_eq flip: bit_0)

lemma state_of_OLD_MODE: "OLD_MODE (mode_old_mode h) = state_of (pkt_old_mode h)"
  by (simp add: OLD_MODE_def pkt_old_mode_def bit_u8_shift_and_one lock_state_of_def)

lemma rw_of_state_of [simp]: "rw_of (state_of rw) = rw"
  by (cases rw) (simp_all add: rw_of_def)

lemma state_of_ops [simp]: "state_of rw = LOCK_SHARED \<or> state_of rw = LOCK_EXCL" "state_of rw \<noteq> FREE"
  "state_of rw = LOCK_SHARED \<longleftrightarrow> rw = RW_SHARED" "state_of rw = LOCK_EXCL \<longleftrightarrow> rw = RW_EXCL"
  by (cases rw; simp)+

lemma entry_mk_wqe: "unat t < 2 ^ 30 \<Longrightarrow> entry_of (mk_wqe op t h) = (Key h t, rw_of op)"
  by (simp add: entry_of_def wqe_task_mk_wqe)

lemma queue_is_append: "queue_is ws q \<Longrightarrow> queue_is ws' q' \<Longrightarrow> queue_is (ws @ ws') (q @ q')"
  by (auto simp: queue_is_def)

lemma queue_is_one:
  "unat t < 2 ^ 30 \<Longrightarrow> op = LOCK_SHARED \<or> op = LOCK_EXCL \<Longrightarrow> cluster_host h \<Longrightarrow> queue_is [mk_wqe op t h] [(Key h t, rw_of op)]"
  by (auto simp: queue_is_def entry_mk_wqe)

lemma queue_is_Cons: "queue_is ws ((k, rw) # q) \<Longrightarrow> \<exists>w ws'. ws = w # ws' \<and> queue_is ws' q \<and> wq_op w = state_of rw \<and>
    k = Key (wq_host w) (wqe_task w) \<and> cluster_host (wq_host w)"
  by (auto simp: queue_is_def entry_of_def rw_of_def map_eq_Cons_conv split: if_splits)

lemma queue_is_length: "queue_is ws q \<Longrightarrow> length ws = length q"
  by (auto simp: queue_is_def)

text \<open>Giving the lock up, as a local release and as the answer to a release packet.\<close>

lemma sent_free:
  assumes "cluster_host h" "(ucast c :: u8) = of_nat n"
  shows "pkt_is h (send_post_free h i (ucast (c :: u32)) (lock_state_code (state_of old))) (Free n old)"
  using assms by (cases old) (simp_all add: send_post_defs pkt_mode_MODE_OLD_MODE)

lemma sent_transfer:
  assumes "cluster_host h" "(ucast c :: u8) = of_nat n" "queue_is (w # ws) ((k, rw) # q)" "length (w # ws) \<le> DPDK_TX_BURST_SIZE"
  shows "pkt_is h (send_post_transfer h (lock_state_code (wq_op w)) i (wq_host w) (wqe_task w) ws (ucast (c :: u32)) (lock_state_code (state_of old)))
    (Transfer k rw q n old)"
proof -
  have w: "wq_op w = state_of rw" "k = Key (wq_host w) (wqe_task w)" "cluster_host (wq_host w)" "queue_is ws q" "length q \<le> DPDK_TX_BURST_SIZE"
    using queue_is_Cons [OF assms(3)] assms(4) queue_is_length [OF assms(3)] by auto
  have "length ws < 2 ^ 32" using assms(4) by (simp add: DPDK_TX_BURST_SIZE_def)
  then have "unat (of_nat (length ws) :: u32) = length ws" by (rule unat_of_nat_u32)
  with w assms(1,2) wqe_task_bound [of w] show ?thesis
    by (cases old; cases rw) (simp_all add: send_post_defs pkt_mode_MODE_OLD_MODE key_is_def carries_def)
qed

lemma pkt_mode_eq:
  assumes "mode_old_mode h = MODE_OLD_MODE m old"
  shows "pkt_mode h = (if bit m 0 then RW_EXCL else RW_SHARED)" "pkt_old_mode h = (if bit old 0 then RW_EXCL else RW_SHARED)"
  using assms pkt_mode_MODE_OLD_MODE [of m old] by (simp_all add: pkt_mode_def pkt_old_mode_def)

lemma sent_release:
  assumes "cluster_host h" "unat t < 2 ^ 30"
  shows "pkt_is h (send_post_release h i h t) (Rel (Key h t))"
  using assms by (simp add: send_post_defs pkt_mode_MODE_OLD_MODE key_is_def)

lemma sent_acquire:
  assumes "cluster_host h" "unat t < 2 ^ 30" "op = LOCK_SHARED \<or> op = LOCK_EXCL"
  shows "pkt_is h (send_post_acquire h (lock_state_code op) i h t) (Acq (Key h t) (rw_of op))"
  using assms
  by (auto simp: send_post_defs pkt_mode_MODE_OLD_MODE key_is_def carries_def queue_is_def rw_of_def GRANTED_def MODE_OLD_MODE_no_flags)

lemma node_given_up:
  assumes "node_is l n" "n_agent n" "queue_is (wqueue l') (n_queue n')"
    and "l' = l\<lparr>is_agent := False, mode := FREE, ncnt := 0, wqueue := wqueue l'\<rparr>"
    and "n' = n\<lparr>n_agent := False, n_cnt := 0, n_queue := n_queue n'\<rparr>"
  shows "node_is l' n'"
  using assms by (cases l; cases l'; cases n; cases n') (simp add: node_is_def lock_out_of_range_def)

definition release_done :: "build \<Rightarrow> host_id \<Rightarrow> innet_lock \<Rightarrow> fl_error + innet_lock \<times> packet list" where
  "release_done b h l =
     (if lock_no_holders l then (if lock_no_waiters l then Inr (release_free_local h l) else release_transfer_local b h l)
      else Inr (l, []))"

lemma give_up_local:
  assumes l: "node_is l n" "n_agent n" "length (wqueue l) \<le> DPDK_TX_BURST_SIZE" "cluster_host h"
    and b: "\<not> FISSLOCK_BMV2 b" "\<not> FISSLOCK_DEBUG b" and g: "give_up n = (n', mout)"
  shows "\<exists>l' out. release_done b h l = Inr (l', out) \<and> node_is l' n' \<and> list_all2 (pkt_is h) out mout \<and>
    task_granted l' = task_granted l"
proof -
  have q: "queue_is (wqueue l) (n_queue n)" "(ucast (ncnt l) :: u8) = of_nat (n_cnt n)" "mode l = state_of (n_mode n)"
    "lock_no_holders l \<longleftrightarrow> n_holders n = {}"
    using l(1,2) by (auto simp: node_is_def lock_no_holders_def)
  show ?thesis
  proof (cases "n_holders n = {}")
    case False
    with g q l(1) show ?thesis by (auto simp: release_done_def give_up_def)
  next
    case h: True
    show ?thesis
    proof (cases "n_queue n")
      case Nil
      with q(1) have w: "wqueue l = []" by (simp add: queue_is_def)
      let ?l = "l\<lparr>is_agent := False, mode := FREE, ncnt := 0\<rparr>"
      have "release_done b h l = Inr (?l, [send_post_free h (lid l) (ucast (ncnt l)) (lock_state_code (state_of (n_mode n)))])"
        using h q w by (simp add: release_done_def lock_no_waiters_def release_free_local_def)
      moreover have "n' = n\<lparr>n_agent := False, n_cnt := 0\<rparr>" "mout = [Free (n_cnt n) (n_mode n)]"
        using g h Nil by (auto simp: give_up_def)
      moreover have "node_is ?l (n\<lparr>n_agent := False, n_cnt := 0\<rparr>)"
        by (rule node_given_up [OF l(1,2)]) (use w Nil in \<open>auto simp: queue_is_def\<close>)
      ultimately show ?thesis using sent_free [OF l(4) q(2)] by simp
    next
      case (Cons e q')
      obtain k rw where e: "e = (k, rw)" by fastforce
      have qc: "queue_is (wqueue l) ((k, rw) # q')" using q(1) Cons e by simp
      from queue_is_Cons [OF qc] obtain w ws where w: "wqueue l = w # ws" by blast
      let ?l = "l\<lparr>is_agent := False, mode := FREE, ncnt := 0, wqueue := []\<rparr>"
      have "release_done b h l = Inr (?l, [send_post_transfer h (lock_state_code (wq_op w)) (lid l) (wq_host w)
          (wqe_task w) ws (ucast (ncnt l)) (lock_state_code (state_of (n_mode n)))])"
        using h q w b by (simp add: release_done_def lock_no_waiters_def release_transfer_local_def ASSERT_def)
      moreover have "n' = n\<lparr>n_agent := False, n_cnt := 0, n_queue := []\<rparr>" "mout = [Transfer k rw q' (n_cnt n) (n_mode n)]"
        using g h Cons e by (auto simp: give_up_def)
      moreover have "node_is ?l (n\<lparr>n_agent := False, n_cnt := 0, n_queue := []\<rparr>)"
        by (rule node_given_up [OF l(1,2)]) (auto simp: queue_is_def)
      moreover have "queue_is (w # ws) ((k, rw) # q')" using q(1) w Cons e by simp
      ultimately show ?thesis using sent_transfer [OF l(4) q(2)] l(3) w by simp
    qed
  qed
qed

lemma code_bit: "bit (lock_state_code (state_of rw)) 0 \<longleftrightarrow> rw = RW_EXCL" "\<not> bit (0 :: u8) 0"
  by (cases rw) simp_all

lemma free_packet:
  assumes "lock_free_helper h l p = (p', l')" "cluster_host h" "(ucast (ncnt l) :: u8) = of_nat c" "mode l = state_of rw"
  shows "pkt_is h p' (Free c rw)"
  using assms pkt_mode_eq [of "hdr p'" 0 "lock_state_code (mode l)"] code_bit(1) [of rw] code_bit(2)
  by (cases rw) (auto simp: lock_free_helper_def)

lemma transfer_packet:
  assumes f: "lock_transfer_helper h l p = Inr (n, p', l')" and h: "cluster_host h" "(ucast (ncnt l) :: u8) = of_nat c" "mode l = state_of old"
    and q: "queue_is (wqueue l) ((k, rw) # q)" "length (wqueue l) \<le> DPDK_TX_BURST_SIZE"
  shows "pkt_is h p' (Transfer k rw q c old)"
proof -
  from queue_is_Cons [OF q(1)] obtain w ws where w: "wqueue l = w # ws" "queue_is ws q" "wq_op w = state_of rw"
    "k = Key (wq_host w) (wqe_task w)" "cluster_host (wq_host w)" by blast
  have "length ws < 2 ^ 32" using q(2) w by (simp add: DPDK_TX_BURST_SIZE_def)
  then have "unat (of_nat (length ws) :: u32) = length ws" by (rule unat_of_nat_u32)
  moreover have "length q \<le> DPDK_TX_BURST_SIZE" using q(2) w queue_is_length [OF w(2)] by simp
  moreover have p': "ptype p' = POST_LOCK_TRANSFER" "hdr_ncnt (hdr p') = ucast (ncnt l)" "machine_id (hdr p') = wq_host w"
    "hdr_task_id (hdr p') = wqe_task w" "agent (hdr p') = h" "wq_size (hdr p') = of_nat (length ws)"
    "mode_old_mode (hdr p') = MODE_OLD_MODE (lock_state_code (wq_op w)) (lock_state_code (mode l))"
    "ws \<noteq> [] \<Longrightarrow> pkt_wq p' = ws"
    using f w(1) by (auto simp: lock_transfer_helper_def)
  ultimately have "carries p' q" using w(2) by (cases "ws = []") (auto simp: carries_def)
  moreover have "pkt_mode (hdr p') = rw" "pkt_old_mode (hdr p') = old"
    using pkt_mode_eq [OF p'(7)] h(3) w(3) code_bit(1) by (cases rw; cases old; simp)+
  moreover have "key_is p' k" using p'(3,4) w(4,5) wqe_task_bound [of w] by (simp add: key_is_def)
  ultimately show ?thesis using p'(1,2,5) h by simp
qed

lemma give_up_packet:
  assumes l: "node_is l n" "n_agent n" "length (wqueue l) \<le> DPDK_TX_BURST_SIZE" "cluster_host h"
    and g: "give_up n = (n', mout)"
  shows "\<exists>r p' l'. release_free_or_transfer h l p = Inr (r, p', l', []) \<and> node_is l' n' \<and>
    list_all2 (pkt_is h) (if r = 0 then [] else [p']) mout \<and> task_granted l' = task_granted l"
proof -
  have q: "queue_is (wqueue l) (n_queue n)" "(ucast (ncnt l) :: u8) = of_nat (n_cnt n)" "mode l = state_of (n_mode n)"
    "lock_no_holders l \<longleftrightarrow> n_holders n = {}"
    using l(1,2) by (auto simp: node_is_def lock_no_holders_def)
  consider (held) "n_holders n \<noteq> {}" | (free) "n_holders n = {}" "n_queue n = []"
    | (transfer) k rw q' where "n_holders n = {}" "n_queue n = (k, rw) # q'"
    by (cases "n_queue n") auto
  then show ?thesis
  proof cases
    case held
    with g q l(1) show ?thesis by (auto simp: release_free_or_transfer_def give_up_def)
  next
    case free
    with q(1) have w: "wqueue l = []" by (simp add: queue_is_def)
    obtain p' l' where f: "lock_free_helper h l p = (p', l')" by fastforce
    then have "release_free_or_transfer h l p = Inr (1, p', l', [])"
      using free q w by (simp add: release_free_or_transfer_def lock_no_waiters_def)
    moreover have "n' = n\<lparr>n_agent := False, n_cnt := 0\<rparr>" "mout = [Free (n_cnt n) (n_mode n)]"
      using g free by (auto simp: give_up_def)
    moreover have "node_is l' (n\<lparr>n_agent := False, n_cnt := 0\<rparr>)"
      by (rule node_given_up [OF l(1,2)]) (use w free f in \<open>auto simp: queue_is_def lock_free_helper_def\<close>)
    moreover have "task_granted l' = task_granted l" using f by (auto simp: lock_free_helper_def)
    ultimately show ?thesis using free_packet [OF f l(4) q(2,3)] by simp
  next
    case transfer
    note qc = q(1) [unfolded transfer(2)]
    from queue_is_Cons [OF qc] obtain w ws where w: "wqueue l = w # ws" by blast
    obtain n0 p' l' where f: "lock_transfer_helper h l p = Inr (n0, p', l')" using w by (auto simp: lock_transfer_helper_def)
    obtain r where r: "release_free_or_transfer h l p = Inr (r, p', l', [])" "r \<noteq> 0"
      using transfer q w f by (cases "n0 = 0") (simp_all add: release_free_or_transfer_def lock_no_waiters_def sizeof_wqe_def)
    have "n' = n\<lparr>n_agent := False, n_cnt := 0, n_queue := []\<rparr>" "mout = [Transfer k rw q' (n_cnt n) (n_mode n)]"
      using g transfer by (auto simp: give_up_def)
    moreover have "node_is l' (n\<lparr>n_agent := False, n_cnt := 0, n_queue := []\<rparr>)"
      by (rule node_given_up [OF l(1,2)]) (use w f in \<open>auto simp: queue_is_def lock_transfer_helper_def\<close>)
    moreover have "task_granted l' = task_granted l" using f w by (auto simp: lock_transfer_helper_def)
    ultimately show ?thesis using r transfer_packet [OF f l(4) q(2,3) qc l(3)] by simp
  qed
qed

subsection \<open>Operations of the applications\<close>

lemma observe_flags: "flags_ok h l st \<Longrightarrow> observe h l st = st"
proof
  fix k
  assume f: "flags_ok h l st"
  show "observe h l st k = st k"
  proof (cases "st k")
    case (Waiting rw)
    moreover have "task_granted l (key_task k) \<noteq> Some True" if "key_host k = h"
      using f that Waiting by (cases k) (auto simp: flags_ok_def)
    ultimately show ?thesis by (simp add: observe_def)
  qed (simp_all add: observe_def)
qed

lemma node_is_upd [simp]:
  "node_is (l\<lparr>task_granted := f\<rparr>) n = node_is l n" "node_is (l\<lparr>local_holders := L\<rparr>) n = node_is l n"
  "node_is (l\<lparr>fwd_back_cnt := g\<rparr>) n = node_is l n"
  by (simp_all add: node_is_def lock_out_of_range_def)

lemma node_is_prepare [simp]: "node_is (lock_prepare_wait l t) n = node_is l n"
  by (simp add: lock_prepare_wait_def split: option.splits)

lemma flags_prepare: "task_granted (lock_prepare_wait l t) x = Some True \<Longrightarrow> task_granted l x = Some True"
  by (auto simp: lock_prepare_wait_def split: option.splits if_splits)

lemma flags_ok_upd:
  assumes "flags_ok h l st" "\<And>x. task_granted l' x = Some True \<Longrightarrow> task_granted l x = Some True"
    and "st (Key h t) \<noteq> Idle \<Longrightarrow> s \<noteq> Idle \<and> (\<forall>rw. s \<noteq> Waiting rw)"
  shows "flags_ok h l' (st(Key h t := s))"
  using assms by (auto simp: flags_ok_def)

lemma node_is_enqueue:
  assumes "node_is l n" "unat t < 2 ^ 30" "op = LOCK_SHARED \<or> op = LOCK_EXCL" "cluster_host h"
  shows "node_is (l\<lparr>wqueue := wqueue l @ [mk_wqe op t h]\<rparr>) (n\<lparr>n_queue := n_queue n @ [(Key h t, rw_of op)]\<rparr>)"
  using assms queue_is_append [OF _ queue_is_one [OF assms(2-4)]] by (simp add: node_is_def lock_out_of_range_def)

lemma node_is_holder:
  "node_is l n \<Longrightarrow> node_is (l\<lparr>holders := insert (holder_of k) (holders l)\<rparr>) (n\<lparr>n_holders := insert k (n_holders n)\<rparr>)"
  by (simp add: node_is_def lock_out_of_range_def)

lemma node_is_no_holder:
  "node_is l n \<Longrightarrow> node_is (l\<lparr>holders := holders l - {holder_of k}\<rparr>) (n\<lparr>n_holders := n_holders n - {k}\<rparr>)"
  by (simp add: node_is_def lock_out_of_range_def holders_remove)

lemma node_is_delayed:
  "node_is l n \<Longrightarrow> node_is (l\<lparr>delayed_free := d\<rparr>) (n\<lparr>n_delayed := d\<rparr>)"
  by (simp add: node_is_def lock_out_of_range_def)

lemma acquire_sim:
  assumes l: "node_is l n" and f: "flags_ok h l st"
    and t: "cluster_host h" "unat t < 2 ^ 30" "op = LOCK_SHARED \<or> op = LOCK_EXCL" "st (Key h t) = Idle"
    and b: "\<not> TPCC_ENB_LOCAL b" "\<not> FISSLOCK_BMV2 b" "\<not> FISSLOCK_DEBUG b"
  obtains (granted) l' where "n_agent n" "n_mode n = RW_SHARED" "op = LOCK_SHARED"
      "acquire_on b h True d l t op = Inr (Req_granted, l', [])" "node_is l' (n\<lparr>n_holders := insert (Key h t) (n_holders n)\<rparr>)"
      "flags_ok h l' (st(Key h t := Holding RW_SHARED))"
  | (queued) l' where "n_agent n"
      "acquire_on b h True d l t op = Inr (Req_flag d t, l', [])"
      "node_is l' (n\<lparr>n_queue := n_queue n @ [(Key h t, rw_of op)]\<rparr>)" "flags_ok h l' (st(Key h t := Waiting (rw_of op)))"
  | (sent) l' p where "\<not> n_agent n"
      "acquire_on b h True d l t op = Inr (Req_flag d t, l', [p])" "node_is l' n"
      "pkt_is h p (Acq (Key h t) (rw_of op))" "flags_ok h l' (st(Key h t := Waiting (rw_of op)))"
proof (cases "n_agent n")
  case True
  show ?thesis
  proof (cases "n_mode n = RW_SHARED \<and> op = LOCK_SHARED")
    case s: True
    have "acquire_on b h True d l t op = Inr (Req_granted, handle_granted_acquire l h t, [])"
      using True s l b by (simp add: acquire_on_def node_is_def)
    moreover have "node_is (handle_granted_acquire l h t) (n\<lparr>n_holders := insert (Key h t) (n_holders n)\<rparr>)"
      using node_is_holder [OF l, of "Key h t"] by (simp add: handle_granted_acquire_def lock_add_holder_def)
    moreover have "flags_ok h (handle_granted_acquire l h t) (st(Key h t := Holding RW_SHARED))"
      by (rule flags_ok_upd [OF f]) (auto simp: handle_granted_acquire_def lock_add_holder_def)
    ultimately show ?thesis using granted True s by blast
  next
    case s: False
    let ?l = "lock_prepare_wait (l\<lparr>wqueue := wqueue l @ [mk_wqe op t h]\<rparr>) t"
    have "acquire_on b h True d l t op = Inr (Req_flag d t, ?l, [])"
      using True s l b by (auto simp: acquire_on_def node_is_def handle_suspend_acquire_def ASSERT_def lock_append_to_wq_def)
    moreover have "flags_ok h ?l (st(Key h t := Waiting (rw_of op)))"
      by (rule flags_ok_upd [OF f]) (use t(4) in \<open>auto dest: flags_prepare\<close>)
    ultimately show ?thesis using queued True node_is_enqueue [OF l t(2,3,1)] by simp
  qed
next
  case False
  let ?l = "lock_prepare_wait l t"
  have "acquire_on b h True d l t op = Inr (Req_flag d t, ?l, [send_post_acquire h (lock_state_code op) (lid l) h t])"
    using False l b by (simp add: acquire_on_def node_is_def)
  moreover have "flags_ok h ?l (st(Key h t := Waiting (rw_of op)))"
    by (rule flags_ok_upd [OF f]) (use t(4) in \<open>auto dest: flags_prepare\<close>)
  ultimately show ?thesis using sent False l sent_acquire [OF t(1-3)] by simp
qed

lemma release_agent_sim:
  assumes l: "node_is l n" "n_agent n" "length (wqueue l) \<le> DPDK_TX_BURST_SIZE" "cluster_host h" and k: "Key h t \<in> n_holders n"
    and b: "\<not> TPCC_ENB_LOCAL b" "\<not> FISSLOCK_BMV2 b" "\<not> FISSLOCK_DEBUG b"
    and g: "give_up (n\<lparr>n_holders := n_holders n - {Key h t}\<rparr>) = (n', mout)"
  shows "\<exists>l' out. release_on b h l t = Inr (l', out) \<and> node_is l' n' \<and> list_all2 (pkt_is h) out mout \<and>
    task_granted l' = task_granted l"
proof -
  let ?l = "l\<lparr>local_holders := local_holders l - {t}, holders := holders l - {LOCK_HOLDER h t}\<rparr>"
  have "LOCK_HOLDER h t \<in> holders l" using l(1) k by (force simp: node_is_def simp flip: holder_of_Key)
  then have r: "release_on b h l t = release_done b h ?l"
    using l(1,2) b
    by (simp add: release_on_def node_is_def release_at_agent_def Let_def lock_has_holder_def handle_release_def ASSERT_def
        lock_remove_holder_def release_done_def lock_out_of_range_def)
  have "node_is ?l (n\<lparr>n_holders := n_holders n - {Key h t}\<rparr>)"
    using node_is_no_holder [of "l\<lparr>local_holders := local_holders l - {t}\<rparr>" n "Key h t"] l(1) by simp
  from give_up_local [OF this _ _ l(4) b(2,3) g] l(2,3) r show ?thesis by simp
qed

lemma release_send_sim:
  assumes "node_is l n" "\<not> n_agent n" "cluster_host h" "unat t < 2 ^ 30" "\<not> TPCC_ENB_LOCAL b"
  shows "\<exists>l' p. release_on b h l t = Inr (l', [p]) \<and> node_is l' n \<and> pkt_is h p (Rel (Key h t)) \<and> task_granted l' = task_granted l"
  using assms sent_release [OF assms(3,4), of "lid l"] by (simp add: release_on_def node_is_def lock_out_of_range_def)

subsection \<open>Packets from the switch\<close>

text \<open>
  A host receives a packet: it takes the step of the protocol, and the tasks it notifies are
  the tasks that are told of their grant.
\<close>

definition host_step_is ::
  "build \<Rightarrow> host_id \<Rightarrow> innet_lock \<Rightarrow> packet \<Rightarrow> (key \<Rightarrow> tstat) \<Rightarrow> msg \<Rightarrow> node \<Rightarrow> bool" where
  "host_step_is b h l p st m n \<longleftrightarrow>
     (\<exists>r p' l' out keep n' mout. lock_packet_process b None h l p = Inr (r, p', l', out) \<and>
        receive keep m n = (n', mout) \<and> node_is l' n' \<and>
        list_all2 (pkt_is h) (out @ (if r = 0 then [] else [p'])) mout \<and>
        observe h l' st = told m st \<and> flags_ok h l' (told m st))"

lemma host_stepI:
  assumes "lock_packet_process b None h l p = Inr (r, p', l', out)" "receive keep m n = (n', mout)" "node_is l' n'"
    and "list_all2 (pkt_is h) (out @ (if r = 0 then [] else [p'])) mout"
    and "observe h l' st = told m st" "flags_ok h l' (told m st)"
  shows "host_step_is b h l p st m n"
  using assms unfolding host_step_is_def by blast

lemma untold:
  assumes "flags_ok h l st" "task_granted l' = task_granted l" "told m st = st"
  shows "observe h l' st = told m st" "flags_ok h l' (told m st)"
proof -
  show f: "flags_ok h l' (told m st)" using assms by (simp add: flags_ok_def)
  then show "observe h l' st = told m st" using observe_flags [of h l' st] assms(3) by simp
qed

lemma notified:
  assumes f: "flags_ok h l st" and t: "task_granted l' = (task_granted l)(t \<mapsto> True)" and w: "st (Key h t) = Waiting rw"
  shows "observe h l' st = st(Key h t := Holding rw)" "flags_ok h l' (st(Key h t := Holding rw))"
proof -
  show "flags_ok h l' (st(Key h t := Holding rw))" using f t by (auto simp: flags_ok_def split: if_splits)
  show "observe h l' st = st(Key h t := Holding rw)"
  proof
    fix k
    show "observe h l' st k = (st(Key h t := Holding rw)) k"
    proof (cases "k = Key h t")
      case True
      then show ?thesis using w t by (simp add: observe_def)
    next
      case False
      have "observe h l' st k = observe h l st k"
        using False t by (cases k) (auto simp: observe_def split: tstat.splits)
      with False observe_flags [OF f] show ?thesis by simp
    qed
  qed
qed

lemma receive_acquire:
  assumes l: "node_is l n" "flags_ok h l st" and p: "pkt_is h p (Acq k rw)" and b: "\<not> FISSLOCK_DEBUG b"
  shows "host_step_is b h l p st (Acq k rw) n"
proof -
  let ?hd = "hdr p" let ?t = "hdr_task_id ?hd" and ?m = "machine_id ?hd"
  have m: "ptype p = POST_LOCK_ACQUIRE" "\<not> GRANTED ?hd" "pkt_mode ?hd = rw" "k = Key ?m ?t" "unat ?t < 2 ^ 30" "cluster_host ?m"
    using p by (auto simp: key_is_def)
  have nd: "\<not> lock_out_of_range l" "early_release l = (\<lambda>_. False)" "is_agent l = n_agent n" using l(1) by (simp_all add: node_is_def)
  have q: "node_is (l\<lparr>wqueue := wqueue l @ [mk_wqe (state_of rw) ?t ?m]\<rparr>) (n\<lparr>n_queue := n_queue n @ [(k, rw)]\<rparr>)"
    using node_is_enqueue [OF l(1) m(5) state_of_ops(1) m(6)] m(4) by simp
  note unf = lock_packet_process_def process_acquire_def Let_def handle_suspend_acquire_def ASSERT_def lock_append_to_wq_def state_of_MODE
  consider (queue) "n_agent n" | (keep) "\<not> n_agent n" "rw = RW_EXCL" "2 < fwd_back_cnt l (LOCK_HOLDER ?m ?t)"
    | (again) "\<not> n_agent n" "rw = RW_EXCL" "\<not> 2 < fwd_back_cnt l (LOCK_HOLDER ?m ?t)" | (reader) "\<not> n_agent n" "rw = RW_SHARED"
    by (cases rw) auto
  then show ?thesis
  proof cases
    case queue
    show ?thesis
      by (rule host_stepI [where keep = True and r = 0 and l' = "l\<lparr>wqueue := wqueue l @ [mk_wqe (state_of rw) ?t ?m]\<rparr>" and out = "[]" and p' = p])
        (use queue m nd b q untold [OF l(2), of _ "Acq k rw"] in \<open>auto simp: unf\<close>)
  next
    case keep
    show ?thesis
      by (rule host_stepI [where keep = True and r = 0 and out = "[]" and p' = p and
          l' = "l\<lparr>wqueue := wqueue l @ [mk_wqe (state_of rw) ?t ?m], fwd_back_cnt := (fwd_back_cnt l)(LOCK_HOLDER ?m ?t := 0)\<rparr>"])
        (use keep m nd b q untold [OF l(2), of _ "Acq k rw"] in \<open>auto simp: unf\<close>)
  next
    case again
    show ?thesis
      by (rule host_stepI [where keep = False and r = 1 and out = "[]" and p' = p and
          l' = "l\<lparr>fwd_back_cnt := (fwd_back_cnt l)(LOCK_HOLDER ?m ?t := fwd_back_cnt l (LOCK_HOLDER ?m ?t) + 1)\<rparr>"])
        (use again m nd b p l(1) untold [OF l(2), of _ "Acq k rw"] in \<open>auto simp: unf\<close>)
  next
    case reader
    show ?thesis
      by (rule host_stepI [where keep = False and r = 1 and out = "[]" and p' = p and l' = l])
        (use reader m nd b p l(1) untold [OF l(2), of _ "Acq k rw"] in \<open>auto simp: unf\<close>)
  qed
qed

lemma ucast_u8_add: "(ucast (x + y :: u32) :: u8) = ucast x + ucast y"
proof -
  have m: "(z mod 4294967296) mod 256 = z mod (256 :: int)" for z by (simp add: mod_mod_cancel)
  have "(a + b) mod 256 = (a mod 4294967296 + b mod 4294967296) mod (256 :: int)" for a b
    using mod_add_eq [of "a mod 4294967296" 256 "b mod 4294967296"] unfolding m by (simp add: mod_simps)
  then show ?thesis by transfer (simp add: take_bit_eq_mod mod_mod_cancel mod_simps)
qed

lemma receive_notif:
  assumes l: "node_is l n" "flags_ok h l st" and p: "pkt_is h p (Notif k)" and lim: "\<not> n_agent n \<Longrightarrow> Suc (n_cnt n) < 2 ^ 32"
  shows "host_step_is b h l p st (Notif k) n"
proof -
  have m: "ptype p = POST_LOCK_ACQUIRE" "GRANTED (hdr p)" "pkt_mode (hdr p) = RW_SHARED" "key_is p k" using p by auto
  note lh = key_is_holder [OF m(4)]
  have nd: "\<not> lock_out_of_range l" "early_release l = (\<lambda>_. False)" "is_agent l = n_agent n" using l(1) by (simp_all add: node_is_def)
  let ?l = "l\<lparr>ncnt := ncnt l + 1, holders := insert (holder_of k) (holders l)\<rparr>"
  have "lock_packet_process b None h l p = Inr (0, p, ?l, [])"
    using m nd lh by (simp add: lock_packet_process_def process_acquire_def Let_def state_of_MODE handle_granted_acquire_def lock_add_holder_def)
  moreover have "unat (ncnt l + 1) = Suc (n_cnt n)" if "\<not> n_agent n"
    using that l(1) lim by (simp add: node_is_def unat_word_ariths)
  moreover have "(ucast (ncnt l + 1) :: u8) = of_nat (Suc (n_cnt n))" if "n_agent n"
  proof -
    have "(ucast (ncnt l + 1) :: u8) = ucast (ncnt l) + 1" by (simp add: ucast_u8_add)
    then show ?thesis using that l(1) by (simp add: node_is_def)
  qed
  ultimately show ?thesis
    using l(1) untold [OF l(2), of ?l "Notif k"]
    by (intro host_stepI [where keep = True and r = 0 and out = "[]" and p' = p and l' = ?l])
      (auto simp: node_is_def lock_out_of_range_def)
qed

lemma receive_grant:
  assumes l: "node_is l n" "flags_ok h l st" and p: "pkt_is h p (Grant k)" and k: "key_host k = h" "st k = Waiting rw"
    and b: "\<not> FISSLOCK_DEBUG b"
  shows "host_step_is b h l p st (Grant k) n"
proof -
  have m: "ptype p = POST_LOCK_GRANT_WO_AGENT" "k = Key h (hdr_task_id (hdr p))" using p k(1) by (auto simp: key_is_def)
  let ?l = "lock_local_notify l (hdr_task_id (hdr p))"
  have "told (Grant k) st = st(k := Holding rw)" using k by simp
  with notified [OF l(2), of ?l "hdr_task_id (hdr p)" rw] k(2) m(2) l(1) m(1) b show ?thesis
    by (intro host_stepI [where keep = True and r = 0 and out = "[]" and p' = p and l' = ?l])
      (auto simp: lock_packet_process_def process_grant_wo_agent_def ASSERT_def lock_local_notify_def)
qed

lemma receive_rel:
  assumes l: "node_is l n" "flags_ok h l st" and p: "pkt_is h p (Rel k)" and k: "k \<in> n_holders n"
    and lim: "length (wqueue l) \<le> DPDK_TX_BURST_SIZE" "cluster_host h" and b: "\<not> FISSLOCK_DEBUG b"
  shows "host_step_is b h l p st (Rel k) n"
proof -
  have m: "ptype p = POST_LOCK_RELEASE" "key_is p k" using p by auto
  note lh = key_is_holder [OF m(2)]
  have nd: "\<not> lock_out_of_range l" "is_agent l = n_agent n" "holder_of k \<in> holders l" "mode l \<noteq> FREE \<or> \<not> n_agent n"
    using l(1) k by (auto simp: node_is_def)
  have h: "node_is (l\<lparr>holders := holders l - {holder_of k}\<rparr>) (n\<lparr>n_holders := n_holders n - {k}\<rparr>)"
    by (rule node_is_no_holder [OF l(1)])
  show ?thesis
  proof (cases "n_agent n")
    case True
    obtain n' mout where g: "give_up (n\<lparr>n_holders := n_holders n - {k}\<rparr>) = (n', mout)" by fastforce
    from give_up_packet [OF h _ _ lim(2) g, of p] lim(1) True obtain r p' l' where
      r: "release_free_or_transfer h (l\<lparr>holders := holders l - {holder_of k}\<rparr>) p = Inr (r, p', l', [])"
        "node_is l' n'" "list_all2 (pkt_is h) (if r = 0 then [] else [p']) mout" "task_granted l' = task_granted l"
      by auto
    have "lock_packet_process b None h l p = Inr (r, p', l', [])"
      using m nd lh True r(1) b
      by (simp add: lock_packet_process_def process_release_def Let_def lock_has_holder_def handle_release_def ASSERT_def lock_remove_holder_def)
    then show ?thesis
      by (rule host_stepI [where keep = True]) (use g True r untold [OF l(2) r(4), of "Rel k"] in auto)
  next
    case False
    let ?l = "l\<lparr>holders := holders l - {holder_of k}, delayed_free := True\<rparr>"
    have "lock_packet_process b None h l p = Inr (0, p, ?l, [])"
      using m nd lh False
      by (simp add: lock_packet_process_def process_release_def Let_def lock_has_holder_def lock_remove_holder_def)
    then show ?thesis
      by (rule host_stepI [where keep = True])
        (use node_is_delayed [OF h, of True] False untold [OF l(2), of ?l "Rel k"] in simp_all)
  qed
qed

lemma ucast_exact: "unat (x :: u32) = n \<Longrightarrow> (ucast x :: u8) = of_nat n"
  by auto

lemma ucast_u32_u8 [simp]: "(ucast (ucast (x :: u8) :: u32) :: u8) = x"
  by (rule bit_word_eqI) (auto simp: bit_ucast_iff)

lemma node_agent_again:
  assumes "node_is l n" "\<not> n_agent n" "queue_is (wqueue l') (n_queue n')" "(x :: u8) = of_nat c"
    and "l' = l\<lparr>mode := state_of rw, is_agent := True, ncnt := ncnt l + ucast x, wqueue := wqueue l'\<rparr>"
    and "n' = n\<lparr>n_agent := True, n_mode := rw, n_cnt := n_cnt n + c, n_queue := n_queue n'\<rparr>"
  shows "node_is l' n'"
proof -
  have "(ucast (ncnt l + ucast x) :: u8) = of_nat (n_cnt n + c)"
    using assms(1,2,4) ucast_exact [of "ncnt l" "n_cnt n"] by (simp add: ucast_u8_add node_is_def)
  with assms show ?thesis by (cases l; cases l'; cases n; cases n') (simp add: node_is_def lock_out_of_range_def)
qed

lemma node_forwards:
  assumes "node_is l n" "\<not> n_agent n"
  shows "node_is (l\<lparr>ncnt := 0, delayed_free := False\<rparr>) (n\<lparr>n_cnt := 0, n_delayed := False\<rparr>)"
  using assms by (simp add: node_is_def lock_out_of_range_def)

lemma node_delayed: "node_is l n \<Longrightarrow> delayed_free l \<and> lock_no_holders l \<longleftrightarrow> n_delayed n \<and> n_holders n = {}"
  by (auto simp: node_is_def lock_no_holders_def)

lemma receive_free:
  assumes l: "node_is l n" "flags_ok h l st" "\<not> n_agent n" and p: "pkt_is h p (Free c old)" and b: "\<not> FISSLOCK_DEBUG b"
  shows "host_step_is b h l p st (Free c old) n"
proof -
  have m: "ptype p = POST_LOCK_FREE" "pkt_old_mode (hdr p) = old" "hdr_ncnt (hdr p) = of_nat c" using p by auto
  have u: "(ucast (ncnt l) :: u8) = of_nat (n_cnt n)" using l(1,3) ucast_exact [of "ncnt l" "n_cnt n"] by (simp add: node_is_def)
  note unf = lock_packet_process_def process_push_back_def Let_def ASSERT_def state_of_OLD_MODE
  show ?thesis
  proof (cases "n_delayed n \<and> n_holders n = {}")
    case True
    let ?l = "l\<lparr>ncnt := 0, delayed_free := False\<rparr>" and ?p = "p\<lparr>hdr := (hdr p)\<lparr>hdr_ncnt := hdr_ncnt (hdr p) + ucast (ncnt l)\<rparr>\<rparr>"
    have "lock_packet_process b None h l p = Inr (1, ?p, ?l, [])" using True node_delayed [OF l(1)] m(1) by (simp add: unf)
    moreover have "pkt_is h ?p (Free (c + n_cnt n) old)" using p m u by (simp add: pkt_mode_def pkt_old_mode_def)
    ultimately show ?thesis
      using True node_forwards [OF l(1,3)] untold [OF l(2), of ?l "Free c old"]
      by (intro host_stepI [where keep = True and r = 1 and p' = ?p and l' = ?l and out = "[]"]) auto
  next
    case False
    let ?l = "l\<lparr>mode := state_of old, is_agent := True, ncnt := ncnt l + ucast (hdr_ncnt (hdr p))\<rparr>"
    have "lock_packet_process b None h l p = Inr (0, p, ?l, [])" using False node_delayed [OF l(1)] m b by (simp add: unf)
    moreover have "node_is ?l (n\<lparr>n_agent := True, n_mode := old, n_cnt := n_cnt n + c\<rparr>)"
      by (rule node_agent_again [OF l(1,3) _ m(3)]) (use l(1) in \<open>auto simp: node_is_def\<close>)
    ultimately show ?thesis
      using False untold [OF l(2), of ?l "Free c old"]
      by (intro host_stepI [where keep = True and r = 0 and p' = p and l' = ?l and out = "[]"]) auto
  qed
qed

lemma carries_queue:
  assumes "carries p q"
  obtains wq where "packet_queue p = Inr wq" "queue_is wq q" "length wq \<le> DPDK_TX_BURST_SIZE" "wq_size (hdr p) = 0 \<Longrightarrow> wq = []"
  using assms queue_is_length [of _ q] by (auto simp: carries_def packet_queue_def)

lemma receive_transfer:
  assumes l: "node_is l n" "flags_ok h l st" "\<not> n_agent n" and p: "pkt_is h p (Transfer k rw q c old)" and b: "\<not> FISSLOCK_DEBUG b"
  shows "host_step_is b h l p st (Transfer k rw q c old) n"
proof -
  let ?hd = "hdr p"
  have m: "ptype p = POST_LOCK_TRANSFER" "pkt_old_mode ?hd = old" "hdr_ncnt ?hd = of_nat c" "pkt_mode ?hd = rw" "key_is p k" "carries p q"
    using p by auto
  have u: "(ucast (ncnt l) :: u8) = of_nat (n_cnt n)" using l(1,3) ucast_exact [of "ncnt l" "n_cnt n"] by (simp add: node_is_def)
  note unf = lock_packet_process_def process_push_back_def Let_def ASSERT_def state_of_OLD_MODE state_of_MODE lock_append_to_wq_def
  show ?thesis
  proof (cases "n_delayed n \<and> n_holders n = {}")
    case True
    let ?l = "l\<lparr>ncnt := 0, delayed_free := False\<rparr>" and ?p = "p\<lparr>hdr := ?hd\<lparr>hdr_ncnt := hdr_ncnt ?hd + ucast (ncnt l)\<rparr>\<rparr>"
    have "lock_packet_process b None h l p = Inr (1, ?p, ?l, [])" using True node_delayed [OF l(1)] m(1) by (simp add: unf)
    moreover have "pkt_is h ?p (Transfer k rw q (c + n_cnt n) old)"
      using p m u by (simp add: pkt_mode_def pkt_old_mode_def key_is_def carries_def)
    ultimately show ?thesis
      using True node_forwards [OF l(1,3)] untold [OF l(2), of ?l "Transfer k rw q c old"]
      by (intro host_stepI [where keep = True and r = 1 and p' = ?p and l' = ?l and out = "[]"]) auto
  next
    case False
    obtain wq where wq: "packet_queue p = Inr wq" "queue_is wq q" "wq_size ?hd = 0 \<Longrightarrow> wq = []" using carries_queue [OF m(6)] by blast
    let ?w = "mk_wqe (state_of rw) (hdr_task_id ?hd) (machine_id ?hd)"
    let ?l = "l\<lparr>mode := state_of old, is_agent := True, ncnt := ncnt l + ucast (hdr_ncnt ?hd), wqueue := wqueue l @ ?w # wq\<rparr>"
    have "lock_packet_process b None h l p = Inr (0, p, ?l, [])"
      using False node_delayed [OF l(1)] m b wq(1,3) by (cases "wq_size ?hd = 0") (auto simp: unf word_neq_0_conv)
    moreover have "queue_is [?w] [(k, rw)]"
      using queue_is_one [OF _ state_of_ops(1), of "hdr_task_id ?hd" "machine_id ?hd" rw] m(5) by (simp add: key_is_def)
    then have "queue_is (wqueue l @ [?w] @ wq) (n_queue n @ [(k, rw)] @ q)"
      using l(1) wq(2) by (intro queue_is_append) (auto simp: node_is_def)
    then have "node_is ?l (n\<lparr>n_agent := True, n_mode := old, n_cnt := n_cnt n + c, n_queue := n_queue n @ (k, rw) # q\<rparr>)"
      by (intro node_agent_again [OF l(1,3) _ m(3)]) auto
    ultimately show ?thesis
      using False untold [OF l(2), of ?l "Transfer k rw q c old"]
      by (intro host_stepI [where keep = True and r = 0 and p' = p and l' = ?l and out = "[]"]) auto
  qed
qed

subsection \<open>A new agent\<close>

lemma queue_is_readers:
  assumes "queue_is wq q"
  shows "wqe_holder ` {w \<in> set wq. wq_op w = LOCK_SHARED} = holder_of ` set (readers q)"
    "queue_is (filter (\<lambda>w. wq_op w \<noteq> LOCK_SHARED) wq) (writers q)"
    "list_all2 (pkt_is h) (map (digest_grant l) (filter (\<lambda>w. wq_op w = LOCK_SHARED) wq)) (map Grant (readers q))"
proof -
  have q: "q = map entry_of wq" "\<forall>w \<in> set wq. (wq_op w = LOCK_SHARED \<or> wq_op w = LOCK_EXCL) \<and> cluster_host (wq_host w)"
    using assms by (auto simp: queue_is_def)
  have rw: "snd (entry_of w) = RW_SHARED \<longleftrightarrow> wq_op w = LOCK_SHARED" if "w \<in> set wq" for w
    using that q(2) by (auto simp: entry_of_def rw_of_def)
  have r: "readers q = map (\<lambda>w. Key (wq_host w) (wqe_task w)) (filter (\<lambda>w. wq_op w = LOCK_SHARED) wq)"
    unfolding q(1) readers_def filter_map using rw by (simp add: comp_def entry_of_def cong: filter_cong)
  have w: "writers q = map entry_of (filter (\<lambda>w. wq_op w \<noteq> LOCK_SHARED) wq)"
    unfolding q(1) writers_def filter_map using rw by (simp add: comp_def cong: filter_cong)
  show "wqe_holder ` {w \<in> set wq. wq_op w = LOCK_SHARED} = holder_of ` set (readers q)"
    unfolding r by (force simp: wqe_holder_def)
  show "queue_is (filter (\<lambda>w. wq_op w \<noteq> LOCK_SHARED) wq) (writers q)" using q(2) by (auto simp: queue_is_def w)
  show "list_all2 (pkt_is h) (map (digest_grant l) (filter (\<lambda>w. wq_op w = LOCK_SHARED) wq)) (map Grant (readers q))"
    using q(2) wqe_task_bound by (simp add: r list.rel_map key_is_def list_all2_same)
qed

lemma node_new_agent:
  assumes "node_is l n" "\<not> n_agent n" "queue_is (wqueue l') (n_queue n')" "(ucast (ncnt l') :: u8) = of_nat (n_cnt n')"
    and "holders l' = holder_of ` n_holders n'"
    and "l' = l\<lparr>mode := state_of rw, is_agent := True, ncnt := ncnt l', holders := holders l', wqueue := wqueue l',
               local_holders := local_holders l', task_granted := task_granted l'\<rparr>"
    and "n' = n\<lparr>n_agent := True, n_mode := rw, n_cnt := n_cnt n', n_holders := n_holders n', n_queue := n_queue n'\<rparr>"
  shows "node_is l' n'"
  using assms by (cases l; cases l'; cases n; cases n') (simp add: node_is_def lock_out_of_range_def)

lemma small_task_not_restore: "unat t < 2 ^ 30 \<Longrightarrow> t \<noteq> TASK_FOR_RESTORE"
  by (auto simp: TASK_FOR_RESTORE_def unsigned_minus_1_eq_mask mask_eq_exp_minus_1)

text \<open>The packet that makes a host the agent, and what its processing has to achieve.\<close>

definition agent_grant :: "host_id \<Rightarrow> packet \<Rightarrow> key \<Rightarrow> rw_mode \<Rightarrow> bool \<Rightarrow> wqe list \<Rightarrow> bool" where
  "agent_grant h p k rw tr wq \<longleftrightarrow>
     ptype p = POST_LOCK_GRANT_WITH_AGENT \<and> TRANSFERRED (hdr p) = tr \<and> pkt_mode (hdr p) = rw \<and>
     k = Key h (hdr_task_id (hdr p)) \<and> hdr_task_id (hdr p) \<noteq> TASK_FOR_RESTORE \<and>
     packet_queue p = Inr wq \<and> length wq \<le> DPDK_TX_BURST_SIZE \<and> (wq_size (hdr p) = 0 \<longrightarrow> wq = [])"

lemma agent_grantI:
  assumes "pkt_is h p (Grant_agent k rw tr q)" "key_host k = h"
  obtains wq where "agent_grant h p k rw tr wq" "queue_is wq q"
proof -
  have "carries p q" using assms(1) by simp
  then obtain wq where "packet_queue p = Inr wq" "queue_is wq q" "length wq \<le> DPDK_TX_BURST_SIZE" "wq_size (hdr p) = 0 \<Longrightarrow> wq = []"
    by (rule carries_queue) blast
  with assms small_task_not_restore that show ?thesis by (auto simp: agent_grant_def key_is_def)
qed

lemma agent_step:
  assumes "agent_grant h p k rw tr wq" "flags_ok h l st" "st k = Waiting rw"
    and "lock_packet_process b None h l p = Inr (0, p, l', out)" "receive True (Grant_agent k rw tr q) n = (n', mout)"
    and "node_is l' n'" "list_all2 (pkt_is h) out mout" "task_granted l' = (task_granted l)(hdr_task_id (hdr p) \<mapsto> True)"
  shows "host_step_is b h l p st (Grant_agent k rw tr q) n"
proof -
  have "told (Grant_agent k rw tr q) st = st(Key h (hdr_task_id (hdr p)) := Holding rw)" "st (Key h (hdr_task_id (hdr p))) = Waiting rw"
    using assms(1,3) by (auto simp: agent_grant_def)
  with notified [OF assms(2,8)] assms(4-7) show ?thesis
    by (intro host_stepI [where keep = True and r = 0 and p' = p and l' = l' and out = out and mout = mout and n' = n']) simp_all
qed

lemmas agent_defs = lock_packet_process_def process_grant_with_agent_def Let_def ASSERT_def state_of_MODE lock_add_holder_def
  lock_local_notify_def lock_unmarshal_wq_def lock_digest_wq_def digest_loop_eq agent_grant_def

lemma receive_transferred_shared:
  assumes l: "node_is l n" "flags_ok h l st" "\<not> n_agent n" and p: "agent_grant h p k RW_SHARED True wq" and wq: "queue_is wq q"
    and k: "st k = Waiting RW_SHARED" and b: "\<not> FISSLOCK_DEBUG b"
  shows "host_step_is b h l p st (Grant_agent k RW_SHARED True q) n"
proof -
  let ?t = "hdr_task_id (hdr p)"
  have u: "(ucast (ncnt l) :: u8) = of_nat (n_cnt n)" using l(1,3) ucast_exact [of "ncnt l" "n_cnt n"] by (simp add: node_is_def)
  have q: "holders l = holder_of ` n_holders n" "queue_is (wqueue l) (n_queue n)" using l(1) by (simp_all add: node_is_def)
  define l' where "l' = lock_local_notify (l\<lparr>is_agent := True, mode := LOCK_SHARED,
    holders := insert (LOCK_HOLDER h ?t) (holders l) \<union> wqe_holder ` {w \<in> set wq. wq_op w = LOCK_SHARED},
    wqueue := wqueue l @ filter (\<lambda>w. wq_op w \<noteq> LOCK_SHARED) wq\<rparr>) ?t"
  have proc: "lock_packet_process b None h l p = Inr (0, p, l', map (digest_grant l) (filter (\<lambda>w. wq_op w = LOCK_SHARED) wq))"
    using p b by (cases "wq_size (hdr p) = 0") (auto simp: agent_defs l'_def word_neq_0_conv digest_grant_def)
  have "queue_is (wqueue l') (n_queue n @ writers q)"
    using queue_is_append [OF q(2) queue_is_readers(2) [OF wq]] by (simp add: l'_def lock_local_notify_def)
  moreover have "holders l' = holder_of ` (insert k (n_holders n) \<union> set (readers q))"
    using q(1) queue_is_readers(1) [OF wq] p by (auto simp: l'_def lock_local_notify_def image_Un agent_grant_def)
  ultimately have "node_is l' (n\<lparr>n_agent := True, n_mode := RW_SHARED, n_holders := insert k (n_holders n) \<union> set (readers q),
      n_queue := n_queue n @ writers q\<rparr>)"
    using u by (intro node_new_agent [OF l(1,3), where rw = RW_SHARED]) (simp_all add: l'_def lock_local_notify_def)
  from agent_step [OF p l(2) k proc _ this queue_is_readers(3) [OF wq]] show ?thesis
    by (simp add: l'_def lock_local_notify_def Let_def)
qed

lemma receive_transferred_excl:
  assumes l: "node_is l n" "flags_ok h l st" "\<not> n_agent n" and p: "agent_grant h p k RW_EXCL True wq" and wq: "queue_is wq q"
    and k: "st k = Waiting RW_EXCL" and b: "\<not> FISSLOCK_DEBUG b"
  shows "host_step_is b h l p st (Grant_agent k RW_EXCL True q) n"
proof -
  let ?t = "hdr_task_id (hdr p)"
  have u: "(ucast (ncnt l) :: u8) = of_nat (n_cnt n)" using l(1,3) ucast_exact [of "ncnt l" "n_cnt n"] by (simp add: node_is_def)
  have q: "holders l = holder_of ` n_holders n" "queue_is (wqueue l) (n_queue n)" using l(1) by (simp_all add: node_is_def)
  define l' where "l' = lock_local_notify (l\<lparr>is_agent := True, mode := LOCK_EXCL,
    holders := insert (LOCK_HOLDER h ?t) (holders l), wqueue := wqueue l @ wq\<rparr>) ?t"
  have proc: "lock_packet_process b None h l p = Inr (0, p, l', [])"
    using p b by (cases "wq_size (hdr p) = 0") (auto simp: agent_defs l'_def word_neq_0_conv)
  have "node_is l' (n\<lparr>n_agent := True, n_mode := RW_EXCL, n_holders := insert k (n_holders n), n_queue := n_queue n @ q\<rparr>)"
    using u q(1) p queue_is_append [OF q(2) wq]
    by (intro node_new_agent [OF l(1,3), where rw = RW_EXCL]) (simp_all add: l'_def lock_local_notify_def agent_grant_def)
  from agent_step [OF p l(2) k proc _ this, where q = q and mout = "[]"] show ?thesis by (simp add: l'_def lock_local_notify_def Let_def)
qed

lemma receive_granted:
  assumes l: "node_is l n" "flags_ok h l st" "\<not> n_agent n" and p: "agent_grant h p k rw False wq"
    and k: "st k = Waiting rw" and b: "\<not> FISSLOCK_DEBUG b"
  shows "host_step_is b h l p st (Grant_agent k rw False []) n"
proof -
  let ?t = "hdr_task_id (hdr p)"
  have u: "(ucast (ncnt l) :: u8) = of_nat (n_cnt n)" using l(1,3) ucast_exact [of "ncnt l" "n_cnt n"] by (simp add: node_is_def)
  have q: "holders l = holder_of ` n_holders n" "queue_is (wqueue l) (n_queue n)" using l(1) by (simp_all add: node_is_def)
  define l' where "l' = lock_local_notify (l\<lparr>is_agent := True, mode := state_of rw,
    holders := insert (LOCK_HOLDER h ?t) (holders l), ncnt := (if rw = RW_SHARED then ncnt l + 1 else 0)\<rparr>) ?t"
  have proc: "lock_packet_process b None h l p = Inr (0, p, l', [])" using p b by (auto simp: agent_defs l'_def)
  have "node_is l' (n\<lparr>n_agent := True, n_mode := rw, n_cnt := (if rw = RW_SHARED then n_cnt n + 1 else 0),
      n_holders := insert k (n_holders n)\<rparr>)"
    using u q p by (intro node_new_agent [OF l(1,3), where rw = rw])
      (simp_all add: l'_def lock_local_notify_def agent_grant_def ucast_u8_add)
  from agent_step [OF p l(2) k proc _ this, where q = "[]" and mout = "[]"] show ?thesis by (simp add: l'_def lock_local_notify_def Let_def)
qed

lemma receive_grant_agent:
  assumes l: "node_is l n" "flags_ok h l st" "\<not> n_agent n" and p: "pkt_is h p (Grant_agent k rw tr q)"
    and k: "key_host k = h" "st k = Waiting rw" "\<not> tr \<Longrightarrow> q = []" and b: "\<not> FISSLOCK_DEBUG b"
  shows "host_step_is b h l p st (Grant_agent k rw tr q) n"
proof -
  obtain wq where wq: "agent_grant h p k rw tr wq" "queue_is wq q" by (rule agent_grantI [OF p k(1)])
  consider "tr" "rw = RW_SHARED" | "tr" "rw = RW_EXCL" | "\<not> tr" by (cases rw) auto
  then show ?thesis
    by cases (use receive_transferred_shared [OF l _ wq(2)] receive_transferred_excl [OF l _ wq(2)] receive_granted [OF l] wq(1) k b in auto)
qed

section \<open>The simulation\<close>

definition sim :: "fifo \<Rightarrow> proto \<Rightarrow> bool" where
  "sim c p \<longleftrightarrow> slot_is (f_sw c) (p_sw p) \<and> f_task c = p_task p \<and>
     (\<forall>h. node_is (f_node c h) (p_node p h) \<and> flags_ok h (f_node c h) (p_task p) \<and>
          list_all2 (pkt_is h) (f_up c h) (p_up p h) \<and> list_all2 (pkt_is h) (f_down c h) (p_down p h)) \<and>
     (\<forall>k. p_task p k \<noteq> Idle \<longrightarrow> cluster_host (key_host k) \<and> unat (key_task k) < 2 ^ 30)"

lemma simD:
  assumes "sim c p"
  shows "slot_is (f_sw c) (p_sw p)" "f_task c = p_task p" "node_is (f_node c h) (p_node p h)"
    "flags_ok h (f_node c h) (p_task p)" "list_all2 (pkt_is h) (f_up c h) (p_up p h)"
    "list_all2 (pkt_is h) (f_down c h) (p_down p h)"
    "p_task p k \<noteq> Idle \<Longrightarrow> cluster_host (key_host k) \<and> unat (key_task k) < 2 ^ 30"
  using assms by (auto simp: sim_def)

lemma flags_other: "x \<noteq> h \<Longrightarrow> flags_ok x l (st(Key h t := s)) = flags_ok x l st"
  by (simp add: flags_ok_def)

lemma flags_told:
  assumes "flags_ok x l st"
  shows "flags_ok x l (told m st)"
  using assms by (cases m) (auto simp: flags_ok_def split: tstat.splits)

text \<open>A host took a step that changes its record, sends messages and tells tasks of grants.\<close>

lemma sim_host:
  assumes s: "sim c p" and l: "node_is l n" "flags_ok h l st'" and u: "list_all2 (pkt_is h) out mout"
    and st: "observe h l st = st'" "\<And>x l. x \<noteq> h \<Longrightarrow> flags_ok x l (p_task p) \<Longrightarrow> flags_ok x l st'"
      "\<And>k. st' k \<noteq> Idle \<Longrightarrow> cluster_host (key_host k) \<and> unat (key_task k) < 2 ^ 30"
    and p': "p_sw p' = p_sw p" "p_node p' = (p_node p)(h := n)" "p_up p' = (p_up p)(h := p_up p h @ mout)"
      "p_down p' = p_down p" "p_task p' = st'"
  shows "sim (f_host h l out st c) p'"
  using simD [OF s] l u st unfolding sim_def f_host_def p'
  by (auto intro: list_all2_appendI)

lemma sim_acquire:
  assumes s: "sim c p" and inv: "proto_inv p" and e: "fifo_ok c (Fifo_acquire h t op)"
    and b: "\<not> TPCC_ENB_LOCAL b" "\<not> FISSLOCK_BMV2 b" "\<not> FISSLOCK_DEBUG b"
  shows "\<exists>c' p'. fifo_step b (Fifo_acquire h t op) c = Inr c' \<and> pstep p p' \<and> sim c' p'"
proof -
  note d = simD [OF s]
  have t: "cluster_host h" "unat t < 2 ^ 30" "op = LOCK_SHARED \<or> op = LOCK_EXCL" "p_task p (Key h t) = Idle"
    using e d(2) by (auto simp: word_less_nat_alt)
  have lim: "cluster_host (key_host k) \<and> unat (key_task k) < 2 ^ 30" if "((p_task p)(Key h t := x)) k \<noteq> Idle" for k x
    using that d(7) [of k] t by (cases "k = Key h t") auto
  have other: "flags_ok x l ((p_task p)(Key h t := y))" if "x \<noteq> h" "flags_ok x l (p_task p)" for x l y
    using that by (simp add: flags_other)
  show ?thesis
  proof (rule acquire_sim [OF d(3) d(4) t b, where d = 0])
    fix l' assume a: "n_agent (p_node p h)" "n_mode (p_node p h) = RW_SHARED" "op = LOCK_SHARED"
      "acquire_on b h True 0 (f_node c h) t op = Inr (Req_granted, l', [])"
      "node_is l' ((p_node p h)\<lparr>n_holders := insert (Key h t) (n_holders (p_node p h))\<rparr>)"
      "flags_ok h l' ((p_task p)(Key h t := Holding RW_SHARED))"
    let ?st = "(p_task p)(Key h t := Holding RW_SHARED)"
    have "pstep p (p\<lparr>p_node := (p_node p)(h := (p_node p h)\<lparr>n_holders := insert (Key h t) (n_holders (p_node p h))\<rparr>), p_task := ?st\<rparr>)"
      (is "pstep p ?p") by (rule acquire_local) (use a t in auto)
    moreover have "sim (f_host h l' [] ?st c) ?p"
      by (rule sim_host [OF s a(5,6), where mout = "[]"]) (use observe_flags [OF a(6)] lim other in auto)
    ultimately show ?thesis using a d(2) by (auto simp: rw_of_def)
  next
    fix l' assume a: "n_agent (p_node p h)" "acquire_on b h True 0 (f_node c h) t op = Inr (Req_flag 0 t, l', [])"
      "node_is l' ((p_node p h)\<lparr>n_queue := n_queue (p_node p h) @ [(Key h t, rw_of op)]\<rparr>)"
      "flags_ok h l' ((p_task p)(Key h t := Waiting (rw_of op)))"
    let ?st = "(p_task p)(Key h t := Waiting (rw_of op))"
    have "pstep p (p\<lparr>p_node := (p_node p)(h := (p_node p h)\<lparr>n_queue := n_queue (p_node p h) @ [(Key h t, rw_of op)]\<rparr>), p_task := ?st\<rparr>)"
      (is "pstep p ?p") by (rule acquire_queue) (use a t in auto)
    moreover have "sim (f_host h l' [] ?st c) ?p"
      by (rule sim_host [OF s a(3,4), where mout = "[]"]) (use observe_flags [OF a(4)] lim other in auto)
    ultimately show ?thesis using a d(2) by auto
  next
    fix l' q assume a: "\<not> n_agent (p_node p h)" "acquire_on b h True 0 (f_node c h) t op = Inr (Req_flag 0 t, l', [q])"
      "node_is l' (p_node p h)" "pkt_is h q (Acq (Key h t) (rw_of op))" "flags_ok h l' ((p_task p)(Key h t := Waiting (rw_of op)))"
    let ?st = "(p_task p)(Key h t := Waiting (rw_of op))"
    have "pstep p (p\<lparr>p_up := (p_up p)(h := p_up p h @ [Acq (Key h t) (rw_of op)]), p_task := ?st\<rparr>)"
      (is "pstep p ?p") by (rule acquire_send) (use t in auto)
    moreover have "sim (f_host h l' [q] ?st c) ?p"
      by (rule sim_host [OF s a(3,5), where mout = "[Acq (Key h t) (rw_of op)]"])
        (use observe_flags [OF a(5)] lim other a(4) in auto)
    ultimately show ?thesis using a d(2) by auto
  qed
qed

lemma limitsD:
  assumes "within_limits c" "cluster_host h"
  shows "length (wqueue (f_node c h)) \<le> DPDK_TX_BURST_SIZE"
    "\<not> is_agent (f_node c h) \<Longrightarrow> unat (ncnt (f_node c h)) + length (filter notification (f_down c h)) < 256"
proof -
  obtain i where i: "i < 8" "h = of_nat (Suc i)" using cluster_hostE [OF assms(2)] by blast
  then have "i = 0 \<or> i = 1 \<or> i = 2 \<or> i = 3 \<or> i = 4 \<or> i = 5 \<or> i = 6 \<or> i = 7" by linarith
  then have "h \<in> {1, 2, 3, 4, 5, 6, 7, 8}" using i(2) by auto
  with assms(1) show "length (wqueue (f_node c h)) \<le> DPDK_TX_BURST_SIZE"
    "\<not> is_agent (f_node c h) \<Longrightarrow> unat (ncnt (f_node c h)) + length (filter notification (f_down c h)) < 256"
    unfolding within_limits_def by blast+
qed

lemma agent_knows_holder:
  assumes inv: "proto_inv p" and a: "n_agent (p_node p h)" and t: "p_task p (Key h t) = Holding rw"
  shows "Key h t \<in> n_holders (p_node p h)"
proof -
  note o = owner_agent [OF proto_invD(3) [OF inv] a]
  show ?thesis
    using proto_invD(4) [OF inv]
  proof (cases rule: mode_inv_cases)
    case 2
    with t shared_invD(3,4) [OF 2(3) o(2), of "Key h t"] show ?thesis by (cases rw) auto
  next
    case 3
    note w = writer_invD [OF 3(3) o(2)]
    have "rw = RW_EXCL" using w(1) [of "Key h t"] t by (cases rw) (auto simp: active_def)
    with w(4) [of "Key h t"] t show ?thesis by simp
  qed (use o in simp)
qed

lemma sim_release:
  assumes s: "sim c p" and inv: "proto_inv p" and e: "fifo_ok c (Fifo_release h t)" "within_limits c"
    and b: "\<not> TPCC_ENB_LOCAL b" "\<not> FISSLOCK_BMV2 b" "\<not> FISSLOCK_DEBUG b"
  shows "\<exists>c' p'. fifo_step b (Fifo_release h t) c = Inr c' \<and> pstep p p' \<and> sim c' p'"
proof -
  note d = simD [OF s]
  obtain rw where t: "p_task p (Key h t) = Holding rw" using e d(2) by (cases "p_task p (Key h t)") auto
  have h: "cluster_host h" "unat t < 2 ^ 30" using d(7) [of "Key h t"] t by simp_all
  let ?st = "(p_task p)(Key h t := Over)"
  have lim: "cluster_host (key_host k) \<and> unat (key_task k) < 2 ^ 30" if "?st k \<noteq> Idle" for k
    using that d(7) [of k] h by (cases "k = Key h t") auto
  have other: "flags_ok x l ?st" if "x \<noteq> h" "flags_ok x l (p_task p)" for x l using that by (simp add: flags_other)
  have fl: "flags_ok h l' ?st" if "task_granted l' = task_granted (f_node c h)" for l'
    using d(4) [of h] that by (auto simp: flags_ok_def)
  show ?thesis
  proof (cases "n_agent (p_node p h)")
    case True
    obtain n mout where g: "give_up ((p_node p h)\<lparr>n_holders := n_holders (p_node p h) - {Key h t}\<rparr>) = (n, mout)" by fastforce
    from release_agent_sim [OF d(3) True limitsD(1) [OF e(2) h(1)] h(1) agent_knows_holder [OF inv True t] b g]
    obtain l' out where r: "release_on b h (f_node c h) t = Inr (l', out)" "node_is l' n" "list_all2 (pkt_is h) out mout"
      "task_granted l' = task_granted (f_node c h)" by blast
    have "pstep p (p\<lparr>p_node := (p_node p)(h := n), p_up := (p_up p)(h := p_up p h @ mout), p_task := ?st\<rparr>)"
      (is "pstep p ?p") by (rule release_agent [OF t True g])
    moreover have "sim (f_host h l' out ?st c) ?p"
      by (rule sim_host [OF s r(2) fl [OF r(4)] r(3)]) (use observe_flags [OF fl [OF r(4)]] lim other in auto)
    ultimately show ?thesis using r(1) d(2) by auto
  next
    case False
    from release_send_sim [OF d(3) False h b(1)]
    obtain l' q where r: "release_on b h (f_node c h) t = Inr (l', [q])" "node_is l' (p_node p h)" "pkt_is h q (Rel (Key h t))"
      "task_granted l' = task_granted (f_node c h)" by blast
    have "pstep p (p\<lparr>p_up := (p_up p)(h := p_up p h @ [Rel (Key h t)]), p_task := ?st\<rparr>)"
      (is "pstep p ?p") by (rule release_send [OF t False])
    moreover have "sim (f_host h l' [q] ?st c) ?p"
      by (rule sim_host [OF s r(2) fl [OF r(4)], where mout = "[Rel (Key h t)]"])
        (use observe_flags [OF fl [OF r(4)]] lim other r(3) in auto)
    ultimately show ?thesis using r(1) d(2) by auto
  qed
qed

lemma send_sim:
  assumes "sent_is out mout" "list_all2 (pkt_is x) (d x) (d' x)"
  shows "list_all2 (pkt_is x) (send out d x) (send mout d' x)"
proof -
  have "list_all2 (pkt_is x) (map snd (filter (\<lambda>y. fst y = x) out)) (map snd (filter (\<lambda>y. fst y = x) mout))"
    using assms(1) by (induction rule: list_all2_induct) auto
  with assms(2) show ?thesis by (simp add: send_eq list_all2_appendI)
qed

lemma notifs_packets: "list_all2 (pkt_is h) ps ms \<Longrightarrow> length (filter notification ps) = notifs ms"
proof (induction rule: list_all2_induct)
  case (Cons p ps m ms)
  then show ?case by (cases m) (auto simp: notification_def)
qed simp

text \<open>The counts of a host that gave the lock up, read off the machine.\<close>

lemma outstanding:
  assumes s: "sim c p" and lim: "within_limits c" and h: "cluster_host h" "\<not> n_agent (p_node p h)"
  shows "n_cnt (p_node p h) + notifs (p_down p h) < 256"
proof -
  note d = simD [OF s]
  have "unat (ncnt (f_node c h)) = n_cnt (p_node p h)" "\<not> is_agent (f_node c h)"
    using d(3) [of h] h(2) by (simp_all add: node_is_def)
  with limitsD(2) [OF lim h(1)] notifs_packets [OF d(6)] show ?thesis by simp
qed

lemma given_up_counts:
  assumes s: "sim c p" and inv: "proto_inv p" and lim: "within_limits c" "cluster_host h"
    and u: "p_up p h = m # ms" "is_tok m" "\<not> is_grant_agent m" and rw: "s_rw (p_sw p) = RW_SHARED"
  shows "counted1 m \<le> s_cnt (p_sw p) \<and> s_cnt (p_sw p) < counted1 m + 256"
proof -
  note i = proto_invD [OF inv]
  have o: "\<not> s_free (p_sw p)" "h = s_agent (p_sw p)" "\<not> n_agent (p_node p h)" "toks (p_down p h) = 0" "toks ms = 0"
    using owner_tok [OF i(3), of h] u by auto
  have "shared_inv p" using i(4) o rw by (simp add: mode_inv_def)
  from shared_invD(5) [OF this o(2)] u have "s_cnt (p_sw p) = n_cnt (p_node p h) + notifs (p_down p h) + counted1 m"
    using counted_0 [OF o(4)] counted_0 [OF o(5)] by simp
  with outstanding [OF s lim o(3)] show ?thesis by simp
qed

lemma sim_switch:
  assumes s: "sim c p" and inv: "proto_inv p" and lim: "within_limits c" and c: "f_up c h = x # xs"
  shows "\<exists>c' p'. fifo_step b (Fifo_switch h) c = Inr c' \<and> pstep p p' \<and> sim c' p'"
proof -
  note d = simD [OF s] and i = proto_invD [OF inv]
  obtain m ms where u: "p_up p h = m # ms" "pkt_is h x m" "list_all2 (pkt_is h) xs ms"
    using d(5) [of h] c by (auto simp: list_all2_Cons1)
  obtain ps mout where dec: "decide h m (p_sw p) = (ps, mout)" by fastforce
  have ok: "up_ok p h m" using typed_invD(1) [OF i(2), of m h] u by simp
  have tok: "is_tok m \<Longrightarrow> \<not> s_free (p_sw p)" using owner_tok(1) [OF i(3), of h] u by simp
  have "\<exists>s' out. slot_switch (f_sw c) x = (s', out) \<and> slot_is s' ps \<and> sent_is out mout"
  proof (cases m)
    case (Acq k rw)
    show ?thesis
      by (rule switch_acquire [OF u(2) [unfolded Acq] d(1) _ dec [unfolded Acq]])
        (use i(4) in \<open>auto simp: mode_inv_def free_inv_def\<close>)
  next
    case (Rel k)
    have "active p k" using u(1) Rel unfolding active_def by (metis list.set_intros(1))
    with switch_release [OF u(2) [unfolded Rel] d(1) _ dec [unfolded Rel]] shared_by_active [OF i(4)] show ?thesis by blast
  next
    case (Grant k)
    with switch_grant [of h x k "f_sw c" "p_sw p" ps mout] u(2) d(1) dec show ?thesis by simp
  next
    case (Free n old)
    have "cluster_host h" using u(2) Free by simp
    with given_up_counts [OF s inv lim _ u(1)] Free
    have n: "s_rw (p_sw p) = RW_SHARED \<Longrightarrow> n \<le> s_cnt (p_sw p) \<and> s_cnt (p_sw p) < n + 256" by simp
    have o: "old = s_rw (p_sw p)" "\<not> s_free (p_sw p)" using ok tok Free by simp_all
    show ?thesis by (rule switch_free [OF u(2) [unfolded Free] d(1) o(2,1) _ dec [unfolded Free]]) (use n o in simp)
  next
    case (Transfer k rw q n old)
    have "cluster_host h" using u(2) Transfer by simp
    with given_up_counts [OF s inv lim _ u(1)] Transfer
    have n: "s_rw (p_sw p) = RW_SHARED \<Longrightarrow> n \<le> s_cnt (p_sw p) \<and> s_cnt (p_sw p) < n + 256" by simp
    have o: "old = s_rw (p_sw p)" "\<not> s_free (p_sw p)" using ok tok Transfer by simp_all
    show ?thesis by (rule switch_transfer [OF u(2) [unfolded Transfer] d(1) o(2,1) _ dec [unfolded Transfer]]) (use n o in simp)
  qed (use ok in simp_all)
  then obtain s' out where sw: "slot_switch (f_sw c) x = (s', out)" "slot_is s' ps" "sent_is out mout" by blast
  let ?p = "p\<lparr>p_sw := ps, p_up := (p_up p)(h := ms), p_down := send mout (p_down p)\<rparr>"
  let ?c = "c\<lparr>f_sw := s', f_up := (f_up c)(h := xs), f_down := send out (f_down c)\<rparr>"
  have "pstep p ?p" by (rule switch [OF u(1) dec])
  moreover have "sim ?c ?p" using d sw u(3) send_sim [OF sw(3)] by (simp add: sim_def)
  ultimately show ?thesis using c sw(1) by auto
qed

lemma deliver_host_step:
  assumes s: "sim c p" and inv: "proto_inv p" and lim: "within_limits c" and u: "p_down p h = m # ms" "pkt_is h x m"
    and b: "\<not> FISSLOCK_DEBUG b"
  shows "host_step_is b h (f_node c h) x (p_task p) m (p_node p h)"
proof -
  note d = simD [OF s] and i = proto_invD [OF inv]
  have ok: "down_ok p h m" using typed_invD(2) [OF i(2), of m h] u by simp
  have tok: "is_tok m \<Longrightarrow> \<not> n_agent (p_node p h)" using owner_tok(3) [OF i(3), of h] u by simp
  have news: "cluster_host h \<and> shared_inv p \<and> h = s_agent (p_sw p)" if "is_news m"
    using news_shared [OF inv, of m h] u(1) that d(1) by (auto simp: slot_is_def)
  show ?thesis
  proof (cases m)
    case (Acq k rw)
    with receive_acquire [OF d(3) d(4), of h x k rw b] u(2) b show ?thesis by simp
  next
    case (Notif k)
    then have "\<not> n_agent (p_node p h) \<Longrightarrow> Suc (n_cnt (p_node p h)) < 2 ^ 32"
      using outstanding [OF s lim] news u(1) by fastforce
    with Notif receive_notif [OF d(3) d(4)] u(2) show ?thesis by simp
  next
    case (Grant_agent k rw tr q)
    with ok tok receive_grant_agent [OF d(3) d(4), of h x k rw tr q b] u(2) b show ?thesis by (simp add: waits_def)
  next
    case (Grant k)
    with ok receive_grant [OF d(3) d(4), of h x k RW_SHARED b] u(2) b show ?thesis by (simp add: waits_def)
  next
    case (Rel k)
    have n: "cluster_host h" "shared_inv p" "h = s_agent (p_sw p)" using news unfolding Rel is_news.simps by blast+
    then have "k \<in> n_holders (p_node p h)" using shared_invD(1) [OF n(2,3)] u(1) Rel by simp
    with Rel receive_rel [OF d(3) d(4)] u(2) b limitsD(1) [OF lim n(1)] n(1) show ?thesis by simp
  next
    case (Free n old)
    with tok receive_free [OF d(3) d(4), of h x n old b] u(2) b show ?thesis by simp
  next
    case (Transfer k rw q n old)
    with tok receive_transfer [OF d(3) d(4), of h x k rw q n old b] u(2) b show ?thesis by simp
  qed
qed

lemma sim_deliver:
  assumes s: "sim c p" and inv: "proto_inv p" and lim: "within_limits c" and c: "f_down c h = x # xs"
    and b: "\<not> FISSLOCK_DEBUG b"
  shows "\<exists>c' p'. fifo_step b (Fifo_deliver h) c = Inr c' \<and> pstep p p' \<and> sim c' p'"
proof -
  note d = simD [OF s]
  obtain m ms where u: "p_down p h = m # ms" "pkt_is h x m" "list_all2 (pkt_is h) xs ms"
    using d(6) [of h] c by (auto simp: list_all2_Cons1)
  from deliver_host_step [OF s inv lim u(1,2) b] obtain r x' l' out keep n' mout where r: "lock_packet_process b None h (f_node c h) x = Inr (r, x', l', out)"
    "receive keep m (p_node p h) = (n', mout)" "node_is l' n'" "list_all2 (pkt_is h) (out @ (if r = 0 then [] else [x'])) mout"
    "observe h l' (p_task p) = told m (p_task p)" "flags_ok h l' (told m (p_task p))"
    unfolding host_step_is_def by blast
  let ?c = "c\<lparr>f_down := (f_down c)(h := xs)\<rparr>" and ?q = "p\<lparr>p_down := (p_down p)(h := ms)\<rparr>"
  let ?p = "p\<lparr>p_node := (p_node p)(h := n'), p_down := (p_down p)(h := ms), p_up := (p_up p)(h := p_up p h @ mout),
    p_task := told m (p_task p)\<rparr>"
  have "sim ?c ?q" using d u(3) by (simp add: sim_def)
  then have "sim (f_host h l' (out @ (if r = 0 then [] else [x'])) (p_task p) ?c) ?p"
  proof (rule sim_host [OF _ r(3,6,4,5)])
    show "cluster_host (key_host k) \<and> unat (key_task k) < 2 ^ 30" if "told m (p_task p) k \<noteq> Idle" for k
      using that d(7) [of k] by (cases m) (auto split: tstat.splits if_splits)
  qed (auto intro: flags_told)
  moreover have "pstep p ?p" by (rule deliver [OF u(1) r(2)])
  ultimately show ?thesis using c r(1) d(2) by auto
qed

section \<open>Runs\<close>

lemma sim_step:
  assumes "sim c p" "proto_inv p" "within_limits c" "fifo_ok c e"
    and "\<not> TPCC_ENB_LOCAL b" "\<not> FISSLOCK_BMV2 b" "\<not> FISSLOCK_DEBUG b"
  shows "\<exists>c' p'. fifo_step b e c = Inr c' \<and> pstep\<^sup>=\<^sup>= p p' \<and> sim c' p'"
proof (cases e)
  case (Fifo_acquire h t op)
  with sim_acquire [OF assms(1,2) _ assms(5-7)] assms(4) show ?thesis by blast
next
  case (Fifo_release h t)
  with sim_release [OF assms(1,2) _ assms(3,5-7)] assms(4) show ?thesis by blast
next
  case (Fifo_switch h)
  show ?thesis
  proof (cases "f_up c h")
    case Nil
    with Fifo_switch assms(1) show ?thesis by auto
  next
    case (Cons x xs)
    with sim_switch [OF assms(1-3)] Fifo_switch show ?thesis by blast
  qed
next
  case (Fifo_deliver h)
  show ?thesis
  proof (cases "f_down c h")
    case Nil
    with Fifo_deliver assms(1) show ?thesis by auto
  next
    case (Cons x xs)
    with sim_deliver [OF assms(1-3) _ assms(7)] Fifo_deliver show ?thesis by blast
  qed
qed

lemma sim_initial: "i < SWITCH_LOCK_NUM \<Longrightarrow> sim (initial_fifo i) initial_proto"
  by (auto simp: sim_def initial_fifo_def initial_proto_def slot_is_def initial_slot_def node_is_def new_lock_def
      idle_node_def lock_out_of_range_def queue_is_def flags_ok_def)

lemma sim_run:
  assumes "sim c p" "proto_inv p" "fifo_run b es c"
    and b: "\<not> TPCC_ENB_LOCAL b" "\<not> FISSLOCK_BMV2 b" "\<not> FISSLOCK_DEBUG b"
  shows "\<exists>c' p'. fifo_exec b es c = Inr c' \<and> pstep\<^sup>*\<^sup>* p p' \<and> sim c' p' \<and> proto_inv p'"
  using assms(1-3)
proof (induction es arbitrary: c p)
  case Nil
  then show ?case by auto
next
  case (Cons e es)
  then obtain c' p' where s: "fifo_step b e c = Inr c'" "pstep\<^sup>=\<^sup>= p p'" "sim c' p'"
    using sim_step [OF _ _ _ _ b, of c p e] by auto
  have "proto_inv p'" using s(2) Cons.prems(2) proto_inv_step by auto
  with Cons.IH [OF s(3)] Cons.prems(3) s(1) obtain c2 p2 where
    "fifo_exec b es c' = Inr c2" "pstep\<^sup>*\<^sup>* p' p2" "sim c2 p2" "proto_inv p2" by auto
  moreover have "pstep\<^sup>*\<^sup>* p p'" using s(2) by auto
  ultimately show ?case using s(1) by (auto intro: rtranclp_trans)
qed


section \<open>The cluster as one reader-writer lock\<close>

text \<open>
  The abstract lock: a task asks for it, is granted it when it is compatible with every other
  holder, and releases it.
\<close>

fun compatible :: "rw_mode \<Rightarrow> tstat \<Rightarrow> bool" where
  "compatible rw (Holding rw') \<longleftrightarrow> rw = RW_SHARED \<and> rw' = RW_SHARED"
| "compatible rw _ \<longleftrightarrow> True"

inductive rw_lock :: "(key \<Rightarrow> tstat) \<Rightarrow> (key \<Rightarrow> tstat) \<Rightarrow> bool" where
  rw_ask: "st k = Idle \<Longrightarrow> rw_lock st (st(k := Waiting rw))"
| rw_grant: "st k = Idle \<or> st k = Waiting rw \<Longrightarrow> (\<And>k'. k' \<noteq> k \<Longrightarrow> compatible rw (st k')) \<Longrightarrow>
     rw_lock st (st(k := Holding rw))"
| rw_release: "st k = Holding rw \<Longrightarrow> rw_lock st (st(k := Over))"

lemma granted_compatible:
  assumes "proto_inv p" "p_task p = st(k := Holding rw)" "k' \<noteq> k"
  shows "compatible rw (st k')"
proof (cases "st k'")
  case (Holding rw')
  have "rw = RW_SHARED" using proto_inv_exclusive [OF assms(1), of k k' rw'] assms(2,3) Holding by (cases rw) auto
  moreover have "rw' = RW_SHARED" using proto_inv_exclusive [OF assms(1), of k' k rw] assms(2,3) Holding by (cases rw') auto
  ultimately show ?thesis using Holding by simp
qed simp_all

lemma told_cases: "told m st = st \<or> (\<exists>k rw. st k = Waiting rw \<and> told m st = st(k := Holding rw))"
  by (cases m) (auto split: tstat.splits)

lemma pstep_rw_lock:
  assumes "pstep p p'" "proto_inv p'"
  shows "rw_lock\<^sup>=\<^sup>= (p_task p) (p_task p')"
  using assms
proof (cases rule: pstep.cases)
  case (acquire_local h t)
  then have "rw_lock (p_task p) ((p_task p)(Key h t := Holding RW_SHARED))"
    using granted_compatible [OF assms(2)] by (intro rw_grant) auto
  with acquire_local show ?thesis by simp
next
  case (deliver h m ms keep n out)
  consider "told m (p_task p) = p_task p"
    | k rw where "p_task p k = Waiting rw" "told m (p_task p) = (p_task p)(k := Holding rw)"
    using told_cases by blast
  then show ?thesis
  proof cases
    case 2
    have "p_task p' = (p_task p)(k := Holding rw)" using deliver(1) 2(2) by simp
    then show ?thesis using granted_compatible [OF assms(2)] 2(1) by (auto intro: rw_grant)
  qed (use deliver in simp)
qed (auto intro: rw_lock.intros)

text \<open>
  C3. The cluster refines one reader-writer lock: after any such run, every further step leaves
  the holders of the lock alone, or is the request or the release of one task, or grants the
  lock to one task whose mode is compatible with the modes of all tasks that hold it.
\<close>

theorem fifo_refines_rw_lock:
  assumes "i < SWITCH_LOCK_NUM" "\<not> TPCC_ENB_LOCAL b" "\<not> FISSLOCK_BMV2 b" "\<not> FISSLOCK_DEBUG b"
    and "fifo_run b (es @ [e]) (initial_fifo i)" "fifo_exec b es (initial_fifo i) = Inr c" "fifo_step b e c = Inr c'"
  shows "f_task c' = f_task c \<or> rw_lock (f_task c) (f_task c')"
proof -
  have split: "fifo_run b es c0 \<and> within_limits c \<and> fifo_ok c e"
    if "fifo_run b (es @ [e]) c0" "fifo_exec b es c0 = Inr c" for c0
    using that by (induction es arbitrary: c0) (auto split: sum.splits)
  note r = split [OF assms(5,6)]
  obtain p where p: "sim c p" "proto_inv p"
    using sim_run [OF sim_initial [OF assms(1)] proto_inv_initial conjunct1 [OF r] assms(2-4)] assms(6) by auto
  obtain p' where p': "pstep\<^sup>=\<^sup>= p p'" "sim c' p'" using sim_step [OF p _ _ assms(2-4), of e] r assms(7) by auto
  from p'(1) have "rw_lock\<^sup>=\<^sup>= (p_task p) (p_task p')"
  proof
    assume "pstep p p'"
    with proto_inv_step [OF this p(2)] show ?thesis by (intro pstep_rw_lock)
  qed auto
  with simD(2) [OF p(1)] simD(2) [OF p'(2)] show ?thesis by auto
qed

section \<open>Where the limits and the build matter\<close>

text \<open>The registers of a lock after a series of packets.\<close>

definition slot_run :: "packet list \<Rightarrow> slot \<Rightarrow> slot" where
  "slot_run ps s = fold (\<lambda>p s. fst (slot_switch s p)) ps s"

lemma slot_reader:
  assumes "sl_free s = LK_ACQUIRED" "sl_rw s = RW_SHARED" "ptype p = POST_LOCK_ACQUIRE" "pkt_mode (hdr p) = RW_SHARED"
  shows "fst (slot_switch s p) = s\<lparr>sl_ncnt := sl_ncnt s + 1\<rparr>"
  using assms by (cases s) (simp add: slot_switch_def slot_ingress_def slot_count_def rejected_def slot_operate_def Let_def)

lemma slot_run_readers:
  assumes "sl_free s = LK_ACQUIRED" "sl_rw s = RW_SHARED"
    and "\<forall>p \<in> set ps. ptype p = POST_LOCK_ACQUIRE \<and> pkt_mode (hdr p) = RW_SHARED"
  shows "slot_run ps s = s\<lparr>sl_ncnt := sl_ncnt s + of_nat (length ps)\<rparr>"
  using assms
proof (induction ps arbitrary: s)
  case Nil
  then show ?case by (simp add: slot_run_def)
next
  case (Cons p ps)
  then have "slot_run ps (s\<lparr>sl_ncnt := sl_ncnt s + 1\<rparr>) = s\<lparr>sl_ncnt := sl_ncnt s + 1 + of_nat (length ps)\<rparr>" by simp
  moreover have "slot_run (p # ps) s = slot_run ps (s\<lparr>sl_ncnt := sl_ncnt s + 1\<rparr>)"
    using Cons.prems slot_reader by (simp add: slot_run_def)
  ultimately show ?case by (simp add: add.assoc)
qed

text \<open>
  C38. The eight bits of the notification counter are a real limit: 256 grants to readers bring
  the registers of a lock back to where they were, so that the switch accepts a free packet
  of an agent that has not heard of any of these 256 readers.
\<close>

theorem counter_forgets_256_readers:
  assumes "sl_free s = LK_ACQUIRED" "sl_rw s = RW_SHARED" "length ps = 256"
    and "\<forall>p \<in> set ps. ptype p = POST_LOCK_ACQUIRE \<and> pkt_mode (hdr p) = RW_SHARED"
  shows "slot_run ps s = s \<and> sl_free (slot_run (ps @ [send_post_free h i (sl_ncnt s) (lock_state_code LOCK_SHARED)]) s) = LK_FREE"
proof -
  let ?f = "send_post_free h i (sl_ncnt s) (lock_state_code LOCK_SHARED)"
  have s: "slot_run ps s = s" using slot_run_readers [OF assms(1,2,4)] assms(3) by simp
  have "sl_free (fst (slot_switch s ?f)) = LK_FREE"
    using assms(1,2) by (simp add: send_post_defs slot_switch_def slot_ingress_def slot_count_def rejected_def slot_operate_def
        Let_def split_def pkt_mode_MODE_OLD_MODE)
  with s show ?thesis by (simp add: slot_run_def)
qed

definition fifo_ends :: "build \<Rightarrow> fifo_event list \<Rightarrow> (fifo \<Rightarrow> bool) \<Rightarrow> bool" where
  "fifo_ends b es P = (case fifo_exec b es (initial_fifo 5) of Inl _ \<Rightarrow> False | Inr c \<Rightarrow> P c)"



section \<open>Examples\<close>

definition fifo_example :: "fifo_event list" where
  "fifo_example =
     [Fifo_acquire 1 10 LOCK_SHARED, Fifo_switch 1, Fifo_deliver 1,
      Fifo_acquire 2 20 LOCK_SHARED, Fifo_acquire 3 30 LOCK_EXCL,
      Fifo_release 1 10, Fifo_switch 2, Fifo_deliver 2, Fifo_switch 1, Fifo_switch 3, Fifo_release 2 20, Fifo_switch 2,
      Fifo_deliver 1, Fifo_deliver 1, Fifo_deliver 1, Fifo_deliver 1, Fifo_switch 1]"

lemma fifo_example_run: "fifo_run default_build (fifo_example @ [Fifo_deliver 3]) (initial_fifo 5)"
  by code_simp

lemma fifo_example_ends:
  "fifo_ends default_build (fifo_example @ [Fifo_deliver 3]) (\<lambda>c. f_task c (Key 3 30) = Holding RW_EXCL)"
  "fifo_ends default_build fifo_example (\<lambda>c. \<not> isl (fifo_step default_build (Fifo_deliver 3) c))"
  by code_simp+

lemma fifo_example_build:
  "5 < SWITCH_LOCK_NUM" "\<not> TPCC_ENB_LOCAL default_build" "\<not> FISSLOCK_BMV2 default_build" "\<not> FISSLOCK_DEBUG default_build"
  by (simp_all add: SWITCH_LOCK_NUM_def default_build_def)


theorem fifo_refines_rw_lock_witness:
  "fifo_ends default_build fifo_example (\<lambda>c. \<exists>c'. fifo_step default_build (Fifo_deliver 3) c = Inr c' \<and>
     (f_task c' = f_task c \<or> rw_lock (f_task c) (f_task c')))"
proof -
  obtain c where c: "fifo_exec default_build fifo_example (initial_fifo 5) = Inr c"
    and s: "\<not> isl (fifo_step default_build (Fifo_deliver 3) c)"
    using fifo_example_ends(2) by (auto simp: fifo_ends_def split: sum.splits)
  obtain c' where c': "fifo_step default_build (Fifo_deliver 3) c = Inr c'"
    using s by (cases "fifo_step default_build (Fifo_deliver 3) c") auto
  from fifo_refines_rw_lock [OF fifo_example_build fifo_example_run c c'] c c' show ?thesis by (simp add: fifo_ends_def)
qed

theorem counter_forgets_256_readers_witness:
  "slot_run (replicate 256 (send_post_acquire 2 2 5 2 9)) \<lparr>sl_free = LK_ACQUIRED, sl_rw = RW_SHARED, sl_agent = 1, sl_ncnt = 1\<rparr>
     = \<lparr>sl_free = LK_ACQUIRED, sl_rw = RW_SHARED, sl_agent = 1, sl_ncnt = 1\<rparr> \<and>
   sl_free (slot_run (replicate 256 (send_post_acquire 2 2 5 2 9) @ [send_post_free 1 5 1 (lock_state_code LOCK_SHARED)])
     \<lparr>sl_free = LK_ACQUIRED, sl_rw = RW_SHARED, sl_agent = 1, sl_ncnt = 1\<rparr>) = LK_FREE"
proof -
  let ?s = "\<lparr>sl_free = LK_ACQUIRED, sl_rw = RW_SHARED, sl_agent = 1, sl_ncnt = 1\<rparr> :: slot"
  let ?ps = "replicate 256 (send_post_acquire 2 2 5 2 9)"
  have "ptype p = POST_LOCK_ACQUIRE \<and> pkt_mode (hdr p) = RW_SHARED" if "p \<in> set ?ps" for p
    using that by (simp add: send_post_defs pkt_mode_MODE_OLD_MODE)
  then show ?thesis
    using counter_forgets_256_readers [of ?s ?ps 1 5] by (simp)
qed

end
