(* ===== verification/Switch_Bmv2.thy ===== *)
theory Switch_Bmv2
  imports Switch_Pipe Fiss_Lock_Api
begin

text \<open>
  The data plane for the software switch (switch/p4_bmv2/fisslock_bmv2.p4, with the multicast
  group of setup/multicast.txt): 1024 locks, one register array per field, and one multicast
  group. The theory compares it with the Tofino program, whose logic it is meant to repeat,
  and follows the one packet that it forwards differently to the host that receives it.
\<close>

section \<open>Tables and actions\<close>

datatype cnt_action = cnt_new | cnt_cmp_eval | cnt_reset | cnt_nop

fun bmv2_counter_table :: "post_t \<Rightarrow> rw_mode \<Rightarrow> rw_mode \<Rightarrow> cnt_action" where
  "bmv2_counter_table POST_LOCK_ACQUIRE RW_SHARED _ = cnt_new"
| "bmv2_counter_table POST_LOCK_TRANSFER _ RW_SHARED = cnt_cmp_eval"
| "bmv2_counter_table POST_LOCK_TRANSFER _ RW_EXCL = cnt_reset"
| "bmv2_counter_table POST_LOCK_FREE _ RW_SHARED = cnt_cmp_eval"
| "bmv2_counter_table POST_LOCK_FREE _ RW_EXCL = cnt_reset"
| "bmv2_counter_table _ _ _ = cnt_nop"

text \<open>The counter register and \<open>meta.agent_changed\<close>; comparing does not reset the counter.\<close>

fun cnt_exec :: "cnt_action \<Rightarrow> u8 \<Rightarrow> u8 \<Rightarrow> u8 \<times> bool" where
  "cnt_exec cnt_new nc val = (val + 1, False)"
| "cnt_exec cnt_cmp_eval nc val = (val, val = nc)"
| "cnt_exec cnt_reset nc val = (0, False)"
| "cnt_exec cnt_nop nc val = (val, False)"

definition counter_clear_table :: "bool \<Rightarrow> cnt_action" where
  "counter_clear_table agent_changed = (if agent_changed then cnt_reset else cnt_nop)"

datatype bmv2_rw_action = rw_set_shared | rw_set_excl | rw_get_mode | rw_op_nop

fun bmv2_rw_table :: "post_t \<Rightarrow> free_mode \<Rightarrow> rw_mode \<Rightarrow> bmv2_rw_action" where
  "bmv2_rw_table POST_LOCK_TRANSFER LK_ACQUIRED RW_SHARED = rw_set_shared"
| "bmv2_rw_table POST_LOCK_TRANSFER LK_ACQUIRED RW_EXCL = rw_set_excl"
| "bmv2_rw_table POST_LOCK_FREE LK_ACQUIRED RW_SHARED = rw_set_shared"
| "bmv2_rw_table POST_LOCK_FREE LK_ACQUIRED RW_EXCL = rw_set_excl"
| "bmv2_rw_table POST_LOCK_ACQUIRE LK_FREE RW_SHARED = rw_set_shared"
| "bmv2_rw_table POST_LOCK_ACQUIRE LK_FREE RW_EXCL = rw_set_excl"
| "bmv2_rw_table POST_LOCK_ACQUIRE LK_ACQUIRED _ = rw_get_mode"
| "bmv2_rw_table _ _ _ = rw_op_nop"

fun bmv2_rw_exec :: "bmv2_rw_action \<Rightarrow> rw_mode \<Rightarrow> rw_mode \<times> rw_mode" where
  "bmv2_rw_exec rw_set_shared st = (RW_SHARED, st)"
| "bmv2_rw_exec rw_set_excl st = (RW_EXCL, st)"
| "bmv2_rw_exec rw_get_mode st = (st, st)"
| "bmv2_rw_exec rw_op_nop st = (st, RW_SHARED)"

datatype op_action =
  op_new_agent | op_mcast_to_agent | op_fwd_to_agent | op_transfer | op_reset_agent | op_nop

fun lock_op_table :: "post_t \<Rightarrow> rw_mode \<Rightarrow> free_mode \<Rightarrow> rw_mode \<Rightarrow> op_action" where
  "lock_op_table POST_LOCK_ACQUIRE _ LK_FREE _ = op_new_agent"
| "lock_op_table POST_LOCK_ACQUIRE RW_SHARED LK_ACQUIRED RW_SHARED = op_mcast_to_agent"
| "lock_op_table POST_LOCK_ACQUIRE RW_SHARED LK_ACQUIRED RW_EXCL = op_fwd_to_agent"
| "lock_op_table POST_LOCK_ACQUIRE RW_EXCL LK_ACQUIRED _ = op_fwd_to_agent"
| "lock_op_table POST_LOCK_RELEASE RW_SHARED LK_ACQUIRED _ = op_fwd_to_agent"
| "lock_op_table POST_LOCK_TRANSFER _ LK_ACQUIRED _ = op_transfer"
| "lock_op_table POST_LOCK_FREE _ LK_ACQUIRED _ = op_reset_agent"
| "lock_op_table _ _ _ _ = op_nop"

text \<open>The agent register, the packet and \<open>meta.multicasted\<close> after an action.\<close>

fun op_exec :: "op_action \<Rightarrow> u8 \<Rightarrow> packet \<Rightarrow> u8 \<times> packet \<times> bool" where
  "op_exec op_new_agent ag p =
     (machine_id (hdr p),
      p\<lparr>ptype := POST_LOCK_GRANT_WITH_AGENT,
        hdr := (hdr p)\<lparr>agent := machine_id (hdr p), mode_old_mode := mode_old_mode (hdr p) AND 0xDF\<rparr>\<rparr>, False)"
| "op_exec op_mcast_to_agent ag p =
     (ag, p\<lparr>ptype := POST_LOCK_GRANT_WO_AGENT, hdr := (hdr p)\<lparr>agent := ag\<rparr>\<rparr>, True)"
| "op_exec op_fwd_to_agent ag p = (ag, p\<lparr>hdr := (hdr p)\<lparr>agent := ag\<rparr>\<rparr>, False)"
| "op_exec op_transfer ag p =
     (machine_id (hdr p),
      p\<lparr>ptype := POST_LOCK_GRANT_WITH_AGENT,
        hdr := (hdr p)\<lparr>agent := machine_id (hdr p), mode_old_mode := mode_old_mode (hdr p) OR 0x20\<rparr>\<rparr>, False)"
| "op_exec op_reset_agent ag p = (0, p\<lparr>hdr := (hdr p)\<lparr>agent := 0\<rparr>\<rparr>, False)"
| "op_exec op_nop ag p = (ag, p, False)"

section \<open>Ingress, forwarding and egress\<close>

definition SLICE_MASK :: u32 where "SLICE_MASK = 0x3FF"
definition SLICE_HIGH_MASK :: u32 where "SLICE_HIGH_MASK = 0xFFFFFC00"

type_synonym bmv2_regs = "u32 \<Rightarrow> slot"

definition bmv2_count :: "slot \<Rightarrow> packet \<Rightarrow> slot \<times> bool" where
  "bmv2_count s p =
     (let (v, ch) = cnt_exec (bmv2_counter_table (ptype p) (pkt_mode (hdr p)) (pkt_old_mode (hdr p)))
                      (hdr_ncnt (hdr p)) (sl_ncnt s)
      in (s\<lparr>sl_ncnt := fst (cnt_exec (counter_clear_table ch) (hdr_ncnt (hdr p)) v)\<rparr>, ch))"

definition bmv2_operate :: "slot \<Rightarrow> packet \<Rightarrow> slot \<times> packet \<times> bool" where
  "bmv2_operate s p =
     (let free = sl_free s;
          (rw', rw) = bmv2_rw_exec (bmv2_rw_table (ptype p) free (pkt_mode (hdr p))) (sl_rw s);
          (v, p', m) = op_exec (lock_op_table (ptype p) (pkt_mode (hdr p)) free rw) (sl_agent s) p
      in (s\<lparr>sl_free := (if ptype p \<noteq> POST_LOCK_FREE then LK_ACQUIRED else LK_FREE),
            sl_rw := rw', sl_agent := v\<rparr>, p', m))"

definition bmv2_ingress :: "bmv2_regs \<Rightarrow> packet \<Rightarrow> bmv2_regs \<times> packet \<times> bool" where
  "bmv2_ingress r p =
     (let i = ntohl (hdr_lock_id (hdr p)); idx = i AND SLICE_MASK in
      if i AND SLICE_HIGH_MASK \<noteq> 0 then (r, p, False)
      else
        (let (s1, agent_changed) = bmv2_count (r idx) p in
         if (ptype p = POST_LOCK_TRANSFER \<or> ptype p = POST_LOCK_FREE)
            \<and> pkt_old_mode (hdr p) = RW_SHARED \<and> \<not> agent_changed then (r(idx := s1), p, False)
         else if ptype p = POST_LOCK_GRANT_WO_AGENT
         then (r(idx := s1), p\<lparr>hdr := (hdr p)\<lparr>agent := machine_id (hdr p)\<rparr>\<rparr>, False)
         else (let (s2, p', m) = bmv2_operate s1 p in (r(idx := s2), p', m))))"

text \<open>Group 299 has the replica 1 on port 1 and the replica 2 on port 2.\<close>

definition bmv2_egress :: "u16 \<Rightarrow> packet \<Rightarrow> packet" where
  "bmv2_egress rid p =
     (if rid = 2 then p\<lparr>ptype := POST_LOCK_GRANT_WO_AGENT\<rparr>
      else if rid = 1
      then p\<lparr>ptype := POST_LOCK_ACQUIRE, hdr := (hdr p)\<lparr>mode_old_mode := mode_old_mode (hdr p) OR 0x40\<rparr>\<rparr>
      else p)"

definition bmv2_mcast_group :: "(u16 \<times> u8) list" where
  "bmv2_mcast_group = [(1, 1), (2, 2)]"

text \<open>The ports that a packet leaves on, and the packets.\<close>

definition bmv2_switch :: "bmv2_regs \<Rightarrow> packet \<Rightarrow> bmv2_regs \<times> (u8 \<times> packet) list" where
  "bmv2_switch r p =
     (let (r', p', multicasted) = bmv2_ingress r p in
      (r', if multicasted then map (\<lambda>(rid, port). (port, bmv2_egress rid p')) bmv2_mcast_group
           else [(if agent (hdr p') = 0 then machine_id (hdr p') else agent (hdr p'), p')]))"

section \<open>The two data planes agree on the registers\<close>

lemma slice_masks:
  assumes "i < 1024"
  shows "i AND SLICE_MASK = i" "i AND SLICE_HIGH_MASK = 0"
proof -
  have m: "SLICE_MASK = mask 10" "SLICE_HIGH_MASK = push_bit 10 (mask 22)"
    by (simp_all add: SLICE_MASK_def SLICE_HIGH_MASK_def mask_eq_exp_minus_1)
  have t: "take_bit 10 i = i"
    using assms by (simp add: word_unat_eq_iff unsigned_take_bit_eq take_bit_nat_eq_self word_less_nat_alt)
  show "i AND SLICE_MASK = i" using t by (simp add: m(1) take_bit_eq_mask)
  show "i AND SLICE_HIGH_MASK = 0"
    unfolding m(2) by (subst t [symmetric], rule bit_word_eqI) (auto simp: bit_simps)
qed

lemma bmv2_count_eq: "bmv2_count s p = slot_count s p"
  by (cases "ptype p"; cases "pkt_mode (hdr p)"; cases "pkt_old_mode (hdr p)"; cases s)
    (simp_all add: bmv2_count_def slot_count_def counter_clear_table_def)

lemma bmv2_tables_eq:
  "bmv2_rw_exec (bmv2_rw_table t f m) st = rw_exec (rw_table t f m) st"
  by (cases t; cases f; cases m) simp_all

lemma flag_masks:
  "x AND 0xDF = unset_bit 5 (x :: u8)" "x OR 0x20 = set_bit 5 (x :: u8)" "x OR 0x40 = set_bit 6 (x :: u8)"
proof -
  have m: "(0xDF :: u8) = NOT (push_bit 5 1)" "(0x20 :: u8) = push_bit 5 1" "(0x40 :: u8) = push_bit 6 1"
    by simp_all
  show "x AND 0xDF = unset_bit 5 x" unfolding m(1) unset_bit_eq_and_not by (rule refl)
  show "x OR 0x20 = set_bit 5 x" unfolding m(2) set_bit_eq_or by (rule refl)
  show "x OR 0x40 = set_bit 6 x" unfolding m(3) set_bit_eq_or by (rule refl)
qed

text \<open>
  The lock table has the same effect: on the agent register, and on the packet, but for the
  bit that marks a multicast in the header of the Tofino program.
\<close>

lemma op_exec_eq:
  "op_exec (lock_op_table t m f rw) ag p =
     (let (ag', p', d) = lock_exec (lock_operation t m f rw) ag p;
          mc = (lock_operation t m f rw = mcast_to_agent)
      in (ag', if mc then p\<lparr>ptype := POST_LOCK_GRANT_WO_AGENT, hdr := (hdr p)\<lparr>agent := ag\<rparr>\<rparr> else p', mc))"
  by (cases t; cases m; cases f; cases rw)
    (simp_all add: set_flag_def clear_flag_def flag_masks)

lemma bmv2_operate_eq:
  "fst (bmv2_operate s p) = fst (slot_operate s p)"
  "\<not> snd (snd (bmv2_operate s p)) \<Longrightarrow> fst (snd (bmv2_operate s p)) = fst (snd (slot_operate s p))"
  by (simp_all add: bmv2_operate_def slot_operate_def bmv2_tables_eq op_exec_eq Let_def split_def)

lemma clear_unset_flag: "\<not> bit (mode_old_mode h) n \<Longrightarrow> clear_flag n h = h"
proof -
  assume "\<not> bit (mode_old_mode h) n"
  then have "unset_bit n (mode_old_mode h) = mode_old_mode h"
    by (intro bit_word_eqI) (auto simp: bit_simps)
  then show ?thesis by (simp add: clear_flag_def)
qed

definition no_switch_flags :: "packet \<Rightarrow> bool" where
  "no_switch_flags p \<longleftrightarrow> \<not> bit (mode_old_mode (hdr p)) f_granted \<and> \<not> bit (mode_old_mode (hdr p)) f_multicasted"

lemma bmv2_ingress_eq:
  assumes "i = ntohl (hdr_lock_id (hdr p))" "i < 1024" "no_switch_flags p"
  shows "fst (bmv2_ingress r p) = r(i := fst (slot_ingress (r i) p))"
    and "\<not> snd (snd (bmv2_ingress r p)) \<Longrightarrow> fst (snd (bmv2_ingress r p)) = fst (snd (slot_ingress (r i) p))"
proof -
  have p: "p\<lparr>hdr := clear_flag f_granted (clear_flag f_multicasted (hdr p))\<rparr> = p"
    using assms(3) by (simp add: no_switch_flags_def clear_unset_flag)
  note unf = bmv2_ingress_def slot_ingress_def Let_def p assms(1) [symmetric] slice_masks [OF assms(2)]
    rejected_def bmv2_count_eq split_def
  show "fst (bmv2_ingress r p) = r(i := fst (slot_ingress (r i) p))"
    unfolding unf by (simp add: bmv2_operate_eq(1)) auto
  show "\<not> snd (snd (bmv2_ingress r p)) \<Longrightarrow> fst (snd (bmv2_ingress r p)) = fst (snd (slot_ingress (r i) p))"
    unfolding unf by (auto simp: bmv2_operate_eq(2) split: if_splits)
qed

lemma bmv2_operate_mcast:
  "snd (snd (bmv2_operate s p)) \<Longrightarrow> bit (mode_old_mode (hdr (fst (snd (slot_operate s p))))) f_multicasted"
  by (auto simp: bmv2_operate_def slot_operate_def bmv2_tables_eq op_exec_eq Let_def split_def set_flag_def bit_simps)

lemma bmv2_ingress_mcast:
  assumes "i = ntohl (hdr_lock_id (hdr p))" "i < 1024" "no_switch_flags p" "snd (snd (bmv2_ingress r p))"
  shows "bit (mode_old_mode (hdr (fst (snd (slot_ingress (r i) p))))) f_multicasted"
proof -
  have p: "p\<lparr>hdr := clear_flag f_granted (clear_flag f_multicasted (hdr p))\<rparr> = p"
    using assms(3) by (simp add: no_switch_flags_def clear_unset_flag)
  note unf = bmv2_ingress_def slot_ingress_def Let_def p assms(1) [symmetric] slice_masks [OF assms(2)]
    rejected_def bmv2_count_eq split_def
  show ?thesis using assms(4) unfolding unf by (auto intro: bmv2_operate_mcast split: if_splits)
qed

text \<open>
  C14. The BMv2 program does what the Tofino program does: for one of its 1024 locks and any
  packet of a host, it updates the registers of the lock in the same way, whatever the
  packet is; and when the Tofino switch sends the packet to one connected host, the BMv2
  switch sends the same packet to the port with the number of that host.
\<close>

theorem bmv2_agrees_with_tofino:
  assumes "i = ntohl (hdr_lock_id (hdr p))" "i < 1024" "no_switch_flags p"
    and "slot_switch (r i) p = (s', out)" "bmv2_switch r p = (r', bout)"
  shows "r' = r(i := s') \<and>
    (\<forall>h q. slot_ingress (r i) p = (s', q, 0) \<and> agent (hdr q) = h \<and> cluster_host h \<and>
            \<not> bit (mode_old_mode (hdr q)) f_multicasted \<longrightarrow> out = [(h, q)] \<and> bout = [(h, q)])"
proof (intro conjI allI impI)
  have s': "s' = fst (slot_ingress (r i) p)" using assms(4) by (simp add: slot_switch_def split_def Let_def)
  then show "r' = r(i := s')"
    using assms(5) bmv2_ingress_eq(1) [OF assms(1-3)] by (simp add: bmv2_switch_def split_def Let_def)
  fix h q
  assume q: "slot_ingress (r i) p = (s', q, 0) \<and> agent (hdr q) = h \<and> cluster_host h \<and>
    \<not> bit (mode_old_mode (hdr q)) f_multicasted"
  have uni: "\<not> snd (snd (bmv2_ingress r p))" using bmv2_ingress_mcast [OF assms(1-3)] q by fastforce
  with bmv2_ingress_eq(2) [OF assms(1-3) uni] q have "fst (snd (bmv2_ingress r p)) = q" by simp
  moreover have "h \<noteq> 0" using q by (auto simp: cluster_host_def)
  ultimately show "bout = [(h, q)]"
    using assms(5) uni q by (auto simp: bmv2_switch_def split_def Let_def)
  show "out = [(h, q)]"
    using assms(4) q forward_unicast [of q] by (auto simp: slot_switch_def egress_pipe_def)
qed

theorem bmv2_agrees_with_tofino_witness:
  "bmv2_switch (\<lambda>_. initial_slot) (send_post_acquire 2 3 7 2 9) =
     ((\<lambda>_. initial_slot)(7 := fst (slot_switch initial_slot (send_post_acquire 2 3 7 2 9))),
      snd (bmv2_switch (\<lambda>_. initial_slot) (send_post_acquire 2 3 7 2 9)))"
proof -
  let ?p = "send_post_acquire 2 3 7 2 9" and ?r = "\<lambda>_ :: u32. initial_slot"
  have "7 = ntohl (hdr_lock_id (hdr ?p))" by (simp add: send_post_acquire_def)
  moreover have "no_switch_flags ?p" by code_simp
  ultimately show ?thesis
    using bmv2_agrees_with_tofino [of 7 ?p ?r "fst (slot_switch initial_slot ?p)" "snd (slot_switch initial_slot ?p)"
        "fst (bmv2_switch ?r ?p)" "snd (bmv2_switch ?r ?p)"]
    by (auto simp: prod_eq_iff)
qed

section \<open>The reflected free packet\<close>

lemma free_post_modes:
  "pkt_old_mode (hdr (send_post_free h i n (lock_state_code LOCK_EXCL))) = RW_EXCL"
  "OLD_MODE (mode_old_mode (hdr (send_post_free h i n (lock_state_code LOCK_EXCL)))) = LOCK_EXCL"
  by (simp_all add: send_post_defs pkt_old_mode_def OLD_MODE_def MODE_OLD_MODE_def lock_state_of_def bit_simps)

lemma bmv2_switch_free:
  fixes me :: host_id and n :: u8
  assumes "i < 1024" "sl_free (r i) = LK_ACQUIRED"
  defines "f \<equiv> send_post_free me i n (lock_state_code LOCK_EXCL)"
  shows "\<exists>s. bmv2_switch r f = (r(i := s), [(me, f\<lparr>hdr := (hdr f)\<lparr>agent := 0\<rparr>\<rparr>)]) \<and>
    sl_free s = LK_FREE \<and> sl_agent s = 0"
proof -
  have f: "ptype f = POST_LOCK_FREE" "pkt_old_mode (hdr f) = RW_EXCL" "ntohl (hdr_lock_id (hdr f)) = i"
    "machine_id (hdr f) = me"
    by (simp_all only: f_def free_post_modes) (simp_all add: send_post_defs)
  obtain rw where "bmv2_switch r f = (r(i := (r i)\<lparr>sl_ncnt := 0, sl_free := LK_FREE, sl_rw := rw, sl_agent := 0\<rparr>),
      [(me, f\<lparr>hdr := (hdr f)\<lparr>agent := 0\<rparr>\<rparr>)])"
    using assms(2) by (simp add: bmv2_switch_def bmv2_ingress_def bmv2_operate_def bmv2_count_def Let_def
        slice_masks [OF assms(1)] f split_def bmv2_tables_eq counter_clear_table_def)
  then show ?thesis by (intro exI [of _ "(r i)\<lparr>sl_ncnt := 0, sl_free := LK_FREE, sl_rw := rw, sl_agent := 0\<rparr>"]) simp
qed

text \<open>
  C40. The BMv2 switch sends an accepted free packet back to its sender. The host takes it for
  a rejected one and becomes the agent again, while the switch records the lock as free: from
  then on every exclusive acquire on that host is queued behind nobody and sends no packet.
\<close>

theorem bmv2_free_comes_back:
  assumes "\<not> TPCC_ENB_LOCAL b" "\<not> FISSLOCK_DEBUG b" "lid l < 1024"
    and "is_agent l" "mode l = LOCK_EXCL" "holders l = {LOCK_HOLDER me t}" "wqueue l = []" "\<not> delayed_free l"
    and "sl_free (r (lid l)) = LK_ACQUIRED"
  shows "\<exists>l1 f r' g l2. release_on b me l t = Inr (l1, [f]) \<and> \<not> is_agent l1 \<and>
    bmv2_switch r f = (r', [(me, g)]) \<and> sl_free (r' (lid l)) = LK_FREE \<and>
    lock_packet_process b None me l1 g = Inr (0, g, l2, []) \<and> is_agent l2 \<and> holders l2 = {} \<and>
    (\<forall>d t'. \<exists>l3. acquire_on b me True d l2 t' LOCK_EXCL = Inr (Req_flag d t', l3, []) \<and>
       wqueue l3 = [mk_wqe LOCK_EXCL t' me])"
proof -
  have range: "\<not> lock_out_of_range l"
    using assms(3) by (simp add: lock_out_of_range_def SWITCH_LOCK_NUM_def word_less_nat_alt word_le_nat_alt)
  let ?f = "send_post_free me (lid l) (ucast (ncnt l)) (lock_state_code LOCK_EXCL)"
  let ?g = "?f\<lparr>hdr := (hdr ?f)\<lparr>agent := 0\<rparr>\<rparr>"
  let ?l0 = "l\<lparr>local_holders := local_holders l - {t}, holders := {}\<rparr>"
  let ?l1 = "?l0\<lparr>is_agent := False, mode := FREE, ncnt := 0\<rparr>"
  let ?l2 = "?l1\<lparr>mode := LOCK_EXCL, is_agent := True, ncnt := ucast (ucast (ncnt l) :: u8)\<rparr>"
  have "release_on b me l t = Inr (?l1, [?f])"
    using assms range by (simp add: release_on_def release_at_agent_def Let_def lock_out_of_range_def
        lock_has_holder_def handle_release_def ASSERT_def lock_remove_holder_def lock_no_holders_def
        lock_no_waiters_def release_free_local_def)
  moreover obtain s where "bmv2_switch r ?f = (r(lid l := s), [(me, ?g)])" "sl_free s = LK_FREE"
    using bmv2_switch_free [OF assms(3), of r] assms(9) by blast
  moreover have "lock_packet_process b None me ?l1 ?g = Inr (0, ?g, ?l2, [])"
    using assms(2,8) free_post_modes(2) [of me "lid l" "ucast (ncnt l)"]
    by (simp add: lock_packet_process_def send_post_defs process_push_back_def Let_def ASSERT_def)
  moreover have "\<exists>l3. acquire_on b me True d ?l2 t' LOCK_EXCL = Inr (Req_flag d t', l3, []) \<and>
       wqueue l3 = [mk_wqe LOCK_EXCL t' me]" for d t'
    using assms(1,2,7) range
    by (simp add: acquire_on_def lock_out_of_range_def lock_no_holders_def handle_suspend_acquire_def ASSERT_def
        lock_append_to_wq_def lock_prepare_wait_def split: option.splits)
  ultimately show ?thesis
    by (intro exI [of _ ?l1] exI [of _ ?f] exI [of _ "r(lid l := s)"] exI [of _ ?g] exI [of _ ?l2]) simp
qed

theorem bmv2_free_comes_back_witness:
  "let l = (new_lock 0 7)\<lparr>is_agent := True, mode := LOCK_EXCL, holders := {LOCK_HOLDER 1 9}\<rparr>;
       r = (\<lambda>_. initial_slot\<lparr>sl_free := LK_ACQUIRED, sl_agent := 1\<rparr>)
   in \<exists>l1 f r' g l2. release_on bmv2_build 1 l 9 = Inr (l1, [f]) \<and> \<not> is_agent l1 \<and>
    bmv2_switch r f = (r', [(1, g)]) \<and> sl_free (r' 7) = LK_FREE \<and>
    lock_packet_process bmv2_build None 1 l1 g = Inr (0, g, l2, []) \<and> is_agent l2 \<and> holders l2 = {}"
proof -
  let ?l = "(new_lock 0 7)\<lparr>is_agent := True, mode := LOCK_EXCL, holders := {LOCK_HOLDER 1 9}\<rparr>"
    and ?r = "\<lambda>_ :: u32. initial_slot\<lparr>sl_free := LK_ACQUIRED, sl_agent := 1\<rparr>"
  have "lid ?l = 7" by (simp add: new_lock_def)
  with bmv2_free_comes_back [of bmv2_build ?l 1 9 ?r] show ?thesis
    by (auto simp: new_lock_def bmv2_build_def default_build_def)
qed

end
