(* ===== verification/Switch_Driver.thy ===== *)
theory Switch_Driver
  imports Switch_Control "HOL-Library.Sublist"
begin

text \<open>
  The start of the switch: the calls with which the driver (switch/control/bfrt.c) asks the
  runtime of the vendor for the tables and groups of \<open>Switch_Control\<close>, and the main program
  (switch/control/main.c). The runtime is a parameter: it answers each call, depending on
  the calls before, with success or failure.
\<close>

section \<open>Calls of the runtime\<close>

datatype rt_call =
    Info_get string | Session_create
  | Table_get string | Key_allocate string | Data_allocate string
  | Action_id string string | Key_field string string | Action_arg string string string
  | Key_reset string | Key_set string string u64
  | Action_data_reset string string | Data_set string string u64
  | Entry_add string | Complete_operations
  | Mc_init | Mc_create_session
  | Mgrp_create u16 | Node_create u16 "u32 list" | Associate_node

definition P4_PROGRAM_NAME :: string where
  "P4_PROGRAM_NAME = ''fisslock_decider''"

definition P4_TABLE :: "string \<Rightarrow> string" where
  "P4_TABLE n = ''IngressPipe.'' @ n"

definition P4_ACTION :: "string \<Rightarrow> string" where
  "P4_ACTION n = ''IngressPipe.'' @ n"

text \<open>The calls whose status is asserted; the program ignores that of the others.\<close>

fun rt_asserted :: "rt_call \<Rightarrow> bool" where
  "rt_asserted (Key_reset t) = False"
| "rt_asserted (Action_data_reset t a) = False"
| "rt_asserted Complete_operations = False"
| "rt_asserted _ = True"

text \<open>The calls that were made without a failed assertion, and whether one failed after them.\<close>

fun rt_run :: "(rt_call list \<Rightarrow> rt_call \<Rightarrow> bool) \<Rightarrow> rt_call list \<Rightarrow> rt_call list \<Rightarrow> rt_call list \<times> fl_error option" where
  "rt_run answer before [] = (before, None)"
| "rt_run answer before (c # cs) =
     (if rt_asserted c \<and> \<not> answer before c then (before, Some Assertion_failed)
      else rt_run answer (before @ [c]) cs)"

section \<open>The driver\<close>

definition setup_bfrt :: "rt_call list" where
  "setup_bfrt = [Info_get P4_PROGRAM_NAME, Session_create]"

definition table_init :: "string \<Rightarrow> rt_call list" where
  "table_init n = [Table_get (P4_TABLE n), Key_allocate n, Data_allocate n]"

definition setup_tables :: "rt_call list" where
  "setup_tables =
     table_init ''eth_fallback''
     @ [Action_id ''eth_fallback'' (P4_ACTION ''eth_forward''),
        Key_field ''eth_fallback'' ''hdr.ethernet.dst_mac'',
        Action_arg ''eth_fallback'' ''eth_forward'' ''port'']"

definition prepare_key :: "string \<Rightarrow> string \<Rightarrow> u64 \<Rightarrow> rt_call list" where
  "prepare_key t key_name v = [Key_reset t, Key_set t key_name v]"

definition prepare_arg :: "string \<Rightarrow> string \<Rightarrow> string \<Rightarrow> u64 \<Rightarrow> rt_call list" where
  "prepare_arg t a arg_name v = [Action_data_reset t a, Data_set t arg_name v]"

definition add_tbl_entry :: "string \<Rightarrow> string \<Rightarrow> string \<Rightarrow> u64 \<Rightarrow> string \<Rightarrow> u64 \<Rightarrow> rt_call list" where
  "add_tbl_entry t a key_name k arg_name v =
     prepare_key t key_name k @ prepare_arg t a arg_name v @ [Entry_add t, Complete_operations]"

definition create_mgrp_calls :: "mgrp \<Rightarrow> rt_call list" where
  "create_mgrp_calls g = [Mgrp_create (mg_gid g), Node_create (mg_rid g) (mg_ports g), Associate_node]"

definition setup_mgrps_calls :: "machine_info list \<Rightarrow> rt_call list" where
  "setup_mgrps_calls ms = [Mc_init, Mc_create_session] @ concat (map create_mgrp_calls (setup_mgrps ms))"

definition eth_calls :: "machine_info list \<Rightarrow> rt_call list" where
  "eth_calls ms =
     concat (map (\<lambda>m. add_tbl_entry ''eth_fallback'' ''eth_forward'' ''dst_mac'' (mac_addr m) ''port'' (ucast (port m))) ms)"

definition driver_calls :: "machine_info list \<Rightarrow> rt_call list" where
  "driver_calls ms = setup_bfrt @ setup_tables @ eth_calls ms @ setup_mgrps_calls ms"

section \<open>The main program\<close>

text \<open>What \<open>getopt_long\<close> returns, one value for each turn.\<close>

datatype opts =
    OPT_INSTALLDIR string
  | OPT_BFSCRIPT string
  | OPT_CONFFILE string
  | OPT_help
  | OPT_unknown

text \<open>The two fields of the context of the runtime that are set here, and the buffer of the shell command.\<close>

record decider =
  install_dir :: "string option"
  conf_file :: "string option"
  setup_script :: string

datatype decider_end =
    Exit int
  | Fault fl_error
  | Finished "rt_call list" string

text \<open>\<open>sprintf\<close> into 64 bytes, the last of which is the terminating zero.\<close>

definition print_script :: "string option \<Rightarrow> string \<Rightarrow> fl_error + string" where
  "print_script sde s =
     (case sde of
        None \<Rightarrow> Inl Invalid_pointer
      | Some d \<Rightarrow>
          let cmd = d @ ''/bin/bfshell -f '' @ s
          in if length cmd < 64 then Inr cmd else Inl Out_of_bounds)"

fun parse_loop :: "string option \<Rightarrow> opts list \<Rightarrow> decider \<Rightarrow> decider_end + decider" where
  "parse_loop sde [] d = Inr d"
| "parse_loop sde (OPT_INSTALLDIR a # os) d = parse_loop sde os (d\<lparr>install_dir := Some a\<rparr>)"
| "parse_loop sde (OPT_CONFFILE a # os) d = parse_loop sde os (d\<lparr>conf_file := Some a\<rparr>)"
| "parse_loop sde (OPT_BFSCRIPT a # os) d =
     (case print_script sde a of
        Inl e \<Rightarrow> Inl (Fault e)
      | Inr cmd \<Rightarrow> parse_loop sde os (d\<lparr>setup_script := cmd\<rparr>))"
| "parse_loop sde (OPT_help # os) d = Inl (Exit 0)"
| "parse_loop sde (OPT_unknown # os) d = Inl (Exit 1)"

definition parse_options :: "string option \<Rightarrow> opts list \<Rightarrow> decider \<Rightarrow> decider_end + decider" where
  "parse_options sde os d =
     (case parse_loop sde os d of
        Inl e \<Rightarrow> Inl e
      | Inr d' \<Rightarrow> if install_dir d' = None \<or> conf_file d' = None then Inl (Exit 0) else Inr d')"

text \<open>
  The calls the driver makes and the command that is run at the end. \<open>alloc\<close>: whether there
  is memory for the context.
\<close>

definition main_decider ::
  "bool \<Rightarrow> string option \<Rightarrow> (rt_call list \<Rightarrow> rt_call \<Rightarrow> bool) \<Rightarrow> machine_info list \<Rightarrow> opts list \<Rightarrow> decider_end" where
  "main_decider alloc sde answer ms os =
     (if \<not> alloc then Exit 1
      else case parse_options sde os \<lparr>install_dir = None, conf_file = None, setup_script = []\<rparr> of
        Inl e \<Rightarrow> e
      | Inr d \<Rightarrow>
          (case rt_run answer [] (driver_calls ms) of
             (calls, Some e) \<Rightarrow> Fault e
           | (calls, None) \<Rightarrow> Finished calls (setup_script d)))"

section \<open>What the calls ask for\<close>

text \<open>
  A reading of a sequence of calls: the key, data, group and node that are prepared, and the
  entries and groups that were asked for with them.
\<close>

record asked =
  cur_key :: u64
  cur_data :: u64
  cur_gid :: u16
  cur_rid :: u16
  cur_ports :: "u32 list"
  asked_entries :: "(u64 \<times> u64) list"
  asked_groups :: "mgrp list"

fun ask :: "rt_call \<Rightarrow> asked \<Rightarrow> asked" where
  "ask (Key_set t f v) a = a\<lparr>cur_key := v\<rparr>"
| "ask (Data_set t f v) a = a\<lparr>cur_data := v\<rparr>"
| "ask (Entry_add t) a = a\<lparr>asked_entries := asked_entries a @ [(cur_key a, cur_data a)]\<rparr>"
| "ask (Mgrp_create g) a = a\<lparr>cur_gid := g\<rparr>"
| "ask (Node_create r ps) a = a\<lparr>cur_rid := r, cur_ports := ps\<rparr>"
| "ask Associate_node a =
     a\<lparr>asked_groups := asked_groups a @ [\<lparr>mg_gid = cur_gid a, mg_rid = cur_rid a, mg_ports = cur_ports a\<rparr>]\<rparr>"
| "ask _ a = a"

definition asked_nothing :: asked where
  "asked_nothing = \<lparr>cur_key = 0, cur_data = 0, cur_gid = 0, cur_rid = 0, cur_ports = [], asked_entries = [], asked_groups = []\<rparr>"

definition calls_ask :: "rt_call list \<Rightarrow> asked" where
  "calls_ask cs = fold ask cs asked_nothing"

text \<open>A longer sequence of calls asks for more.\<close>

lemma ask_extends:
  "prefix (asked_entries a) (asked_entries (fold ask cs a)) \<and> prefix (asked_groups a) (asked_groups (fold ask cs a))"
proof (induction cs arbitrary: a)
  case (Cons c cs)
  have "prefix (asked_entries a) (asked_entries (ask c a)) \<and> prefix (asked_groups a) (asked_groups (ask c a))"
    by (cases c) simp_all
  then show ?case using Cons [of "ask c a"] prefix_order.order_trans by fastforce
qed simp

lemma calls_ask_mono:
  assumes "prefix cs ds"
  shows "prefix (asked_entries (calls_ask cs)) (asked_entries (calls_ask ds))"
    and "prefix (asked_groups (calls_ask cs)) (asked_groups (calls_ask ds))"
  using assms ask_extends by (auto simp: calls_ask_def prefix_def)

lemma ask_eth_calls:
  "asked_entries (fold ask (eth_calls ms) a) = asked_entries a @ map (\<lambda>m. (mac_addr m, ucast (port m))) ms
   \<and> asked_groups (fold ask (eth_calls ms) a) = asked_groups a"
  by (induction ms arbitrary: a) (simp_all add: eth_calls_def add_tbl_entry_def prepare_key_def prepare_arg_def)

lemma ask_mgrp_calls:
  "asked_groups (fold ask (concat (map create_mgrp_calls gs)) a) = asked_groups a @ gs
   \<and> asked_entries (fold ask (concat (map create_mgrp_calls gs)) a) = asked_entries a"
  by (induction gs arbitrary: a) (simp_all add: create_mgrp_calls_def)

lemma driver_asks:
  "asked_entries (calls_ask (driver_calls ms)) = map (map_prod id ucast) (eth_entries ms)"
  "asked_groups (calls_ask (driver_calls ms)) = setup_mgrps ms"
  by (simp_all add: calls_ask_def driver_calls_def setup_bfrt_def setup_tables_def table_init_def setup_mgrps_calls_def
      ask_eth_calls ask_mgrp_calls asked_nothing_def eth_entries_def)

lemma rt_run_prefix:
  "rt_run answer before cs = (calls, r) \<Longrightarrow>
   prefix before calls \<and> prefix calls (before @ cs) \<and> (r = None \<longrightarrow> calls = before @ cs) \<and> r \<in> {None, Some Assertion_failed}"
  by (induction answer before cs rule: rt_run.induct) (auto split: if_splits simp: prefix_def)

lemma rt_run_accepted: "rt_run (\<lambda>_ _. True) before cs = (before @ cs, None)"
  by (induction cs arbitrary: before) simp_all

lemma rt_run_cases:
  obtains "rt_run answer [] cs = (cs, None)" | calls where "rt_run answer [] cs = (calls, Some Assertion_failed)" "prefix calls cs"
  using rt_run_prefix [of answer "[]" cs] by (cases "rt_run answer [] cs") auto

lemma driver_prefix_asks:
  assumes "prefix calls (driver_calls ms)"
  shows "prefix (asked_entries (calls_ask calls)) (map (map_prod id ucast) (eth_entries ms))"
    and "prefix (asked_groups (calls_ask calls)) (setup_mgrps ms)"
  using calls_ask_mono [OF assms] by (simp_all add: driver_asks)

text \<open>
  Whatever the runtime answers, the driver either asks for exactly the entries of the
  Ethernet table and the multicast groups of the connected machines, or stops with a failed
  assertion, having asked for the first of them in their order only; a runtime that accepts
  every call makes it end.
\<close>

theorem driver_asks_for_tables:
  "(case rt_run answer [] (driver_calls ms) of
      (calls, None) \<Rightarrow>
        asked_entries (calls_ask calls) = map (map_prod id ucast) (fst (driver_init ms)) \<and>
        asked_groups (calls_ask calls) = snd (driver_init ms)
    | (calls, Some e) \<Rightarrow>
        e = Assertion_failed \<and>
        prefix (asked_entries (calls_ask calls)) (map (map_prod id ucast) (fst (driver_init ms))) \<and>
        prefix (asked_groups (calls_ask calls)) (snd (driver_init ms))) \<and>
   snd (rt_run (\<lambda>_ _. True) [] (driver_calls ms)) = None"
  by (rule rt_run_cases [of answer "driver_calls ms"])
    (simp_all add: driver_asks driver_prefix_asks driver_init_def rt_run_accepted)

text \<open>
  The switch started as \<open>run_decider.sh\<close> does: the command for the ports is run exactly if
  the two paths together have fewer than 48 characters; with longer paths the program writes
  behind the end of its buffer.
\<close>

theorem decider_started:
  "main_decider True (Some sde) (\<lambda>_ _. True) ms [OPT_INSTALLDIR sde, OPT_CONFFILE conf, OPT_BFSCRIPT script] =
   (if length sde + length script < 48
    then Finished (driver_calls ms) (sde @ ''/bin/bfshell -f '' @ script)
    else Fault Out_of_bounds)"
  by (simp add: main_decider_def parse_options_def print_script_def rt_run_accepted)

end
