(* ===== verification/Trace_Tatp.thy ===== *)
theory Trace_Tatp
  imports Hash_Map "HOL-Library.Monad_Syntax" "HOL-Library.Signed_Division"
begin

text \<open>
  The generator of TATP lock traces (experiments/trace_gen/tatp_trace_gen): the four tables
  with the locks of their rows, and the seven transactions. A draw from the uniform
  distribution of the library is any number of the range, computed from a list of numbers;
  the result is \<open>None\<close> when the list is used up. A hash map is an association list, whose
  order is that of insertion (\<open>Hash_Map\<close>). The hash of a call forwarding
  row is computed with 32-bit integers that wrap around.
\<close>

section \<open>Random numbers and the hash\<close>

type_synonym draws = "nat list"

fun GenerateUniformRandom :: "int \<Rightarrow> int \<Rightarrow> draws \<Rightarrow> (int \<times> draws) option" where
  "GenerateUniformRandom lo hi [] = None"
| "GenerateUniformRandom lo hi (d # ds) = Some (lo + int d mod (hi - lo + 1), ds)"

definition GenerateRandom :: "int \<Rightarrow> int \<Rightarrow> draws \<Rightarrow> (int \<times> draws) option" where
  "GenerateRandom lo hi ds =
     do { (a, ds) \<leftarrow> GenerateUniformRandom 0 65535 ds;
          (b, ds) \<leftarrow> GenerateUniformRandom lo hi ds;
          Some ((a OR b) mod (hi - lo + 1) + lo, ds) }"

definition Hash :: "u32 \<Rightarrow> u32 \<Rightarrow> u32 \<Rightarrow> u32" where
  "Hash x y z = ((x XOR y) * 1000000007 + z) XOR (x + y + z)"

section \<open>Tables\<close>

record facility =
  fa_active :: bool
  fa_lock :: int

record forwarding =
  fo_end :: int
  fo_lock :: int

record tatp =
  subscriber_size :: int
  global_lock_id :: int
  cf_lock_begin :: int
  cf_lock_num :: int
  subscriber :: "(int \<times> int) list"
  access_info :: "(int \<times> (int \<times> int) list) list"
  special_facility :: "(int \<times> (int \<times> facility) list) list"
  call_forwarding :: "(int \<times> (int \<times> forwarding) list) list"

definition ENTRY_LOCK_START :: int where "ENTRY_LOCK_START = 5"
definition CALL_FORWARDING_LOCK_FACTOR :: int where "CALL_FORWARDING_LOCK_FACTOR = 5"

definition empty_tatp :: tatp where
  "empty_tatp =
     \<lparr>subscriber_size = 0, global_lock_id = ENTRY_LOCK_START, cf_lock_begin = 0, cf_lock_num = 0,
      subscriber = [], access_info = [], special_facility = [], call_forwarding = []\<rparr>"

text \<open>
  C's remainder takes the sign of the dividend. The divisor is positive as soon as there are
  two subscribers; the program populates the tables with 100000.
\<close>

definition GetCallForwardingLock :: "tatp \<Rightarrow> int \<Rightarrow> int \<Rightarrow> int \<Rightarrow> int" where
  "GetCallForwardingLock t s_id sf_type start_time =
     sint (Hash (word_of_int s_id) (word_of_int sf_type) (word_of_int start_time)) smod cf_lock_num t + cf_lock_begin t"

definition PopulateSubscriber :: "int \<Rightarrow> tatp \<Rightarrow> tatp" where
  "PopulateSubscriber sz t =
     fold (\<lambda>s t. t\<lparr>subscriber := emplace s (global_lock_id t) (subscriber t), global_lock_id := global_lock_id t + 1\<rparr>)
       [1..sz] t"

text \<open>The rows of one subscriber: types from \<open>start\<close> on, cyclically, each with a new lock.\<close>

fun access_rows :: "nat \<Rightarrow> int \<Rightarrow> int \<Rightarrow> (int \<times> int) list \<Rightarrow> (int \<times> int) list \<times> int" where
  "access_rows 0 start gl m = (m, gl)"
| "access_rows (Suc n) start gl m = access_rows n (start mod 4 + 1) (gl + 1) (emplace start gl m)"

fun PopulateAccessInfo :: "int list \<Rightarrow> tatp \<Rightarrow> draws \<Rightarrow> (tatp \<times> draws) option" where
  "PopulateAccessInfo [] t ds = Some (t, ds)"
| "PopulateAccessInfo (s # ss) t ds =
     do { (cardinality, ds) \<leftarrow> GenerateUniformRandom 1 4 ds;
          (start, ds) \<leftarrow> GenerateUniformRandom 1 4 ds;
          let (m, gl) = access_rows (nat cardinality) start (global_lock_id t) [];
          PopulateAccessInfo ss (t\<lparr>access_info := emplace s m (access_info t), global_lock_id := gl\<rparr>) ds }"

fun facility_rows ::
  "nat \<Rightarrow> int \<Rightarrow> int \<Rightarrow> (int \<times> facility) list \<Rightarrow> draws \<Rightarrow> ((int \<times> facility) list \<times> int \<times> draws) option" where
  "facility_rows 0 start gl m ds = Some (m, gl, ds)"
| "facility_rows (Suc n) start gl m ds =
     do { (a, ds) \<leftarrow> GenerateUniformRandom 1 100 ds;
          facility_rows n (start mod 4 + 1) (gl + 1)
            (emplace start \<lparr>fa_active = (a \<le> 85), fa_lock = gl\<rparr> m) ds }"

fun PopulateSpecialFacility :: "int list \<Rightarrow> tatp \<Rightarrow> draws \<Rightarrow> (tatp \<times> draws) option" where
  "PopulateSpecialFacility [] t ds = Some (t, ds)"
| "PopulateSpecialFacility (s # ss) t ds =
     do { (cardinality, ds) \<leftarrow> GenerateUniformRandom 1 4 ds;
          (start, ds) \<leftarrow> GenerateUniformRandom 1 4 ds;
          (m, gl, ds) \<leftarrow> facility_rows (nat cardinality) start (global_lock_id t) [] ds;
          PopulateSpecialFacility ss (t\<lparr>special_facility := emplace s m (special_facility t), global_lock_id := gl\<rparr>) ds }"

definition cf_key :: "int \<Rightarrow> int \<Rightarrow> int" where
  "cf_key s_id sf_type = push_bit 32 s_id OR sf_type"

fun forwarding_rows ::
  "tatp \<Rightarrow> int \<Rightarrow> int \<Rightarrow> nat \<Rightarrow> int \<Rightarrow> (int \<times> forwarding) list \<Rightarrow> draws \<Rightarrow> ((int \<times> forwarding) list \<times> draws) option" where
  "forwarding_rows t s_id sf_type 0 start m ds = Some (m, ds)"
| "forwarding_rows t s_id sf_type (Suc n) start m ds =
     do { (duration, ds) \<leftarrow> GenerateUniformRandom 1 8 ds;
          forwarding_rows t s_id sf_type n ((start + 1) mod 2)
            (emplace (start * 8)
               \<lparr>fo_end = start * 8 + duration, fo_lock = GetCallForwardingLock t s_id sf_type (start * 8)\<rparr> m) ds }"

fun forwarding_of_facility :: "int \<Rightarrow> int list \<Rightarrow> tatp \<Rightarrow> draws \<Rightarrow> (tatp \<times> draws) option" where
  "forwarding_of_facility s_id [] t ds = Some (t, ds)"
| "forwarding_of_facility s_id (sf_type # ts) t ds =
     do { (cardinality, ds) \<leftarrow> GenerateUniformRandom 0 3 ds;
          if cardinality = 0 then forwarding_of_facility s_id ts t ds
          else
            do { (start, ds) \<leftarrow> GenerateUniformRandom 0 2 ds;
                 (m, ds) \<leftarrow> forwarding_rows t s_id sf_type (nat cardinality) start [] ds;
                 forwarding_of_facility s_id ts
                   (t\<lparr>call_forwarding := emplace (cf_key s_id sf_type) m (call_forwarding t)\<rparr>) ds } }"

fun PopulateCallForwarding :: "(int \<times> (int \<times> facility) list) list \<Rightarrow> tatp \<Rightarrow> draws \<Rightarrow> (tatp \<times> draws) option" where
  "PopulateCallForwarding [] t ds = Some (t, ds)"
| "PopulateCallForwarding ((s_id, m) # xs) t ds =
     do { (t, ds) \<leftarrow> forwarding_of_facility s_id (map fst m) t ds;
          PopulateCallForwarding xs t ds }"

definition PopulateTables :: "int \<Rightarrow> tatp \<Rightarrow> draws \<Rightarrow> (tatp \<times> draws) option" where
  "PopulateTables sz t ds =
     do { let t = PopulateSubscriber sz (t\<lparr>subscriber_size := sz\<rparr>);
          (t, ds) \<leftarrow> PopulateAccessInfo (map fst (subscriber t)) t ds;
          (t, ds) \<leftarrow> PopulateSpecialFacility (map fst (subscriber t)) t ds;
          let t = t\<lparr>cf_lock_begin := global_lock_id t,
                    cf_lock_num := sz * 4 div CALL_FORWARDING_LOCK_FACTOR\<rparr>;
          let t = t\<lparr>global_lock_id := global_lock_id t + cf_lock_num t\<rparr>;
          PopulateCallForwarding (special_facility t) t ds }"

section \<open>Transactions\<close>

datatype tatp_mode = TA_SHARED | TA_EXCLUSIVE
datatype tatp_txn =
    GET_SUBSCRIBER_DATA | GET_NEW_DESTINATION | GET_ACCESS_DATA | UPDATE_SUBSCRIBER_DATA
  | UPDATE_LOCATION | INSERT_CALL_FORWARDING | DELETE_CALL_FORWARDING

record tatp_request =
  ta_txn :: int
  ta_lock :: int
  ta_mode :: tatp_mode
  ta_type :: tatp_txn

definition TATP_REQUEST :: "int \<Rightarrow> int \<Rightarrow> tatp_mode \<Rightarrow> tatp_txn \<Rightarrow> tatp_request" where
  "TATP_REQUEST txn l m ty = \<lparr>ta_txn = txn, ta_lock = l, ta_mode = m, ta_type = ty\<rparr>"

type_synonym tatp_result = "tatp_request list \<times> tatp \<times> draws"

text \<open>
  Dereferencing the iterator of a missing subscriber is undefined, hence the result \<open>None\<close>:
  the numbers that are drawn are those of the subscribers.
\<close>

definition GetSubscriberData :: "int \<Rightarrow> tatp \<Rightarrow> draws \<Rightarrow> tatp_result option" where
  "GetSubscriberData txn t ds =
     do { (s_id, ds) \<leftarrow> GenerateRandom 1 (subscriber_size t) ds;
          lock_id \<leftarrow> map_of (subscriber t) s_id;
          Some ([TATP_REQUEST txn lock_id TA_SHARED GET_SUBSCRIBER_DATA], t, ds) }"

text \<open>The rows that start at 0, 8, ... up to the drawn start time.\<close>

fun destination_locks :: "tatp \<Rightarrow> int \<Rightarrow> int \<Rightarrow> (int \<times> forwarding) list \<Rightarrow> int \<Rightarrow> int list \<Rightarrow> int list \<Rightarrow> int list" where
  "destination_locks t s_id sf_type rows end_time [] used = []"
| "destination_locks t s_id sf_type rows end_time (i # is) used =
     (case map_of rows i of
        None \<Rightarrow> destination_locks t s_id sf_type rows end_time is used
      | Some r \<Rightarrow>
          (let l = GetCallForwardingLock t s_id sf_type i in
           if fo_end r \<le> end_time \<and> l \<notin> set used
           then l # destination_locks t s_id sf_type rows end_time is (l # used)
           else destination_locks t s_id sf_type rows end_time is used))"

definition GetNewDestination :: "int \<Rightarrow> tatp \<Rightarrow> draws \<Rightarrow> tatp_result option" where
  "GetNewDestination txn t ds =
     do { (s_id, ds) \<leftarrow> GenerateRandom 1 (subscriber_size t) ds;
          (sf_type, ds) \<leftarrow> GenerateRandom 1 4 ds;
          let (facs, sfs) = subscript [] s_id (special_facility t);
          let t = t\<lparr>special_facility := sfs\<rparr>;
          let rs = (case map_of facs sf_type of
                      None \<Rightarrow> []
                    | Some f \<Rightarrow> [TATP_REQUEST txn (fa_lock f) TA_SHARED GET_NEW_DESTINATION]);
          (case map_of (call_forwarding t) (cf_key s_id sf_type) of
             None \<Rightarrow> Some (rs, t, ds)
           | Some rows \<Rightarrow>
               do { (st, ds) \<leftarrow> GenerateRandom 0 2 ds;
                    (end_time, ds) \<leftarrow> GenerateRandom 1 24 ds;
                    let is = map (\<lambda>k. 8 * k) [0..st];
                    Some (rs @ map (\<lambda>l. TATP_REQUEST txn l TA_SHARED GET_NEW_DESTINATION)
                                 (destination_locks t s_id sf_type rows end_time is []), t, ds) }) }"

definition GetAccessData :: "int \<Rightarrow> tatp \<Rightarrow> draws \<Rightarrow> tatp_result option" where
  "GetAccessData txn t ds =
     do { (s_id, ds) \<leftarrow> GenerateRandom 1 (subscriber_size t) ds;
          (ai_type, ds) \<leftarrow> GenerateRandom 1 4 ds;
          let (rows, ais) = subscript [] s_id (access_info t);
          let t = t\<lparr>access_info := ais\<rparr>;
          (case map_of rows ai_type of
             None \<Rightarrow> Some ([], t, ds)
           | Some l \<Rightarrow> Some ([TATP_REQUEST txn l TA_SHARED GET_ACCESS_DATA], t, ds)) }"

definition UpdateSubsriberData :: "int \<Rightarrow> tatp \<Rightarrow> draws \<Rightarrow> tatp_result option" where
  "UpdateSubsriberData txn t ds =
     do { (s_id, ds) \<leftarrow> GenerateRandom 1 (subscriber_size t) ds;
          (sf_type, ds) \<leftarrow> GenerateRandom 1 4 ds;
          subs_lock \<leftarrow> map_of (subscriber t) s_id;
          let rs = [TATP_REQUEST txn subs_lock TA_EXCLUSIVE UPDATE_SUBSCRIBER_DATA];
          let (facs, sfs) = subscript [] s_id (special_facility t);
          let t = t\<lparr>special_facility := sfs\<rparr>;
          (case map_of facs sf_type of
             None \<Rightarrow> Some (rs, t, ds)
           | Some f \<Rightarrow> Some (rs @ [TATP_REQUEST txn (fa_lock f) TA_EXCLUSIVE UPDATE_SUBSCRIBER_DATA], t, ds)) }"

definition UpdateLocation :: "int \<Rightarrow> tatp \<Rightarrow> draws \<Rightarrow> tatp_result option" where
  "UpdateLocation txn t ds =
     do { (s_id, ds) \<leftarrow> GenerateRandom 1 (subscriber_size t) ds;
          lock_id \<leftarrow> map_of (subscriber t) s_id;
          Some ([TATP_REQUEST txn lock_id TA_EXCLUSIVE UPDATE_LOCATION], t, ds) }"

definition InsertCallForwarding :: "int \<Rightarrow> tatp \<Rightarrow> draws \<Rightarrow> tatp_result option" where
  "InsertCallForwarding txn t ds =
     do { (s_id, ds) \<leftarrow> GenerateRandom 1 (subscriber_size t) ds;
          subs_lock \<leftarrow> map_of (subscriber t) s_id;
          let (facs, sfs) = subscript [] s_id (special_facility t);
          let t = t\<lparr>special_facility := sfs\<rparr>;
          let rs = TATP_REQUEST txn subs_lock TA_SHARED INSERT_CALL_FORWARDING
                   # map (\<lambda>f. TATP_REQUEST txn (fa_lock (snd f)) TA_SHARED INSERT_CALL_FORWARDING) facs;
          (sf_type, ds) \<leftarrow> GenerateRandom 1 4 ds;
          (st, ds) \<leftarrow> GenerateRandom 0 2 ds;
          let start_time = st * 8;
          (end_time, ds) \<leftarrow> GenerateRandom 1 24 ds;
          if map_of facs sf_type = None then Some (rs, t, ds)
          else
            (let (rows, cfs) = subscript [] (cf_key s_id sf_type) (call_forwarding t);
                 t = t\<lparr>call_forwarding := cfs\<rparr> in
             if map_of rows start_time = None then Some (rs, t, ds)
             else
               (let l = GetCallForwardingLock t s_id sf_type start_time in
                Some (rs @ [TATP_REQUEST txn l TA_EXCLUSIVE INSERT_CALL_FORWARDING],
                      t\<lparr>call_forwarding :=
                          emplace (cf_key s_id sf_type) [(start_time, \<lparr>fo_end = end_time, fo_lock = l\<rparr>)] (call_forwarding t)\<rparr>,
                      ds))) }"

definition DeleteCallForwarding :: "int \<Rightarrow> tatp \<Rightarrow> draws \<Rightarrow> tatp_result option" where
  "DeleteCallForwarding txn t ds =
     do { (s_id, ds) \<leftarrow> GenerateRandom 1 (subscriber_size t) ds;
          subs_lock \<leftarrow> map_of (subscriber t) s_id;
          let rs = [TATP_REQUEST txn subs_lock TA_SHARED DELETE_CALL_FORWARDING];
          (sf_type, ds) \<leftarrow> GenerateRandom 1 4 ds;
          (st, ds) \<leftarrow> GenerateRandom 0 2 ds;
          let start_time = st * 8;
          let (rows, cfs) = subscript [] (cf_key s_id sf_type) (call_forwarding t);
          let t = t\<lparr>call_forwarding := cfs\<rparr>;
          if map_of rows start_time = None then Some (rs, t, ds)
          else Some (rs @ [TATP_REQUEST txn (GetCallForwardingLock t s_id sf_type start_time) TA_EXCLUSIVE DELETE_CALL_FORWARDING],
                     t\<lparr>call_forwarding := assign (cf_key s_id sf_type) (erase_key start_time rows) (call_forwarding t)\<rparr>, ds) }"

text \<open>One iteration of the main loop.\<close>

definition tatp_transaction :: "int \<Rightarrow> tatp \<Rightarrow> draws \<Rightarrow> tatp_result option" where
  "tatp_transaction txn t ds =
     do { (random, ds) \<leftarrow> GenerateUniformRandom 1 100 ds;
          if random \<le> 35 then GetSubscriberData txn t ds
          else if random \<le> 45 then GetNewDestination txn t ds
          else if random \<le> 80 then GetAccessData txn t ds
          else if random \<le> 82 then UpdateSubsriberData txn t ds
          else if random \<le> 96 then UpdateLocation txn t ds
          else if random \<le> 98 then InsertCallForwarding txn t ds
          else DeleteCallForwarding txn t ds }"

section \<open>Random numbers stay in their range\<close>

lemma mod_span: "lo \<le> hi \<Longrightarrow> 0 \<le> x mod (hi - lo + 1) \<and> x mod (hi - lo + 1) \<le> hi - (lo :: int)"
  using pos_mod_bound [of "hi - lo + 1" x] pos_mod_sign [of "hi - lo + 1" x] by linarith

lemma GenerateUniformRandom_range:
  "GenerateUniformRandom lo hi ds = Some (v, ds') \<Longrightarrow> lo \<le> hi \<Longrightarrow> lo \<le> v \<and> v \<le> hi"
  by (cases ds) (use mod_span [of lo hi] in \<open>auto simp: add.commute [of lo] le_diff_eq\<close>)

lemma GenerateRandom_range:
  "GenerateRandom lo hi ds = Some (v, ds') \<Longrightarrow> lo \<le> hi \<Longrightarrow> lo \<le> v \<and> v \<le> hi"
proof -
  assume r: "GenerateRandom lo hi ds = Some (v, ds')" and le: "lo \<le> hi"
  then obtain a b :: int where v: "v = (a OR b) mod (hi - lo + 1) + lo"
    by (auto simp: GenerateRandom_def Option.bind_eq_Some_conv)
  from v mod_span [OF le, of "a OR b"] show ?thesis by linarith
qed

section \<open>The locks of the rows\<close>

definition all_locks :: "tatp \<Rightarrow> int list" where
  "all_locks t =
     map snd (subscriber t) @ concat (map (\<lambda>x. map snd (snd x)) (access_info t))
     @ concat (map (\<lambda>x. map (\<lambda>y. fa_lock (snd y)) (snd x)) (special_facility t))"

definition locks_inv :: "tatp \<Rightarrow> bool" where
  "locks_inv t \<longleftrightarrow> distinct (all_locks t) \<and> ENTRY_LOCK_START \<le> global_lock_id t \<and>
     (\<forall>l \<in> set (all_locks t). ENTRY_LOCK_START \<le> l \<and> l < global_lock_id t)"

text \<open>New locks: numbers from an interval, each used once.\<close>

definition fresh_locks :: "int list \<Rightarrow> int \<Rightarrow> int \<Rightarrow> bool" where
  "fresh_locks ls lo hi \<longleftrightarrow> distinct ls \<and> set ls \<subseteq> {lo..<hi} \<and> lo \<le> hi"

lemma access_rows_fresh:
  "access_rows n start gl m = (m', gl') \<Longrightarrow>
   \<exists>ls. map snd m' = map snd m @ ls \<and> fresh_locks ls gl gl'"
proof (induction n arbitrary: start gl m)
  case 0
  then show ?case by (auto simp: fresh_locks_def)
next
  case (Suc n)
  then obtain ls where ls: "map snd m' = map snd (emplace start gl m) @ ls" "fresh_locks ls (gl + 1) gl'" by fastforce
  consider "emplace start gl m = m" | "emplace start gl m = m @ [(start, gl)]"
    using emplace_cases [of start gl m] by auto
  then show ?case
  proof cases
    case 1
    with ls show ?thesis by (auto simp: fresh_locks_def)
  next
    case 2
    with ls show ?thesis by (intro exI [of _ "gl # ls"]) (auto simp: fresh_locks_def)
  qed
qed

lemma facility_rows_fresh:
  "facility_rows n start gl m ds = Some (m', gl', ds') \<Longrightarrow>
   \<exists>ls. map (\<lambda>y. fa_lock (snd y)) m' = map (\<lambda>y. fa_lock (snd y)) m @ ls \<and> fresh_locks ls gl gl'"
proof (induction n arbitrary: start gl m ds)
  case 0
  then show ?case by (auto simp: fresh_locks_def)
next
  case (Suc n)
  then obtain a :: int and ds1 where "facility_rows n (start mod 4 + 1) (gl + 1) (emplace start \<lparr>fa_active = (a \<le> 85), fa_lock = gl\<rparr> m) ds1
      = Some (m', gl', ds')"
    by (auto simp: Option.bind_eq_Some_conv)
  then obtain ls where ls: "map (\<lambda>y. fa_lock (snd y)) m' =
      map (\<lambda>y. fa_lock (snd y)) (emplace start \<lparr>fa_active = (a \<le> 85), fa_lock = gl\<rparr> m) @ ls" "fresh_locks ls (gl + 1) gl'"
    using Suc.IH by blast
  consider "emplace start \<lparr>fa_active = (a \<le> 85), fa_lock = gl\<rparr> m = m"
    | "emplace start \<lparr>fa_active = (a \<le> 85), fa_lock = gl\<rparr> m = m @ [(start, \<lparr>fa_active = (a \<le> 85), fa_lock = gl\<rparr>)]"
    using emplace_cases [of start "\<lparr>fa_active = (a \<le> 85), fa_lock = gl\<rparr>" m] by auto
  then show ?case
  proof cases
    case 1
    with ls show ?thesis by (auto simp: fresh_locks_def)
  next
    case 2
    with ls show ?thesis by (intro exI [of _ "gl # ls"]) (auto simp: fresh_locks_def)
  qed
qed

lemma locks_extend:
  assumes "distinct (A @ B @ C)" "\<forall>l \<in> set (A @ B @ C). e \<le> l \<and> l < gl" "e \<le> gl" "fresh_locks ls gl gl'"
  shows "distinct (A @ (B @ ls) @ C)" "\<forall>l \<in> set (A @ (B @ ls) @ C). e \<le> l \<and> l < gl'" "e \<le> gl'"
proof -
  have ls: "\<forall>l \<in> set ls. gl \<le> l \<and> l < gl'" "gl \<le> gl'" using assms(4) by (auto simp: fresh_locks_def)
  have "set ls \<inter> set (A @ B @ C) = {}" using ls(1) assms(2) unfolding disjoint_iff by (meson not_le)
  moreover have "distinct (A @ (B @ ls) @ C) \<longleftrightarrow> distinct (A @ B @ C) \<and> distinct ls \<and> set ls \<inter> set (A @ B @ C) = {}"
    by (simp add: Int_Un_distrib Int_Un_distrib2) blast
  ultimately show "distinct (A @ (B @ ls) @ C)" using assms(1,4) by (simp add: fresh_locks_def)
  show "e \<le> gl'" using assms(3) ls(2) by linarith
  show "\<forall>l \<in> set (A @ (B @ ls) @ C). e \<le> l \<and> l < gl'"
  proof
    fix l assume "l \<in> set (A @ (B @ ls) @ C)"
    then consider "l \<in> set (A @ B @ C)" | "l \<in> set ls" by auto
    then show "e \<le> l \<and> l < gl'"
    proof cases
      case 1
      with assms(2) have "e \<le> l \<and> l < gl" by blast
      with ls(2) show ?thesis by linarith
    next
      case 2
      with ls(1) have "gl \<le> l \<and> l < gl'" by blast
      with assms(3) show ?thesis by linarith
    qed
  qed
qed

lemma locks_skip:
  assumes "distinct xs" "\<forall>l \<in> set xs. e \<le> l \<and> l < gl" "e \<le> gl" "fresh_locks ls gl gl'"
  shows "distinct xs" "\<forall>l \<in> set xs. e \<le> l \<and> l < gl'" "e \<le> gl'"
  using assms by (force simp: fresh_locks_def)+

lemma locks_inv_access:
  assumes "locks_inv t" "fresh_locks (map snd m) (global_lock_id t) gl"
  shows "locks_inv (t\<lparr>access_info := emplace s m (access_info t), global_lock_id := gl\<rparr>)"
proof -
  have inv: "distinct (all_locks t)" "\<forall>l \<in> set (all_locks t). ENTRY_LOCK_START \<le> l \<and> l < global_lock_id t"
    "ENTRY_LOCK_START \<le> global_lock_id t" using assms(1) by (simp_all add: locks_inv_def)
  consider "emplace s m (access_info t) = access_info t" | "emplace s m (access_info t) = access_info t @ [(s, m)]"
    using emplace_cases [of s m "access_info t"] by auto
  then show ?thesis
  proof cases
    case 1
    from locks_skip [OF inv assms(2)] 1 show ?thesis by (simp add: locks_inv_def all_locks_def)
  next
    case 2
    from locks_extend [OF inv [unfolded all_locks_def] assms(2)] 2 show ?thesis
      by (simp add: locks_inv_def all_locks_def)
  qed
qed

lemma locks_inv_facility:
  assumes "locks_inv t" "fresh_locks (map (\<lambda>y. fa_lock (snd y)) m) (global_lock_id t) gl"
  shows "locks_inv (t\<lparr>special_facility := emplace s m (special_facility t), global_lock_id := gl\<rparr>)"
proof -
  have inv: "distinct (all_locks t)" "\<forall>l \<in> set (all_locks t). ENTRY_LOCK_START \<le> l \<and> l < global_lock_id t"
    "ENTRY_LOCK_START \<le> global_lock_id t" using assms(1) by (simp_all add: locks_inv_def)
  consider "emplace s m (special_facility t) = special_facility t"
    | "emplace s m (special_facility t) = special_facility t @ [(s, m)]"
    using emplace_cases [of s m "special_facility t"] by auto
  then show ?thesis
  proof cases
    case 1
    from locks_skip [OF inv assms(2)] 1 show ?thesis by (simp add: locks_inv_def all_locks_def)
  next
    case 2
    have all: "all_locks (t\<lparr>special_facility := special_facility t @ [(s, m)], global_lock_id := gl\<rparr>) =
        all_locks t @ ([] @ map (\<lambda>y. fa_lock (snd y)) m) @ []" by (simp add: all_locks_def)
    have "distinct (all_locks t @ [] @ [])"
      "\<forall>l \<in> set (all_locks t @ [] @ []). ENTRY_LOCK_START \<le> l \<and> l < global_lock_id t" using inv by simp_all
    from locks_extend [OF this inv(3) assms(2)] 2 show ?thesis
      unfolding locks_inv_def by (simp only: all) simp
  qed
qed

lemma PopulateAccessInfo_inv:
  "PopulateAccessInfo ss t ds = Some (t', ds') \<Longrightarrow> locks_inv t \<Longrightarrow>
   locks_inv t' \<and> subscriber t' = subscriber t \<and> subscriber_size t' = subscriber_size t"
proof (induction ss arbitrary: t ds)
  case Nil
  then show ?case by simp
next
  case (Cons s ss)
  obtain c ds0 where c: "GenerateUniformRandom 1 4 ds = Some (c, ds0)"
    using Cons.prems(1) by (auto simp: Option.bind_eq_Some_conv)
  obtain st ds1 where st: "GenerateUniformRandom 1 4 ds0 = Some (st, ds1)"
    using Cons.prems(1) by (auto simp: c Option.bind_eq_Some_conv)
  obtain m gl where m: "access_rows (nat c) st (global_lock_id t) [] = (m, gl)" by fastforce
  from access_rows_fresh [OF m] have f: "fresh_locks (map snd m) (global_lock_id t) gl" by auto
  have "PopulateAccessInfo ss (t\<lparr>access_info := emplace s m (access_info t), global_lock_id := gl\<rparr>) ds1 = Some (t', ds')"
    using Cons.prems(1) by (simp add: c st m)
  from Cons.IH [OF this locks_inv_access [OF Cons.prems(2) f]] show ?case by simp
qed

lemma PopulateSpecialFacility_inv:
  "PopulateSpecialFacility ss t ds = Some (t', ds') \<Longrightarrow> locks_inv t \<Longrightarrow>
   locks_inv t' \<and> subscriber t' = subscriber t \<and> subscriber_size t' = subscriber_size t"
proof (induction ss arbitrary: t ds)
  case Nil
  then show ?case by simp
next
  case (Cons s ss)
  then obtain c st ds1 m gl ds2 where m: "facility_rows (nat c) st (global_lock_id t) [] ds1 = Some (m, gl, ds2)"
    and r: "PopulateSpecialFacility ss (t\<lparr>special_facility := emplace s m (special_facility t), global_lock_id := gl\<rparr>) ds2
      = Some (t', ds')"
    by (auto simp: Option.bind_eq_Some_conv)
  from facility_rows_fresh [OF m] have "fresh_locks (map (\<lambda>y. fa_lock (snd y)) m) (global_lock_id t) gl" by auto
  from Cons.IH [OF r locks_inv_facility [OF Cons.prems(2) this]] show ?case by simp
qed

text \<open>The subscribers: locks 5, 6, ... in the order of their numbers.\<close>

lemma PopulateSubscriber_eq:
  "PopulateSubscriber (int n) (empty_tatp\<lparr>subscriber_size := z\<rparr>) =
   empty_tatp\<lparr>subscriber_size := z, subscriber := map (\<lambda>s. (s, s + 4)) [1..int n], global_lock_id := 5 + int n\<rparr>"
proof (induction n)
  case 0
  then show ?case by (simp add: PopulateSubscriber_def empty_tatp_def ENTRY_LOCK_START_def)
next
  case (Suc n)
  have "[1..int (Suc n)] = [1..int n] @ [int n + 1]" by (simp add: upto_rec2 add.commute)
  moreover have "map_of (map (\<lambda>s. (s, s + 4)) [1..int n]) (int n + 1) = None"
    by (auto simp: map_of_eq_None_iff)
  ultimately show ?case using Suc.IH by (simp add: PopulateSubscriber_def emplace_def)
qed

lemma locks_inv_subscriber:
  "locks_inv (PopulateSubscriber (int n) (empty_tatp\<lparr>subscriber_size := z\<rparr>))"
proof -
  have "distinct (map (\<lambda>s. s + 4) [1..int n])" by (simp add: distinct_map inj_on_def)
  then show ?thesis unfolding PopulateSubscriber_eq
    by (auto simp: locks_inv_def all_locks_def empty_tatp_def ENTRY_LOCK_START_def comp_def)
qed

lemma forwarding_of_facility_keeps:
  "forwarding_of_facility s ts t ds = Some (t', ds') \<Longrightarrow> \<exists>cf. t' = t\<lparr>call_forwarding := cf\<rparr>"
proof (induction ts arbitrary: t ds)
  case Nil
  then show ?case by (auto intro: exI [of _ "call_forwarding t"])
next
  case (Cons x ts)
  from Cons.prems obtain cf ds1 where "forwarding_of_facility s ts (t\<lparr>call_forwarding := cf\<rparr>) ds1 = Some (t', ds')"
  proof -
    assume *: "\<And>cf ds1. forwarding_of_facility s ts (t\<lparr>call_forwarding := cf\<rparr>) ds1 = Some (t', ds') \<Longrightarrow> thesis"
    from Cons.prems * [of "call_forwarding t"] * show thesis
      by (auto simp: Option.bind_eq_Some_conv split: if_splits)
  qed
  from Cons.IH [OF this] show ?case by auto
qed

lemma PopulateCallForwarding_keeps:
  "PopulateCallForwarding xs t ds = Some (t', ds') \<Longrightarrow> \<exists>cf. t' = t\<lparr>call_forwarding := cf\<rparr>"
proof (induction xs arbitrary: t ds)
  case Nil
  then show ?case by (auto intro: exI [of _ "call_forwarding t"])
next
  case (Cons x xs)
  then obtain t1 ds1 where "forwarding_of_facility (fst x) (map fst (snd x)) t ds = Some (t1, ds1)"
    "PopulateCallForwarding xs t1 ds1 = Some (t', ds')"
    by (cases x) (auto simp: Option.bind_eq_Some_conv)
  with Cons.IH forwarding_of_facility_keeps show ?case by fastforce
qed

lemma PopulateTables_result:
  assumes "PopulateTables (int n) empty_tatp ds = Some (t, ds')"
  shows "distinct (all_locks t)" "\<forall>l \<in> set (all_locks t). ENTRY_LOCK_START \<le> l \<and> l < cf_lock_begin t"
    "global_lock_id t = cf_lock_begin t + cf_lock_num t" "cf_lock_num t = int n * 4 div CALL_FORWARDING_LOCK_FACTOR"
    "subscriber t = map (\<lambda>s. (s, s + 4)) [1..int n]" "subscriber_size t = int n"
proof -
  let ?t0 = "PopulateSubscriber (int n) (empty_tatp\<lparr>subscriber_size := int n\<rparr>)"
  from assms obtain t1 ds1 t2 ds2 where
    1: "PopulateAccessInfo (map fst (subscriber ?t0)) ?t0 ds = Some (t1, ds1)"
    and 2: "PopulateSpecialFacility (map fst (subscriber t1)) t1 ds1 = Some (t2, ds2)"
    and 3: "PopulateCallForwarding (special_facility t2)
       (t2\<lparr>cf_lock_begin := global_lock_id t2, cf_lock_num := int n * 4 div CALL_FORWARDING_LOCK_FACTOR,
           global_lock_id := global_lock_id t2 + int n * 4 div CALL_FORWARDING_LOCK_FACTOR\<rparr>) ds2 = Some (t, ds')"
    by (auto simp: PopulateTables_def Let_def Option.bind_eq_Some_conv)
  from PopulateAccessInfo_inv [OF 1 locks_inv_subscriber] PopulateSpecialFacility_inv [OF 2]
  have inv: "locks_inv t2" "subscriber t2 = subscriber ?t0" "subscriber_size t2 = int n"
    by (simp_all add: PopulateSubscriber_eq)
  obtain cf where t: "t = t2\<lparr>cf_lock_begin := global_lock_id t2, cf_lock_num := int n * 4 div CALL_FORWARDING_LOCK_FACTOR,
      global_lock_id := global_lock_id t2 + int n * 4 div CALL_FORWARDING_LOCK_FACTOR, call_forwarding := cf\<rparr>"
    using PopulateCallForwarding_keeps [OF 3] by auto
  have al: "all_locks t = all_locks t2" by (simp add: t all_locks_def)
  show "distinct (all_locks t)" "\<forall>l \<in> set (all_locks t). ENTRY_LOCK_START \<le> l \<and> l < cf_lock_begin t"
    using inv(1) unfolding al by (simp_all add: locks_inv_def t)
  show "global_lock_id t = cf_lock_begin t + cf_lock_num t" "cf_lock_num t = int n * 4 div CALL_FORWARDING_LOCK_FACTOR"
    "subscriber t = map (\<lambda>s. (s, s + 4)) [1..int n]" "subscriber_size t = int n"
    using inv(2,3) by (simp_all add: t PopulateSubscriber_eq)
qed

text \<open>Two subscribers with one row each in every table, as one list of random numbers populates them.\<close>

definition two_subscribers :: tatp where
  "two_subscribers =
     \<lparr>subscriber_size = 2, global_lock_id = 12, cf_lock_begin = 11, cf_lock_num = 1,
      subscriber = [(1, 5), (2, 6)], access_info = [(1, [(1, 7)]), (2, [(1, 8)])],
      special_facility =
        [(1, [(1, \<lparr>fa_active = True, fa_lock = 9\<rparr>)]), (2, [(1, \<lparr>fa_active = True, fa_lock = 10\<rparr>)])],
      call_forwarding = [(4294967297, [(0, \<lparr>fo_end = 1, fo_lock = 11\<rparr>)])]\<rparr>"

lemma two_subscribers_populated:
  "PopulateTables (int 2) empty_tatp [0, 0, 0, 0, 0, 0, 0, 0, 0, 0, 1, 0, 0, 0] = Some (two_subscribers, [])"
  by code_simp

text \<open>
  The rows of the three tables whose locks are numbered get pairwise different locks,
  between the first entry lock and the first lock of the call forwarding rows, whatever the
  random numbers are; the call forwarding rows are meant to share the numbers after those.
\<close>

theorem tatp_row_locks_distinct:
  assumes "PopulateTables (int n) empty_tatp ds = Some (t, ds')"
  shows "distinct (all_locks t) \<and> (\<forall>l \<in> set (all_locks t). ENTRY_LOCK_START \<le> l \<and> l < cf_lock_begin t) \<and>
         global_lock_id t = cf_lock_begin t + cf_lock_num t"
  using PopulateTables_result [OF assms] by blast

theorem tatp_row_locks_distinct_witness:
  "all_locks two_subscribers = [5, 6, 7, 8, 9, 10] \<and> distinct (all_locks two_subscribers) \<and>
   list_all (\<lambda>l. ENTRY_LOCK_START \<le> l \<and> l < 11) (all_locks two_subscribers)"
proof -
  have "all_locks two_subscribers = [5, 6, 7, 8, 9, 10]" "cf_lock_begin two_subscribers = 11" by code_simp+
  then show ?thesis using tatp_row_locks_distinct [OF two_subscribers_populated] by (simp add: list_all_iff)
qed

text \<open>
  A transaction never looks up a subscriber that does not exist: the number it draws is
  between 1 and the number of subscribers, and the subscriber with that number has the lock
  with that number plus four.
\<close>

theorem tatp_subscriber_found:
  assumes "PopulateTables (int n) empty_tatp ds = Some (t, ds')" "1 \<le> n"
    and "GenerateRandom 1 (subscriber_size t) es = Some (s, es')"
  shows "1 \<le> s \<and> s \<le> int n \<and> map_of (subscriber t) s = Some (s + 4)"
proof -
  have "1 \<le> s \<and> s \<le> int n"
    using GenerateRandom_range [OF assms(3)] PopulateTables_result(6) [OF assms(1)] assms(2) by simp
  then show ?thesis using PopulateTables_result(5) [OF assms(1)] by (auto simp: map_of_map_restrict)
qed

theorem tatp_subscriber_found_witness:
  "GenerateRandom 1 (subscriber_size two_subscribers) [0, 0] = Some (2, []) \<and>
   1 \<le> (2 :: int) \<and> (2 :: int) \<le> int 2 \<and> map_of (subscriber two_subscribers) 2 = Some (2 + 4)"
proof -
  have g: "GenerateRandom 1 (subscriber_size two_subscribers) [0, 0] = Some (2, [])" by code_simp
  show ?thesis using g tatp_subscriber_found [OF two_subscribers_populated _ g] by simp
qed

text \<open>
  The lock of a call forwarding row lies less than \<open>cf_lock_num\<close> away from
  \<open>cf_lock_begin\<close>, but on either side of it: the hash is a signed number, and so is its
  remainder. With the 100000 subscribers of the program, the row of subscriber 1 with type 2
  that starts at 0 gets a lock 7274 below the numbers reserved for these rows, which is the
  lock of some other row.
\<close>

theorem tatp_forwarding_lock_range:
  assumes "0 < cf_lock_num t"
  shows "cf_lock_begin t - cf_lock_num t < GetCallForwardingLock t s sf st \<and>
         GetCallForwardingLock t s sf st < cf_lock_begin t + cf_lock_num t \<and>
         (cf_lock_num t = 80000 \<longrightarrow> GetCallForwardingLock t 1 2 0 = cf_lock_begin t - 7274)"
proof (intro conjI impI)
  let ?h = "sint (Hash (word_of_int s) (word_of_int sf) (word_of_int st))"
  have "?h smod cf_lock_num t \<in> {- \<bar>cf_lock_num t\<bar> + 1..\<bar>cf_lock_num t\<bar> - 1}"
    by (rule smod_int_range) (use assms in simp)
  with assms show "cf_lock_begin t - cf_lock_num t < GetCallForwardingLock t s sf st"
    "GetCallForwardingLock t s sf st < cf_lock_begin t + cf_lock_num t"
    by (simp_all add: GetCallForwardingLock_def)
  have "sint (Hash (word_of_int 1) (word_of_int 2) (word_of_int 0)) = -1294967274" by (simp add: Hash_def)
  then show "GetCallForwardingLock t 1 2 0 = cf_lock_begin t - 7274" if "cf_lock_num t = 80000"
    using that by (simp add: GetCallForwardingLock_def smod_int_alt_def)
qed

theorem tatp_forwarding_lock_range_witness:
  "let t = empty_tatp\<lparr>cf_lock_begin := 600005, cf_lock_num := 80000\<rparr> in GetCallForwardingLock t 1 2 0 = 592731"
  using tatp_forwarding_lock_range [of "empty_tatp\<lparr>cf_lock_begin := 600005, cf_lock_num := 80000\<rparr>"] by simp

text \<open>The call forwarding row of a key and a start time.\<close>

definition cf_row :: "tatp \<Rightarrow> int \<Rightarrow> int \<Rightarrow> forwarding option" where
  "cf_row t k st = (case map_of (call_forwarding t) k of None \<Rightarrow> None | Some rows \<Rightarrow> map_of rows st)"

lemma cf_row_subscript:
  "subscript [] k (call_forwarding t) = (rows, cfs) \<Longrightarrow> cf_row (t\<lparr>call_forwarding := cfs\<rparr>) k' st = cf_row t k' st"
  "subscript [] k (call_forwarding t) = (rows, cfs) \<Longrightarrow> map_of cfs k = Some rows"
  by (auto simp: subscript_def cf_row_def map_add_def split: option.splits if_splits)

text \<open>
  The transaction that inserts a call forwarding row inserts none: it goes on only when
  the row exists already, against the primary key constraint that the check stands for, and
  the insertion then finds the key in the table and leaves the table as it is.
\<close>

theorem tatp_insert_adds_no_row:
  assumes "InsertCallForwarding txn t ds = Some (rs, t', ds')"
  shows "cf_row t' k st = cf_row t k st"
proof -
  obtain s ds1 l where 1: "GenerateRandom 1 (subscriber_size t) ds = Some (s, ds1)" "map_of (subscriber t) s = Some l"
    using assms by (auto simp: InsertCallForwarding_def Let_def Option.bind_eq_Some_conv)
  obtain facs sfs where 2: "subscript [] s (special_facility t) = (facs, sfs)" by fastforce
  obtain sf ds2 where 3: "GenerateRandom 1 4 ds1 = Some (sf, ds2)"
    using assms by (auto simp: InsertCallForwarding_def Let_def 1 2 Option.bind_eq_Some_conv)
  obtain tm ds3 en ds4 where 4: "GenerateRandom 0 2 ds2 = Some (tm, ds3)" "GenerateRandom 1 24 ds3 = Some (en, ds4)"
    using assms by (auto simp: InsertCallForwarding_def Let_def 1 2 3 Option.bind_eq_Some_conv)
  obtain rows cfs where 5: "subscript [] (cf_key s sf) (call_forwarding t) = (rows, cfs)" by fastforce
  have e: "emplace (cf_key s sf) v cfs = cfs" for v
    using cf_row_subscript(2) [OF 5] by (simp add: emplace_present)
  have c: "cf_row (t\<lparr>special_facility := x, call_forwarding := cfs\<rparr>) k st = cf_row t k st" for x
    using cf_row_subscript(1) [OF 5, of k st] by (simp add: cf_row_def)
  have c0: "cf_row (t\<lparr>special_facility := x\<rparr>) k st = cf_row t k st" for x
    by (simp add: cf_row_def)
  show ?thesis using assms by (auto simp: InsertCallForwarding_def Let_def 1 2 3 4 5 e c c0 split: if_splits)
qed

theorem tatp_insert_adds_no_row_witness:
  "\<exists>rs t'. InsertCallForwarding 7 two_subscribers [0, 1, 0, 3, 0, 0, 0, 1] = Some (rs, t', []) \<and>
     map ta_lock rs = [5, 9, 11] \<and> cf_row t' 4294967297 0 = cf_row two_subscribers 4294967297 0"
proof -
  have i: "InsertCallForwarding 7 two_subscribers [0, 1, 0, 3, 0, 0, 0, 1] =
     Some ([TATP_REQUEST 7 5 TA_SHARED INSERT_CALL_FORWARDING, TATP_REQUEST 7 9 TA_SHARED INSERT_CALL_FORWARDING,
            TATP_REQUEST 7 11 TA_EXCLUSIVE INSERT_CALL_FORWARDING], two_subscribers, [])" by code_simp
  show ?thesis using i tatp_insert_adds_no_row [OF i, of 4294967297 0] by (simp add: TATP_REQUEST_def)
qed

end
