(* ===== verification/Trace_Tpcc.thy ===== *)
theory Trace_Tpcc
  imports Fiss_Lock_Api "HOL-Library.Monad_Syntax"
begin

text \<open>
  The generator of TPC-C lock traces (experiments/trace_gen/tpcc_trace_gen): the numbering
  of the locks of a warehouse and the lock requests of the five transactions. The values that
  \<open>rand_r\<close> returns are a list that the generator consumes; a loop that draws until a value
  fits ends when the list has such a value, and the result is \<open>None\<close> when the list is used
  up. The order of the two draws of \<open>NURAND\<close>, which the language leaves open, is left to
  right.
\<close>

section \<open>Numbering of the locks\<close>

definition MACHINE_NUM :: nat where "MACHINE_NUM = 8"
definition WPM :: nat where "WPM = 1200"

definition NUM_CUSTOMER :: nat where "NUM_CUSTOMER = 30000"
definition NUM_STOCK :: nat where "NUM_STOCK = 100000"
definition NUM_ITEM :: nat where "NUM_ITEM = 100000"
definition NUM_DISTRICT :: nat where "NUM_DISTRICT = 10"
definition CPD :: nat where "CPD = NUM_CUSTOMER div NUM_DISTRICT"

definition NUM_WAREHOUSE_LOCK :: nat where "NUM_WAREHOUSE_LOCK = 1"
definition NUM_DISTRICT_LOCK :: nat where "NUM_DISTRICT_LOCK = 10"
definition NUM_ORDER_LOCK :: nat where "NUM_ORDER_LOCK = 10"
definition NUM_NEW_ORDER_LOCK :: nat where "NUM_NEW_ORDER_LOCK = 10"
definition NUM_HISTORY_LOCK :: nat where "NUM_HISTORY_LOCK = 10"
definition NUM_ORDER_LINE_LOCK :: nat where "NUM_ORDER_LINE_LOCK = 10"
definition NUM_ITEM_LOCK :: nat where "NUM_ITEM_LOCK = 10"
definition NUM_CUSTOMER_LOCK :: nat where "NUM_CUSTOMER_LOCK = 30"
definition NUM_STOCK_LOCK :: nat where "NUM_STOCK_LOCK = 30"

definition LOCK_PER_WAREHOUSE :: nat where
  "LOCK_PER_WAREHOUSE =
     NUM_WAREHOUSE_LOCK + NUM_DISTRICT_LOCK + NUM_CUSTOMER_LOCK + NUM_ORDER_LINE_LOCK +
     NUM_HISTORY_LOCK + NUM_NEW_ORDER_LOCK + NUM_STOCK_LOCK + NUM_ITEM_LOCK + NUM_ORDER_LOCK"

definition WAREHOUSE_START_IDX :: "nat \<Rightarrow> nat" where
  "WAREHOUSE_START_IDX i = i * LOCK_PER_WAREHOUSE"
definition DISTRICT_START_IDX :: "nat \<Rightarrow> nat" where
  "DISTRICT_START_IDX i = WAREHOUSE_START_IDX i + NUM_WAREHOUSE_LOCK"
definition CUSTOMER_START_IDX :: "nat \<Rightarrow> nat" where
  "CUSTOMER_START_IDX i = DISTRICT_START_IDX i + NUM_DISTRICT_LOCK"
definition ORDER_START_IDX :: "nat \<Rightarrow> nat" where
  "ORDER_START_IDX i = CUSTOMER_START_IDX i + NUM_CUSTOMER_LOCK"
definition HISTORY_START_IDX :: "nat \<Rightarrow> nat" where
  "HISTORY_START_IDX i = ORDER_START_IDX i + NUM_ORDER_LOCK"
definition NEW_ORDER_START_IDX :: "nat \<Rightarrow> nat" where
  "NEW_ORDER_START_IDX i = HISTORY_START_IDX i + NUM_HISTORY_LOCK"
definition ORDER_LINE_START_IDX :: "nat \<Rightarrow> nat" where
  "ORDER_LINE_START_IDX i = NEW_ORDER_START_IDX i + NUM_NEW_ORDER_LOCK"
definition STOCK_START_IDX :: "nat \<Rightarrow> nat" where
  "STOCK_START_IDX i = ORDER_LINE_START_IDX i + NUM_ORDER_LINE_LOCK"
definition ITEM_START_IDX :: "nat \<Rightarrow> nat" where
  "ITEM_START_IDX i = STOCK_START_IDX i + NUM_STOCK_LOCK"

lemmas tpcc_consts =
  MACHINE_NUM_def WPM_def NUM_CUSTOMER_def NUM_STOCK_def NUM_ITEM_def NUM_DISTRICT_def CPD_def
  NUM_WAREHOUSE_LOCK_def NUM_DISTRICT_LOCK_def NUM_ORDER_LOCK_def NUM_NEW_ORDER_LOCK_def
  NUM_HISTORY_LOCK_def NUM_ORDER_LINE_LOCK_def NUM_ITEM_LOCK_def NUM_CUSTOMER_LOCK_def
  NUM_STOCK_LOCK_def LOCK_PER_WAREHOUSE_def

lemmas tpcc_starts =
  WAREHOUSE_START_IDX_def DISTRICT_START_IDX_def CUSTOMER_START_IDX_def ORDER_START_IDX_def
  HISTORY_START_IDX_def NEW_ORDER_START_IDX_def ORDER_LINE_START_IDX_def STOCK_START_IDX_def
  ITEM_START_IDX_def

section \<open>Random draws\<close>

type_synonym draws = "nat list"

fun URAND :: "nat \<Rightarrow> draws \<Rightarrow> (nat \<times> draws) option" where
  "URAND n [] = None"
| "URAND n (d # ds) = Some (d mod n, ds)"

definition NURAND :: "nat \<Rightarrow> nat \<Rightarrow> draws \<Rightarrow> (nat \<times> draws) option" where
  "NURAND A n ds =
     do { (a, ds) \<leftarrow> URAND A ds;
          (r, ds) \<leftarrow> URAND n ds;
          Some ((a OR r) mod n, ds) }"

text \<open>The loop of \<open>REMOTE_WID\<close> that looks for another machine.\<close>

fun other_machine :: "nat \<Rightarrow> draws \<Rightarrow> (nat \<times> draws) option" where
  "other_machine mid [] = None"
| "other_machine mid (d # ds) =
     (if d mod MACHINE_NUM = mid then other_machine mid ds else Some (d mod MACHINE_NUM, ds))"

definition REMOTE_WID :: "nat \<Rightarrow> draws \<Rightarrow> (nat \<times> draws) option" where
  "REMOTE_WID mid ds =
     do { (smid, ds) \<leftarrow> other_machine mid ds;
          (w, ds) \<leftarrow> URAND WPM ds;
          Some (smid * WPM + w, ds) }"

section \<open>Transactions\<close>

datatype tpcc_mode = T_SHARED | T_EXCLUSIVE
datatype tpcc_txn = NEW_ORDER | PAYMENT | ORDER_STATUS | DELIVERY | STOCK_LEVEL

record tpcc_request =
  user_id :: nat
  lm_id :: nat
  txn_type :: tpcc_txn
  lock_type :: tpcc_mode
  obj_index :: nat

definition GEN_REQUEST :: "nat \<Rightarrow> nat \<Rightarrow> tpcc_txn \<Rightarrow> tpcc_mode \<Rightarrow> nat \<Rightarrow> tpcc_request" where
  "GEN_REQUEST tid wid tt lt i = \<lparr>user_id = tid, lm_id = wid, txn_type = tt, lock_type = lt, obj_index = i\<rparr>"

text \<open>The generator: the machine, and the counters of inserted rows.\<close>

record tpcc_gen =
  tpcc_machine_id :: nat
  order_num :: nat
  new_order_num :: nat
  history_num :: nat
  order_line_num :: nat

definition tpcc_init :: "nat \<Rightarrow> tpcc_gen" where
  "tpcc_init m = \<lparr>tpcc_machine_id = m, order_num = 0, new_order_num = 0, history_num = 0, order_line_num = 0\<rparr>"

type_synonym generated = "tpcc_request list \<times> tpcc_gen \<times> draws"

text \<open>An item that the order does not have yet: drawn until one is found.\<close>

fun unused_item :: "nat list \<Rightarrow> draws \<Rightarrow> (nat \<times> draws) option" where
  "unused_item used (a # b # ds) =
     (let iid = ((a mod 8192 OR b mod NUM_ITEM) mod NUM_ITEM) mod NUM_ITEM_LOCK in
      if iid \<in> set used then unused_item used ds else Some (iid, ds))"
| "unused_item used ds = None"

text \<open>The order lines: the stock locks in the order in which they are first drawn.\<close>

fun order_lines :: "nat \<Rightarrow> nat list \<Rightarrow> nat list \<Rightarrow> draws \<Rightarrow> (nat list \<times> draws) option" where
  "order_lines 0 iids sids ds = Some (sids, ds)"
| "order_lines (Suc n) iids sids ds =
     do { (iid, ds) \<leftarrow> unused_item iids ds;
          (s, ds) \<leftarrow> URAND NUM_STOCK ds;
          let sid = s mod NUM_STOCK_LOCK;
          order_lines n (iid # iids) (if sid \<in> set sids then sids else sids @ [sid]) ds }"

definition NUM_ORDER_LINE_PER_ORDER :: nat where "NUM_ORDER_LINE_PER_ORDER = 10"

definition GenerateNewOrder :: "nat \<Rightarrow> tpcc_gen \<Rightarrow> draws \<Rightarrow> generated option" where
  "GenerateNewOrder tid g ds =
     do { (w, ds) \<leftarrow> URAND WPM ds;
          let wid = tpcc_machine_id g * WPM + w;
          (did, ds) \<leftarrow> URAND NUM_DISTRICT_LOCK ds;
          (n, ds) \<leftarrow> NURAND 1024 CPD ds;
          let cid = (n + did * CPD) div (NUM_CUSTOMER div NUM_CUSTOMER_LOCK);
          let olk = order_num g mod NUM_ORDER_LOCK;
          let nolk = new_order_num g mod NUM_NEW_ORDER_LOCK;
          (sids, ds) \<leftarrow> order_lines NUM_ORDER_LINE_PER_ORDER [] [] ds;
          let ollk = order_line_num g mod NUM_ORDER_LINE_LOCK;
          Some ([GEN_REQUEST tid wid NEW_ORDER T_SHARED (WAREHOUSE_START_IDX wid),
                 GEN_REQUEST tid wid NEW_ORDER T_EXCLUSIVE (DISTRICT_START_IDX wid + did),
                 GEN_REQUEST tid wid NEW_ORDER T_SHARED (CUSTOMER_START_IDX wid + cid),
                 GEN_REQUEST tid wid NEW_ORDER T_EXCLUSIVE (ORDER_START_IDX wid + olk),
                 GEN_REQUEST tid wid NEW_ORDER T_EXCLUSIVE (NEW_ORDER_START_IDX wid + nolk)]
                @ map (\<lambda>sid. GEN_REQUEST tid wid NEW_ORDER T_EXCLUSIVE (STOCK_START_IDX wid + sid)) sids
                @ [GEN_REQUEST tid wid NEW_ORDER T_EXCLUSIVE (ORDER_LINE_START_IDX wid + ollk)],
                g\<lparr>order_num := order_num g + 1, new_order_num := new_order_num g + 1,
                  order_line_num := order_line_num g + 1\<rparr>, ds) }"

definition GeneratePayment :: "nat \<Rightarrow> tpcc_gen \<Rightarrow> draws \<Rightarrow> generated option" where
  "GeneratePayment tid g ds =
     do { (w, ds) \<leftarrow> URAND WPM ds;
          let wid = tpcc_machine_id g * WPM + w;
          (x, ds) \<leftarrow> URAND 100 ds;
          (y, ds) \<leftarrow> URAND 100 ds;
          (did, ds) \<leftarrow> URAND NUM_DISTRICT_LOCK ds;
          (n, ds) \<leftarrow> (if y < 60 then NURAND 256 1000 ds else NURAND 1024 3000 ds);
          let cid = n mod NUM_CUSTOMER_LOCK;
          (cwid, ds) \<leftarrow> (if x < 85 then Some (wid, ds) else REMOTE_WID (tpcc_machine_id g) ds);
          let hlk = history_num g mod NUM_HISTORY_LOCK;
          Some ([GEN_REQUEST tid wid PAYMENT T_EXCLUSIVE (WAREHOUSE_START_IDX wid),
                 GEN_REQUEST tid wid PAYMENT T_EXCLUSIVE (DISTRICT_START_IDX wid + did),
                 GEN_REQUEST tid wid PAYMENT T_EXCLUSIVE (CUSTOMER_START_IDX cwid + cid),
                 GEN_REQUEST tid wid PAYMENT T_EXCLUSIVE (HISTORY_START_IDX wid + hlk)],
                g\<lparr>history_num := history_num g + 1\<rparr>, ds) }"

definition GenerateOrderStatus :: "nat \<Rightarrow> tpcc_gen \<Rightarrow> draws \<Rightarrow> generated option" where
  "GenerateOrderStatus tid g ds =
     do { (w, ds) \<leftarrow> URAND WPM ds;
          let wid = tpcc_machine_id g * WPM + w;
          (y, ds) \<leftarrow> URAND 100 ds;
          (n, ds) \<leftarrow> (if y < 60 then NURAND 256 1000 ds else NURAND 1024 3000 ds);
          let cid = n mod NUM_CUSTOMER_LOCK;
          (olk, ds) \<leftarrow> URAND NUM_ORDER_LOCK ds;
          (ollk, ds) \<leftarrow> URAND NUM_ORDER_LINE_LOCK ds;
          Some ([GEN_REQUEST tid wid ORDER_STATUS T_SHARED (CUSTOMER_START_IDX wid + cid),
                 GEN_REQUEST tid wid ORDER_STATUS T_SHARED (ORDER_START_IDX wid + olk),
                 GEN_REQUEST tid wid ORDER_STATUS T_SHARED (ORDER_LINE_START_IDX wid + ollk)], g, ds) }"

definition GenerateDelivery :: "nat \<Rightarrow> tpcc_gen \<Rightarrow> draws \<Rightarrow> generated option" where
  "GenerateDelivery tid g ds =
     do { (w, ds) \<leftarrow> URAND WPM ds;
          let wid = tpcc_machine_id g * WPM + w;
          (nolk, ds) \<leftarrow> URAND NUM_NEW_ORDER_LOCK ds;
          (olk, ds) \<leftarrow> URAND NUM_ORDER_LOCK ds;
          (ollk, ds) \<leftarrow> URAND NUM_ORDER_LINE_LOCK ds;
          (n, ds) \<leftarrow> NURAND 1024 3000 ds;
          let cid = n mod NUM_CUSTOMER_LOCK;
          Some ([GEN_REQUEST tid wid DELIVERY T_EXCLUSIVE (NEW_ORDER_START_IDX wid + nolk),
                 GEN_REQUEST tid wid DELIVERY T_EXCLUSIVE (ORDER_START_IDX wid + olk),
                 GEN_REQUEST tid wid DELIVERY T_SHARED (ORDER_LINE_START_IDX wid + ollk),
                 GEN_REQUEST tid wid DELIVERY T_EXCLUSIVE (CUSTOMER_START_IDX wid + cid)], g, ds) }"

definition GenerateStockLevel :: "nat \<Rightarrow> tpcc_gen \<Rightarrow> draws \<Rightarrow> generated option" where
  "GenerateStockLevel tid g ds =
     do { (w, ds) \<leftarrow> URAND WPM ds;
          let wid = tpcc_machine_id g * WPM + w;
          (did, ds) \<leftarrow> URAND NUM_DISTRICT_LOCK ds;
          (ollk, ds) \<leftarrow> URAND NUM_ORDER_LINE_LOCK ds;
          (sid, ds) \<leftarrow> URAND NUM_STOCK_LOCK ds;
          Some ([GEN_REQUEST tid wid STOCK_LEVEL T_SHARED (DISTRICT_START_IDX wid + did),
                 GEN_REQUEST tid wid STOCK_LEVEL T_SHARED (ORDER_LINE_START_IDX wid + ollk),
                 GEN_REQUEST tid wid STOCK_LEVEL T_SHARED (STOCK_START_IDX wid + sid)], g, ds) }"

definition Generate :: "nat \<Rightarrow> tpcc_gen \<Rightarrow> draws \<Rightarrow> generated option" where
  "Generate tid g ds =
     do { (val, ds) \<leftarrow> URAND 100 ds;
          if val < 45 then GenerateNewOrder tid g ds
          else if val < 88 then GeneratePayment tid g ds
          else if val < 92 then GenerateOrderStatus tid g ds
          else if val < 96 then GenerateDelivery tid g ds
          else GenerateStockLevel tid g ds }"

text \<open>The main loop: the requests of a number of transactions, starting with a number.\<close>

fun tpcc_trace :: "nat \<Rightarrow> nat \<Rightarrow> tpcc_gen \<Rightarrow> draws \<Rightarrow> generated option" where
  "tpcc_trace start 0 g ds = Some ([], g, ds)"
| "tpcc_trace start (Suc count) g ds =
     do { (rs, g, ds) \<leftarrow> Generate start g ds;
          (rs', g, ds) \<leftarrow> tpcc_trace (start + 1) count g ds;
          Some (rs @ rs', g, ds) }"

section \<open>Where the locks of a transaction lie\<close>

lemma tpcc_start_values:
  "WAREHOUSE_START_IDX i = 121 * i" "DISTRICT_START_IDX i = 121 * i + 1" "CUSTOMER_START_IDX i = 121 * i + 11"
  "ORDER_START_IDX i = 121 * i + 41" "HISTORY_START_IDX i = 121 * i + 51" "NEW_ORDER_START_IDX i = 121 * i + 61"
  "ORDER_LINE_START_IDX i = 121 * i + 71" "STOCK_START_IDX i = 121 * i + 81" "ITEM_START_IDX i = 121 * i + 111"
  by (simp_all add: tpcc_starts tpcc_consts)

lemma URAND_bound: "URAND n ds = Some (v, ds') \<Longrightarrow> 0 < n \<Longrightarrow> v < n"
  by (cases ds) auto

lemma NURAND_bound: "NURAND A n ds = Some (v, ds') \<Longrightarrow> 0 < n \<Longrightarrow> v < n"
  by (auto simp: NURAND_def split: Option.bind_splits)

lemma other_machine_bound: "other_machine m ds = Some (v, ds') \<Longrightarrow> v < 8 \<and> v \<noteq> m"
  by (induction ds) (auto simp: MACHINE_NUM_def split: if_splits)

lemma REMOTE_WID_bound:
  assumes "REMOTE_WID m ds = Some (v, ds')"
  shows "v < 9600" "v div WPM \<noteq> m"
proof -
  obtain k w ds1 where k: "other_machine m ds = Some (k, ds1)" "URAND WPM ds1 = Some (w, ds')" "v = k * WPM + w"
    using assms by (auto simp: REMOTE_WID_def split: Option.bind_splits)
  then have "k < 8" "k \<noteq> m" "w < 1200"
    using other_machine_bound URAND_bound [of WPM ds1 w ds'] by (auto simp: WPM_def)
  with k(3) show "v < 9600" "v div WPM \<noteq> m" by (simp_all add: WPM_def)
qed

lemma order_lines_bound:
  "order_lines n iids sids ds = Some (sids', ds') \<Longrightarrow> distinct sids \<Longrightarrow> \<forall>s \<in> set sids. s < 30
   \<Longrightarrow> distinct sids' \<and> (\<forall>s \<in> set sids'. s < 30)"
proof (induction n arbitrary: iids sids ds)
  case 0
  then show ?case by simp
next
  case (Suc n)
  then obtain iid ds1 s ds2 where
    "order_lines n (iid # iids) (if s mod 30 \<in> set sids then sids else sids @ [s mod 30]) ds2 = Some (sids', ds')"
    by (auto simp: Option.bind_eq_Some_conv Let_def NUM_STOCK_LOCK_def split del: if_split)
  moreover have "distinct (if s mod 30 \<in> set sids then sids else sids @ [s mod 30])"
    "\<forall>x \<in> set (if s mod 30 \<in> set sids then sids else sids @ [s mod 30]). x < 30"
    using Suc.prems(2,3) by simp_all
  ultimately show ?case by (rule Suc.IH)
qed

text \<open>
  What every request satisfies: it names the warehouse that issues it, which belongs to the
  machine; its lock is one of the 121 locks of a warehouse, and of the issuing warehouse
  unless it is a customer lock.
\<close>

definition req_ok :: "nat \<Rightarrow> tpcc_request \<Rightarrow> bool" where
  "req_ok m r \<longleftrightarrow> lm_id r < 9600 \<and> lm_id r div WPM = m \<and>
     (\<exists>w k. obj_index r = 121 * w + k \<and> k < 121 \<and> w < 9600 \<and>
        (w = lm_id r \<or> 11 \<le> k \<and> k < 41))"

lemma own_warehouse: "m < 8 \<Longrightarrow> w < 1200 \<Longrightarrow> m * WPM + w < 9600 \<and> (m * WPM + w) div WPM = m"
  by (simp add: WPM_def)

text \<open>The locks of each transaction: all are in place, and no lock is asked for twice.\<close>

definition txn_ok :: "nat \<Rightarrow> tpcc_request list \<Rightarrow> bool" where
  "txn_ok m rs \<longleftrightarrow> (\<forall>r \<in> set rs. req_ok m r) \<and> distinct (map obj_index rs)"

text \<open>
  A transaction given by warehouses and offsets: the offsets are different, and only the
  offsets of customers go with another warehouse.
\<close>

lemma txn_okI:
  assumes m: "m < 8" "w < 1200"
    and rs: "map obj_index rs = map (\<lambda>(u, k). 121 * u + k) ps" "\<forall>r \<in> set rs. lm_id r = m * WPM + w"
    and ps: "distinct (map snd ps)" "\<forall>(u, k) \<in> set ps. k < 121 \<and> u < 9600 \<and> (u = m * WPM + w \<or> 11 \<le> k \<and> k < 41)"
  shows "txn_ok m rs"
proof -
  have "req_ok m r" if "r \<in> set rs" for r
  proof -
    have "obj_index r \<in> set (map (\<lambda>(u, k). 121 * u + k) ps)" using that rs(1) by (metis image_eqI list.set_map)
    then obtain u k where "(u, k) \<in> set ps" "obj_index r = 121 * u + k" by auto
    moreover have "lm_id r = m * WPM + w" using that rs(2) by blast
    ultimately show ?thesis using own_warehouse [OF m] ps(2) unfolding req_ok_def by fastforce
  qed
  moreover have "distinct (map obj_index rs)"
  proof -
    have "map (\<lambda>x. x mod 121) (map (\<lambda>(u, k). 121 * u + k) ps) = map snd ps"
    proof -
      have "(121 * u + k) mod 121 = k" if "(u, k) \<in> set ps" for u k using ps(2) that by auto
      then show ?thesis unfolding map_map by (intro map_cong) auto
    qed
    then show ?thesis unfolding rs(1) using ps(1) by (metis distinct_map)
  qed
  ultimately show ?thesis by (simp add: txn_ok_def)
qed

lemma obj_GEN_REQUEST [simp]:
  "obj_index (GEN_REQUEST t wid tt lt i) = i" "lm_id (GEN_REQUEST t wid tt lt i) = wid"
  by (simp_all add: GEN_REQUEST_def)

lemma NewOrder_ok:
  assumes "GenerateNewOrder t g ds = Some (rs, g', ds')" "tpcc_machine_id g = m" "m < 8"
  shows "txn_ok m rs \<and> tpcc_machine_id g' = m"
proof -
  from assms(1) obtain w did n sids ds1 ds2 ds3 ds4 where
    d: "URAND WPM ds = Some (w, ds1)" "URAND NUM_DISTRICT_LOCK ds1 = Some (did, ds2)"
      "NURAND 1024 CPD ds2 = Some (n, ds3)" "order_lines NUM_ORDER_LINE_PER_ORDER [] [] ds3 = Some (sids, ds4)"
    and rs: "map obj_index rs = map (\<lambda>(u, k). 121 * u + k) (map (Pair (m * WPM + w))
      ([0, 1 + did, 11 + (n + did * 3000) div 1000, 41 + order_num g mod 10, 61 + new_order_num g mod 10]
       @ map (\<lambda>s. 81 + s) sids @ [71 + order_line_num g mod 10]))"
    and lm: "\<forall>r \<in> set rs. lm_id r = m * WPM + w" and g': "tpcc_machine_id g' = m"
    using assms(2) by (auto simp: GenerateNewOrder_def Option.bind_eq_Some_conv Let_def tpcc_start_values
        CPD_def NUM_CUSTOMER_def NUM_DISTRICT_def NUM_CUSTOMER_LOCK_def NUM_ORDER_LOCK_def NUM_NEW_ORDER_LOCK_def
        NUM_ORDER_LINE_LOCK_def comp_def)
  have b: "w < 1200" "did < 10" "n < 3000"
    using URAND_bound [OF d(1)] URAND_bound [OF d(2)] NURAND_bound [OF d(3)] by (simp_all add: tpcc_consts)
  then have c: "(n + did * 3000) div 1000 < 30" by linarith
  have s: "distinct sids" "\<forall>x \<in> set sids. x < 30" using order_lines_bound [OF d(4)] by simp_all
  have "txn_ok m rs"
    by (rule txn_okI [OF assms(3) b(1) rs lm])
      (use b c s own_warehouse [OF assms(3) b(1)] in \<open>auto simp: comp_def distinct_map\<close>)
  with g' show ?thesis by simp
qed

lemma Payment_ok:
  assumes "GeneratePayment t g ds = Some (rs, g', ds')" "tpcc_machine_id g = m" "m < 8"
  shows "txn_ok m rs \<and> tpcc_machine_id g' = m"
proof -
  from assms(1) obtain w did and x :: nat and n cw ds1 ds3 ds4 ds5 where
    d: "URAND WPM ds = Some (w, ds1)" "URAND NUM_DISTRICT_LOCK ds3 = Some (did, ds4)"
      "(if x < 85 then Some (m * WPM + w, ds5) else REMOTE_WID m ds5) = Some (cw, ds')"
    and raw: "rs = [GEN_REQUEST t (m * WPM + w) PAYMENT T_EXCLUSIVE (WAREHOUSE_START_IDX (m * WPM + w)),
                 GEN_REQUEST t (m * WPM + w) PAYMENT T_EXCLUSIVE (DISTRICT_START_IDX (m * WPM + w) + did),
                 GEN_REQUEST t (m * WPM + w) PAYMENT T_EXCLUSIVE (CUSTOMER_START_IDX cw + n mod NUM_CUSTOMER_LOCK),
                 GEN_REQUEST t (m * WPM + w) PAYMENT T_EXCLUSIVE (HISTORY_START_IDX (m * WPM + w) + history_num g mod NUM_HISTORY_LOCK)]"
    and g': "tpcc_machine_id g' = m"
    using assms(2) by (auto simp: GeneratePayment_def Option.bind_eq_Some_conv Let_def split del: if_split)
  have rs: "map obj_index rs = map (\<lambda>(u, k). 121 * u + k)
      [(m * WPM + w, 0), (m * WPM + w, 1 + did), (cw, 11 + n mod 30), (m * WPM + w, 51 + history_num g mod 10)]"
    and lm: "\<forall>r \<in> set rs. lm_id r = m * WPM + w"
    by (simp_all add: raw tpcc_start_values NUM_CUSTOMER_LOCK_def NUM_HISTORY_LOCK_def)
  have b: "w < 1200" "did < 10"
    using URAND_bound [OF d(1)] URAND_bound [OF d(2)] by (simp_all add: tpcc_consts)
  have "cw < 9600"
    using d(3) REMOTE_WID_bound(1) own_warehouse [OF assms(3) b(1)] by (auto split: if_splits)
  with b own_warehouse [OF assms(3) b(1)] have "txn_ok m rs"
    by (intro txn_okI [OF assms(3) b(1) rs lm]) auto
  with g' show ?thesis by simp
qed

lemma OrderStatus_ok:
  assumes "GenerateOrderStatus t g ds = Some (rs, g', ds')" "tpcc_machine_id g = m" "m < 8"
  shows "txn_ok m rs \<and> tpcc_machine_id g' = m"
proof -
  from assms(1) obtain w n a c ds1 ds2 ds3 where
    d: "URAND WPM ds = Some (w, ds1)" "URAND NUM_ORDER_LOCK ds2 = Some (a, ds3)" "URAND NUM_ORDER_LINE_LOCK ds3 = Some (c, ds')"
    and rs: "map obj_index rs = map (\<lambda>(u, k). 121 * u + k)
      [(m * WPM + w, 11 + n mod 30), (m * WPM + w, 41 + a), (m * WPM + w, 71 + c)]"
    and lm: "\<forall>r \<in> set rs. lm_id r = m * WPM + w" and g': "tpcc_machine_id g' = m"
    using assms(2) by (auto simp: GenerateOrderStatus_def Option.bind_eq_Some_conv Let_def tpcc_start_values
        NUM_CUSTOMER_LOCK_def split del: if_split)
  have b: "w < 1200" "a < 10" "c < 10"
    using URAND_bound [OF d(1)] URAND_bound [OF d(2)] URAND_bound [OF d(3)] by (simp_all add: tpcc_consts)
  with own_warehouse [OF assms(3) b(1)] have "txn_ok m rs"
    by (intro txn_okI [OF assms(3) b(1) rs lm]) auto
  with g' show ?thesis by simp
qed

lemma Delivery_ok:
  assumes "GenerateDelivery t g ds = Some (rs, g', ds')" "tpcc_machine_id g = m" "m < 8"
  shows "txn_ok m rs \<and> tpcc_machine_id g' = m"
proof -
  from assms(1) obtain w n a c e ds1 ds2 ds3 ds4 where
    d: "URAND WPM ds = Some (w, ds1)" "URAND NUM_NEW_ORDER_LOCK ds1 = Some (a, ds2)"
      "URAND NUM_ORDER_LOCK ds2 = Some (c, ds3)" "URAND NUM_ORDER_LINE_LOCK ds3 = Some (e, ds4)"
    and rs: "map obj_index rs = map (\<lambda>(u, k). 121 * u + k)
      [(m * WPM + w, 61 + a), (m * WPM + w, 41 + c), (m * WPM + w, 71 + e), (m * WPM + w, 11 + n mod 30)]"
    and lm: "\<forall>r \<in> set rs. lm_id r = m * WPM + w" and g': "tpcc_machine_id g' = m"
    using assms(2) by (auto simp: GenerateDelivery_def Option.bind_eq_Some_conv Let_def tpcc_start_values
        NUM_CUSTOMER_LOCK_def)
  have b: "w < 1200" "a < 10" "c < 10" "e < 10"
    using URAND_bound [OF d(1)] URAND_bound [OF d(2)] URAND_bound [OF d(3)] URAND_bound [OF d(4)]
    by (simp_all add: tpcc_consts)
  with own_warehouse [OF assms(3) b(1)] have "txn_ok m rs"
    by (intro txn_okI [OF assms(3) b(1) rs lm]) auto
  with g' show ?thesis by simp
qed

lemma StockLevel_ok:
  assumes "GenerateStockLevel t g ds = Some (rs, g', ds')" "tpcc_machine_id g = m" "m < 8"
  shows "txn_ok m rs \<and> tpcc_machine_id g' = m"
proof -
  from assms(1) obtain w a c e ds1 ds2 ds3 where
    d: "URAND WPM ds = Some (w, ds1)" "URAND NUM_DISTRICT_LOCK ds1 = Some (a, ds2)"
      "URAND NUM_ORDER_LINE_LOCK ds2 = Some (c, ds3)" "URAND NUM_STOCK_LOCK ds3 = Some (e, ds')"
    and rs: "map obj_index rs = map (\<lambda>(u, k). 121 * u + k)
      [(m * WPM + w, 1 + a), (m * WPM + w, 71 + c), (m * WPM + w, 81 + e)]"
    and lm: "\<forall>r \<in> set rs. lm_id r = m * WPM + w" and g': "tpcc_machine_id g' = m"
    using assms(2) by (auto simp: GenerateStockLevel_def Option.bind_eq_Some_conv Let_def tpcc_start_values)
  have b: "w < 1200" "a < 10" "c < 10" "e < 30"
    using URAND_bound [OF d(1)] URAND_bound [OF d(2)] URAND_bound [OF d(3)] URAND_bound [OF d(4)]
    by (simp_all add: tpcc_consts)
  with own_warehouse [OF assms(3) b(1)] have "txn_ok m rs"
    by (intro txn_okI [OF assms(3) b(1) rs lm]) auto
  with g' show ?thesis by simp
qed

lemma Generate_ok:
  assumes "Generate t g ds = Some (rs, g', ds')" "tpcc_machine_id g = m" "m < 8"
  shows "txn_ok m rs \<and> tpcc_machine_id g' = m"
proof -
  obtain v ds1 where "(if v < (45 :: nat) then GenerateNewOrder t g ds1
      else if v < 88 then GeneratePayment t g ds1
      else if v < 92 then GenerateOrderStatus t g ds1
      else if v < 96 then GenerateDelivery t g ds1 else GenerateStockLevel t g ds1) = Some (rs, g', ds')"
    using assms(1) by (auto simp: Generate_def Option.bind_eq_Some_conv split del: if_split)
  then consider "GenerateNewOrder t g ds1 = Some (rs, g', ds')" | "GeneratePayment t g ds1 = Some (rs, g', ds')"
    | "GenerateOrderStatus t g ds1 = Some (rs, g', ds')" | "GenerateDelivery t g ds1 = Some (rs, g', ds')"
    | "GenerateStockLevel t g ds1 = Some (rs, g', ds')"
    by (auto split: if_splits)
  then show ?thesis
    using NewOrder_ok Payment_ok OrderStatus_ok Delivery_ok StockLevel_ok assms(2,3) by cases blast+
qed

text \<open>
  No transaction of a TPC-C trace asks twice for the same lock, which would make it wait
  for itself, and every lock it asks for is one that the switch manages.
\<close>

theorem tpcc_transaction_locks:
  assumes "Generate t g ds = Some (rs, g', ds')" "tpcc_machine_id g < MACHINE_NUM"
  shows "distinct (map obj_index rs) \<and>
         (\<forall>r \<in> set rs. obj_index r < MACHINE_NUM * WPM * LOCK_PER_WAREHOUSE \<and>
                        obj_index r < unat SWITCH_LOCK_NUM)"
proof -
  have "txn_ok (tpcc_machine_id g) rs" using Generate_ok [OF assms(1)] assms(2) by (simp add: MACHINE_NUM_def)
  then show ?thesis
    by (fastforce simp: txn_ok_def req_ok_def tpcc_consts SWITCH_LOCK_NUM_def)
qed

lemma tpcc_trace_ok:
  "tpcc_trace start n g ds = Some (rs, g', ds') \<Longrightarrow> tpcc_machine_id g = m \<Longrightarrow> m < 8 \<Longrightarrow>
   \<forall>r \<in> set rs. req_ok m r"
proof (induction n arbitrary: start g ds rs)
  case 0
  then show ?case by simp
next
  case (Suc n)
  then obtain rs1 g1 ds1 rs2 where g: "Generate start g ds = Some (rs1, g1, ds1)"
    and t: "tpcc_trace (start + 1) n g1 ds1 = Some (rs2, g', ds')" and rs: "rs = rs1 @ rs2"
    by (auto simp: Option.bind_eq_Some_conv)
  from Generate_ok [OF g Suc.prems(2,3)] Suc.IH [OF t _ Suc.prems(3)] show ?case
    by (auto simp: rs txn_ok_def)
qed

text \<open>
  C33. The locks that a build with local TPC-C locks never shows to the switch are private:
  whatever trace a machine generates, a request for a lock that \<open>lock_acquire_async\<close> then
  serves on the host alone is for a warehouse of that machine, so no other machine ever
  asks for it. Only customer locks are requested across machines.
\<close>

theorem tpcc_local_locks_private:
  assumes "tpcc_trace start n g ds = Some (rs, g', ds')" "tpcc_machine_id g < MACHINE_NUM" "r \<in> set rs"
    and "tpcc_local_lock (new_lock k (of_nat (obj_index r)))"
  shows "obj_index r div LOCK_PER_WAREHOUSE div WPM = tpcc_machine_id g"
proof -
  have "req_ok (tpcc_machine_id g) r"
    using tpcc_trace_ok [OF assms(1)] assms(2,3) by (simp add: MACHINE_NUM_def)
  then obtain w j where r: "obj_index r = 121 * w + j" "j < 121" "w < 9600" "w = lm_id r \<or> 11 \<le> j \<and> j < 41"
    and m: "lm_id r div WPM = tpcc_machine_id g"
    by (auto simp: req_ok_def)
  have lt: "121 * w + j < 2 ^ 32" using r by simp
  have "unat ((of_nat (121 * w + j) :: u32) mod 121) = (121 * w + j) mod 121"
    using lt by (simp only: unat_mod unat_of_nat_u32) simp
  also have "\<dots> = j" using r(2) by simp
  finally have x: "unat ((of_nat (obj_index r) :: u32) mod 121) = j" by (simp only: r(1))
  have "\<not> (11 \<le> j \<and> j < 41)"
    using assms(4) by (simp add: tpcc_local_lock_def TPCC_WAREHOUSE_LOCK_NUM_def new_lock_def Let_def
        word_le_nat_alt word_less_nat_alt x)
  with r m show ?thesis by (auto simp: tpcc_consts)
qed

section \<open>The loop that looks for an unused item\<close>

definition item_of :: "nat \<Rightarrow> nat \<Rightarrow> nat" where
  "item_of a b = ((a mod 8192 OR b mod NUM_ITEM) mod NUM_ITEM) mod NUM_ITEM_LOCK"

lemma unused_item_some:
  "2 * k + 1 < length ds \<Longrightarrow> item_of (ds ! (2 * k)) (ds ! (2 * k + 1)) \<notin> set used
   \<Longrightarrow> \<exists>iid ds'. unused_item used ds = Some (iid, ds') \<and> iid \<notin> set used \<and> iid < NUM_ITEM_LOCK \<and> length ds' < length ds"
proof (induction used ds arbitrary: k rule: unused_item.induct)
  case (1 used a b ds)
  have lt: "item_of a b < NUM_ITEM_LOCK" by (simp add: item_of_def NUM_ITEM_LOCK_def)
  show ?case
  proof (cases "item_of a b \<in> set used")
    case False
    then show ?thesis using lt by (simp add: item_of_def Let_def)
  next
    case True
    then obtain j where "k = Suc j" using 1(3) by (cases k) auto
    with 1(2,3) have "2 * j + 1 < length ds" "item_of (ds ! (2 * j)) (ds ! (2 * j + 1)) \<notin> set used" by simp_all
    with 1(1) [of "item_of a b" j] True have
      "\<exists>iid ds'. unused_item used ds = Some (iid, ds') \<and> iid \<notin> set used \<and> iid < NUM_ITEM_LOCK \<and> length ds' < length ds"
      by (simp add: item_of_def)
    with True show ?thesis by (auto simp: item_of_def Let_def)
  qed
qed auto

text \<open>
  The loop that draws an item for an order line ends: with fewer items taken than there
  are, it returns an item that was not taken as soon as the draws have produced every item,
  and it has then used up draws.
\<close>

theorem unused_item_terminates:
  assumes "length used < NUM_ITEM_LOCK"
    and "\<forall>i < NUM_ITEM_LOCK. \<exists>k. 2 * k + 1 < length ds \<and> item_of (ds ! (2 * k)) (ds ! (2 * k + 1)) = i"
  shows "\<exists>iid ds'. unused_item used ds = Some (iid, ds') \<and> iid \<notin> set used \<and> iid < NUM_ITEM_LOCK \<and> length ds' < length ds"
proof -
  have "\<not> {..<NUM_ITEM_LOCK} \<subseteq> set used"
    using assms(1) card_mono [of "set used" "{..<NUM_ITEM_LOCK}"] card_length [of used] by auto
  then obtain i where "i < NUM_ITEM_LOCK" "i \<notin> set used" by auto
  with assms(2) unused_item_some [of _ ds used] show ?thesis by metis
qed

theorem unused_item_terminates_witness:
  "\<exists>iid ds'. unused_item [3, 4] (concat (map (\<lambda>i. [0, i]) [0..<10])) = Some (iid, ds') \<and> iid \<notin> set [3, 4]"
proof -
  let ?ds = "concat (map (\<lambda>i. [0, i]) [0..<10 :: nat])"
  have ds: "?ds = [0, 0, 0, 1, 0, 2, 0, 3, 0, 4, 0, 5, 0, 6, 0, 7, 0, 8, 0, 9]" by (simp add: upt_rec)
  have lt: "i < 10 \<longleftrightarrow> i \<in> {0, 1, 2, 3, 4, 5, 6, 7, 8, 9 :: nat}" for i by auto
  have "\<forall>i < NUM_ITEM_LOCK. 2 * i + 1 < length ?ds \<and> item_of (?ds ! (2 * i)) (?ds ! (2 * i + 1)) = i"
    unfolding ds NUM_ITEM_LOCK_def lt by (simp add: item_of_def NUM_ITEM_def NUM_ITEM_LOCK_def)
  then have "\<forall>i < NUM_ITEM_LOCK. \<exists>k. 2 * k + 1 < length ?ds \<and> item_of (?ds ! (2 * k)) (?ds ! (2 * k + 1)) = i" by blast
  from unused_item_terminates [OF _ this, of "[3, 4]"] show ?thesis by (auto simp: NUM_ITEM_LOCK_def)
qed

section \<open>An example trace\<close>

text \<open>A payment with a customer of another machine.\<close>

definition example_draws :: draws where
  "example_draws = [50, 7, 90, 10, 4, 3, 8, 2, 5, 11]"

lemmas example_eval =
  example_draws_def tpcc_init_def Generate_def GeneratePayment_def NURAND_def REMOTE_WID_def
  tpcc_start_values NUM_CUSTOMER_LOCK_def NUM_HISTORY_LOCK_def NUM_DISTRICT_LOCK_def WPM_def MACHINE_NUM_def

lemma example_trace:
  "tpcc_trace 1 1 (tpcc_init 3) example_draws =
     Some (map (GEN_REQUEST 1 3607 PAYMENT T_EXCLUSIVE) [436447, 436452, 291027, 436498],
           (tpcc_init 3)\<lparr>history_num := 1\<rparr>, [11])"
  by (simp add: example_eval)

theorem tpcc_transaction_locks_witness:
  "distinct [436447, 436452, 291027, 436498 :: nat] \<and>
   436447 < unat SWITCH_LOCK_NUM \<and> 436452 < unat SWITCH_LOCK_NUM \<and> 291027 < unat SWITCH_LOCK_NUM \<and> 436498 < unat SWITCH_LOCK_NUM"
proof -
  have "Generate 1 (tpcc_init 3) example_draws =
     Some (map (GEN_REQUEST 1 3607 PAYMENT T_EXCLUSIVE) [436447, 436452, 291027, 436498],
           (tpcc_init 3)\<lparr>history_num := 1\<rparr>, [11])"
    by (simp add: example_eval)
  from tpcc_transaction_locks [OF this] show ?thesis by (simp add: tpcc_init_def MACHINE_NUM_def)
qed

theorem tpcc_local_locks_private_witness:
  "436452 div LOCK_PER_WAREHOUSE div WPM = 3 \<and> \<not> tpcc_local_lock (new_lock 0 291027)"
proof
  let ?r = "GEN_REQUEST 1 3607 PAYMENT T_EXCLUSIVE 436452"
  have "tpcc_local_lock (new_lock 0 (of_nat (obj_index ?r)))"
    by (simp add: tpcc_local_lock_def TPCC_WAREHOUSE_LOCK_NUM_def new_lock_def Let_def)
  from tpcc_local_locks_private [OF example_trace _ _ this] show "436452 div LOCK_PER_WAREHOUSE div WPM = 3"
    by (simp add: tpcc_init_def MACHINE_NUM_def)
  show "\<not> tpcc_local_lock (new_lock 0 291027)"
    by (simp add: tpcc_local_lock_def TPCC_WAREHOUSE_LOCK_NUM_def new_lock_def Let_def)
qed

end
