(* ===== verification/Txn_Bench.thy ===== *)
theory Txn_Bench
  imports Trace_Tpcc Number_Text
begin

text \<open>
  The transaction benchmark (tests/txnbench.cc): reading a trace file, and the execution of
  one transaction by a coroutine. What the lock library answers is an argument: for each
  request, either that it is granted at once or the list of answers to the polls, each with
  the reading whether the timeout has passed. The theorems connect the benchmark with the
  TPC-C generator, whose text it reads, and show that transactions are two-phase.
\<close>

section \<open>Transactions\<close>

record bench_request =
  br_action :: u8
  br_lock_type :: u8
  br_txn_type :: u8
  br_txn :: u32
  br_lock :: u32

record transaction =
  tx_id :: u32
  tx_type :: u32
  tx_requests :: "bench_request list"

section \<open>Reading a trace\<close>

text \<open>A number after white space; \<open>%u\<close> and \<open>%hhu\<close> keep the low bits of a value of 64 bits.\<close>

definition scan_u :: "string \<Rightarrow> (u64 \<times> string) option" where
  "scan_u s = map_option (\<lambda>(n, r). (of_nat (min n (2 ^ 64 - 1)), r)) (scan_nat 10 (dropWhile is_space s))"

text \<open>The numbers that match \<open>%u, %hhu, %hhu, %u, %hhu\<close>, as many as there are.\<close>

fun scan_fields :: "nat \<Rightarrow> string \<Rightarrow> u64 list" where
  "scan_fields 0 s = []"
| "scan_fields (Suc n) s =
     (case scan_u s of None \<Rightarrow> []
      | Some (v, s) \<Rightarrow> v # (case comma s of None \<Rightarrow> [] | Some s \<Rightarrow> scan_fields n s))"

text \<open>The request is cleared before the line is read.\<close>

definition field :: "nat \<Rightarrow> u64 list \<Rightarrow> u64" where
  "field i vs = (if i < length vs then vs ! i else 0)"

definition scan_request :: "string \<Rightarrow> bench_request" where
  "scan_request s =
     (let vs = scan_fields 5 s in
      \<lparr>br_action = ucast (field 1 vs), br_lock_type = ucast (field 4 vs), br_txn_type = ucast (field 2 vs),
       br_txn = ucast (field 0 vs), br_lock = ucast (field 3 vs)\<rparr>)"

text \<open>
  The transactions of each core, and the transaction of the line before. \<open>back\<close> of an empty
  vector is undefined.
\<close>

record trace_state =
  last_txn :: u32
  txn_list :: "nat \<Rightarrow> transaction list"

definition trace_start :: trace_state where
  "trace_start = \<lparr>last_txn = - 1, txn_list = (\<lambda>_. [])\<rparr>"

definition bench_core :: "u32 \<Rightarrow> nat" where
  "bench_core txn = unat txn mod 5 + 6"

definition add_request :: "bench_request \<Rightarrow> transaction list \<Rightarrow> fl_error + transaction list" where
  "add_request lr ts =
     (if ts = [] then Inl Invalid_pointer
      else Inr (butlast ts @ [(last ts)\<lparr>tx_requests := tx_requests (last ts) @ [lr]\<rparr>]))"

definition read_trace_line :: "string \<Rightarrow> trace_state \<Rightarrow> fl_error + trace_state" where
  "read_trace_line s st =
     (if s = [] \<or> \<not> is_digit 10 (hd s) then Inr st
      else
        (let lr = scan_request s; core = bench_core (br_txn lr);
             ts = txn_list st core
                  @ (if last_txn st = br_txn lr then []
                     else [\<lparr>tx_id = br_txn lr, tx_type = ucast (br_txn_type lr), tx_requests = []\<rparr>]) in
         (case add_request lr ts of
            Inl e \<Rightarrow> Inl e
          | Inr ts \<Rightarrow> Inr \<lparr>last_txn = br_txn lr, txn_list = (txn_list st)(core := ts)\<rparr>)))"

fun get_trace_for_lcores :: "string list \<Rightarrow> trace_state \<Rightarrow> fl_error + trace_state" where
  "get_trace_for_lcores [] st = Inr st"
| "get_trace_for_lcores (s # ss) st =
     (case read_trace_line s st of Inl e \<Rightarrow> Inl e | Inr st \<Rightarrow> get_trace_for_lcores ss st)"

section \<open>Executing a transaction\<close>

datatype bench_call =
    Call_txn_begin u32 u32
  | Call_acquire lock_id task_id lock_state
  | Call_grant_tx lock_id task_id
  | Call_delay
  | Call_release lock_id task_id lock_state
  | Call_txn_end u32

definition request_op :: "bench_request \<Rightarrow> lock_state" where
  "request_op lr = (if br_lock_type lr = 1 then LOCK_SHARED else if br_lock_type lr = 2 then LOCK_EXCL else FREE)"

definition acquire_call :: "bench_request \<Rightarrow> bench_call" where
  "acquire_call lr = Call_acquire (br_lock lr) (br_txn lr) (request_op lr)"

definition release_call :: "bench_request \<Rightarrow> bench_call" where
  "release_call lr = Call_release (br_lock lr) (br_txn lr) (request_op lr)"

text \<open>The loop that polls: the abort flag when it ends.\<close>

fun wait_granted :: "(nat \<times> bool) list \<Rightarrow> bool option" where
  "wait_granted [] = None"
| "wait_granted ((ret, late) # ps) =
     (if ret = 2 then Some True else if ret = 1 then Some False
      else if late then Some True else wait_granted ps)"

text \<open>The requests that are issued: the calls, the position at which the loop ends, and the abort flag.\<close>

fun issue_requests ::
  "bench_request list \<Rightarrow> (nat \<times> bool) list option list \<Rightarrow> (bench_call list \<times> nat \<times> bool) option" where
  "issue_requests [] es = Some ([], 0, False)"
| "issue_requests (lr # lrs) [] = None"
| "issue_requests (lr # lrs) (e # es) =
     do { abort_flag \<leftarrow> (case e of None \<Rightarrow> Some False | Some ps \<Rightarrow> wait_granted ps);
          if abort_flag then Some ([acquire_call lr], 0, True)
          else do { (cs, lr_pos, aborted) \<leftarrow> issue_requests lrs es;
                    Some (acquire_call lr # Call_grant_tx (br_lock lr) (br_txn lr) # cs, Suc lr_pos, aborted) } }"

text \<open>The loop over the positions from \<open>lr_pos\<close> down to 0.\<close>

fun release_from :: "bench_request list \<Rightarrow> nat \<Rightarrow> bench_call list" where
  "release_from lrs 0 = [release_call (lrs ! 0)]"
| "release_from lrs (Suc p) = release_call (lrs ! Suc p) # release_from lrs p"

definition run_transaction ::
  "bool \<Rightarrow> transaction \<Rightarrow> (nat \<times> bool) list option list \<Rightarrow> (bench_call list \<times> bool) option" where
  "run_transaction think txn es =
     do { (cs, lr_pos, abort_flag) \<leftarrow> issue_requests (tx_requests txn) es;
          let n = length (tx_requests txn);
          let rs = (if lr_pos < n then release_from (tx_requests txn) lr_pos
                    else if n = 0 then [] else release_from (tx_requests txn) (n - 1));
          Some (Call_txn_begin (tx_id txn) (tx_type txn) # cs
                @ (if \<not> abort_flag \<and> think then [Call_delay] else []) @ rs @ [Call_txn_end (tx_id txn)], abort_flag) }"

section \<open>Transactions are two-phase\<close>

fun is_acquire :: "bench_call \<Rightarrow> bool" where
  "is_acquire (Call_acquire l t op) = True"
| "is_acquire _ = False"

fun is_release :: "bench_call \<Rightarrow> bool" where
  "is_release (Call_release l t op) = True"
| "is_release _ = False"

lemma issue_result:
  "issue_requests lrs es = Some (cs, p, ab) \<Longrightarrow>
   filter is_acquire cs = map acquire_call (take (Suc p) lrs) \<and> filter is_release cs = [] \<and>
   (if ab then p < length lrs else p = length lrs)"
proof (induction lrs es arbitrary: cs p rule: issue_requests.induct)
  case (3 lr lrs e es)
  from 3(2) obtain ab1 where a: "(case e of None \<Rightarrow> Some False | Some ps \<Rightarrow> wait_granted ps) = Some ab1"
    by (auto simp: Option.bind_eq_Some_conv)
  show ?case
  proof (cases ab1)
    case True
    then show ?thesis using 3(2) a by (auto simp: acquire_call_def)
  next
    case False
    with 3(2) a obtain cs1 p1 where r: "issue_requests lrs es = Some (cs1, p1, ab)" "p = Suc p1"
      "cs = acquire_call lr # Call_grant_tx (br_lock lr) (br_txn lr) # cs1"
      by (auto simp: Option.bind_eq_Some_conv)
    from 3(1) [OF a False r(1)] show ?thesis by (simp add: r acquire_call_def)
  qed
qed auto

lemma release_from_eq: "p < length lrs \<Longrightarrow> release_from lrs p = map release_call (rev (take (Suc p) lrs))"
  by (induction p) (simp_all add: take_Suc_conv_app_nth hd_conv_nth)

text \<open>
  C31. A transaction of the benchmark is two-phase, whatever the lock library answers: all its
  requests come before all its releases, and it releases exactly the locks that it asked for,
  in reverse order, each once. It asks for all its locks unless it is aborted; an aborted
  transaction also releases the request on which it gave up.
\<close>

theorem transaction_two_phase:
  assumes "run_transaction think txn es = Some (cs, aborted)"
  shows "\<exists>n xs. cs = Call_txn_begin (tx_id txn) (tx_type txn) # xs
             @ map release_call (rev (take n (tx_requests txn))) @ [Call_txn_end (tx_id txn)] \<and>
           filter is_acquire xs = map acquire_call (take n (tx_requests txn)) \<and>
           filter is_release xs = [] \<and>
           (if aborted then 1 \<le> n \<and> n \<le> length (tx_requests txn) else n = length (tx_requests txn))"
proof -
  let ?lrs = "tx_requests txn"
  from assms obtain c p where c: "issue_requests ?lrs es = Some (c, p, aborted)"
    and cs: "cs = Call_txn_begin (tx_id txn) (tx_type txn) # c
         @ (if \<not> aborted \<and> think then [Call_delay] else [])
         @ (if p < length ?lrs then release_from ?lrs p
            else if length ?lrs = 0 then [] else release_from ?lrs (length ?lrs - 1)) @ [Call_txn_end (tx_id txn)]"
    by (auto simp: run_transaction_def Let_def Option.bind_eq_Some_conv)
  note i = issue_result [OF c]
  let ?d = "if \<not> aborted \<and> think then [Call_delay] else []"
  have d: "filter is_acquire ?d = []" "filter is_release ?d = []" by simp_all
  have all: "release_from ?lrs (length ?lrs - 1) = map release_call (rev ?lrs)" if "?lrs \<noteq> []"
    using that release_from_eq [of "length ?lrs - 1" ?lrs] by simp
  show ?thesis
  proof (cases aborted)
    case True
    then show ?thesis using i cs d by (intro exI [of _ "Suc p"] exI [of _ "c @ ?d"]) (simp add: release_from_eq)
  next
    case False
    then have "cs = Call_txn_begin (tx_id txn) (tx_type txn) # (c @ ?d)
         @ map release_call (rev (take (length ?lrs) ?lrs)) @ [Call_txn_end (tx_id txn)]"
      using i cs all by simp
    then show ?thesis using False i d by (intro exI [of _ "length ?lrs"] exI [of _ "c @ ?d"]) simp
  qed
qed

text \<open>
  C34. A transaction always ends: for every request that is not granted at once, some poll
  reports a grant or an abort, or sees the timeout pass.
\<close>

theorem transaction_ends:
  assumes "length (tx_requests txn) \<le> length es"
    and "\<forall>e \<in> set es. \<forall>ps. e = Some ps \<longrightarrow> (\<exists>(ret, late) \<in> set ps. ret = 1 \<or> ret = 2 \<or> late)"
  shows "\<exists>cs aborted. run_transaction think txn es = Some (cs, aborted)"
proof -
  have w: "\<exists>(ret, late) \<in> set ps. ret = 1 \<or> ret = 2 \<or> late \<Longrightarrow> \<exists>ab. wait_granted ps = Some ab" for ps
    by (induction ps rule: wait_granted.induct) auto
  have "length lrs \<le> length es \<Longrightarrow> (\<forall>e \<in> set es. \<forall>ps. e = Some ps \<longrightarrow> (\<exists>ab. wait_granted ps = Some ab)) \<Longrightarrow>
      \<exists>cs p ab. issue_requests lrs es = Some (cs, p, ab)" for lrs es
  proof (induction lrs es rule: issue_requests.induct)
    case (3 lr lrs e es)
    then obtain ab where a: "(case e of None \<Rightarrow> Some False | Some ps \<Rightarrow> wait_granted ps) = Some ab"
      by (cases e) auto
    show ?case
    proof (cases ab)
      case False
      have "\<exists>cs p ab. issue_requests lrs es = Some (cs, p, ab)" using 3(2,3) by (intro 3(1) [OF a False]) auto
      then show ?thesis using a False by auto
    qed (use a in auto)
  qed auto
  from this [OF assms(1)] assms(2) w obtain cs p ab where "issue_requests (tx_requests txn) es = Some (cs, p, ab)"
    by blast
  then show ?thesis by (simp add: run_transaction_def Let_def)
qed

section \<open>The trace of the generator is the trace of the benchmark\<close>

fun txn_code :: "tpcc_txn \<Rightarrow> nat" where
  "txn_code NEW_ORDER = 1"
| "txn_code PAYMENT = 2"
| "txn_code ORDER_STATUS = 3"
| "txn_code DELIVERY = 4"
| "txn_code STOCK_LEVEL = 5"

fun mode_code :: "tpcc_mode \<Rightarrow> nat" where
  "mode_code T_SHARED = 1"
| "mode_code T_EXCLUSIVE = 2"

text \<open>\<open>GEN_OUTPUT\<close> of the generator; the task is always \<open>LOCK\<close>, which is 0.\<close>

definition gen_output :: "tpcc_request \<Rightarrow> string" where
  "gen_output r = show_nat 10 (user_id r) @ '',0,'' @ show_nat 10 (txn_code (txn_type r)) @ '',''
     @ show_nat 10 (obj_index r) @ '','' @ show_nat 10 (mode_code (lock_type r))"

text \<open>The request that the benchmark is meant to read.\<close>

definition bench_of :: "tpcc_request \<Rightarrow> bench_request" where
  "bench_of r =
     \<lparr>br_action = 0, br_lock_type = of_nat (mode_code (lock_type r)), br_txn_type = of_nat (txn_code (txn_type r)),
      br_txn = of_nat (user_id r), br_lock = of_nat (obj_index r)\<rparr>"

lemma bench_of_sel:
  "br_txn (bench_of r) = of_nat (user_id r)" "br_txn_type (bench_of r) = of_nat (txn_code (txn_type r))"
  "br_lock (bench_of r) = of_nat (obj_index r)"
  by (simp_all add: bench_of_def)

definition in_range :: "tpcc_request \<Rightarrow> bool" where
  "in_range r \<longleftrightarrow> user_id r < 2 ^ 32 - 1 \<and> obj_index r < 2 ^ 31"

lemma scan_u_show:
  assumes "n < 2 ^ 64" "r = [] \<or> \<not> is_digit 10 (hd r)"
  shows "scan_u (show_nat 10 n @ r) = Some (of_nat n, r)"
  using assms by (simp add: scan_u_def drop_space_show scan_nat_show min_absorb1)

lemma zero_text: "''0,'' = show_nat 10 0 @ '',''"
  by (simp add: show_nat.simps digit_char_def) code_simp

lemma codes_small: "txn_code t < 2 ^ 8" "mode_code m < 2 ^ 8"
  by (cases t; simp) (cases m; simp)

lemma scan_gen_output:
  assumes "in_range r"
  shows "scan_fields 5 (gen_output r) =
    [of_nat (user_id r), 0, of_nat (txn_code (txn_type r)), of_nat (obj_index r), of_nat (mode_code (lock_type r))]"
proof -
  have c: "txn_code (txn_type r) < 2 ^ 64" "mode_code (lock_type r) < 2 ^ 64" "user_id r < 2 ^ 64" "obj_index r < 2 ^ 64"
    using codes_small(1) [of "txn_type r"] codes_small(2) [of "lock_type r"] assms by (simp_all add: in_range_def)
  have g: "gen_output r = show_nat 10 (user_id r) @ CHR '','' # show_nat 10 0 @ CHR '','' # show_nat 10 (txn_code (txn_type r))
      @ CHR '','' # show_nat 10 (obj_index r) @ CHR '','' # show_nat 10 (mode_code (lock_type r))"
    using zero_text by (simp add: gen_output_def)
  have l: "scan_u (show_nat 10 (mode_code (lock_type r))) = Some (of_nat (mode_code (lock_type r)), [])"
    using scan_u_show [OF c(2), of "[]"] by simp
  have five: "scan_fields 5 x = scan_fields (Suc (Suc (Suc (Suc (Suc 0))))) x" for x by (simp add: numeral_eq_Suc)
  show ?thesis unfolding g five
    by (simp add: scan_u_show [OF c(3)] scan_u_show [OF c(1)] scan_u_show [OF c(4)] scan_u_show [of 0] l comma_not_digit)
qed

lemma scan_request_gen_output:
  assumes "in_range r"
  shows "scan_request (gen_output r) = bench_of r"
proof -
  have u: "ucast (of_nat n :: u64) = (of_nat n :: 'w :: len word)" if "n < 2 ^ 64" for n
    using that by (simp add: unsigned_of_nat take_bit_nat_eq_self)
  have c: "txn_code (txn_type r) < 2 ^ 64" "mode_code (lock_type r) < 2 ^ 64" "user_id r < 2 ^ 64" "obj_index r < 2 ^ 64"
    using codes_small(1) [of "txn_type r"] codes_small(2) [of "lock_type r"] assms by (simp_all add: in_range_def)
  show ?thesis
    by (simp add: scan_request_def scan_gen_output [OF assms] Let_def field_def bench_of_def
        u [OF c(1)] u [OF c(2)] u [OF c(3)] u [OF c(4)])
qed

text \<open>The numbers of the transactions of a trace, and the transactions of a core.\<close>

definition trace_ids :: "tpcc_request list \<Rightarrow> nat list" where
  "trace_ids rs = remdups_adj (map user_id rs)"

definition trace_txn :: "tpcc_request list \<Rightarrow> nat \<Rightarrow> transaction" where
  "trace_txn rs i =
     (let qs = filter (\<lambda>r. user_id r = i) rs in
      \<lparr>tx_id = of_nat i, tx_type = of_nat (txn_code (txn_type (hd qs))), tx_requests = map bench_of qs\<rparr>)"

definition core_txns :: "tpcc_request list \<Rightarrow> nat \<Rightarrow> transaction list" where
  "core_txns rs core = map (trace_txn rs) (filter (\<lambda>i. bench_core (of_nat i) = core) (trace_ids rs))"

lemma remdups_adj_snoc:
  "remdups_adj (xs @ [x]) = (if xs \<noteq> [] \<and> last xs = x then remdups_adj xs else remdups_adj xs @ [x])"
  by (induction xs rule: remdups_adj.induct) auto

lemma trace_txn_snoc: "trace_txn (rs @ [r]) i = (if user_id r = i
   then (if filter (\<lambda>r. user_id r = i) rs = [] then
      \<lparr>tx_id = of_nat i, tx_type = of_nat (txn_code (txn_type r)), tx_requests = [bench_of r]\<rparr>
      else (trace_txn rs i)\<lparr>tx_requests := tx_requests (trace_txn rs i) @ [bench_of r]\<rparr>) else trace_txn rs i)"
  by (auto simp: trace_txn_def Let_def)

lemma sorted_remdups_adj_strict: "sorted xs \<Longrightarrow> sorted_wrt (<) (remdups_adj xs)" for xs :: "nat list"
proof (induction xs rule: remdups_adj.induct)
  case (3 x y xs)
  then show ?case by (cases "x = y") auto
qed auto

lemma last_remdups_adj [simp]: "last (remdups_adj xs) = last xs"
  by (induction xs rule: remdups_adj.induct) auto

text \<open>The last transaction of a sorted trace is the last one of its core.\<close>

lemma core_txns_snoc:
  assumes "sorted (map user_id (rs @ [r]))"
  shows "core_txns (rs @ [r]) core =
    (if bench_core (of_nat (user_id r)) \<noteq> core then core_txns rs core
     else if rs \<noteq> [] \<and> user_id (last rs) = user_id r
     then butlast (core_txns rs core) @ [(last (core_txns rs core))
        \<lparr>tx_requests := tx_requests (last (core_txns rs core)) @ [bench_of r]\<rparr>]
     else core_txns rs core
        @ [\<lparr>tx_id = of_nat (user_id r), tx_type = of_nat (txn_code (txn_type r)), tx_requests = [bench_of r]\<rparr>])"
    and "rs \<noteq> [] \<Longrightarrow> user_id (last rs) = user_id r \<Longrightarrow> bench_core (of_nat (user_id r)) = core \<Longrightarrow> core_txns rs core \<noteq> []"
proof -
  let ?i = "user_id r" and ?p = "\<lambda>i. bench_core (of_nat i) = core"
  have ids: "trace_ids (rs @ [r]) = (if rs \<noteq> [] \<and> user_id (last rs) = ?i then trace_ids rs else trace_ids rs @ [?i])"
    by (auto simp: trace_ids_def remdups_adj_snoc last_map)
  have strict: "sorted_wrt (<) (trace_ids (rs @ [r]))"
    using assms unfolding trace_ids_def by (rule sorted_remdups_adj_strict)
  show ne: "core_txns rs core \<noteq> []" if "rs \<noteq> []" "user_id (last rs) = ?i" "?p ?i"
  proof -
    have "?i \<in> set (trace_ids rs)" using that by (metis last_in_set last_map last_remdups_adj list.map_disc_iff
          remdups_adj_Nil_iff trace_ids_def)
    with that(3) show ?thesis by (auto simp: core_txns_def filter_empty_conv)
  qed
  show "core_txns (rs @ [r]) core = (if bench_core (of_nat ?i) \<noteq> core then core_txns rs core
     else if rs \<noteq> [] \<and> user_id (last rs) = ?i
     then butlast (core_txns rs core) @ [(last (core_txns rs core))
        \<lparr>tx_requests := tx_requests (last (core_txns rs core)) @ [bench_of r]\<rparr>]
     else core_txns rs core
        @ [\<lparr>tx_id = of_nat ?i, tx_type = of_nat (txn_code (txn_type r)), tx_requests = [bench_of r]\<rparr>])"
  proof (cases "rs \<noteq> [] \<and> user_id (last rs) = ?i")
    case True
    then obtain js where js: "trace_ids rs = js @ [?i]"
      by (metis append_butlast_last_id last_map last_remdups_adj list.map_disc_iff remdups_adj_Nil_iff trace_ids_def)
    have "?i \<notin> set js" using strict ids True js by (auto simp: sorted_wrt_append)
    then have j: "map (trace_txn (rs @ [r])) (filter ?p js) = map (trace_txn rs) (filter ?p js)"
      by (auto simp: trace_txn_snoc)
    have "filter (\<lambda>q. user_id q = ?i) rs \<noteq> []" using True by (metis (mono_tags) filter_empty_conv last_in_set)
    then have t: "trace_txn (rs @ [r]) ?i = (trace_txn rs ?i)\<lparr>tx_requests := tx_requests (trace_txn rs ?i) @ [bench_of r]\<rparr>"
      by (simp add: trace_txn_snoc)
    have idsT: "trace_ids (rs @ [r]) = js @ [?i]" using ids True js by simp
    show ?thesis unfolding core_txns_def idsT js using True j t by simp
  next
    case False
    then have idsF: "trace_ids (rs @ [r]) = trace_ids rs @ [?i]" using ids by simp
    have "?i \<notin> set (trace_ids rs)" using strict idsF by (auto simp: sorted_wrt_append)
    then have n: "?i \<notin> user_id ` set rs" "map (trace_txn (rs @ [r])) (filter ?p (trace_ids rs)) = map (trace_txn rs) (filter ?p (trace_ids rs))"
      by (auto simp: trace_txn_snoc trace_ids_def)
    have "filter (\<lambda>q. user_id q = ?i) rs = []" unfolding filter_empty_conv using n(1) by (metis image_eqI)
    then have "trace_txn (rs @ [r]) ?i =
        \<lparr>tx_id = of_nat ?i, tx_type = of_nat (txn_code (txn_type r)), tx_requests = [bench_of r]\<rparr>"
      by (simp add: trace_txn_snoc)
    with False n(2) show ?thesis unfolding core_txns_def idsF by auto
  qed
qed

lemma gen_output_digit: "gen_output r \<noteq> [] \<and> is_digit 10 (hd (gen_output r))"
proof -
  obtain c s where "show_nat 10 (user_id r) = c # s" "is_digit 10 c" by (rule show_nat_Cons [of 10 "user_id r"]) auto
  then show ?thesis by (simp add: gen_output_def)
qed

lemma get_trace_append:
  "get_trace_for_lcores (xs @ ys) st =
     (case get_trace_for_lcores xs st of Inl e \<Rightarrow> Inl e | Inr st \<Rightarrow> get_trace_for_lcores ys st)"
  by (induction xs arbitrary: st) (auto split: sum.splits)

definition trace_last :: "tpcc_request list \<Rightarrow> u32" where
  "trace_last rs = (if rs = [] then - 1 else of_nat (user_id (last rs)))"

lemma trace_last_eq:
  assumes "list_all in_range (rs @ [r])"
  shows "trace_last rs = of_nat (user_id r) \<longleftrightarrow> rs \<noteq> [] \<and> user_id (last rs) = user_id r"
proof -
  have r: "user_id r < 2 ^ 32 - 1" using assms by (simp add: in_range_def)
  have "(of_nat (user_id r) :: u32) \<noteq> - 1"
  proof
    assume "(of_nat (user_id r) :: u32) = - 1"
    then have "unat (of_nat (user_id r) :: u32) = 2 ^ 32 - 1" by (simp add: unsigned_minus_1_eq_mask mask_eq_exp_minus_1)
    with r show False by (simp add: unsigned_of_nat take_bit_nat_eq_self)
  qed
  moreover have "(of_nat (user_id (last rs)) :: u32) = of_nat (user_id r) \<longleftrightarrow> user_id (last rs) = user_id r" if "rs \<noteq> []"
  proof -
    have "in_range (last rs)" using that assms by (simp add: list_all_iff)
    then have "user_id (last rs) < 2 ^ 32" by (simp add: in_range_def)
    with r show ?thesis by (simp add: word_of_nat_eq_iff take_bit_nat_eq_self)
  qed
  ultimately show ?thesis by (auto simp: trace_last_def)
qed

lemma read_gen_output:
  assumes "in_range r"
  shows "read_trace_line (gen_output r) st =
    (let core = bench_core (of_nat (user_id r));
         ts = txn_list st core @ (if last_txn st = of_nat (user_id r) then []
           else [\<lparr>tx_id = of_nat (user_id r), tx_type = of_nat (txn_code (txn_type r)), tx_requests = []\<rparr>]) in
     (case add_request (bench_of r) ts of Inl e \<Rightarrow> Inl e
      | Inr ts \<Rightarrow> Inr \<lparr>last_txn = of_nat (user_id r), txn_list = (txn_list st)(core := ts)\<rparr>))"
proof -
  have "(ucast (of_nat (txn_code (txn_type r)) :: u8) :: u32) = of_nat (txn_code (txn_type r))"
    using codes_small(1) [of "txn_type r"] by (simp add: unsigned_of_nat take_bit_nat_eq_self)
  then show ?thesis
    using gen_output_digit [of r]
    unfolding read_trace_line_def scan_request_gen_output [OF assms] Let_def bench_of_sel by simp
qed

lemma trace_read:
  "sorted (map user_id rs) \<Longrightarrow> list_all in_range rs \<Longrightarrow>
   get_trace_for_lcores (map gen_output rs) trace_start = Inr \<lparr>last_txn = trace_last rs, txn_list = core_txns rs\<rparr>"
proof (induction rs rule: rev_induct)
  case Nil
  then show ?case by (simp add: trace_start_def trace_last_def core_txns_def trace_ids_def)
next
  case (snoc r rs)
  let ?c = "bench_core (of_nat (user_id r))"
  have IH: "get_trace_for_lcores (map gen_output rs) trace_start = Inr \<lparr>last_txn = trace_last rs, txn_list = core_txns rs\<rparr>"
    using snoc by (simp add: sorted_append)
  have other: "core_txns (rs @ [r]) = (core_txns rs)(?c := core_txns (rs @ [r]) ?c)"
    using core_txns_snoc(1) [OF snoc.prems(1)] by (auto simp: fun_eq_iff)
  have add: "add_request (bench_of r) (core_txns rs ?c @ (if trace_last rs = of_nat (user_id r) then []
           else [\<lparr>tx_id = of_nat (user_id r), tx_type = of_nat (txn_code (txn_type r)), tx_requests = []\<rparr>]))
      = Inr (core_txns (rs @ [r]) ?c)"
    using core_txns_snoc(1) [OF snoc.prems(1), of ?c] core_txns_snoc(2) [OF snoc.prems(1), of ?c] trace_last_eq [OF snoc.prems(2)]
    by (simp add: add_request_def)
  have "in_range r" using snoc.prems(2) by simp
  then have "get_trace_for_lcores (map gen_output (rs @ [r])) trace_start =
      Inr \<lparr>last_txn = of_nat (user_id r), txn_list = (core_txns rs)(?c := core_txns (rs @ [r]) ?c)\<rparr>"
    using add by (simp add: get_trace_append IH read_gen_output Let_def split: if_splits)
  then show ?case unfolding other [symmetric] by (simp add: trace_last_def)
qed

lemma Generate_user: "Generate t g ds = Some (rs, g', ds') \<Longrightarrow> \<forall>r \<in> set rs. user_id r = t"
  by (auto simp: Generate_def GenerateNewOrder_def GeneratePayment_def GenerateOrderStatus_def GenerateDelivery_def
      GenerateStockLevel_def Let_def Option.bind_eq_Some_conv GEN_REQUEST_def split: if_splits)

lemma tpcc_trace_sorted:
  "tpcc_trace start n g ds = Some (rs, g', ds') \<Longrightarrow>
   sorted (map user_id rs) \<and> (\<forall>r \<in> set rs. start \<le> user_id r \<and> user_id r < start + n)"
proof (induction n arbitrary: start g ds rs)
  case (Suc n)
  then obtain rs1 g1 ds1 rs2 where g: "Generate start g ds = Some (rs1, g1, ds1)"
    and t: "tpcc_trace (start + 1) n g1 ds1 = Some (rs2, g', ds')" and rs: "rs = rs1 @ rs2"
    by (auto simp: Option.bind_eq_Some_conv)
  note u = Generate_user [OF g] and IH = Suc.IH [OF t]
  have "sorted (map user_id rs1)" using u by (simp add: sorted_iff_nth_mono)
  with u IH show ?case by (fastforce simp: rs sorted_append)
qed simp

lemma tpcc_trace_in_range:
  assumes "tpcc_trace start n (tpcc_init m) ds = Some (rs, g', ds')" "m < MACHINE_NUM" "start + n < 2 ^ 32"
  shows "list_all in_range rs"
proof -
  have ok: "req_ok m r" "user_id r < start + n" if "r \<in> set rs" for r
    using that tpcc_trace_ok [OF assms(1)] tpcc_trace_sorted [OF assms(1)] assms(2) by (auto simp: tpcc_init_def MACHINE_NUM_def)
  have "in_range r" if "r \<in> set rs" for r
    using ok [OF that] assms(3) by (auto simp: in_range_def req_ok_def)
  then show ?thesis by (simp add: list_all_iff)
qed

text \<open>
  C30. The benchmark executes the trace that the TPC-C generator wrote: reading the lines that
  the generator of any machine prints succeeds, and gives every core, in order, the
  transactions whose numbers fall to it, each with all its requests in order, their locks,
  modes and types being those that were generated.
\<close>

theorem tpcc_trace_replayed:
  assumes "tpcc_trace start n (tpcc_init m) ds = Some (rs, g', ds')" "m < MACHINE_NUM" "start + n < 2 ^ 32"
  shows "\<exists>st. get_trace_for_lcores (map gen_output rs) trace_start = Inr st \<and>
           (\<forall>core. txn_list st core =
              map (\<lambda>i. \<lparr>tx_id = of_nat i,
                        tx_type = of_nat (txn_code (txn_type (hd (filter (\<lambda>r. user_id r = i) rs)))),
                        tx_requests = map bench_of (filter (\<lambda>r. user_id r = i) rs)\<rparr>)
                (filter (\<lambda>i. bench_core (of_nat i) = core) (remdups_adj (map user_id rs))))"
proof -
  from trace_read [OF _ tpcc_trace_in_range [OF assms]] tpcc_trace_sorted [OF assms(1)]
  have "get_trace_for_lcores (map gen_output rs) trace_start = Inr \<lparr>last_txn = trace_last rs, txn_list = core_txns rs\<rparr>"
    by blast
  then show ?thesis
    by (intro exI [of _ "\<lparr>last_txn = trace_last rs, txn_list = core_txns rs\<rparr>"])
      (simp add: core_txns_def trace_txn_def trace_ids_def Let_def)
qed

section \<open>Examples\<close>

lemma request_op_bench_of:
  "request_op (bench_of r) = (case lock_type r of T_SHARED \<Rightarrow> LOCK_SHARED | T_EXCLUSIVE \<Rightarrow> LOCK_EXCL)"
  by (cases "lock_type r") (simp_all add: request_op_def bench_of_def)

theorem tpcc_trace_replayed_witness:
  "\<exists>st. get_trace_for_lcores (map gen_output (map (GEN_REQUEST 1 3607 PAYMENT T_EXCLUSIVE) [436447, 436452, 291027, 436498]))
      trace_start = Inr st \<and> map (map br_lock \<circ> tx_requests) (txn_list st 7) = [[436447, 436452, 291027, 436498]]"
proof -
  have "(1 :: nat) + 1 < 2 ^ 32" "(3 :: nat) < MACHINE_NUM" by (simp_all add: MACHINE_NUM_def)
  from tpcc_trace_replayed [OF example_trace this(2) this(1)] show ?thesis
    by (auto simp: bench_core_def GEN_REQUEST_def bench_of_def)
qed

definition example_txn :: transaction where
  "example_txn = \<lparr>tx_id = 9, tx_type = 2, tx_requests =
     [\<lparr>br_action = 0, br_lock_type = 2, br_txn_type = 2, br_txn = 9, br_lock = 100\<rparr>,
      \<lparr>br_action = 0, br_lock_type = 1, br_txn_type = 2, br_txn = 9, br_lock = 200\<rparr>]\<rparr>"

text \<open>The second request is given up after the timeout.\<close>

theorem transaction_two_phase_witness:
  "\<exists>n. 1 \<le> n \<and> n \<le> length (tx_requests example_txn) \<and>
     run_transaction False example_txn [None, Some [(0, False), (0, True)]] \<noteq> None"
proof -
  have "run_transaction False example_txn [None, Some [(0, False), (0, True)]] =
      Some ([Call_txn_begin 9 2, Call_acquire 100 9 LOCK_EXCL, Call_grant_tx 100 9, Call_acquire 200 9 LOCK_SHARED,
             Call_release 200 9 LOCK_SHARED, Call_release 100 9 LOCK_EXCL, Call_txn_end 9], True)" by code_simp
  with transaction_two_phase [OF this] show ?thesis by (auto simp: example_txn_def)
qed

theorem transaction_ends_witness:
  "\<exists>cs aborted. run_transaction True example_txn [Some [(0, False), (1, False)], Some [(0, False), (0, True)]] = Some (cs, aborted)"
  by (rule transaction_ends) (auto simp: example_txn_def)

end
