(* ===== verification/Micro_Bench.thy ===== *)
theory Micro_Bench
  imports Txn_Bench "HOL-Library.Multiset"
begin

text \<open>
  The micro benchmark (tests/microbench.cc): reading a trace file into the lists of the
  sending cores, and the coroutines of a core that request and release the locks of its list.
  What the lock library answers to an acquire and to the polls is an argument. The theorems
  show that the coroutines of a core together execute its list exactly once, and that every
  line of the trace is executed three times, on one core.
\<close>

section \<open>Reading a trace\<close>

record micro_request =
  mr_action :: u8
  mr_lock_type :: u8
  mr_client :: u8
  mr_txn :: u32
  mr_lock :: u32

text \<open>The fields of a line; one that does not match keeps what is in the memory of the variable.\<close>

definition scan_micro :: "micro_request \<Rightarrow> string \<Rightarrow> micro_request" where
  "scan_micro mem s =
     (let vs = scan_fields 5 s; n = length vs in
      \<lparr>mr_action = (if 1 < n then ucast (vs ! 1) else mr_action mem),
       mr_lock_type = (if 4 < n then ucast (vs ! 4) else mr_lock_type mem),
       mr_client = (if 2 < n then ucast (vs ! 2) else mr_client mem),
       mr_txn = (if 0 < n then ucast (vs ! 0) else mr_txn mem),
       mr_lock = (if 3 < n then ucast (vs ! 3) else mr_lock mem)\<rparr>)"

record micro_conf =
  mc_max_lock_num :: u32
  mc_rx_cores :: nat
  mc_tx_cores :: nat

record micro_trace =
  lk_reqs :: "nat \<Rightarrow> micro_request list"
  tx_lcore_id :: nat
  trace_size :: nat

definition micro_start :: micro_trace where
  "micro_start = \<lparr>lk_reqs = (\<lambda>_. []), tx_lcore_id = 0, trace_size = 0\<rparr>"

text \<open>A remainder by zero stops the program; there are lists for 12 cores.\<close>

definition micro_line :: "micro_conf \<Rightarrow> micro_request \<Rightarrow> string \<Rightarrow> micro_trace \<Rightarrow> fl_error + micro_trace" where
  "micro_line cf mem s st =
     (if s = [] \<or> \<not> is_digit 10 (hd s) then Inr st
      else if mc_max_lock_num cf = 0 \<or> mc_tx_cores cf = 0 then Inl Error_exit
      else
        (let lr = scan_micro mem s;
             lr = lr\<lparr>mr_lock := mr_lock lr mod mc_max_lock_num cf\<rparr>;
             core = mc_rx_cores cf + tx_lcore_id st
         in if 12 \<le> core then Inl Out_of_bounds
            else Inr \<lparr>lk_reqs = (lk_reqs st)(core := lk_reqs st core @ [lr]),
                      tx_lcore_id = (tx_lcore_id st + 1) mod mc_tx_cores cf,
                      trace_size = trace_size st + 1\<rparr>))"

text \<open>One line after the other, each with the memory its variable starts with.\<close>

fun micro_lines :: "micro_conf \<Rightarrow> (micro_request \<times> string) list \<Rightarrow> micro_trace \<Rightarrow> fl_error + micro_trace" where
  "micro_lines cf [] st = Inr st"
| "micro_lines cf ((mem, s) # ss) st =
     (case micro_line cf mem s st of Inl e \<Rightarrow> Inl e | Inr st \<Rightarrow> micro_lines cf ss st)"

definition triple_list :: "nat \<Rightarrow> micro_trace \<Rightarrow> micro_trace" where
  "triple_list core st =
     (let v = lk_reqs st core in
      fold (\<lambda>i st. st\<lparr>lk_reqs := (lk_reqs st)(core := lk_reqs st core @ v)\<rparr>) [0..<2 :: nat] st)"

definition micro_trace_for_lcores :: "micro_conf \<Rightarrow> (micro_request \<times> string) list \<Rightarrow> fl_error + micro_trace" where
  "micro_trace_for_lcores cf ss =
     (case micro_lines cf ss micro_start of
        Inl e \<Rightarrow> Inl e
      | Inr st \<Rightarrow> Inr (fold triple_list [mc_rx_cores cf..<mc_rx_cores cf + mc_tx_cores cf] st))"

section \<open>Coroutines of a core\<close>

text \<open>The positions of the list that a coroutine takes.\<close>

function positions :: "nat \<Rightarrow> nat \<Rightarrow> nat \<Rightarrow> nat list" where
  "positions n i len = (if i < len \<and> 0 < n then i # positions n (i + n) len else [])"
  by pat_completeness auto
termination
  by (relation "measure (\<lambda>(n, i, len). len - i)") auto

declare positions.simps [simp del]

definition micro_op :: "micro_request \<Rightarrow> lock_state" where
  "micro_op lr = (if mr_lock_type lr = 1 then LOCK_SHARED else if mr_lock_type lr = 2 then LOCK_EXCL else FREE)"

definition micro_acquire :: "micro_request \<Rightarrow> bench_call" where
  "micro_acquire lr = Call_acquire (mr_lock lr) (mr_txn lr) (micro_op lr)"

definition micro_release :: "micro_request \<Rightarrow> bench_call" where
  "micro_release lr = Call_release (mr_lock lr) (mr_txn lr) (micro_op lr)"

text \<open>
  The loop that polls: what each poll returns, and whether the acquire that follows an abort
  returns a handle; without one the next poll uses a null pointer. \<open>None\<close> when the polls do not
  report a grant.
\<close>

fun micro_wait :: "micro_request \<Rightarrow> (nat \<times> bool) list \<Rightarrow> (fl_error + bench_call list) option" where
  "micro_wait lr [] = None"
| "micro_wait lr ((ret, handle) # ps) =
     (if ret = 2 then
        (if handle then map_option (map_sum id (Cons (micro_acquire lr))) (micro_wait lr ps)
         else Some (Inl Invalid_pointer))
      else if ret = 1 then Some (Inr [])
      else micro_wait lr ps)"

text \<open>One turn of a coroutine; \<open>e\<close> is \<open>None\<close> when the acquire grants at once, else the polls.\<close>

definition micro_turn ::
  "bool \<Rightarrow> micro_request \<Rightarrow> (nat \<times> bool) list option \<Rightarrow> (fl_error + bench_call list) option" where
  "micro_turn think lr e =
     (if mr_action lr \<noteq> 0 then Some (Inr [])
      else
        map_option (map_sum id (\<lambda>cs. micro_acquire lr # cs @ (if think then [Call_delay] else []) @ [micro_release lr]))
          (case e of None \<Rightarrow> Some (Inr []) | Some ps \<Rightarrow> micro_wait lr ps))"

text \<open>A coroutine: its turns one after the other.\<close>

fun micro_turns ::
  "bool \<Rightarrow> (micro_request \<times> (nat \<times> bool) list option) list \<Rightarrow> (fl_error + bench_call list) option" where
  "micro_turns think [] = Some (Inr [])"
| "micro_turns think ((lr, e) # rs) =
     (case micro_turn think lr e of
        None \<Rightarrow> None
      | Some (Inl er) \<Rightarrow> Some (Inl er)
      | Some (Inr cs) \<Rightarrow> map_option (map_sum id ((@) cs)) (micro_turns think rs))"

definition lock_requesting ::
  "bool \<Rightarrow> nat \<Rightarrow> micro_request list \<Rightarrow> (nat \<Rightarrow> (nat \<times> bool) list option) \<Rightarrow> nat \<Rightarrow> (fl_error + bench_call list) option" where
  "lock_requesting think coroutine_num reqs ans c_id =
     micro_turns think (map (\<lambda>i. (reqs ! i, ans i)) (positions coroutine_num c_id (length reqs)))"

section \<open>The coroutines share the work\<close>

lemma congruent_above:
  fixes i j n :: nat
  assumes "i < j" and "j mod n = i mod n"
  shows "i + n \<le> j"
proof -
  obtain q where q: "j = i + n * q" using assms by (metis less_imp_le mod_eq_nat1E)
  with assms(1) have "0 < q" by (cases q) auto
  then show ?thesis using q by (cases q) auto
qed

lemma set_positions: "0 < n \<Longrightarrow> set (positions n i len) = {j. i \<le> j \<and> j < len \<and> j mod n = i mod n}"
proof (induction n i len rule: positions.induct)
  case (1 n i len)
  show ?case
  proof (cases "i < len")
    case True
    then have "set (positions n i len) = insert i {j. i + n \<le> j \<and> j < len \<and> j mod n = i mod n}"
      using 1 by (simp add: positions.simps [of n i])
    also have "\<dots> = {j. i \<le> j \<and> j < len \<and> j mod n = i mod n}"
      using True congruent_above [of i _ n] by (auto simp: le_less)
    finally show ?thesis .
  qed (auto simp: positions.simps [of n i])
qed

lemma distinct_positions: "distinct (positions n i len)"
proof (induction n i len rule: positions.induct)
  case (1 n i len)
  then show ?case using set_positions [of n "i + n" len] by (auto simp: positions.simps [of n i])
qed

lemma distinct_concat_map:
  assumes "distinct xs" and "\<And>x. x \<in> set xs \<Longrightarrow> distinct (f x)"
    and "\<And>x y. x \<in> set xs \<Longrightarrow> y \<in> set xs \<Longrightarrow> x \<noteq> y \<Longrightarrow> set (f x) \<inter> set (f y) = {}"
  shows "distinct (concat (map f xs))"
  using assms
proof (induction xs)
  case (Cons x xs)
  have "distinct (concat (map f xs))" using Cons.prems by (intro Cons.IH) auto
  moreover have "set (f x) \<inter> set (concat (map f xs)) = {}" using Cons.prems by fastforce
  ultimately show ?case using Cons.prems by simp
qed simp

text \<open>Positions by their remainder: every position belongs to one coroutine.\<close>

lemma positions_partition:
  assumes "0 < n"
  shows "mset (concat (map (\<lambda>c. positions n c len) [0..<n])) = mset [0..<len]"
proof -
  have "set (concat (map (\<lambda>c. positions n c len) [0..<n])) = (\<Union>c \<in> {0..<n}. {j. c \<le> j \<and> j < len \<and> j mod n = c mod n})"
    using assms by (simp add: set_positions)
  also have "\<dots> = set [0..<len]"
  proof (intro equalityI subsetI)
    fix j assume "j \<in> set [0..<len]"
    then show "j \<in> (\<Union>c \<in> {0..<n}. {j. c \<le> j \<and> j < len \<and> j mod n = c mod n})"
      using assms by (intro UN_I [of "j mod n"]) auto
  qed auto
  finally have s: "set (concat (map (\<lambda>c. positions n c len) [0..<n])) = set [0..<len]" .
  have "distinct (concat (map (\<lambda>c. positions n c len) [0..<n]))"
    using assms by (intro distinct_concat_map) (auto simp: distinct_positions set_positions)
  with s show ?thesis by (metis distinct_upt set_eq_iff_mset_eq_distinct)
qed

lemma mset_positions_filter:
  assumes "c < n"
  shows "mset (positions n c len) = mset (filter (\<lambda>k. k mod n = c) [0..<len])"
proof -
  have "set (positions n c len) = set (filter (\<lambda>k. k mod n = c) [0..<len])"
    using assms by (auto simp: set_positions)
  then show ?thesis using set_eq_iff_mset_eq_distinct [of "positions n c len" "filter (\<lambda>k. k mod n = c) [0..<len]"]
      distinct_positions by simp
qed

lemma sum_parts:
  "(\<Sum>c \<leftarrow> xs. image_mset f (filter_mset P (mset (g c)))) = image_mset f (filter_mset P (mset (concat (map g xs))))"
  by (induction xs) simp_all

section \<open>Every request is acquired and released\<close>

lemma map_sum_Inr: "map_sum id f z = Inr y \<longleftrightarrow> (\<exists>x. z = Inr x \<and> f x = y)"
  by (cases z) auto

lemma micro_wait_calls:
  "micro_wait lr ps = Some (Inr cs) \<Longrightarrow> set cs \<subseteq> {micro_acquire lr}"
proof (induction ps arbitrary: cs rule: micro_wait.induct)
  case (2 lr ret handle ps)
  then show ?case by (auto simp: map_sum_Inr split: if_splits)
qed simp

lemma micro_turn_calls:
  assumes "micro_turn think lr e = Some (Inr cs)"
  shows "filter is_release cs = (if mr_action lr = 0 then [micro_release lr] else [])"
proof -
  have r: "filter is_release w = []" if "set w \<subseteq> {micro_acquire lr}" for w
    using that by (auto simp: filter_empty_conv micro_acquire_def)
  show ?thesis using assms
    by (auto simp: micro_turn_def micro_release_def micro_acquire_def map_sum_Inr
        dest!: micro_wait_calls r split: if_splits option.splits)
qed

lemma micro_turns_calls:
  "micro_turns think rs = Some (Inr cs) \<Longrightarrow>
   filter is_release cs = map micro_release (filter (\<lambda>lr. mr_action lr = 0) (map fst rs))"
proof (induction think rs arbitrary: cs rule: micro_turns.induct)
  case (2 think lr e rs)
  then obtain c1 c2 where c: "micro_turn think lr e = Some (Inr c1)" "micro_turns think rs = Some (Inr c2)" "cs = c1 @ c2"
    by (auto simp: map_sum_Inr split: option.splits sum.splits)
  from micro_turn_calls [OF c(1)] 2(1) [OF c(1) refl c(2)] c(3) show ?case by simp
qed simp

text \<open>The requests of a list that the benchmark executes; those for a release are skipped.\<close>

definition executed :: "micro_request list \<Rightarrow> bench_call multiset" where
  "executed reqs = mset (map micro_release (filter (\<lambda>lr. mr_action lr = 0) reqs))"

lemma core_executes_list:
  assumes "0 < n" and "\<And>c. c < n \<Longrightarrow> lock_requesting think n reqs ans c = Some (Inr (out c))"
  shows "(\<Sum>c \<leftarrow> [0..<n]. mset (filter is_release (out c))) = executed reqs"
proof -
  let ?e = "\<lambda>i. mr_action (reqs ! i) = 0"
  have o: "mset (filter is_release (out c)) =
      image_mset (\<lambda>i. micro_release (reqs ! i)) (mset (filter ?e (positions n c (length reqs))))" if "c < n" for c
    using micro_turns_calls [OF assms(2) [OF that, unfolded lock_requesting_def]]
    by (simp add: comp_def filter_map)
  have "(\<Sum>c \<leftarrow> [0..<n]. mset (filter is_release (out c))) =
      (\<Sum>c \<leftarrow> [0..<n]. image_mset (\<lambda>i. micro_release (reqs ! i)) (filter_mset ?e (mset (positions n c (length reqs)))))"
    using o by (intro arg_cong [of _ _ sum_list] map_cong) auto
  also have "\<dots> = image_mset (\<lambda>i. micro_release (reqs ! i))
      (filter_mset ?e (mset (concat (map (\<lambda>c. positions n c (length reqs)) [0..<n]))))"
    by (rule sum_parts)
  also have "\<dots> = image_mset (\<lambda>i. micro_release (reqs ! i)) (filter_mset ?e (mset [0..<length reqs]))"
    unfolding positions_partition [OF assms(1)] ..
  also have "\<dots> = mset (map (\<lambda>i. micro_release (reqs ! i)) (filter ?e [0..<length reqs]))"
    by (simp only: mset_map mset_filter)
  also have "\<dots> = mset (map micro_release (filter (\<lambda>lr. mr_action lr = 0) (map ((!) reqs) [0..<length reqs])))"
    by (simp add: filter_map comp_def)
  also have "\<dots> = executed reqs" by (simp add: executed_def map_nth)
  finally show ?thesis .
qed

section \<open>The lists of the cores\<close>

definition micro_req :: "micro_conf \<Rightarrow> micro_request \<times> string \<Rightarrow> micro_request" where
  "micro_req cf = (\<lambda>(mem, s). (scan_micro mem s)\<lparr>mr_lock := mr_lock (scan_micro mem s) mod mc_max_lock_num cf\<rparr>)"

lemma micro_lines_lists:
  assumes "mc_max_lock_num cf \<noteq> 0" and "0 < mc_tx_cores cf" and "mc_rx_cores cf + mc_tx_cores cf \<le> 12"
  shows "\<forall>(mem, s) \<in> set ss. s \<noteq> [] \<and> is_digit 10 (hd s) \<Longrightarrow> tx_lcore_id st < mc_tx_cores cf \<Longrightarrow>
    \<exists>st'. micro_lines cf ss st = Inr st' \<and> trace_size st' = trace_size st + length ss \<and>
      (\<forall>core. lk_reqs st' core = lk_reqs st core @
         map (\<lambda>k. micro_req cf (ss ! k))
           (filter (\<lambda>k. core = mc_rx_cores cf + (tx_lcore_id st + k) mod mc_tx_cores cf) [0..<length ss]))"
proof (induction ss arbitrary: st)
  case (Cons ms ss)
  obtain mem s where ms: "ms = (mem, s)" by (cases ms)
  let ?core = "mc_rx_cores cf + tx_lcore_id st"
  let ?st = "\<lparr>lk_reqs = (lk_reqs st)(?core := lk_reqs st ?core @ [micro_req cf ms]),
      tx_lcore_id = (tx_lcore_id st + 1) mod mc_tx_cores cf, trace_size = trace_size st + 1\<rparr>"
  have l: "micro_line cf mem s st = Inr ?st"
    using Cons.prems assms by (simp add: micro_line_def micro_req_def ms Let_def)
  obtain st' where st': "micro_lines cf ss ?st = Inr st'" "trace_size st' = trace_size ?st + length ss"
    "\<forall>core. lk_reqs st' core = lk_reqs ?st core @ map (\<lambda>k. micro_req cf (ss ! k))
       (filter (\<lambda>k. core = mc_rx_cores cf + (tx_lcore_id ?st + k) mod mc_tx_cores cf) [0..<length ss])"
    using Cons.IH [of ?st] Cons.prems assms(2) by (auto simp: ms)
  have "lk_reqs st' core = lk_reqs st core @ map (\<lambda>k. micro_req cf ((ms # ss) ! k))
      (filter (\<lambda>k. core = mc_rx_cores cf + (tx_lcore_id st + k) mod mc_tx_cores cf) [0..<length (ms # ss)])" for core
  proof -
    have u: "[0..<length (ms # ss)] = 0 # map Suc [0..<length ss]" by (simp add: upt_conv_Cons map_Suc_upt del: upt_Suc)
    have m: "(tx_lcore_id ?st + k) mod mc_tx_cores cf = (tx_lcore_id st + Suc k) mod mc_tx_cores cf" for k
      by (simp add: mod_add_left_eq)
    show ?thesis unfolding u using st'(3) m Cons.prems(2)
      by (simp add: filter_map comp_def mod_add_left_eq)
  qed
  then show ?case using l st'(1,2) by (simp add: ms)
qed simp

lemma triple_list_eq:
  "lk_reqs (triple_list core st) = (lk_reqs st)(core := concat (replicate 3 (lk_reqs st core)))"
  by (simp add: triple_list_def Let_def upt_rec numeral_3_eq_3 numeral_2_eq_2)

lemma fold_triple_list:
  "distinct cores \<Longrightarrow>
   lk_reqs (fold triple_list cores st) core =
     (if core \<in> set cores then concat (replicate 3 (lk_reqs st core)) else lk_reqs st core) \<and>
   trace_size (fold triple_list cores st) = trace_size st"
proof (induction cores arbitrary: st)
  case (Cons c cores)
  have t: "trace_size (triple_list c st) = trace_size st" by (simp add: triple_list_def Let_def upt_rec numeral_2_eq_2)
  show ?case using Cons t by (auto simp: triple_list_eq)
qed simp

lemma executed_three: "executed (concat (replicate 3 xs)) = repeat_mset 3 (executed xs)"
  by (simp add: executed_def numeral_3_eq_3)

lemma sum_repeat: "(\<Sum>x \<leftarrow> xs. repeat_mset n (f x)) = repeat_mset n (\<Sum>x \<leftarrow> xs. f x)"
  by (induction xs) simp_all

lemma executed_parts:
  assumes "0 < n"
  shows "(\<Sum>t \<leftarrow> [0..<n]. executed (map f (filter (\<lambda>k. k mod n = t) [0..<len]))) = executed (map f [0..<len])"
proof -
  have e: "executed (map f ks) = image_mset (micro_release \<circ> f) (filter_mset (\<lambda>k. mr_action (f k) = 0) (mset ks))" for ks
    by (simp add: executed_def filter_map comp_def)
  have "(\<Sum>t \<leftarrow> [0..<n]. executed (map f (filter (\<lambda>k. k mod n = t) [0..<len]))) =
      (\<Sum>t \<leftarrow> [0..<n]. image_mset (micro_release \<circ> f) (filter_mset (\<lambda>k. mr_action (f k) = 0) (mset (positions n t len))))"
    unfolding e using mset_positions_filter by (intro arg_cong [of _ _ sum_list] map_cong) auto
  also have "\<dots> = image_mset (micro_release \<circ> f) (filter_mset (\<lambda>k. mr_action (f k) = 0) (mset [0..<len]))"
    unfolding sum_parts positions_partition [OF assms] ..
  finally show ?thesis unfolding e .
qed

text \<open>
  The micro benchmark executes its trace. Every line of the trace goes to one sending core,
  in turn, and each core's list is its part of the trace three times. Whatever the number of
  coroutines, they divide the list of their core among them: when they have run to their end,
  every acquire request of the trace has been released exactly three times, and nothing else
  has been released.
\<close>

theorem micro_trace_executed:
  assumes "mc_max_lock_num cf \<noteq> 0" and "0 < mc_tx_cores cf" and "mc_rx_cores cf + mc_tx_cores cf \<le> 12"
    and "\<forall>(mem, s) \<in> set ss. s \<noteq> [] \<and> is_digit 10 (hd s)" and "0 < n"
  shows "\<exists>st. micro_trace_for_lcores cf ss = Inr st \<and> trace_size st = length ss \<and>
           (\<forall>t < mc_tx_cores cf. lk_reqs st (mc_rx_cores cf + t) =
              concat (replicate 3 (map (\<lambda>k. micro_req cf (ss ! k))
                (filter (\<lambda>k. k mod mc_tx_cores cf = t) [0..<length ss])))) \<and>
           ((\<forall>t < mc_tx_cores cf. \<forall>c < n.
               lock_requesting think n (lk_reqs st (mc_rx_cores cf + t)) (ans t) c = Some (Inr (out t c))) \<longrightarrow>
            (\<Sum>t \<leftarrow> [0..<mc_tx_cores cf]. \<Sum>c \<leftarrow> [0..<n]. mset (filter is_release (out t c))) =
              repeat_mset 3 (executed (map (micro_req cf) ss)))"
proof -
  let ?rx = "mc_rx_cores cf" and ?tx = "mc_tx_cores cf"
  let ?part = "\<lambda>t. map (\<lambda>k. micro_req cf (ss ! k)) (filter (\<lambda>k. k mod ?tx = t) [0..<length ss])"
  obtain st where st: "micro_lines cf ss micro_start = Inr st" "trace_size st = length ss"
    "\<forall>core. lk_reqs st core = map (\<lambda>k. micro_req cf (ss ! k)) (filter (\<lambda>k. core = ?rx + k mod ?tx) [0..<length ss])"
    using micro_lines_lists [OF assms(1-4), of micro_start] assms(2) by (auto simp: micro_start_def)
  let ?st = "fold triple_list [?rx..<?rx + ?tx] st"
  have part: "lk_reqs st (?rx + t) = ?part t" for t
    using st(3) by (auto intro!: arg_cong [of _ _ "map _"] filter_cong)
  have l: "lk_reqs ?st (?rx + t) = concat (replicate 3 (?part t))" if "t < ?tx" for t
    using that fold_triple_list [of "[?rx..<?rx + ?tx]" st "?rx + t"] part by simp
  have "(\<Sum>t \<leftarrow> [0..<?tx]. \<Sum>c \<leftarrow> [0..<n]. mset (filter is_release (out t c))) = repeat_mset 3 (executed (map (micro_req cf) ss))"
    if outs: "\<forall>t < ?tx. \<forall>c < n. lock_requesting think n (lk_reqs ?st (?rx + t)) (ans t) c = Some (Inr (out t c))"
  proof -
    have x: "(\<Sum>c \<leftarrow> [0..<n]. mset (filter is_release (out t c))) = executed (concat (replicate 3 (?part t)))" if "t < ?tx" for t
    proof -
      have "\<forall>c < n. lock_requesting think n (lk_reqs ?st (?rx + t)) (ans t) c = Some (Inr (out t c))" using outs that by blast
      then have "(\<Sum>c \<leftarrow> [0..<n]. mset (filter is_release (out t c))) = executed (lk_reqs ?st (?rx + t))"
        by (intro core_executes_list [OF assms(5), of think _ "ans t"]) blast
      then show ?thesis unfolding l [OF that] .
    qed
    have "(\<Sum>t \<leftarrow> [0..<?tx]. \<Sum>c \<leftarrow> [0..<n]. mset (filter is_release (out t c))) =
        (\<Sum>t \<leftarrow> [0..<?tx]. executed (concat (replicate 3 (?part t))))"
      by (intro arg_cong [of _ _ sum_list] map_cong refl x) simp
    also have "\<dots> = (\<Sum>t \<leftarrow> [0..<?tx]. repeat_mset 3 (executed (?part t)))"
      by (simp only: executed_three)
    also have "\<dots> = repeat_mset 3 (\<Sum>t \<leftarrow> [0..<?tx]. executed (?part t))"
      by (rule sum_repeat)
    also have "\<dots> = repeat_mset 3 (executed (map (\<lambda>k. micro_req cf (ss ! k)) [0..<length ss]))"
      by (simp only: executed_parts [OF assms(2)])
    also have "map (\<lambda>k. micro_req cf (ss ! k)) [0..<length ss] = map (micro_req cf) ss"
      by (rule nth_equalityI) simp_all
    finally show ?thesis .
  qed
  then show ?thesis using st(1,2) l fold_triple_list [of "[?rx..<?rx + ?tx]" st]
    by (intro exI [of _ ?st]) (simp add: micro_trace_for_lcores_def)
qed

definition example_conf :: micro_conf where
  "example_conf = \<lparr>mc_max_lock_num = 4, mc_rx_cores = 6, mc_tx_cores = 2\<rparr>"

definition example_micro :: micro_request where
  "example_micro = \<lparr>mr_action = 0, mr_lock_type = 0, mr_client = 0, mr_txn = 0, mr_lock = 0\<rparr>"

definition example_lines :: "(micro_request \<times> string) list" where
  "example_lines = [(example_micro, ''7, 0, 1, 9, 2''), (example_micro, ''8, 0, 1, 5, 1'')]"

theorem micro_trace_executed_witness:
  "\<exists>st. micro_trace_for_lcores example_conf example_lines = Inr st \<and> trace_size st = 2 \<and>
     lk_reqs st 7 = concat (replicate 3 [micro_req example_conf (example_micro, ''8, 0, 1, 5, 1'')])"
proof -
  have c: "mc_max_lock_num example_conf = 4" "mc_rx_cores example_conf = 6" "mc_tx_cores example_conf = 2"
    by (simp_all add: example_conf_def)
  have d: "\<forall>(mem, s) \<in> set example_lines. s \<noteq> [] \<and> is_digit 10 (hd s)"
    by (simp add: example_lines_def is_digit_def digit_val_def)
  obtain st where st: "micro_trace_for_lcores example_conf example_lines = Inr st" "trace_size st = length example_lines"
    "\<forall>t < 2. lk_reqs st (6 + t) = concat (replicate 3 (map (\<lambda>k. micro_req example_conf (example_lines ! k))
                (filter (\<lambda>k. k mod 2 = t) [0..<length example_lines])))"
    using micro_trace_executed [OF _ _ _ d, of example_conf 1 False "\<lambda>_ _. None" "\<lambda>_ _. []"] unfolding c by auto
  from st(3) [rule_format, of 1] have "lk_reqs st 7 = concat (replicate 3 [micro_req example_conf (example_lines ! 1)])"
    by (simp add: example_lines_def upt_rec)
  then show ?thesis using st(1,2) by (simp add: example_lines_def)
qed

end
