(* ===== verification/Timer_Log.thy ===== *)
theory Timer_Log
  imports Statistics Number_Text
begin

text \<open>
  The log of \<open>report_timer\<close> as text, and the parser that computes latencies from it
  (experiments/results/timer_parser/main.cc). Numbers are printed and read as \<open>printf\<close> and
  \<open>sscanf\<close> do; of what \<open>sscanf\<close> accepts, a sign or a prefix \<open>0x\<close> before a hexadecimal number
  and a plus sign are left out, which the log never contains. Latencies stay in nanoseconds:
  the parser divides by 1000 for its output. Where it adds floating point numbers the model
  adds integers, which is the same below \<open>2 ^ 53\<close> nanoseconds.
\<close>

section \<open>Conversions\<close>

text \<open>\<open>%lx\<close> and \<open>%ld\<close>: white space is skipped, and a value that does not fit is the nearest that does.\<close>

definition scan_lx :: "string \<Rightarrow> (u64 \<times> string) option" where
  "scan_lx s = map_option (\<lambda>(n, r). (of_nat (min n (2 ^ 64 - 1)), r)) (scan_nat 16 (dropWhile is_space s))"

definition scan_ld :: "string \<Rightarrow> (int \<times> string) option" where
  "scan_ld s0 =
     (let s = dropWhile is_space s0 in
      if s \<noteq> [] \<and> hd s = CHR ''-''
      then map_option (\<lambda>(n, r). (max (- int n) (- (2 ^ 63)), r)) (scan_nat 10 (tl s))
      else map_option (\<lambda>(n, r). (min (int n) (2 ^ 63 - 1), r)) (scan_nat 10 s))"

definition is_lower :: "char \<Rightarrow> bool" where
  "is_lower c \<longleftrightarrow> (let n = of_char c :: nat in 97 \<le> n \<and> n \<le> 122)"

definition scan_lower :: "string \<Rightarrow> (string \<times> string) option" where
  "scan_lower s = (if takeWhile is_lower s = [] then None else Some (takeWhile is_lower s, dropWhile is_lower s))"

section \<open>Lines\<close>

definition show_hex :: "u64 \<Rightarrow> string" where
  "show_hex k = show_nat 16 (unat k)"

fun print_line :: "log_line \<Rightarrow> string" where
  "print_line (Lock_line k lat ty) = show_hex k @ '',0,'' @ show_int lat @ '','' @ ty"
| "print_line (Host_line k lat ty host core) =
     show_hex k @ '',0,'' @ show_int lat @ '','' @ ty @ '','' @ show_nat 10 host @ '','' @ show_nat 10 core"
| "print_line (From_line k from lat ty) =
     show_hex k @ '','' @ show_hex from @ '','' @ show_int lat @ '','' @ ty"
| "print_line (Txn_line txn ty lat kind) =
     show_nat 10 (unat txn) @ '','' @ show_nat 10 (unat ty) @ '','' @ show_int lat @ '','' @ kind"

text \<open>
  The variables of the parser: a conversion that fails leaves its variable, and those after
  it, as the line before left them.
\<close>

record scanned =
  sc_lktsk :: u64
  sc_from :: u64
  sc_lat :: int
  sc_type :: string

text \<open>Before the first line; only the label is initialised by the program, and an empty one is ignored.\<close>

definition no_scan :: scanned where
  "no_scan = \<lparr>sc_lktsk = 0, sc_from = 0, sc_lat = 0, sc_type = []\<rparr>"

definition scan_type :: "string \<Rightarrow> scanned \<Rightarrow> scanned" where
  "scan_type s v =
     (case comma s of None \<Rightarrow> v
      | Some s \<Rightarrow> (case scan_lower s of None \<Rightarrow> v | Some (ty, _) \<Rightarrow> v\<lparr>sc_type := ty\<rparr>))"

definition scan_lat :: "string \<Rightarrow> scanned \<Rightarrow> scanned" where
  "scan_lat s v =
     (case comma s of None \<Rightarrow> v
      | Some s \<Rightarrow> (case scan_ld s of None \<Rightarrow> v | Some (l, s) \<Rightarrow> scan_type s (v\<lparr>sc_lat := l\<rparr>)))"

definition scan_from :: "string \<Rightarrow> scanned \<Rightarrow> scanned" where
  "scan_from s v =
     (case comma s of None \<Rightarrow> v
      | Some s \<Rightarrow> (case scan_lx s of None \<Rightarrow> v | Some (f, s) \<Rightarrow> scan_lat s (v\<lparr>sc_from := f\<rparr>)))"

definition scan_line :: "string \<Rightarrow> scanned \<Rightarrow> scanned" where
  "scan_line s v = (case scan_lx s of None \<Rightarrow> v | Some (k, s) \<Rightarrow> scan_from s (v\<lparr>sc_lktsk := k\<rparr>))"

section \<open>Loading a log\<close>

text \<open>
  The maps of the parser. Reading a missing entry with \<open>[]\<close> inserts a zero, so a map is a
  function that is zero where nothing was stored; only \<open>atime\<close> is iterated over.
\<close>

record loaded =
  atime :: "(u64 \<times> u64) list"
  htime :: "u64 \<Rightarrow> u64"
  gwtime :: "u64 \<Rightarrow> u64"
  gntime :: "u64 \<Rightarrow> u64"
  gstime :: "u64 \<Rightarrow> u64"
  gltime :: "u64 \<Rightarrow> u64"
  getime :: "u64 \<Rightarrow> u64"
  rtime :: "u64 \<Rightarrow> u64"
  rltime :: "u64 \<Rightarrow> u64"
  sctime :: "u64 \<Rightarrow> u64"
  btime :: "u64 \<Rightarrow> u64"
  scheduled_from :: "u64 \<Rightarrow> u64"

definition nothing_loaded :: loaded where
  "nothing_loaded =
     \<lparr>atime = [], htime = (\<lambda>_. 0), gwtime = (\<lambda>_. 0), gntime = (\<lambda>_. 0), gstime = (\<lambda>_. 0), gltime = (\<lambda>_. 0),
      getime = (\<lambda>_. 0), rtime = (\<lambda>_. 0), rltime = (\<lambda>_. 0), sctime = (\<lambda>_. 0), btime = (\<lambda>_. 0),
      scheduled_from = (\<lambda>_. 0)\<rparr>"

text \<open>The character of a C string at a position, the terminator included.\<close>

definition char_at :: "nat \<Rightarrow> string \<Rightarrow> char" where
  "char_at n s = (if n < length s then s ! n else CHR 0x00)"

definition load_scanned :: "scanned \<Rightarrow> loaded \<Rightarrow> fl_error + loaded" where
  "load_scanned v t =
     (let k = sc_lktsk v; lat = word_of_int (sc_lat v); c0 = char_at 0 (sc_type v); c1 = char_at 1 (sc_type v) in
      if c0 = CHR ''r'' then
        (if c1 = CHR ''l'' then Inr (t\<lparr>rltime := (rltime t)(k := lat)\<rparr>) else Inr (t\<lparr>rtime := (rtime t)(k := lat)\<rparr>))
      else if c0 = CHR ''s'' then
        Inr (t\<lparr>sctime := (sctime t)(k := lat), scheduled_from := (scheduled_from t)(k := sc_from v)\<rparr>)
      else if c0 = CHR ''b'' then Inr (t\<lparr>btime := (btime t)(k := lat)\<rparr>)
      else if c0 = CHR ''a'' then Inr (t\<lparr>atime := store k lat (atime t)\<rparr>)
      else if c0 = CHR ''h'' then Inr (t\<lparr>htime := (htime t)(k := lat)\<rparr>)
      else if c0 = CHR ''g'' then
        (if c1 = CHR ''w'' then Inr (t\<lparr>gwtime := (gwtime t)(k := lat)\<rparr>)
         else if c1 = CHR ''n'' then Inr (t\<lparr>gntime := (gntime t)(k := lat)\<rparr>)
         else if c1 = CHR ''l'' then Inr (t\<lparr>gltime := (gltime t)(k := lat)\<rparr>)
         else if c1 = CHR ''e'' then Inr (t\<lparr>getime := (getime t)(k := lat)\<rparr>)
         else if c1 = CHR ''s'' then Inr (t\<lparr>gstime := (gstime t)(k := lat)\<rparr>)
         else Inl Assertion_failed)
      else Inr t)"

fun load_lines :: "string list \<Rightarrow> scanned \<Rightarrow> loaded \<Rightarrow> fl_error + loaded" where
  "load_lines [] v t = Inr t"
| "load_lines (s # ss) v t =
     (let v = scan_line s v in (case load_scanned v t of Inl e \<Rightarrow> Inl e | Inr t \<Rightarrow> load_lines ss v t))"

section \<open>Latencies\<close>

record parser_out =
  out_grant :: "u64 list"
  out_wait :: "u64 list"
  switch_direct_grant_counter :: nat
  server_direct_grant_counter :: nat
  switch_competitive_counter :: nat
  server_competitive_counter :: nat
  switch_direct_grant_lock :: "u32 list"

definition no_output :: parser_out where
  "no_output =
     \<lparr>out_grant = [], out_wait = [], switch_direct_grant_counter = 0, server_direct_grant_counter = 0,
      switch_competitive_counter = 0, server_competitive_counter = 0, switch_direct_grant_lock = []\<rparr>"

definition RTT :: u64 where "RTT = 4000"

definition latency_out :: "u64 \<Rightarrow> u64 \<Rightarrow> parser_out \<Rightarrow> parser_out" where
  "latency_out g w out = out\<lparr>out_grant := out_grant out @ [g], out_wait := out_wait out @ [w]\<rparr>"

definition check :: "bool \<Rightarrow> fl_error + 'a \<Rightarrow> fl_error + 'a" where
  "check b r = (if b then r else Inl Assertion_failed)"

definition acquire_fisslock :: "loaded \<Rightarrow> u64 \<Rightarrow> parser_out \<Rightarrow> fl_error + parser_out" where
  "acquire_fisslock t k out =
     (if sctime t k \<noteq> 0 then
        (let from = scheduled_from t k in
         check (from \<noteq> 0) (check (rtime t k \<noteq> 0 \<or> rltime t k \<noteq> 0)
           (let g = (if gwtime t k \<noteq> 0 then gwtime t k else if gntime t k \<noteq> 0 then gntime t k else gltime t k);
                g = g + (if rtime t from \<noteq> 0 then rtime t from + RTT + sctime t k
                         else rltime t from + RTT div 2 + sctime t k)
            in Inr (latency_out g (getime t k - g) out))))
      else Inr (latency_out (getime t k) 0 out))"

definition acquire_netlock :: "loaded \<Rightarrow> u64 \<Rightarrow> parser_out \<Rightarrow> fl_error + parser_out" where
  "acquire_netlock t k out =
     (if sctime t k \<noteq> 0 then
        (let out = out\<lparr>server_competitive_counter := server_competitive_counter out + 1\<rparr>; from = scheduled_from t k in
         check (gntime t k \<noteq> 0 \<and> from \<noteq> 0 \<and> rtime t from \<noteq> 0)
           (let g = rtime t from + RTT + sctime t k + gntime t k in Inr (latency_out g (getime t k - g) out)))
      else if htime t k \<noteq> 0 then
        Inr (latency_out (getime t k) 0 (out\<lparr>server_direct_grant_counter := server_direct_grant_counter out + 1\<rparr>))
      else if gstime t k \<noteq> 0 then
        Inr (latency_out (getime t k) 0
          (out\<lparr>switch_direct_grant_counter := switch_direct_grant_counter out + 1,
               switch_direct_grant_lock := switch_direct_grant_lock out @ [ucast (drop_bit 32 k)]\<rparr>))
      else
        (let g = (case map_of (atime t) k of Some a \<Rightarrow> a | None \<Rightarrow> 0) + RTT div 2 + gntime t k + btime t k in
         Inr (latency_out g (getime t k - g)
           (out\<lparr>switch_competitive_counter := switch_competitive_counter out + 1\<rparr>))))"

definition acquire_srvlock :: "loaded \<Rightarrow> u64 \<Rightarrow> parser_out \<Rightarrow> fl_error + parser_out" where
  "acquire_srvlock t k out =
     (if sctime t k \<noteq> 0 then
        (let from = scheduled_from t k in
         check (from \<noteq> 0 \<and> rtime t from \<noteq> 0)
           (let g = rtime t from + RTT + sctime t k + gntime t k in Inr (latency_out g (getime t k - g) out)))
      else Inr (latency_out (getime t k) 0 out))"

definition handle_an_acquire :: "string \<Rightarrow> loaded \<Rightarrow> u64 \<Rightarrow> parser_out \<Rightarrow> fl_error + parser_out" where
  "handle_an_acquire system t k out =
     check (getime t k \<noteq> 0)
       (if system = ''fisslock'' \<or> system = ''parlock'' then acquire_fisslock t k out
        else if system = ''netlock'' then acquire_netlock t k out
        else if system = ''srvlock'' then acquire_srvlock t k out
        else Inr out)"

fun worker :: "string \<Rightarrow> loaded \<Rightarrow> u64 list \<Rightarrow> parser_out \<Rightarrow> fl_error + parser_out" where
  "worker system t [] out = Inr out"
| "worker system t (k # ks) out =
     (case handle_an_acquire system t k out of Inl e \<Rightarrow> Inl e | Inr out \<Rightarrow> worker system t ks out)"

definition timer_parser :: "string \<Rightarrow> string list \<Rightarrow> fl_error + parser_out" where
  "timer_parser system text =
     (case load_lines text no_scan nothing_loaded of
        Inl e \<Rightarrow> Inl e
      | Inr t \<Rightarrow> worker system t (map fst (atime t)) no_output)"

section \<open>Numbers are read as they were printed\<close>

lemma scan_lx_hex: "scan_lx (show_hex k @ CHR '','' # r) = Some (k, CHR '','' # r)"
proof -
  have "unat k < 2 ^ 64" using unsigned_less [of k, where 'a = nat] by simp
  then have "unat k \<le> 2 ^ 64 - 1" by simp
  then show ?thesis
    by (simp add: scan_lx_def show_hex_def drop_space_show scan_nat_show comma_not_digit min_absorb1)
qed

lemma scan_lx_zero: "scan_lx (CHR ''0'' # CHR '','' # r) = Some (0, CHR '','' # r)"
proof -
  have "show_hex 0 = ''0''" by code_simp
  with scan_lx_hex [of 0 r] show ?thesis by simp
qed

text \<open>A decimal number is read as a hexadecimal one, up to the comma.\<close>

lemma scan_lx_decimal: "\<exists>k. scan_lx (show_nat 10 n @ CHR '','' # r) = Some (k, CHR '','' # r)"
proof -
  have d: "\<forall>c \<in> set (show_nat 10 n). is_digit 16 c" "show_nat 10 n \<noteq> []"
    using show_nat_digits [of 10 n] by (auto simp: list_all_iff intro: digit_10_16)
  then show ?thesis by (simp add: scan_lx_def drop_space_show scan_nat_def comma_not_digit)
qed

definition int64 :: "int \<Rightarrow> bool" where
  "int64 i \<longleftrightarrow> - (2 ^ 63) \<le> i \<and> i < 2 ^ 63"

lemma scan_ld_int:
  assumes "int64 i"
  shows "scan_ld (show_int i @ CHR '','' # r) = Some (i, CHR '','' # r)"
proof (cases "i < 0")
  case True
  have "\<not> is_space CHR ''-''" by (simp add: is_space_def)
  with True assms show ?thesis
    by (simp add: scan_ld_def show_int_def scan_nat_show comma_not_digit int64_def max_absorb1)
next
  case False
  obtain c s where cs: "show_nat 10 (nat i) = c # s" "is_digit 10 c"
    by (rule show_nat_Cons [of 10 "nat i"]) auto
  moreover have "\<not> is_digit 10 CHR ''-''" by (simp add: is_digit_def digit_val_def)
  ultimately have "c \<noteq> CHR ''-''" by auto
  moreover have "scan_nat 10 (show_nat 10 (nat i) @ CHR '','' # r) = Some (nat i, CHR '','' # r)"
    by (simp add: scan_nat_show comma_not_digit)
  moreover have "dropWhile is_space (show_nat 10 (nat i) @ CHR '','' # r) = show_nat 10 (nat i) @ CHR '','' # r"
    by (simp add: drop_space_show)
  ultimately show ?thesis using False assms
    by (simp add: scan_ld_def show_int_def cs int64_def min_absorb1)
qed

lemma scan_lower_word:
  assumes "list_all is_lower ty" "ty \<noteq> []" "r = [] \<or> \<not> is_lower (hd r)"
  shows "scan_lower (ty @ r) = Some (ty, r)"
proof -
  have "takeWhile is_lower r = []" "dropWhile is_lower r = r" using assms(3) by (cases r; auto)+
  with assms show ?thesis by (simp add: scan_lower_def list_all_iff)
qed

lemma comma_not_lower: "\<not> is_lower CHR '',''"
  by (simp add: is_lower_def)

lemmas scan_defs = scan_line_def scan_from_def scan_lat_def scan_type_def

text \<open>What a line says: the fields that the parser reads.\<close>

fun line_type :: "log_line \<Rightarrow> string" where
  "line_type (Lock_line k lat ty) = ty"
| "line_type (Host_line k lat ty host core) = ty"
| "line_type (From_line k from lat ty) = ty"
| "line_type (Txn_line txn ty lat kind) = kind"

fun line_lat :: "log_line \<Rightarrow> int" where
  "line_lat (Lock_line k lat ty) = lat"
| "line_lat (Host_line k lat ty host core) = lat"
| "line_lat (From_line k from lat ty) = lat"
| "line_lat (Txn_line txn ty lat kind) = lat"

fun line_keys :: "log_line \<Rightarrow> (u64 \<times> u64) option" where
  "line_keys (Lock_line k lat ty) = Some (k, 0)"
| "line_keys (Host_line k lat ty host core) = Some (k, 0)"
| "line_keys (From_line k from lat ty) = Some (k, from)"
| "line_keys (Txn_line txn ty lat kind) = None"

definition printable :: "log_line \<Rightarrow> bool" where
  "printable l \<longleftrightarrow> list_all is_lower (line_type l) \<and> line_type l \<noteq> [] \<and> int64 (line_lat l)"

lemma scan_printed:
  assumes "list_all is_lower (line_type l)" "line_type l \<noteq> []" "int64 (line_lat l)" "line_keys l = Some (k, from)"
  shows "scan_line (print_line l) v = \<lparr>sc_lktsk = k, sc_from = from, sc_lat = line_lat l, sc_type = line_type l\<rparr>"
proof -
  have "scan_lower (line_type l @ r) = Some (line_type l, r)" if "r = [] \<or> r = CHR '','' # r'" for r r'
    using that assms(1,2) by (intro scan_lower_word) (auto simp: comma_not_lower)
  from this [of "[]"] this have low: "scan_lower (line_type l) = Some (line_type l, [])"
    "\<And>r. scan_lower (line_type l @ CHR '','' # r) = Some (line_type l, CHR '','' # r)" by auto
  from assms(3,4) low show ?thesis
    by (cases l) (auto simp: scan_defs scan_lx_hex scan_lx_zero scan_ld_int)
qed

text \<open>
  The parser reads from a line what the report printed, whatever the line before was: the
  key in hexadecimal, the key the lock comes from, the signed latency and the label, also
  when the host and the core follow the label.
\<close>

theorem log_line_roundtrip:
  assumes "list_all is_lower (line_type l)" "line_type l \<noteq> []" "int64 (line_lat l)" "line_keys l = Some (k, from)"
  shows "scan_line (print_line l) v = \<lparr>sc_lktsk = k, sc_from = from, sc_lat = line_lat l, sc_type = line_type l\<rparr>"
  using assms by (rule scan_printed)

theorem log_line_roundtrip_witness:
  "scan_line (print_line (From_line 0x50000000A 0x500000007 (- 12) ''s'')) no_scan =
     \<lparr>sc_lktsk = 0x50000000A, sc_from = 0x500000007, sc_lat = - 12, sc_type = ''s''\<rparr>"
  using log_line_roundtrip [of "From_line 0x50000000A 0x500000007 (- 12) ''s''"]
  by (simp add: is_lower_def int64_def)

section \<open>The parser splits every latency\<close>








lemma worker_fails:
  "k \<in> set ks \<Longrightarrow> getime t k = 0 \<Longrightarrow> \<exists>e. worker system t ks out = Inl e"
proof (induction ks arbitrary: out)
  case (Cons x ks)
  then show ?case by (cases "handle_an_acquire system t x out") (auto simp: handle_an_acquire_def check_def)
qed simp

section \<open>A report as the parser sees it\<close>

definition report_label :: "string \<Rightarrow> bool" where
  "report_label ty \<longleftrightarrow> ty \<in> {''a'', ''gl'', ''gw'', ''gn'', ''gs'', ''ge'', ''r'', ''rl'', ''s'', ''h'', ''t'', ''et''}"

definition report_line :: "log_line \<Rightarrow> bool" where
  "report_line l \<longleftrightarrow> report_label (line_type l) \<and> int64 (line_lat l) \<and>
     (line_keys l = None \<longrightarrow> line_type l \<in> {''t'', ''et''})"

lemma int64_latency: "int64 (latency a b)"
  using signed_take_bit_int_greater_eq_minus_exp [of 63 "b - a"] signed_take_bit_int_less_exp [of 63 "b - a"]
  by (simp add: int64_def latency_def)

lemma int64_sint: "int64 (sint (w :: u64))"
  using sint_greater_eq [of w] sint_less [of w] by (simp add: int64_def)

lemma report_label_lower: "report_label ty \<Longrightarrow> list_all is_lower ty \<and> ty \<noteq> []"
  by (auto simp: report_label_def is_lower_def)

lemma grant_stamp_label: "grant_stamp s k = Some (g, label) \<Longrightarrow> label \<in> {''gl'', ''gw'', ''gn'', ''gs''}"
  by (auto simp: grant_stamp_def split: option.splits)

lemma grant_stamp_other_label [simp]: "grant_stamp s k \<noteq> Some (g, ''a'')" "grant_stamp s k \<noteq> Some (g, ''ge'')"
  using grant_stamp_label by fastforce+

lemma gather_lines:
  assumes "gather f xs = Inr ls" "\<And>x l. f x = Inr l \<Longrightarrow> list_all P l"
  shows "list_all P ls"
  using assms by (induction xs arbitrary: ls) (auto split: sum.splits)

lemma acquire_lines_report:
  "acquire_lines s x = Inr l \<Longrightarrow> list_all report_line l"
  by (auto simp: acquire_lines_def grant_lines_def release_lines_def report_line_def report_label_def int64_latency
      split: option.splits sum.splits prod.splits dest: grant_stamp_label)

lemma report_lines:
  assumes "report_timer me s = Inr ls"
  shows "list_all report_line ls"
proof -
  have h: "list_all report_line (handle_lines me m)" for m
    by (auto simp: handle_lines_def list_all_iff report_line_def report_label_def int64_latency split: option.splits)
  have sc: "list_all report_line l" if "schedule_lines m x = Inr l" for m x l
    using that by (auto simp: schedule_lines_def Let_def report_line_def report_label_def int64_latency
        split: prod.splits option.splits)
  have t: "list_all report_line l" if "txn_lines m x = Inr l" for m x l
    using that by (auto simp: txn_lines_def Let_def report_line_def report_label_def int64_sint
        split: prod.splits option.splits)
  from assms show ?thesis
    by (auto simp: report_timer_def Let_def h split: sum.splits
        elim!: gather_lines intro: acquire_lines_report sc t)
qed

lemma scan_keyed_line:
  assumes "report_line l" "line_keys l = Some (k, from)"
  shows "scan_line (print_line l) v = \<lparr>sc_lktsk = k, sc_from = from, sc_lat = line_lat l, sc_type = line_type l\<rparr>"
  using assms report_label_lower [of "line_type l"] by (intro scan_printed) (auto simp: report_line_def)

lemma scan_txn_line:
  assumes "report_line l" "line_keys l = None"
  shows "sc_type (scan_line (print_line l) v) = line_type l"
proof -
  obtain txn ty lat kind where l: "l = Txn_line txn ty lat kind" using assms(2) by (cases l) auto
  have ok: "list_all is_lower kind" "kind \<noteq> []" "int64 lat"
    using assms(1) report_label_lower [of kind] by (auto simp: report_line_def l)
  have low: "scan_lower kind = Some (kind, [])" using scan_lower_word [of kind "[]"] ok by simp
  obtain k1 where "scan_lx (print_line l) =
      Some (k1, CHR '','' # show_nat 10 (unat ty) @ '','' @ show_int lat @ '','' @ kind)"
    using scan_lx_decimal [of "unat txn" "show_nat 10 (unat ty) @ '','' @ show_int lat @ '','' @ kind"] by (auto simp: l)
  moreover obtain k2 where "scan_lx (show_nat 10 (unat ty) @ '','' @ show_int lat @ '','' @ kind) =
      Some (k2, CHR '','' # show_int lat @ '','' @ kind)"
    using scan_lx_decimal [of "unat ty" "show_int lat @ '','' @ kind"] by auto
  ultimately show ?thesis using ok low scan_ld_int [of lat kind] by (simp add: scan_defs l del: print_line.simps)
qed

text \<open>What a line does to the two maps that decide over a request.\<close>

definition ge_upd :: "u64 \<Rightarrow> log_line \<Rightarrow> u64 \<Rightarrow> u64" where
  "ge_upd k l g =
     (case line_keys l of
        Some (k', _) \<Rightarrow> if k' = k \<and> line_type l = ''ge'' then word_of_int (line_lat l) else g
      | None \<Rightarrow> g)"

definition acq_key :: "log_line \<Rightarrow> u64 set" where
  "acq_key l = (case line_keys l of Some (k, _) \<Rightarrow> if line_type l = ''a'' then {k} else {} | None \<Rightarrow> {})"

lemma fst_set_store: "fst ` set (store k v m) = insert k (fst ` set m)"
proof -
  have "fst ` set (assign k v m) = fst ` set m" by (metis list.set_map map_fst_assign)
  moreover have "k \<in> fst ` set m" if "map_of m k \<noteq> None" using that by (simp add: map_of_eq_None_iff)
  ultimately show ?thesis by (auto simp: store_def)
qed

lemma load_step:
  assumes "report_line l"
  shows "\<exists>t'. load_scanned (scan_line (print_line l) v) t = Inr t' \<and>
    (\<forall>k. getime t' k = ge_upd k l (getime t k)) \<and> fst ` set (atime t') = fst ` set (atime t) \<union> acq_key l"
proof (cases "line_keys l")
  case None
  then have "line_type l \<in> {''t'', ''et''}" using assms by (simp add: report_line_def)
  then show ?thesis using scan_txn_line [OF assms None, of v] None
    by (auto simp: load_scanned_def Let_def char_at_def ge_upd_def acq_key_def)
next
  case (Some p)
  obtain k f where p: "p = (k, f)" by fastforce
  have "report_label (line_type l)" using assms by (simp add: report_line_def)
  moreover have "\<exists>t'. load_scanned (scan_line (print_line l) v) t = Inr t' \<and>
      (\<forall>k. getime t' k = ge_upd k l (getime t k)) \<and> fst ` set (atime t') = fst ` set (atime t) \<union> acq_key l"
    if "line_type l = ty" "ty \<in> {''a'', ''gl'', ''gw'', ''gn'', ''gs'', ''ge'', ''r'', ''rl'', ''s'', ''h'', ''t'', ''et''}" for ty
    using that Some unfolding p scan_keyed_line [OF assms Some [unfolded p]] insert_iff empty_iff
    by (elim disjE FalseE; simp add: load_scanned_def char_at_def ge_upd_def acq_key_def fst_set_store)
  ultimately show ?thesis by (simp add: report_label_def)
qed

lemma load_report:
  "list_all report_line ls \<Longrightarrow>
   \<exists>t'. load_lines (map print_line ls) v t = Inr t' \<and> (\<forall>k. getime t' k = fold (ge_upd k) ls (getime t k)) \<and>
     fst ` set (atime t') = fst ` set (atime t) \<union> (\<Union>l \<in> set ls. acq_key l)"
proof (induction ls arbitrary: v t)
  case (Cons l ls)
  then obtain t1 where t1: "load_scanned (scan_line (print_line l) v) t = Inr t1"
    "\<forall>k. getime t1 k = ge_upd k l (getime t k)" "fst ` set (atime t1) = fst ` set (atime t) \<union> acq_key l"
    using load_step [of l v t] by auto
  from Cons.IH [of "scan_line (print_line l) v" t1] Cons.prems obtain t2 where
    "load_lines (map print_line ls) (scan_line (print_line l) v) t1 = Inr t2"
    "\<forall>k. getime t2 k = fold (ge_upd k) ls (getime t1 k)"
    "fst ` set (atime t2) = fst ` set (atime t1) \<union> (\<Union>l \<in> set ls. acq_key l)" by auto
  with t1 show ?case by auto
qed simp

lemma load_scanned_keys: "load_scanned v t = Inr t' \<Longrightarrow> keys_once (atime t) \<Longrightarrow> keys_once (atime t')"
  by (auto simp: load_scanned_def Let_def split: if_splits)

lemma load_lines_keys: "load_lines ss v t = Inr t' \<Longrightarrow> keys_once (atime t) \<Longrightarrow> keys_once (atime t')"
proof (induction ss arbitrary: v t)
  case (Cons a ss)
  then obtain t1 where "load_scanned (scan_line a v) t = Inr t1" "load_lines ss (scan_line a v) t1 = Inr t'"
    by (auto simp: Let_def split: sum.splits)
  with Cons.IH Cons.prems(2) show ?case by (blast intro: load_scanned_keys)
qed simp

text \<open>The latency of a request as the time stamps have it, if it was granted.\<close>

definition grant_latency :: "stats \<Rightarrow> lktsk \<Rightarrow> time \<Rightarrow> int option" where
  "grant_latency s k at =
     (case stamp s T_grant_begin k of None \<Rightarrow> None
      | Some _ \<Rightarrow> map_option (\<lambda>(g, _). latency at g) (grant_stamp s k))"

definition as_u64 :: "int option \<Rightarrow> u64 \<Rightarrow> u64" where
  "as_u64 e g = (case e of None \<Rightarrow> g | Some i \<Rightarrow> word_of_int i)"

lemma acquire_lines_effect:
  assumes "acquire_lines s (k, at) = Inr l"
  shows "fold (ge_upd k') l g = (if k' = k then as_u64 (grant_latency s k at) g else g)"
    and "(\<Union>x \<in> set l. acq_key x) = {k}"
proof -
  from assms obtain a gs rs where l: "l = Lock_line k a ''a'' # gs @ rs" and gs: "grant_lines s (k, at) = Inr gs"
    and rs: "release_lines s k = Inr rs"
    by (auto simp: acquire_lines_def split: option.splits sum.splits)
  have r: "fold (ge_upd k') rs g' = g'" "(\<Union>x \<in> set rs. acq_key x) = {}" for g'
    using rs by (auto simp: release_lines_def ge_upd_def acq_key_def split: option.splits)
  have g: "fold (ge_upd k') gs g' = (if k' = k then as_u64 (grant_latency s k at) g' else g')"
    "(\<Union>x \<in> set gs. acq_key x) = {}" for g'
    using gs
    by (auto simp: grant_lines_def grant_latency_def ge_upd_def acq_key_def as_u64_def
        split: option.splits dest: grant_stamp_label)
  show "fold (ge_upd k') l g = (if k' = k then as_u64 (grant_latency s k at) g else g)"
    by (simp add: l r g ge_upd_def)
  show "(\<Union>x \<in> set l. acq_key x) = {k}" using r(2) g(2) by (auto simp: l acq_key_def)
qed

lemma gather_acquires:
  "gather (acquire_lines s) xs = Inr ls \<Longrightarrow> keys_once xs \<Longrightarrow>
   fold (ge_upd k) ls g = (case map_of xs k of None \<Rightarrow> g | Some at \<Rightarrow> as_u64 (grant_latency s k at) g) \<and>
   (\<Union>x \<in> set ls. acq_key x) = fst ` set xs"
proof (induction xs arbitrary: ls g)
  case (Cons x xs)
  obtain k1 at1 where x: "x = (k1, at1)" by fastforce
  from Cons.prems(1) obtain l ls' where l: "acquire_lines s x = Inr l" "gather (acquire_lines s) xs = Inr ls'"
    "ls = l @ ls'" by (auto split: sum.splits)
  have once: "keys_once xs" "map_of xs k1 = None" using Cons.prems(2) by (auto simp: keys_once_def x map_of_eq_None_iff)
  note e = acquire_lines_effect(1) [OF l(1) [unfolded x], of k] acquire_lines_effect(2) [OF l(1) [unfolded x]]
  note IH = Cons.IH [OF l(2) once(1)]
  from e IH once(2) show ?case by (auto simp: l(3) x)
qed simp

lemma other_lines_effect:
  assumes "list_all (\<lambda>l. line_type l \<noteq> ''ge'' \<and> line_type l \<noteq> ''a'') ls"
  shows "fold (ge_upd k) ls g = g" "(\<Union>x \<in> set ls. acq_key x) = {}"
proof -
  have "ge_upd k l g' = g'" "acq_key l = {}" if "l \<in> set ls" for l g'
    using that assms by (auto simp: list_all_iff ge_upd_def acq_key_def split: option.splits)
  then show "fold (ge_upd k) ls g = g" "(\<Union>x \<in> set ls. acq_key x) = {}"
    by (auto intro: fold_invariant [where Q = "\<lambda>l. l \<in> set ls" and P = "\<lambda>x. x = g"])
qed

lemma report_effect:
  assumes "report_timer me s0 = Inr ls" "stats_wf s0" "s = merge_timers s0"
  shows "fold (ge_upd k) ls 0 =
      (case map_of (timers s T_acquire 0) k of None \<Rightarrow> 0 | Some at \<Rightarrow> as_u64 (grant_latency s k at) 0)"
    and "(\<Union>x \<in> set ls. acq_key x) = fst ` set (timers s T_acquire 0)"
proof -
  let ?other = "list_all (\<lambda>l. line_type l \<noteq> ''ge'' \<and> line_type l \<noteq> ''a'')"
  obtain a sc t where p: "gather (acquire_lines s) (timers s T_acquire 0) = Inr a"
    "gather (schedule_lines s) (timers s T_schedule_end 0) = Inr sc"
    "gather (txn_lines s) (txn_begin_time s 0) = Inr t" and ls: "ls = handle_lines me s @ a @ sc @ t"
    using assms(1,3) by (auto simp: report_timer_def Let_def split: sum.splits)
  have h: "?other (handle_lines me s)" by (auto simp: handle_lines_def list_all_iff split: option.splits)
  have sc: "?other sc" using p(2)
    by (rule gather_lines) (auto simp: schedule_lines_def Let_def split: prod.splits option.splits)
  have t: "?other t" using p(3)
    by (rule gather_lines) (auto simp: txn_lines_def Let_def split: prod.splits option.splits)
  have once: "keys_once (timers s T_acquire 0)" unfolding assms(3) by (rule keys_once_merged [OF assms(2)])
  from gather_acquires [OF p(1) once, of k] other_lines_effect [OF h] other_lines_effect [OF sc] other_lines_effect [OF t]
  show "fold (ge_upd k) ls 0 =
      (case map_of (timers s T_acquire 0) k of None \<Rightarrow> 0 | Some at \<Rightarrow> as_u64 (grant_latency s k at) 0)"
    "(\<Union>x \<in> set ls. acq_key x) = fst ` set (timers s T_acquire 0)" by (simp_all add: ls)
qed

lemma report_loaded:
  assumes "report_timer me (stat_run cs) = Inr ls" "s = merge_timers (stat_run cs)"
  obtains t where "load_lines (map print_line ls) v nothing_loaded = Inr t" "keys_once (atime t)"
    "fst ` set (atime t) = fst ` set (timers s T_acquire 0)"
    "\<And>k. getime t k = (case map_of (timers s T_acquire 0) k of None \<Rightarrow> 0 | Some at \<Rightarrow> as_u64 (grant_latency s k at) 0)"
proof -
  from load_report [OF report_lines [OF assms(1)], of v nothing_loaded] obtain t where
    t: "load_lines (map print_line ls) v nothing_loaded = Inr t"
      "\<forall>k. getime t k = fold (ge_upd k) ls 0" "fst ` set (atime t) = (\<Union>l \<in> set ls. acq_key l)"
    by (auto simp: nothing_loaded_def)
  have "keys_once (atime t)" by (rule load_lines_keys [OF t(1)]) (simp add: nothing_loaded_def)
  with t report_effect [OF assms(1) stats_wf_run assms(2)] show thesis by (intro that) auto
qed


text \<open>
  One request that was not granted when the program stopped makes its whole log useless:
  the report succeeds and contains the request, but the parser takes the missing latency for
  a violated assertion.
\<close>

theorem ungranted_acquire_stops_parser:
  assumes "report_timer me (stat_run cs) = Inr ls" "s = merge_timers (stat_run cs)"
    and "map_of (timers s T_acquire 0) k = Some at" "stamp s T_grant_begin k = None"
  shows "\<exists>e. timer_parser system (map print_line ls) = Inl e"
proof -
  obtain t where t: "load_lines (map print_line ls) no_scan nothing_loaded = Inr t"
    "keys_once (atime t)" "fst ` set (atime t) = fst ` set (timers s T_acquire 0)"
    "\<And>k. getime t k = (case map_of (timers s T_acquire 0) k of None \<Rightarrow> 0 | Some at \<Rightarrow> as_u64 (grant_latency s k at) 0)"
    using report_loaded [where v = no_scan, OF assms(1,2)] by blast
  have "k \<in> set (map fst (atime t))" using t(3) map_of_SomeD [OF assms(3)] by force
  moreover have "getime t k = 0" using t(4) [of k] assms(3,4) by (simp add: grant_latency_def as_u64_def)
  ultimately show ?thesis using worker_fails t(1) by (simp add: timer_parser_def)
qed

section \<open>Example logs\<close>

text \<open>A request that the switch grants, and one that waits when the program stops.\<close>

definition granted_run :: "stat_call list" where
  "granted_run =
     [Timer T_acquire 3 100 5 7, Timer T_acquire_sent 3 130 5 7,
      Timer T_grant_begin 1 900 5 7, Timer T_grant_wo_agent 1 950 5 7]"

definition waiting_run :: "stat_call list" where
  "waiting_run = granted_run @ [Timer T_acquire 4 200 5 8, Timer T_acquire_sent 4 220 5 8]"


lemma waiting_report:
  "report_timer 2 (stat_run waiting_run) =
     Inr [Lock_line 0x500000007 30 ''a'', Lock_line 0x500000007 50 ''gn'', Lock_line 0x500000007 850 ''ge'',
          Lock_line 0x500000008 20 ''a'']"
  by code_simp



theorem ungranted_acquire_stops_parser_witness:
  "\<exists>e. timer_parser ''fisslock'' (map print_line
     [Lock_line 0x500000007 30 ''a'', Lock_line 0x500000007 50 ''gn'', Lock_line 0x500000007 850 ''ge'',
      Lock_line 0x500000008 20 ''a'']) = Inl e"
proof (rule ungranted_acquire_stops_parser [OF waiting_report refl])
  show "map_of (timers (merge_timers (stat_run waiting_run)) T_acquire 0) 0x500000008 = Some 200" by code_simp
  show "stamp (merge_timers (stat_run waiting_run)) T_grant_begin 0x500000008 = None" by code_simp
qed

end
