(* ===== verification/Stat_Counters.thy ===== *)
theory Stat_Counters
  imports Statistics Number_Text "HOL-Library.Multiset"
begin

text \<open>
  The event counters of the statistics module (utils/statistics.cc), which every component
  counts its packets and requests with, their report, the throughput records of the
  coroutines and the profiler. The report that divides floating point numbers is left out.
\<close>

section \<open>Counters\<close>

datatype counter =
    fwd_back | grant | grant_with_agent | grant_wo_agent | grant_local | rx | tx
  | client_acquire | client_acquire_local | client_acquire_remote
  | client_release | client_release_local | client_release_remote | client_abort
  | server_acquire | server_grant | server_release | switch_direct_grant
  | primary | secondary | primary_acquire | primary_release | primary_grant
  | secondary_acquire | secondary_push_back | secondary_release

fun counter_label :: "counter \<Rightarrow> string" where
  "counter_label fwd_back = ''fwd_back''"
| "counter_label grant = ''grant''"
| "counter_label grant_with_agent = ''grant_with_agent''"
| "counter_label grant_wo_agent = ''grant_wo_agent''"
| "counter_label grant_local = ''grant_local''"
| "counter_label rx = ''rx''"
| "counter_label tx = ''tx''"
| "counter_label client_acquire = ''client_acquire''"
| "counter_label client_acquire_local = ''client_acquire_local''"
| "counter_label client_acquire_remote = ''client_acquire_remote''"
| "counter_label client_release = ''client_release''"
| "counter_label client_release_local = ''client_release_local''"
| "counter_label client_release_remote = ''client_release_remote''"
| "counter_label client_abort = ''client_abort''"
| "counter_label server_acquire = ''server_acquire''"
| "counter_label server_grant = ''server_grant''"
| "counter_label server_release = ''server_release''"
| "counter_label switch_direct_grant = ''switch_direct_grant''"
| "counter_label primary = ''primary''"
| "counter_label secondary = ''secondary''"
| "counter_label primary_acquire = ''primary_acquire''"
| "counter_label primary_release = ''primary_release''"
| "counter_label primary_grant = ''primary_grant''"
| "counter_label secondary_acquire = ''secondary_acquire''"
| "counter_label secondary_push_back = ''secondary_push_back''"
| "counter_label secondary_release = ''secondary_release''"

text \<open>The counters that the report prints, in its order.\<close>

definition reported_counters :: "counter list" where
  "reported_counters =
     [fwd_back, grant, grant_with_agent, grant_wo_agent, grant_local, rx, tx,
      client_acquire, client_acquire_local, client_acquire_remote,
      client_release, client_release_local, client_release_remote, client_abort,
      server_acquire, server_grant, server_release, switch_direct_grant,
      primary, secondary, primary_acquire, primary_release, primary_grant,
      secondary_acquire, secondary_push_back, secondary_release]"

type_synonym counters = "counter \<Rightarrow> nat \<Rightarrow> u32"

text \<open>The calls that change a counter; every core has its own number.\<close>

datatype count_call =
    Count counter nat
  | Multi_count counter nat int
  | Count_or_abort counter nat u64

text \<open>Above the limit \<open>count_or_abort\<close> sleeps, and counts all the same: whether it has slept, and the counters.\<close>

definition count_or_abort :: "nat \<Rightarrow> u64 \<Rightarrow> (nat \<Rightarrow> u32) \<Rightarrow> bool \<times> (nat \<Rightarrow> u32)" where
  "count_or_abort core cnt c = (cnt \<le> ucast (c core), count_inc core c)"

fun count_apply :: "count_call \<Rightarrow> counters \<Rightarrow> counters" where
  "count_apply (Count n core) cs = cs(n := count_inc core (cs n))"
| "count_apply (Multi_count n core k) cs = cs(n := multi_count core k (cs n))"
| "count_apply (Count_or_abort n core cnt) cs = cs(n := snd (count_or_abort core cnt (cs n)))"

text \<open>The numbers are printed with \<open>%d\<close>, as signed numbers.\<close>

definition counter_report :: "nat \<Rightarrow> counter \<Rightarrow> (nat \<Rightarrow> u32) \<Rightarrow> string list" where
  "counter_report me n c =
     map (\<lambda>core. ''[host '' @ show_nat 10 me @ ''] core '' @ show_nat 10 core @ '' '' @ counter_label n @ '' count: ''
            @ show_int (sint (c core))) [0..<DPDK_LCORE_NUM]
     @ [''[host '' @ show_nat 10 me @ ''] '' @ counter_label n @ '' total count: '' @ show_int (sint (counter_total c))]"

definition report_counters :: "nat \<Rightarrow> counters \<Rightarrow> string list" where
  "report_counters me cs = concat (map (\<lambda>n. counter_report me n (cs n)) reported_counters)"

section \<open>Throughput records and profilers\<close>

record thpt_info =
  txn_cnt :: u64
  request_cnt :: u64
  nano_duration :: int

text \<open>\<open>emplace\<close>: a second record for a coroutine of a core is dropped.\<close>

definition txn_thpt_record ::
  "nat \<Rightarrow> u32 \<Rightarrow> u64 \<Rightarrow> u64 \<Rightarrow> int \<Rightarrow> (nat \<Rightarrow> u32 \<rightharpoonup> thpt_info) \<Rightarrow> nat \<Rightarrow> u32 \<rightharpoonup> thpt_info" where
  "txn_thpt_record core c_id txns requests nanos m =
     m(core := map_insert (m core) c_id \<lparr>txn_cnt = txns, request_cnt = requests, nano_duration = nanos\<rparr>)"

text \<open>A profiler: the time stamp of its last start, and the durations.\<close>

record profiler =
  prof_timestamp :: time
  prof_duration :: "u64 list"

definition profile_start :: "time \<Rightarrow> profiler \<Rightarrow> profiler" where
  "profile_start now p = p\<lparr>prof_timestamp := now\<rparr>"

definition profile_end :: "time \<Rightarrow> profiler \<Rightarrow> u64 \<times> profiler" where
  "profile_end now p =
     (let lat = of_int (latency (prof_timestamp p) now) in (lat, p\<lparr>prof_duration := prof_duration p @ [lat]\<rparr>))"

section \<open>The report counts every event\<close>

lemma every_counter_reported: "distinct reported_counters \<and> set reported_counters = UNIV"
proof
  show "distinct reported_counters" by (simp add: reported_counters_def)
  have "n \<in> set reported_counters" for n by (cases n) (simp_all add: reported_counters_def)
  then show "set reported_counters = UNIV" by auto
qed

text \<open>What a call adds to a counter.\<close>

fun added :: "counter \<Rightarrow> count_call \<Rightarrow> int" where
  "added n (Count m core) = (if m = n then 1 else 0)"
| "added n (Multi_count m core k) = (if m = n then k else 0)"
| "added n (Count_or_abort m core cnt) = (if m = n then 1 else 0)"

fun call_core :: "count_call \<Rightarrow> nat" where
  "call_core (Count m core) = core"
| "call_core (Multi_count m core k) = core"
| "call_core (Count_or_abort m core cnt) = core"

lemma counter_total_sum: "counter_total c = (\<Sum>core \<leftarrow> [0..<DPDK_LCORE_NUM]. c core)"
proof -
  have "fold (\<lambda>core ct. ct + c core) cores a = a + (\<Sum>core \<leftarrow> cores. c core)" for cores a
    by (induction cores arbitrary: a) (simp_all add: add.assoc)
  then show ?thesis by (simp add: counter_total_def)
qed

lemma sum_list_upd:
  fixes f :: "nat \<Rightarrow> u32"
  shows "k < n \<Longrightarrow> sum_list (map (f(k := f k + a)) [0..<n]) = sum_list (map f [0..<n]) + a"
proof (induction n)
  case (Suc n)
  have "map (f(n := f n + a)) [0..<n] = map f [0..<n]" by simp
  then show ?case using Suc by (cases "k = n") (simp_all add: ac_simps del: fun_upd_apply, simp_all)
qed simp

lemma counter_total_upd:
  "core < DPDK_LCORE_NUM \<Longrightarrow> counter_total (c(core := c core + a)) = counter_total c + a"
  by (simp only: counter_total_sum sum_list_upd)

lemma counter_total_apply:
  assumes "call_core call < DPDK_LCORE_NUM"
  shows "counter_total (count_apply call cs n) = counter_total (cs n) + of_int (added n call)"
  using assms
  by (cases call) (simp_all add: counter_total_upd count_inc_def multi_count_def count_or_abort_def)

lemma mset_concat_map: "mset (concat (map f xs)) = (\<Sum>x \<leftarrow> xs. mset (f x))"
  by (induction xs) simp_all

text \<open>
  The report of the counters is complete and right, up to the width of the numbers: every
  counter is printed exactly once, and the total that is printed is the sum of everything that
  was counted on all cores, as a signed number of 32 bits. From 2 to the power of 31 on the
  printed total is negative.
\<close>

theorem counters_reported:
  assumes "\<forall>call \<in> set calls. call_core call < DPDK_LCORE_NUM"
  shows "counter_total (fold count_apply calls (\<lambda>_ _. 0) n) = of_int (\<Sum>call \<leftarrow> calls. added n call) \<and>
         mset (report_counters me cs) = (\<Sum>n \<in> UNIV. mset (counter_report me n (cs n))) \<and>
         last (counter_report me n (fold count_apply calls (\<lambda>_ _. 0) n)) =
           ''[host '' @ show_nat 10 me @ ''] '' @ counter_label n @ '' total count: '' @
           show_int (sint (of_int (\<Sum>call \<leftarrow> calls. added n call) :: u32))"
proof -
  have "counter_total (fold count_apply calls cs n) = counter_total (cs n) + of_int (\<Sum>call \<leftarrow> calls. added n call)" for cs
    using assms by (induction calls arbitrary: cs) (simp_all add: counter_total_apply add.assoc)
  then have t: "counter_total (fold count_apply calls (\<lambda>_ _. 0) n) = of_int (\<Sum>call \<leftarrow> calls. added n call)"
    by (simp add: counter_total_sum sum_list_triv)
  have "mset (report_counters me cs) = (\<Sum>n \<leftarrow> reported_counters. mset (counter_report me n (cs n)))"
    unfolding report_counters_def by (rule mset_concat_map)
  also have "\<dots> = (\<Sum>n \<in> UNIV. mset (counter_report me n (cs n)))"
    using every_counter_reported by (metis sum_list_distinct_conv_sum_set)
  finally show ?thesis using t by (simp add: counter_report_def)
qed

theorem counters_reported_witness:
  "counter_total (fold count_apply [Count rx 0, Multi_count rx 3 5, Count tx 0] (\<lambda>_ _. 0) rx) = 6"
  using counters_reported [of "[Count rx 0, Multi_count rx 3 5, Count tx 0]" rx] by (simp add: DPDK_LCORE_NUM_def)

end
