(* ===== verification/Random_Gen.thy ===== *)
theory Random_Gen
  imports Fiss_Prelude
begin

text \<open>
  The random number generator for workloads (utils/random.h): a linear congruential generator
  with 48 bits of state, and the uniform numbers drawn from it. The distributions that compute
  with floating point numbers are left out.
\<close>

section \<open>The generator\<close>

record random_gen =
  rg_seed :: u64
  rg_start :: int
  rg_end :: int
  rg_items :: int

definition seed_mask :: u64 where
  "seed_mask = push_bit 48 1 - 1"

definition set_seed0 :: "u64 \<Rightarrow> u64" where
  "set_seed0 seed = (seed XOR 0x5DEECE66D) AND seed_mask"

text \<open>The constructor sets the number of items only; start and end keep their initial value.\<close>

definition random_new :: "u64 \<Rightarrow> int \<Rightarrow> int \<Rightarrow> random_gen" where
  "random_new seed start end = \<lparr>rg_seed = set_seed0 seed, rg_start = 0, rg_end = 0, rg_items = end - start + 1\<rparr>"

definition random_next :: "nat \<Rightarrow> random_gen \<Rightarrow> u64 \<times> random_gen" where
  "random_next bits g =
     (let s = (rg_seed g * 0x5DEECE66D + 0xB) AND seed_mask
      in (drop_bit (48 - bits) s, g\<lparr>rg_seed := s\<rparr>))"

text \<open>C++ leaves the order of the two calls open; here the first operand of the sum is evaluated first.\<close>

definition next_uniform_long :: "random_gen \<Rightarrow> u64 \<times> random_gen" where
  "next_uniform_long g =
     (let (a, g) = random_next 32 g; (b, g) = random_next 32 g in (push_bit 32 a + b, g))"

text \<open>The remainder is taken of unsigned numbers; the sum is cut to 32 bits with a sign.\<close>

definition next_uniform :: "random_gen \<Rightarrow> fl_error + int \<times> random_gen" where
  "next_uniform g =
     (if (of_int (rg_items g) :: u64) = 0 then Inl Error_exit
      else
        (let (r, g1) = next_uniform_long g
         in Inr (sint (ucast (r mod of_int (rg_items g) + of_int (rg_start g)) :: u32), g1)))"

fun draws :: "nat \<Rightarrow> random_gen \<Rightarrow> fl_error + int list \<times> random_gen" where
  "draws 0 g = Inr ([], g)"
| "draws (Suc n) g =
     (case next_uniform g of
        Inl e \<Rightarrow> Inl e
      | Inr (x, g) \<Rightarrow> (case draws n g of Inl e \<Rightarrow> Inl e | Inr (xs, g) \<Rightarrow> Inr (x # xs, g)))"

section \<open>The state of the generator\<close>

lemma seed_mask_eq: "seed_mask = mask 48"
  by (simp add: seed_mask_def mask_eq_exp_minus_1)

lemma and_seed_mask: "x AND seed_mask = take_bit 48 x"
  by (simp add: seed_mask_eq take_bit_eq_mask)

lemma uint_and_seed_mask: "uint (x AND seed_mask) = uint x mod 2 ^ 48"
  by (simp only: and_seed_mask unsigned_take_bit_eq take_bit_int_def)

lemma mod_64_48: "(k mod 2 ^ 64) mod 2 ^ 48 = (k :: int) mod 2 ^ 48"
  by (rule mod_mod_cancel) simp

lemma uint_mult_mod_48: "uint (x * y :: u64) mod 2 ^ 48 = (uint x * uint y) mod 2 ^ 48"
  using mod_64_48 [of "uint x * uint y"] by (simp add: uint_word_ariths)

lemma uint_add_mod_48: "uint (x + y :: u64) mod 2 ^ 48 = (uint x + uint y) mod 2 ^ 48"
  using mod_64_48 [of "uint x + uint y"] by (simp add: uint_word_ariths)

text \<open>The state before a step, from the state after it: the multiplier is odd, so it has an inverse.\<close>

definition previous_seed :: "u64 \<Rightarrow> u64" where
  "previous_seed s = ((s + (0x1000000000000 - 0xB)) * 0xDFE05BCB1365) AND seed_mask"

lemma mod_inner: "((x mod m + c) * d) mod m = ((x + c) * d) mod (m :: int)"
  by (metis mod_add_left_eq mod_mult_left_eq)

lemma mod_absorb: "0 \<le> s \<Longrightarrow> s < m \<Longrightarrow> (s + m * k) mod m = (s :: int)"
  by simp

lemma inverse_step:
  fixes s :: int
  assumes "0 \<le> s" and "s < 2 ^ 48"
  shows "(((s * 0x5DEECE66D + 0xB) mod 2 ^ 48 + (0x1000000000000 - 0xB)) * 0xDFE05BCB1365) mod 2 ^ 48 = s"
proof -
  have e: "(s * 0x5DEECE66D + 0xB + (0x1000000000000 - 0xB)) * 0xDFE05BCB1365 =
      s + 2 ^ 48 * (s * 0x5225586e9 + 0xDFE05BCB1365)" by simp
  show ?thesis unfolding mod_inner e by (rule mod_absorb [OF assms])
qed

lemma uint_constants:
  "uint (0x5DEECE66D :: u64) = 0x5DEECE66D" "uint (0xB :: u64) = 0xB"
  "uint (0x1000000000000 - 0xB :: u64) = 0x1000000000000 - 0xB" "uint (0xDFE05BCB1365 :: u64) = 0xDFE05BCB1365"
  by simp_all

lemma uint_next_seed: "uint ((s * 0x5DEECE66D + 0xB) AND seed_mask) = (uint s * 0x5DEECE66D + 0xB) mod 2 ^ 48"
proof -
  have "uint ((s * 0x5DEECE66D + 0xB) AND seed_mask) = (uint (s * 0x5DEECE66D) mod 2 ^ 48 + 0xB) mod 2 ^ 48"
    by (simp only: uint_and_seed_mask uint_add_mod_48 uint_constants mod_add_left_eq)
  then show ?thesis by (simp only: uint_mult_mod_48 uint_constants mod_add_left_eq)
qed

lemma uint_previous_seed:
  "uint (previous_seed s) = ((uint s + (0x1000000000000 - 0xB)) * 0xDFE05BCB1365) mod 2 ^ 48"
proof -
  have "uint (previous_seed s) = (uint (s + (0x1000000000000 - 0xB)) mod 2 ^ 48 * 0xDFE05BCB1365) mod 2 ^ 48"
    by (simp only: previous_seed_def uint_and_seed_mask uint_mult_mod_48 uint_constants mod_mult_left_eq)
  then show ?thesis by (simp only: uint_add_mod_48 uint_constants mod_mult_left_eq)
qed

definition seed_ok :: "random_gen \<Rightarrow> bool" where
  "seed_ok g \<longleftrightarrow> rg_seed g AND seed_mask = rg_seed g"

lemma seed_ok_bounds: "seed_ok g \<Longrightarrow> 0 \<le> uint (rg_seed g) \<and> uint (rg_seed g) < 2 ^ 48"
  using uint_and_seed_mask [of "rg_seed g"] pos_mod_bound [of "2 ^ 48" "uint (rg_seed g)"]
  by (simp only: seed_ok_def) simp

lemma previous_seed_next:
  assumes "seed_ok g"
  shows "previous_seed (rg_seed (snd (random_next bits g))) = rg_seed g"
proof -
  have "uint (previous_seed ((rg_seed g * 0x5DEECE66D + 0xB) AND seed_mask)) = uint (rg_seed g)"
    unfolding uint_previous_seed uint_next_seed
    using seed_ok_bounds [OF assms] by (intro inverse_step) simp_all
  then have "previous_seed ((rg_seed g * 0x5DEECE66D + 0xB) AND seed_mask) = rg_seed g" by (simp only: word_uint_eq_iff)
  then show ?thesis by (simp add: random_next_def Let_def)
qed

lemma seed_ok_next: "seed_ok (snd (random_next bits g))"
  by (simp add: seed_ok_def random_next_def Let_def and.assoc)

lemma seed_ok_new: "seed_ok (random_new seed start end)"
  by (simp add: seed_ok_def random_new_def set_seed0_def and.assoc)

lemma random_next_items [simp]: "rg_items (snd (random_next bits g)) = rg_items g" "rg_start (snd (random_next bits g)) = rg_start g"
  by (simp_all add: random_next_def Let_def)

lemma next_uniform_long_state:
  "snd (next_uniform_long g) = snd (random_next 32 (snd (random_next 32 g)))"
  by (simp add: next_uniform_long_def split: prod.split)

section \<open>Uniform draws\<close>

lemma sint_small: "uint (w :: u32) < 2 ^ 31 \<Longrightarrow> sint w = uint w"
  by (simp add: sint_uint signed_take_bit_int_eq_self_iff) (rule order_trans [of _ 0], simp_all)

lemma uint_items: "0 < items \<Longrightarrow> items < 2 ^ 31 \<Longrightarrow> uint (of_int items :: u64) = items"
  by (simp add: uint_word_of_int_eq take_bit_int_eq_self)

lemma uniform_value:
  fixes r :: u64
  assumes "0 < items" and "items < 2 ^ 31"
  shows "sint (ucast (r mod of_int items) :: u32) = uint r mod items"
proof -
  note i = uint_items [OF assms]
  have m: "uint (r mod of_int items) = uint r mod items" by (simp only: uint_mod i)
  have b: "0 \<le> uint r mod items" "uint r mod items < 2 ^ 31"
    using assms(1) less_trans [OF pos_mod_bound [OF assms(1)] assms(2)] by simp_all
  have "uint (ucast (r mod of_int items) :: u32) = uint r mod items"
    using m b by (simp add: unsigned_ucast_eq take_bit_int_eq_self)
  then show ?thesis using b by (simp add: sint_small)
qed

lemma next_uniform_range:
  assumes "0 < rg_items g" and "rg_items g < 2 ^ 31" and "rg_start g = 0"
  shows "\<exists>x g1. next_uniform g = Inr (x, g1) \<and> 0 \<le> x \<and> x < rg_items g \<and> rg_items g1 = rg_items g \<and> rg_start g1 = 0"
proof -
  obtain r g1 where r: "next_uniform_long g = (r, g1)" by (cases "next_uniform_long g")
  have "g1 = snd (random_next 32 (snd (random_next 32 g)))" using next_uniform_long_state [of g] r by simp
  then have g: "rg_items g1 = rg_items g" "rg_start g1 = 0" using assms(3) by simp_all
  have "(of_int (rg_items g) :: u64) \<noteq> 0"
    using uint_items [OF assms(1,2)] assms(1) by auto
  then show ?thesis using r g assms uniform_value [OF assms(1,2), of r]
    by (simp add: next_uniform_def)
qed

lemma draws_range:
  "0 < rg_items g \<Longrightarrow> rg_items g < 2 ^ 31 \<Longrightarrow> rg_start g = 0 \<Longrightarrow>
   \<exists>xs g1. draws n g = Inr (xs, g1) \<and> length xs = n \<and> (\<forall>x \<in> set xs. 0 \<le> x \<and> x < rg_items g)"
proof (induction n arbitrary: g)
  case (Suc n)
  then obtain x g1 where x: "next_uniform g = Inr (x, g1)" "0 \<le> x" "x < rg_items g" "rg_items g1 = rg_items g" "rg_start g1 = 0"
    using next_uniform_range by blast
  from Suc.IH [of g1] Suc.prems x(4,5) obtain xs g2 where "draws n g1 = Inr (xs, g2)" "length xs = n"
    "\<forall>x \<in> set xs. 0 \<le> x \<and> x < rg_items g" by auto
  with x show ?case by auto
qed simp

text \<open>
  The generator never fails and stays in its range, but the range is not the one that was
  asked for. For a range with \<open>start \<le> end\<close> every draw lies between 0 and \<open>end - start\<close>: the
  range has the right size but always begins at 0. The states of the generator do not run
  together: a step can be undone, so different states have different successors.
\<close>

theorem uniform_draws_in_range:
  assumes "start \<le> end" and "end - start < 2 ^ 31 - 1"
  shows "(\<exists>xs g. draws n (random_new seed start end) = Inr (xs, g) \<and> length xs = n \<and>
            (\<forall>x \<in> set xs. 0 \<le> x \<and> x \<le> end - start)) \<and>
         seed_ok (random_new seed start end) \<and>
         (seed_ok g1 \<and> seed_ok g2 \<and> rg_seed (snd (random_next b g1)) = rg_seed (snd (random_next b g2)) \<longrightarrow>
            rg_seed g1 = rg_seed g2)"
proof -
  let ?g = "random_new seed start end"
  have i: "0 < rg_items ?g" "rg_items ?g < 2 ^ 31" "rg_start ?g = 0" "rg_items ?g = end - start + 1"
    using assms by (simp_all add: random_new_def)
  have "rg_seed g1 = rg_seed g2" if "seed_ok g1" "seed_ok g2" "rg_seed (snd (random_next b g1)) = rg_seed (snd (random_next b g2))"
    using previous_seed_next that by metis
  then show ?thesis using draws_range [OF i(1-3), of n] i(4) seed_ok_new by fastforce
qed

theorem uniform_draws_in_range_witness:
  "\<exists>xs g. draws 5 (random_new 42 10 19) = Inr (xs, g) \<and> length xs = 5 \<and> (\<forall>x \<in> set xs. 0 \<le> x \<and> x \<le> 9)"
  using uniform_draws_in_range [of 10 19 5 42] by simp

end
