(* ===== verification/Spec2Isabelle.thy ===== *)
theory Spec2Isabelle
  imports Fiss_Lock_Manager Fiss_Recovery Dpdk_Host Dpdk_Setup Par_Net Net_Frames Net_Switch_Manager
    Fifo_Cluster Switch_Bmv2 Switch_Driver Trace_Tatp Micro_Bench Timer_Log Stat_Counters Random_Gen
begin

text \<open>
  FissLock: a verification development.

  \<^bold>\<open>The program.\<close> FissLock is a reader-writer lock service for a rack of eight hosts and a
  programmable switch. The switch decides whether a lock is free and which host is its
  \<^emph>\<open>agent\<close>; the agent keeps the holders and the wait queue in its memory. Applications call
  the host library (src/lib/lock.cc), which keeps one metadata record for each lock and
  exchanges \<^emph>\<open>posts\<close> (src/lib/post.c, post.h) with the switch and the other hosts. Locks
  beyond the capacity of the switch are managed by a host chosen by the lock identifier,
  without the switch. A coordinator (src/rpc/main.cc) assigns lock identifiers and helps the
  hosts to repair their tables after a fault. A second network module (src/lib/bmv2) runs
  the same library against the software switch BMv2, for Java programs. The repository also
  contains two baselines with the same interface: ParLock (src/baseline/ParLock), a lock
  manager partitioned over the hosts, and NetLock (src/baseline/NetLock), a switch with a
  lock server as backup; the switch programs for the Tofino chip (src/switch/p4) and for BMv2
  (src/switch/p4_bmv2), with the control plane of the former (src/switch/control); and the
  generators of the lock traces of the experiments (src/experiments/trace_gen), the benchmark
  that executes them (src/tests/txnbench.cc), a micro benchmark (src/tests/microbench.cc), the
  statistics module that measures them (src/utils/statistics.cc) and the parser of its logs (src/experiments/results/timer_parser).

  \<^bold>\<open>The theories.\<close> Every theory models the files it names; definitions keep the names of
  the source, prefixed with \<open>par_\<close>, \<open>nl_\<close> or \<open>bmv2_\<close> where the parts of the repository use
  one name for different things.

  \<^item> \<open>Fiss_Prelude\<close>: machine integers as words, the errors that stand for a failed assertion,
    the \<open>ERROR\<close> macro, an invalid pointer or an access out of bounds, and lemmas on lists,
    maps and words that the components share.
  \<^item> \<open>Fiss_Types\<close> (src/include/types.h, src/lib/lock.h, src/lib/post.h): identifiers, holders
    packed into 64 bits, wait queue entries with their 30-bit task field, post headers, byte
    order. \<open>Fiss_Post\<close> (src/lib/post.c): the posts and their sizes.
  \<^item> \<open>Fiss_Lock_Meta\<close> (src/lib/lock.cc, lines 40 to 380): the record \<open>innet_lock\<close>, the
    utility functions, and the handlers of agent and manager.
  \<^item> \<open>Fiss_Lock_Packet\<close> (lines 384 to 722): \<open>lock_packet_process\<close>, one definition for each case
    of its switch. Theorems: what the switch pushes back is restored exactly, a transfer
    delivers the whole wait queue, a release that overtakes its acquire does no harm, and
    the well-formedness of agents is kept.
  \<^item> \<open>Fiss_Lock_Api\<close> (lines 726 to 1126): the lock tables of a host as maps into a store of
    records, registration, acquire, wait, poll and release with all their branches.
    Theorems: a local release equals the release packet, from a request to its grant, an
    invariant of the host over all calls and packets.
  \<^item> \<open>Fiss_Recovery\<close> (src/rpc/main.cc, src/lib/fault.cc, lines 1128 to 1251 of lock.cc): the
    coordinator with its seven calls and sequences of them, and the phases of the integrity
    check. Theorems: unique identifiers, at most one restored agent, which waiters go on.
  \<^item> \<open>Frame_Bytes\<close>: fields in the bytes of a frame. \<open>Dpdk_Net\<close> (src/lib/net.cc,
    src/utils/dpdk.c): packet buffers with their bytes, the headers of a frame, sending singly
    and in batches, the receive loop. The locale \<open>receive_turn\<close> is the contract of one turn of
    such a loop, which the network modules of FissLock, ParLock and NetLock meet. Theorems:
    every buffer is given to the NIC or freed exactly once, and frames have the right
    lengths. \<open>Dpdk_Host\<close>: posts as bytes and the lock library on received buffers. Theorems: a
    post arrives as it was sent, polling refines the host model, and \<open>lock_digest_wq\<close> leaks
    buffers. \<open>Dpdk_Setup\<close> (src/utils/dpdk.c, conf.c): configuration from the environment, the
    queues of the cores, flow rules. Theorem: when a flow reaches the cores it is meant for.
  \<^item> \<open>Bmv2_Net\<close> and \<open>Bmv2_Host\<close> (src/lib/bmv2, src/lib/net.cc): frames as byte lists with
    checksums, captures, the two ways in which the network modules treat a packet that a
    handler returns, and the interface for Java with its timeout.
  \<^item> \<open>Switch_Control\<close> (src/switch/control): the table of machines, the forwarding entries and
    the multicast groups. Theorem: the group identifiers are distinct exactly for up to 62
    machines. \<open>Switch_Driver\<close>: the calls of the vendor runtime that install them, with any
    answers, and the main program. Theorems: the calls ask for exactly these entries and
    groups or stop at a failed assertion; how long paths may be for the start to succeed.
  \<^item> \<open>Switch_Pipe\<close> (src/switch/p4): the match-action tables with their actions on registers and
    packets, the ingress and egress pipelines over the sliced register arrays, the
    replication to hosts. Theorem: for every packet the arrays behave as one record of
    registers, a \<open>slot\<close>, for each lock.
  \<^item> \<open>Switch_Bmv2\<close> (src/switch/p4_bmv2): the BMv2 program. Theorem: it updates the registers
    as the Tofino program does and forwards unicast packets to the same host.
  \<^item> \<open>Fiss_Cluster\<close>: the switch, the hosts and the packets in flight between them, for one
    lock. A run is a list of events: a task acquires or releases, the switch processes any
    packet sent to it, a host receives any packet on its way to it. Theorems on runs in
    which tasks ask for exclusive mode and release what they were granted: no operation
    fails, at most one task of the cluster holds the lock, the lock is not lost, and the
    cluster refines an atomic lock. The invariant \<open>excl_inv\<close> says that the right to hand out
    the lock is in one place: free at the switch, with the agent, or in one packet.
  \<^item> \<open>Fifo_Protocol\<close>, \<open>Fifo_Cluster\<close>: the same cluster with readers and writers, over links that
    keep the order of packets. \<open>Fifo_Protocol\<close> is an abstract protocol with messages, unbounded
    counters and a status for each task, and its invariant \<open>proto_inv\<close>: every task is in one
    place, the agent will know every reader once it has received what is on its way to it,
    and the counters of switch and agent differ by the notifications outstanding.
    \<open>Fifo_Cluster\<close> proves that the code takes the steps of the protocol. Theorems: no operation
    fails, a writer is the only holder, and the cluster refines a reader-writer lock, as
    long as fewer than 256 notifications are outstanding at a host that gave the lock up and
    wait queues have at most 1024 entries.
  \<^item> \<open>Trace_Tpcc\<close>, \<open>Trace_Tatp\<close> (src/experiments/trace_gen): the generators, with random numbers
    taken from a list. Theorems: TPC-C transactions ask for no lock twice and only for locks
    of the switch, local locks are private to a machine, the search for an unused item ends;
    the rows of the TATP tables get distinct locks, and no missing subscriber is read.
  \<^item> \<open>Number_Text\<close>, \<open>Hash_Map\<close>: numbers as \<open>printf\<close> and \<open>sscanf\<close> treat them, and the operations
    of hash maps, for the theories that follow and the TATP generator.
  \<^item> \<open>Txn_Bench\<close> (src/tests/txnbench.cc): reading a trace file and executing a transaction.
    Theorems: the text that the TPC-C generator prints is read as the transactions it
    generated; a transaction is two-phase and always ends. \<open>Micro_Bench\<close>
    (src/tests/microbench.cc): the trace of the micro benchmark and its coroutines. Theorem:
    together they execute every line of the trace three times, on one core.
  \<^item> \<open>Random_Gen\<close> (src/utils/random.h): the generator of uniform integers. Theorem: draws have a
    range of the right size, but it always begins at 0.
  \<^item> \<open>Statistics\<close> (src/utils/statistics.cc): time stamps, the log, counters. \<open>Timer_Log\<close>
    (src/experiments/results/timer_parser): the log as text and the parser. Theorems: lines
    are read as they were printed; from recorded time stamps to the output of the parser,
    every request yields a grant and a wait latency that add up to its whole latency.
    \<open>Stat_Counters\<close>: all counters with their report, throughput records, profilers. Theorem:
    the report has every counter once, with the total of all that was counted, modulo \<open>2^32\<close>.
  \<^item> \<open>Lock_Manager_Spec\<close>: the abstract reader-writer lock manager. A ghost state records the
    outstanding requests and the owners; the locale \<open>lock_manager\<close> has the laws of a manager
    and derives, for every interleaving, mutual exclusion, fresh grants and that every
    request is granted as long as owners release. \<open>abortable_lock_manager\<close> extends it by
    clients that give up.
  \<^item> \<open>Fiss_Lock_Manager\<close>, \<open>Par_Manager\<close> and \<open>Net_Manager\<close>: the three managers on hosts
    are instances, on the definitions that model their code.
  \<^item> \<open>Par_Queue\<close>, \<open>Par_Lock\<close>, \<open>Par_Host\<close> (src/baseline/ParLock/lib): the queue with its erasing
    loops, the handlers of server and local client in both scheduling builds, the wait
    table, the placement of locks and the interface.
    \<open>Par_Net\<close>: its network module on the bytes of frames. Theorem: messages arrive as sent.
  \<^item> \<open>Net_Queue\<close>, \<open>Net_Client\<close> (src/baseline/NetLock): frames, the server as primary and as
    secondary backup, its receive loop, and the client. \<open>Net_Frames\<close>: the receive loop of the
    client, the broadcast, and the file of queue lengths.
  \<^item> \<open>Net_Switch\<close> (src/baseline/NetLock/switch): the switch program of NetLock, with the ring of
    each lock in shared register arrays and the recirculation of releases. Lemmas: the ring is
    a queue to which acquires append, and a release ends and grants what is next.
    \<open>Net_Switch_Manager\<close>: the switch is a lock manager while requests fit into the ring.

  \<^bold>\<open>Modelling choices.\<close> A handler runs under the mutex of its lock, so it is one atomic step;
  interleavings are sequences of steps (\<open>mgr_reach\<close>, \<open>host_step\<close>, \<open>rpc_run\<close>, \<open>cl_run\<close>). Maps and sets
  of the C++ library are maps and sets where the order of iteration does not matter, lists
  where it does. \<open>emplace\<close> and \<open>insert\<close> keep an existing entry (\<open>map_insert\<close>). Undefined
  behaviour that the code can reach is an error value. Compile-time switches are fields of
  the records \<open>build\<close> and \<open>par_build\<close>; the default configuration is \<open>default_build\<close> and
  \<open>par_default\<close>. All functions are total: loops over vectors have termination proofs by the
  elements left, the folding of checksums by the decreasing sum; the recirculation of the NetLock
  switch is partial and proved to end; loops that wait for other
  parties take the list of what they see at each turn, so that no fuel is needed.

  \<^bold>\<open>Parameters.\<close> The packet preprocessor and modifier of the application, the answer of the
  coordinator to \<open>lock_init\<close>, the addresses of wait flags in \<open>lock_acquire\<close>, the packets that
  the capture library reads, random numbers, readings of the clock, the answers of
  DPDK to sending, receiving, allocating and configuring, and in \<open>Txn_Bench\<close> the answers of the
  lock library are arguments of the definitions.

  \<^bold>\<open>Behaviour that differs from the intention\<close> is stated by theorems as well: a release by a
  waiter makes the host manager grant a second writer; a stale flag is reported as a grant;
  the blocking acquire does not block; ParLock never clears a flag, strands a reader in its
  first-in-first-out build and directs some locks to a host without a queue for them; NetLock
  takes the release of an unknown request for the owner's; the BMv2 module loses packets;
  the recovery makes a second agent, skips waiters and does not wait for the other hosts.
  For the cluster, concrete runs show what the exclusive workload leaves out: a waiter that
  gives up, or a reader whose release overtakes its notification, can break exclusion or
  block the lock, and a request can be left behind at a former agent; 256 unheard
  notifications make the counter of the switch wrap, so that it accepts a free it should
  reject; the BMv2 build hands a lock to a local writer without telling the switch; the BMv2
  switch returns accepted free packets to their sender. Taking over a transferred queue
  leaks the packet buffers of exclusive waiters. The TATP generator computes some locks outside the
  range reserved for them and its insert transaction inserts nothing. A request that was not
  granted when a benchmark stopped makes the parser of its log fail.

  \<^bold>\<open>Not modelled.\<close> Parsers, deparsers and checksums of the switch programs and their
  forwarding of packets that are not lock packets; the warm-up packets of the NetLock switch and
  passes of its releases between which other packets come; the vendor runtime of the control plane and DPDK themselves; marshalling and transport of the calls to
  the coordinator, which belong to a library outside the repository; the reports of throughput
  and of the profilers and the Zipf distribution, which only compute floating point numbers;
  the Redis application, which passes commands to a server through a library; the Java
  binding.
\<close>

end
